(* ===== verification/Prelude.thy ===== *)
theory Prelude
  imports Complex_Main "HOL-Library.List_Lexorder" "HOL-Library.Char_ord" "HOL-Library.Multiset"
begin

text \<open>
  The prelude of the development: the error values of the Go code as a sum type, the Go string
  primitives the model uses (strings are lists of bytes, as in Go), decimal rendering and
  parsing (fmt \<open>%d\<close>, strconv), byte-wise string order (Go's \<open><\<close> on strings is the
  lexicographic order of the bytes, which \<open>List_Lexorder\<close> and \<open>Char_ord\<close> provide), and the
  generic lemmas shared by the component theories.
\<close>

named_theorems go_str \<open>laws of the Go string primitives\<close>
named_theorems go_result \<open>inversion rules of results\<close>
named_theorems row_simps \<open>laws of the table operations\<close>

section \<open>Errors as values\<close>

text \<open>
  The sentinel errors of \<open>internal/model/errors.go\<close> that the modelled code returns. A wrapped
  error (\<open>fmt.Errorf ... %w\<close>) is its sentinel; the message text is not modelled.
  \<open>ErrNumberHeldByPendingCreate\<close> is the sync apply's own sentinel
  (\<open>sync_apply_pending_create.go\<close>). \<open>ErrStorage\<close> stands for an error of the database driver (here: a violated constraint) or a
  decoder's, and
  \<open>Diverges\<close> for a recursion of the code that would not end: the fuel of the model is chosen so
  that it is reached only then, and the theorems show that it is not reached.
\<close>

datatype go_error =
    ErrNotFound
  | ErrAlreadyExists
  | ErrInvalidInput
  | ErrInvalidTransition
  | ErrCycleDetected
  | ErrConflict
  | ErrAlreadyClaimed
  | ErrNodeBlocked
  | ErrStillDeferred
  | ErrAgentStillActive
  | ErrInvalidConfigKey
  | ErrSyncQueueFull
  | ErrNumberHeldByPendingCreate
  | ErrStorage
  | Diverges

type_synonym 'a result = "go_error + 'a"

fun bind_result :: "('e + 'a) \<Rightarrow> ('a \<Rightarrow> 'e + 'b) \<Rightarrow> 'e + 'b" where
  "bind_result (Inl e) f = Inl e"
| "bind_result (Inr x) f = f x"

definition guard_result :: "bool \<Rightarrow> 'e \<Rightarrow> 'e + unit" where
  "guard_result ok e = (if ok then Inr () else Inl e)"

lemma bind_result_Inr [go_result]:
  "bind_result r f = Inr y \<longleftrightarrow> (\<exists>x. r = Inr x \<and> f x = Inr y)"
  by (cases r) auto

lemma bind_result_Inl [go_result]:
  "bind_result r f = Inl e \<longleftrightarrow> r = Inl e \<or> (\<exists>x. r = Inr x \<and> f x = Inl e)"
  by (cases r) auto

lemma guard_result_Inr [go_result]: "guard_result ok e = Inr u \<longleftrightarrow> ok"
  by (simp add: guard_result_def)

lemma guard_result_Inl [go_result]: "guard_result ok e = Inl e' \<longleftrightarrow> \<not> ok \<and> e' = e"
  by (auto simp add: guard_result_def)

lemma guard_result_cases [simp]:
  "guard_result True e = Inr ()" "guard_result False e = Inl e"
  by (simp_all add: guard_result_def)

text \<open>A loop over a slice that stops at the first error.\<close>

fun fold_result :: "('x \<Rightarrow> 's \<Rightarrow> 'e + 's) \<Rightarrow> 'x list \<Rightarrow> 's \<Rightarrow> 'e + 's" where
  "fold_result f [] s = Inr s"
| "fold_result f (x # xs) s = bind_result (f x s) (fold_result f xs)"

lemma fold_result_append:
  "fold_result f (xs @ ys) s = bind_result (fold_result f xs s) (fold_result f ys)"
proof (induction xs arbitrary: s)
  case (Cons x xs)
  then show ?case by (cases "f x s") auto
qed simp

lemma fold_result_invariant:
  assumes "\<And>x s s'. x \<in> set xs \<Longrightarrow> P s \<Longrightarrow> f x s = Inr s' \<Longrightarrow> P s'"
    and "P s" and "fold_result f xs s = Inr s'"
  shows "P s'"
  using assms
proof (induction xs arbitrary: s)
  case (Cons x xs)
  then show ?case by (auto simp: bind_result_Inr)
qed simp

section \<open>Bytes and byte classes\<close>

definition byte :: "char \<Rightarrow> nat" where
  "byte c = of_char c"

definition is_digit :: "char \<Rightarrow> bool" where
  "is_digit c \<longleftrightarrow> 48 \<le> byte c \<and> byte c \<le> 57"

definition is_upper :: "char \<Rightarrow> bool" where
  "is_upper c \<longleftrightarrow> 65 \<le> byte c \<and> byte c \<le> 90"

definition is_lower :: "char \<Rightarrow> bool" where
  "is_lower c \<longleftrightarrow> 97 \<le> byte c \<and> byte c \<le> 122"

definition digit_char :: "nat \<Rightarrow> char" where
  "digit_char d = char_of (48 + d)"

lemma byte_digit_char: "d < 10 \<Longrightarrow> byte (digit_char d) = 48 + d"
  by (simp add: byte_def digit_char_def)

lemma is_digit_digit_char: "d < 10 \<Longrightarrow> is_digit (digit_char d)"
  by (simp add: is_digit_def byte_digit_char)

lemma byte_inject: "byte a = byte b \<longleftrightarrow> a = b"
  by (simp add: byte_def)

section \<open>Decimal rendering and parsing\<close>

text \<open>\<open>fmt.Sprintf("%d", n)\<close> for a non-negative number, and the inverse of strconv.\<close>

fun dec_nat :: "nat \<Rightarrow> string" where
  "dec_nat n = (if n < 10 then [digit_char n] else dec_nat (n div 10) @ [digit_char (n mod 10)])"

declare dec_nat.simps [simp del]

definition dec_int :: "int \<Rightarrow> string" where
  "dec_int i = (if i < 0 then CHR ''-'' # dec_nat (nat (- i)) else dec_nat (nat i))"

definition digit_val :: "char \<Rightarrow> nat" where
  "digit_val c = byte c - 48"

definition digits_val :: "string \<Rightarrow> nat" where
  "digits_val s = foldl (\<lambda>v c. 10 * v + digit_val c) 0 s"

definition all_digits :: "string \<Rightarrow> bool" where
  "all_digits s \<longleftrightarrow> s \<noteq> [] \<and> list_all is_digit s"

text \<open>
  \<open>strconv.ParseInt(s, 10, 64)\<close> (and \<open>strconv.Atoi\<close> on a 64-bit platform): an optional sign,
  decimal digits, in the range of int64.
\<close>

definition parse_int64 :: "string \<Rightarrow> int option" where
  "parse_int64 s =
     (let (neg, ds) = (case s of [] \<Rightarrow> (False, [])
                       | c # cs \<Rightarrow> if c = CHR ''-'' then (True, cs)
                                  else if c = CHR ''+'' then (False, cs) else (False, s))
      in if \<not> all_digits ds then None
         else let v = (if neg then - int (digits_val ds) else int (digits_val ds))
              in if - (2 ^ 63) \<le> v \<and> v < 2 ^ 63 then Some v else None)"

lemma digits_val_append:
  "digits_val (s @ [c]) = 10 * digits_val s + digit_val c"
  by (simp add: digits_val_def)

lemma dec_nat_digits: "all_digits (dec_nat n)"
proof (induction n rule: dec_nat.induct)
  case (1 n)
  show ?case
  proof (cases "n < 10")
    case True
    then show ?thesis by (simp add: dec_nat.simps[of n] all_digits_def is_digit_digit_char)
  next
    case False
    with 1 show ?thesis
      by (simp add: dec_nat.simps[of n] all_digits_def is_digit_digit_char)
  qed
qed

lemma digits_val_dec_nat: "digits_val (dec_nat n) = n"
proof (induction n rule: dec_nat.induct)
  case (1 n)
  show ?case
  proof (cases "n < 10")
    case True
    then show ?thesis
      by (simp add: dec_nat.simps[of n] digits_val_def digit_val_def byte_digit_char)
  next
    case False
    with 1 show ?thesis
      by (simp add: dec_nat.simps[of n] digits_val_append digit_val_def byte_digit_char)
  qed
qed

lemma dec_nat_nonempty [simp]: "dec_nat n \<noteq> []"
  using dec_nat_digits[of n] by (simp add: all_digits_def)

lemma dec_nat_inject: "dec_nat m = dec_nat n \<longleftrightarrow> m = n"
  by (metis digits_val_dec_nat)

lemma all_digits_mem: "all_digits s \<Longrightarrow> c \<in> set s \<Longrightarrow> is_digit c"
  by (auto simp: all_digits_def list_all_iff)

lemma dec_nat_no_byte: "\<not> is_digit c \<Longrightarrow> c \<notin> set (dec_nat n)"
  using all_digits_mem[OF dec_nat_digits] by auto

lemma not_digit_marks [simp]:
  "\<not> is_digit CHR ''.''" "\<not> is_digit CHR ''-''" "\<not> is_digit CHR ''+''" "\<not> is_digit CHR ''u''"
  by (simp_all add: is_digit_def byte_def)

theorem parse_int64_dec_nat:
  assumes "int n < 2 ^ 63"
  shows "parse_int64 (dec_nat n) = Some (int n)"
proof -
  obtain c cs where s: "dec_nat n = c # cs" by (cases "dec_nat n") auto
  have "is_digit c" using dec_nat_digits[of n] s by (simp add: all_digits_def)
  then have "c \<noteq> CHR ''-''" "c \<noteq> CHR ''+''" by auto
  then show ?thesis
    using assms dec_nat_digits[of n] s digits_val_dec_nat[of n]
    by (simp add: parse_int64_def)
qed

section \<open>Go string functions\<close>

text \<open>\<open>strings.Cut(s, c)\<close> for a one-byte separator: before, after, found.\<close>

fun cut :: "char \<Rightarrow> string \<Rightarrow> string \<times> string \<times> bool" where
  "cut c [] = ([], [], False)"
| "cut c (x # xs) = (if x = c then ([], xs, True)
                     else (let (b, a, f) = cut c xs in (x # b, a, f)))"

text \<open>\<open>strings.Index\<close> and \<open>strings.LastIndex\<close> of one byte; \<open>None\<close> is Go's -1.\<close>

fun index_of :: "char \<Rightarrow> string \<Rightarrow> nat option" where
  "index_of c [] = None"
| "index_of c (x # xs) = (if x = c then Some 0 else map_option Suc (index_of c xs))"

fun last_index :: "char \<Rightarrow> string \<Rightarrow> nat option" where
  "last_index c [] = None"
| "last_index c (x # xs) = (case last_index c xs of Some n \<Rightarrow> Some (Suc n)
                            | None \<Rightarrow> if x = c then Some 0 else None)"

text \<open>\<open>strings.Split(s, c)\<close> for a one-byte separator, and \<open>strings.Join\<close>.\<close>

fun split_on :: "char \<Rightarrow> string \<Rightarrow> string list" where
  "split_on c [] = [[]]"
| "split_on c (x # xs) =
     (if x = c then [] # split_on c xs
      else (case split_on c xs of [] \<Rightarrow> [[x]] | p # ps \<Rightarrow> (x # p) # ps))"

fun join_with :: "char \<Rightarrow> string list \<Rightarrow> string" where
  "join_with c [] = []"
| "join_with c [p] = p"
| "join_with c (p # q # ps) = p @ c # join_with c (q # ps)"

definition count_byte :: "char \<Rightarrow> string \<Rightarrow> nat" where
  "count_byte c s = length (filter (\<lambda>x. x = c) s)"

fun has_prefix :: "string \<Rightarrow> string \<Rightarrow> bool" where
  "has_prefix s [] = True"
| "has_prefix [] (p # ps) = False"
| "has_prefix (x # xs) (p # ps) = (x = p \<and> has_prefix xs ps)"

lemma cut_append [go_str]: "c \<notin> set a \<Longrightarrow> cut c (a @ c # b) = (a, b, True)"
  by (induction a) auto

lemma cut_absent [go_str]: "c \<notin> set a \<Longrightarrow> cut c a = (a, [], False)"
  by (induction a) auto

lemma cut_found: "cut c s = (b, a, True) \<Longrightarrow> s = b @ c # a \<and> c \<notin> set b"
  by (induction s arbitrary: b a) (auto split: if_splits prod.splits)

lemma cut_not_found: "cut c s = (b, a, False) \<Longrightarrow> b = s \<and> a = [] \<and> c \<notin> set s"
  by (induction s arbitrary: b a) (auto split: if_splits prod.splits)

lemma last_index_None [go_str]: "last_index c s = None \<longleftrightarrow> c \<notin> set s"
  by (induction s) (auto split: option.splits)

lemma last_index_append [go_str]: "c \<notin> set b \<Longrightarrow> last_index c (a @ c # b) = Some (length a)"
proof (induction a)
  case Nil
  then show ?case by (simp add: last_index_None[THEN iffD2])
qed simp

lemma last_index_Some:
  "last_index c s = Some n \<Longrightarrow> n < length s \<and> s ! n = c \<and> c \<notin> set (drop (Suc n) s)"
proof (induction s arbitrary: n)
  case (Cons x xs)
  show ?case
  proof (cases "last_index c xs")
    case None
    with Cons.prems show ?thesis by (auto simp: last_index_None split: if_splits)
  next
    case (Some m)
    with Cons show ?thesis by auto
  qed
qed simp

lemma split_on_nonempty [simp]: "split_on c s \<noteq> []"
  by (induction s) (auto split: list.splits)

lemma split_on_absent [go_str]: "c \<notin> set s \<Longrightarrow> split_on c s = [s]"
  by (induction s) auto

lemma split_on_append [go_str]: "c \<notin> set p \<Longrightarrow> split_on c (p @ c # s) = p # split_on c s"
  by (induction p) auto

lemma split_join:
  "ps \<noteq> [] \<Longrightarrow> \<forall>p \<in> set ps. c \<notin> set p \<Longrightarrow> split_on c (join_with c ps) = ps"
  by (induction c ps rule: join_with.induct) (auto simp: go_str)

lemma join_split: "join_with c (split_on c s) = s"
proof (induction s)
  case (Cons x xs)
  then show ?case
    by (cases "split_on c xs") (auto simp: join_with.simps split: list.splits,
        (metis join_with.simps(2,3) append_Cons neq_Nil_conv)+)
qed simp

lemma has_prefix_iff: "has_prefix s p \<longleftrightarrow> (\<exists>t. s = p @ t)"
  by (induction s p rule: has_prefix.induct) auto

lemma count_byte_simps [go_str]:
  "count_byte c [] = 0"
  "count_byte c (x # xs) = (if x = c then Suc (count_byte c xs) else count_byte c xs)"
  "count_byte c (xs @ ys) = count_byte c xs + count_byte c ys"
  by (simp_all add: count_byte_def)

lemma count_byte_absent [go_str]: "c \<notin> set s \<Longrightarrow> count_byte c s = 0"
  by (induction s) (auto simp: count_byte_simps)

section \<open>Machine integers\<close>

text \<open>Go's int64 arithmetic wraps; \<open>wrap64\<close> reads a mathematical result back as an int64.\<close>

definition wrap64 :: "int \<Rightarrow> int" where
  "wrap64 x = (x + 2 ^ 63) mod 2 ^ 64 - 2 ^ 63"

lemma wrap64_id: "- (2 ^ 63) \<le> x \<Longrightarrow> x < 2 ^ 63 \<Longrightarrow> wrap64 x = x"
  by (simp add: wrap64_def)

lemma wrap64_range: "- (2 ^ 63) \<le> wrap64 x \<and> wrap64 x < 2 ^ 63"
  by (simp add: wrap64_def)

section \<open>Sorting by a comparison function\<close>

text \<open>
  \<open>sort.Slice\<close> with a less function. Go does not say where equal elements go; the model's
  insertion sort is one choice, and \<open>strict_total\<close> below shows that there is no other when the
  less function is a strict total order and the elements are distinct. The same interface, a
  strict total order given by a comparison function, is what a last-writer-wins rule rests on:
  \<open>keep_best\<close> folds a rule over the writes in their order of arrival.
\<close>

fun insort_by :: "('a \<Rightarrow> 'a \<Rightarrow> bool) \<Rightarrow> 'a \<Rightarrow> 'a list \<Rightarrow> 'a list" where
  "insort_by lt x [] = [x]"
| "insort_by lt x (y # ys) = (if lt x y then x # y # ys else y # insort_by lt x ys)"

definition sort_by :: "('a \<Rightarrow> 'a \<Rightarrow> bool) \<Rightarrow> 'a list \<Rightarrow> 'a list" where
  "sort_by lt xs = foldr (insort_by lt) xs []"

definition keep_best :: "('a \<Rightarrow> 'a \<Rightarrow> bool) \<Rightarrow> 'a list \<Rightarrow> 'a option" where
  "keep_best beats xs =
     foldl (\<lambda>w x. case w of None \<Rightarrow> Some x | Some y \<Rightarrow> if beats x y then Some x else w) None xs"

lemma mset_insort_by [simp]: "mset (insort_by lt x xs) = add_mset x (mset xs)"
  by (induction xs) auto

lemma mset_sort_by [simp]: "mset (sort_by lt xs) = mset xs"
  by (induction xs) (auto simp: sort_by_def)

lemma set_sort_by [simp]: "set (sort_by lt xs) = set xs"
  by (metis mset_sort_by set_mset_mset)

lemma length_sort_by [simp]: "length (sort_by lt xs) = length xs"
  by (metis mset_sort_by size_mset)

lemma distinct_sort_by [simp]: "distinct (sort_by lt xs) = distinct xs"
  by (metis mset_sort_by mset_eq_imp_distinct_iff)

locale strict_total =
  fixes lt :: "'a \<Rightarrow> 'a \<Rightarrow> bool"
  assumes irrefl: "\<not> lt a a"
    and trans: "lt a b \<Longrightarrow> lt b c \<Longrightarrow> lt a c"
    and total: "a \<noteq> b \<Longrightarrow> lt a b \<or> lt b a"
begin

lemma asym: "lt a b \<Longrightarrow> \<not> lt b a"
  using irrefl trans by blast

lemma sorted_insort:
  "sorted_wrt lt xs \<Longrightarrow> x \<notin> set xs \<Longrightarrow> sorted_wrt lt (insort_by lt x xs)"
proof (induction xs)
  case (Cons y ys)
  have "set (insort_by lt x ys) = insert x (set ys)"
    by (metis mset_insort_by set_mset_add_mset_insert set_mset_mset)
  with Cons show ?case using trans total[of x y] by auto
qed simp

lemma sorted_sort: "distinct xs \<Longrightarrow> sorted_wrt lt (sort_by lt xs)"
proof (induction xs)
  case (Cons x xs)
  then have "x \<notin> set (foldr (insort_by lt) xs [])"
    by (metis distinct.simps(2) set_sort_by sort_by_def)
  with Cons show ?case by (auto simp: sort_by_def intro: sorted_insort)
qed (simp add: sort_by_def)

lemma sorted_unique:
  "sorted_wrt lt xs \<Longrightarrow> sorted_wrt lt ys \<Longrightarrow> set xs = set ys \<Longrightarrow> xs = ys"
proof (induction xs arbitrary: ys)
  case (Cons x xs)
  then obtain y ys' where ys: "ys = y # ys'" by (cases ys) auto
  have "x = y"
  proof (rule ccontr)
    assume "x \<noteq> y"
    with Cons.prems ys have "x \<in> set ys'" "y \<in> set xs" by (auto simp: set_eq_iff)
    with Cons.prems ys asym show False by auto
  qed
  moreover have "x \<notin> set xs" "y \<notin> set ys'" using Cons.prems(1,2) ys irrefl by auto
  ultimately show ?case using Cons ys by (metis insert_ident list.simps(15) sorted_wrt.simps(2))
qed simp

text \<open>The sorted slice does not depend on the order of the input (or on the algorithm).\<close>

lemma sort_order_independent:
  "distinct xs \<Longrightarrow> distinct ys \<Longrightarrow> set xs = set ys \<Longrightarrow> sort_by lt xs = sort_by lt ys"
  by (intro sorted_unique) (auto intro: sorted_sort)

lemma keep_best_snoc:
  "keep_best lt (xs @ [x]) = (case keep_best lt xs of None \<Rightarrow> Some x
     | Some y \<Rightarrow> if lt x y then Some x else Some y)"
  by (auto simp: keep_best_def split: option.splits)

text \<open>The rule keeps the one write that beats every other, in whatever order they arrive.\<close>

lemma keep_best_wins:
  "xs \<noteq> [] \<Longrightarrow> \<exists>w \<in> set xs. keep_best lt xs = Some w \<and> (\<forall>x \<in> set xs. x = w \<or> lt w x)"
proof (induction xs rule: rev_induct)
  case (snoc x xs)
  show ?case
  proof (cases "xs = []")
    case True
    then show ?thesis by (simp add: keep_best_def)
  next
    case False
    then obtain w where w: "w \<in> set xs" "keep_best lt xs = Some w"
        "\<forall>z \<in> set xs. z = w \<or> lt w z"
      using snoc.IH by blast
    show ?thesis
    proof (cases "lt x w")
      case True
      then show ?thesis using w trans by (auto simp: keep_best_snoc)
    next
      case False
      then show ?thesis using w total[of x w] by (auto simp: keep_best_snoc)
    qed
  qed
qed simp

lemma keep_best_converges:
  assumes "set xs = set ys"
  shows "keep_best lt xs = keep_best lt ys"
proof (cases "xs = []")
  case True
  with assms show ?thesis by simp
next
  case False
  then have ne: "xs \<noteq> []" "ys \<noteq> []" using assms by auto
  obtain w where w: "w \<in> set xs" "keep_best lt xs = Some w" "\<forall>x \<in> set xs. x = w \<or> lt w x"
    using keep_best_wins[OF ne(1)] by blast
  obtain v where v: "v \<in> set ys" "keep_best lt ys = Some v" "\<forall>x \<in> set ys. x = v \<or> lt v x"
    using keep_best_wins[OF ne(2)] by blast
  show ?thesis using w v assms asym by metis
qed

end

section \<open>Joins\<close>

text \<open>
  A join: what a replica keeps of two values when it merges them. Whatever the order of the
  merges, and however often a value is merged again, the replicas agree.
\<close>

locale idem_join =
  fixes join :: "'a \<Rightarrow> 'a \<Rightarrow> 'a"
  assumes join_assoc: "join (join x y) z = join x (join y z)"
    and join_comm: "join x y = join y x"
    and join_idem: "join x x = x"
begin

lemma join_left_comm: "join x (join y z) = join y (join x z)"
  by (metis join_assoc join_comm)

lemma foldl_absorbs: "x \<in> set xs \<Longrightarrow> join (foldl join a xs) x = foldl join a xs"
proof (induction xs rule: rev_induct)
  case (snoc y ys)
  then show ?case
    by (cases "x = y") (simp_all add: join_assoc join_idem, metis join_assoc join_comm)
qed simp

lemma foldl_absorbs_all: "set ys \<subseteq> set xs \<Longrightarrow> foldl join (foldl join a xs) ys = foldl join a xs"
  by (induction ys) (auto simp: foldl_absorbs)

lemma foldl_join_out: "foldl join (join a b) xs = join (foldl join a xs) b"
proof (induction xs arbitrary: a)
  case (Cons x xs)
  have "join (join a b) x = join (join a x) b" by (metis join_assoc join_comm)
  with Cons show ?case by simp
qed simp

lemma foldl_swap: "foldl join (foldl join a xs) ys = foldl join (foldl join a ys) xs"
  by (induction xs arbitrary: a) (simp_all, metis foldl_join_out)

lemma merges_converge:
  assumes "set xs = set ys"
  shows "foldl join a xs = foldl join a ys"
  using foldl_absorbs_all[of ys xs a] foldl_absorbs_all[of xs ys a] foldl_swap[of a xs ys] assms
  by simp

end

end
