(* ===== verification/Model_Types.thy ===== *)
theory Model_Types
  imports Complex_Main Prelude "HOL-Library.Product_Lexorder"
begin

text \<open>
  The enumerations and plain data checks of \<open>internal/model\<close>: status.go, types.go, activity.go,
  dependency.go, annotation.go, node.go, storable_time.go and task_history.go. A Go string enumeration is a
  datatype with the source's constants and one constructor for every other text, so that an
  unknown value (a status added by a newer client) is a value of the model; \<open>*_text\<close> gives the
  stored text and \<open>parse_*\<close> reads it back. Times are Unix nanoseconds (\<open>time.Time\<close> in UTC).
\<close>

section \<open>status.go\<close>

datatype status =
    StatusOpen
  | StatusInProgress
  | StatusBlocked
  | StatusDone
  | StatusDeferred
  | StatusCancelled
  | StatusInvalidated
  | StatusOther string

fun status_text :: "status \<Rightarrow> string" where
  "status_text StatusOpen = ''open''"
| "status_text StatusInProgress = ''in_progress''"
| "status_text StatusBlocked = ''blocked''"
| "status_text StatusDone = ''done''"
| "status_text StatusDeferred = ''deferred''"
| "status_text StatusCancelled = ''cancelled''"
| "status_text StatusInvalidated = ''invalidated''"
| "status_text (StatusOther s) = s"

definition all_statuses :: "status list" where
  "all_statuses = [StatusOpen, StatusInProgress, StatusBlocked, StatusDone, StatusDeferred,
     StatusCancelled, StatusInvalidated]"

text \<open>Reading a stored text: one of the constants, or an unknown status.\<close>

definition parse_status :: "string \<Rightarrow> status" where
  "parse_status s = (case find (\<lambda>st. status_text st = s) all_statuses of
     Some st \<Rightarrow> st | None \<Rightarrow> StatusOther s)"

fun status_is_valid :: "status \<Rightarrow> bool" where
  "status_is_valid (StatusOther s) = False"
| "status_is_valid s = True"

fun status_is_terminal :: "status \<Rightarrow> bool" where
  "status_is_terminal StatusDone = True"
| "status_is_terminal StatusCancelled = True"
| "status_is_terminal StatusInvalidated = True"
| "status_is_terminal s = False"

lemma status_is_valid_iff: "status_is_valid s \<longleftrightarrow> s \<in> set all_statuses"
  by (cases s) (simp_all add: all_statuses_def)

lemma parse_status_text: "status_is_valid s \<Longrightarrow> parse_status (status_text s) = s"
  by (cases s) (simp_all add: parse_status_def all_statuses_def)

lemma status_text_parse: "status_text (parse_status t) = t"
proof (cases "find (\<lambda>st. status_text st = t) all_statuses")
  case None
  then show ?thesis by (simp add: parse_status_def)
next
  case (Some st)
  then have "status_text st = t" by (auto simp: find_Some_iff)
  with Some show ?thesis by (simp add: parse_status_def)
qed

section \<open>types.go\<close>

datatype node_type = NodeTypeEpic | NodeTypeStory | NodeTypeIssue | NodeTypeMicro | NodeTypeAuto

definition node_type_for_depth :: "int \<Rightarrow> node_type" where
  "node_type_for_depth depth =
     (if depth = 0 then NodeTypeEpic
      else if depth = 1 then NodeTypeStory
      else if depth = 2 then NodeTypeIssue
      else NodeTypeMicro)"

datatype issue_type =
    IssueTypeBug | IssueTypeFeature | IssueTypeTask | IssueTypeChore | IssueTypeRefactor
  | IssueTypeTest | IssueTypeDoc | IssueTypeOther string

fun issue_type_text :: "issue_type \<Rightarrow> string" where
  "issue_type_text IssueTypeBug = ''bug''"
| "issue_type_text IssueTypeFeature = ''feature''"
| "issue_type_text IssueTypeTask = ''task''"
| "issue_type_text IssueTypeChore = ''chore''"
| "issue_type_text IssueTypeRefactor = ''refactor''"
| "issue_type_text IssueTypeTest = ''test''"
| "issue_type_text IssueTypeDoc = ''doc''"
| "issue_type_text (IssueTypeOther s) = s"

definition all_issue_types :: "issue_type list" where
  "all_issue_types = [IssueTypeBug, IssueTypeFeature, IssueTypeTask, IssueTypeChore,
     IssueTypeRefactor, IssueTypeTest, IssueTypeDoc]"

definition parse_issue_type :: "string \<Rightarrow> issue_type" where
  "parse_issue_type s = (case find (\<lambda>k. issue_type_text k = s) all_issue_types of
     Some k \<Rightarrow> k | None \<Rightarrow> IssueTypeOther s)"

text \<open>The empty classification is accepted; any other must be one of the seven.\<close>

definition validate_issue_type :: "issue_type \<Rightarrow> unit result" where
  "validate_issue_type kind =
     (if kind = IssueTypeOther [] then Inr ()
      else if kind \<in> set all_issue_types then Inr ()
      else Inl ErrInvalidInput)"

datatype agent_state =
    AgentStateIdle | AgentStateWorking | AgentStateStuck | AgentStateDone | AgentStateOther string

definition priority_is_valid :: "int \<Rightarrow> bool" where
  "priority_is_valid p \<longleftrightarrow> 1 \<le> p \<and> p \<le> 5"

datatype dep_type =
    DepTypeBlocks | DepTypeRelated | DepTypeDiscoveredFrom | DepTypeDuplicates
  | DepTypeOther string

definition all_dep_types :: "dep_type list" where
  "all_dep_types = [DepTypeBlocks, DepTypeRelated, DepTypeDiscoveredFrom, DepTypeDuplicates]"

definition dep_type_is_valid :: "dep_type \<Rightarrow> bool" where
  "dep_type_is_valid d \<longleftrightarrow> d \<in> set all_dep_types"

section \<open>storable_time.go\<close>

text \<open>
  \<open>time.Time\<close> as nanoseconds since the Unix epoch; RFC 3339 text in whole seconds names the
  second (formatting truncates the fraction, also before the epoch). The UTC years 1 to 9999
  are the seconds from 0001-01-01T00:00:00Z up to, and not including, 10000-01-01T00:00:00Z.
\<close>

definition unix_second :: "int \<Rightarrow> int" where
  "unix_second t = t div 1000000000"

definition year1_second :: int where "year1_second = - 62135596800"
definition year10000_second :: int where "year10000_second = 253402300800"

definition is_storable_time :: "int \<Rightarrow> bool" where
  "is_storable_time t \<longleftrightarrow> year1_second \<le> unix_second t \<and> unix_second t < year10000_second"

section \<open>activity.go\<close>

datatype activity_type =
    ActivityTypeComment | ActivityTypeStatusChange | ActivityTypeNote | ActivityTypeAnnotation
  | ActivityTypeUnclaim | ActivityTypeClaim | ActivityTypeSystem | ActivityTypePromptEdit
  | ActivityTypeCreated | ActivityTypeOther string

fun activity_type_is_valid :: "activity_type \<Rightarrow> bool" where
  "activity_type_is_valid (ActivityTypeOther s) = False"
| "activity_type_is_valid a = True"

fun activity_requires_text :: "activity_type \<Rightarrow> bool" where
  "activity_requires_text ActivityTypeComment = True"
| "activity_requires_text ActivityTypeNote = True"
| "activity_requires_text ActivityTypeUnclaim = True"
| "activity_requires_text a = False"

text \<open>The metadata objects the store writes: a status change, or a changed wake time.\<close>

datatype activity_meta = NoMeta | StatusMeta status status | DeferMeta "int option" "int option"

record activity_entry =
  act_id :: string
  act_type :: activity_type
  act_author :: string
  act_text :: string
  act_created_at :: int
  act_metadata :: activity_meta

definition validate_activity_entry :: "activity_entry \<Rightarrow> unit result" where
  "validate_activity_entry a =
     (if act_id a = [] then Inl ErrInvalidInput
      else if \<not> activity_type_is_valid (act_type a) then Inl ErrInvalidInput
      else if act_author a = [] then Inl ErrInvalidInput
      else if activity_requires_text (act_type a) \<and> act_text a = [] then Inl ErrInvalidInput
      else Inr ())"

section \<open>dependency.go\<close>

record dependency =
  from_id :: string
  to_id :: string
  dep_kind :: dep_type
  dep_created_by :: string

definition validate_dependency :: "dependency \<Rightarrow> unit result" where
  "validate_dependency d =
     (if from_id d = [] then Inl ErrInvalidInput
      else if to_id d = [] then Inl ErrInvalidInput
      else if from_id d = to_id d then Inl ErrInvalidInput
      else if \<not> dep_type_is_valid (dep_kind d) then Inl ErrInvalidInput
      else Inr ())"

section \<open>annotation.go\<close>

text \<open>A comment on a node; \<open>CreatedAt\<close> keeps its nanoseconds.\<close>

record annotation =
  an_id :: string
  an_author :: string
  an_text :: string
  an_created_at :: int
  an_resolved :: bool
  an_addressee :: string

text \<open>\<open>SortAnnotations\<close>: a stable sort by time, then id.\<close>

definition sort_annotations :: "annotation list \<Rightarrow> annotation list" where
  "sort_annotations = sort_key (\<lambda>a. (an_created_at a, an_id a))"

section \<open>node.go\<close>

definition max_title_length :: nat where "max_title_length = 500"
definition max_description_size :: nat where "max_description_size = 50 * 1024"
definition max_prompt_size :: nat where "max_prompt_size = 100 * 1024"

text \<open>
  A node, with the fields the modelled code reads or writes. Progress and weight are rational
  numbers: the rounding of the SQL \<open>REAL\<close> columns is not modelled. Empty text stands for a
  NULL text column (\<open>nullableString\<close>), \<open>None\<close> for a NULL of the columns whose NULL the code
  tells apart. Stored times are the whole second their RFC 3339 text names.
\<close>

record node =
  node_id :: string
  parent_id :: string
  project :: string
  depth :: int
  seq :: int
  uid :: string
  title :: string
  description :: string
  prompt :: string
  acceptance :: string
  node_kind :: node_type
  issue_kind :: issue_type
  priority :: int
  labels :: "string list"
  status :: status
  progress :: rat
  previous_status :: "status option"
  assignee :: "string option"
  creator :: string
  agent_state :: "agent_state option"
  created_at :: int
  updated_at :: int
  closed_at :: "int option"
  defer_until :: "int option"
  weight :: rat
  activity :: "activity_entry list"
  annotations :: "annotation list"
  deleted_at :: "int option"
  deleted_by :: "string option"

definition validate_node :: "node \<Rightarrow> unit result" where
  "validate_node n =
     (if title n = [] then Inl ErrInvalidInput
      else if length (title n) > max_title_length then Inl ErrInvalidInput
      else if length (description n) > max_description_size then Inl ErrInvalidInput
      else if length (prompt n) > max_prompt_size then Inl ErrInvalidInput
      else if status n \<noteq> StatusOther [] \<and> \<not> status_is_valid (status n) then Inl ErrInvalidInput
      else if priority n \<noteq> 0 \<and> \<not> priority_is_valid (priority n) then Inl ErrInvalidInput
      else case defer_until n of
             None \<Rightarrow> Inr ()
           | Some t \<Rightarrow> if is_storable_time (t * 1000000000) then Inr () else Inl ErrInvalidInput)"

section \<open>task_history.go\<close>

datatype history_field_class = HistoryFieldValueFree | HistoryFieldStructured

definition structured_fields :: "string list" where
  "structured_fields = [''status'', ''assignee'', ''priority'', ''labels'', ''node_type'',
     ''issue_type'', ''parent'', ''defer_until'', ''deleted_at'', ''agent_state'',
     ''estimate_min'', ''actual_min'', ''weight'', ''display_path'']"

definition history_field_class_of :: "string \<Rightarrow> history_field_class" where
  "history_field_class_of field =
     (if field \<in> set structured_fields then HistoryFieldStructured else HistoryFieldValueFree)"

section \<open>Laws of the checks\<close>

lemma validate_issue_type_ok [go_result]:
  "validate_issue_type k = Inr () \<longleftrightarrow> k = IssueTypeOther [] \<or> k \<in> set all_issue_types"
  by (simp add: validate_issue_type_def)

lemma validate_dependency_ok [go_result]:
  "validate_dependency d = Inr () \<longleftrightarrow>
     from_id d \<noteq> [] \<and> to_id d \<noteq> [] \<and> from_id d \<noteq> to_id d \<and> dep_type_is_valid (dep_kind d)"
  by (simp add: validate_dependency_def)

lemma validate_node_ok [go_result]:
  "validate_node n = Inr () \<longleftrightarrow>
     title n \<noteq> [] \<and> length (title n) \<le> max_title_length
     \<and> length (description n) \<le> max_description_size \<and> length (prompt n) \<le> max_prompt_size
     \<and> (status n = StatusOther [] \<or> status_is_valid (status n))
     \<and> (priority n = 0 \<or> priority_is_valid (priority n))
     \<and> (\<forall>t. defer_until n = Some t \<longrightarrow> is_storable_time (t * 1000000000))"
  by (auto simp: validate_node_def split: option.splits)

lemma validate_activity_entry_ok [go_result]:
  "validate_activity_entry a = Inr () \<longleftrightarrow>
     act_id a \<noteq> [] \<and> activity_type_is_valid (act_type a) \<and> act_author a \<noteq> []
     \<and> (activity_requires_text (act_type a) \<longrightarrow> act_text a \<noteq> [])"
  by (auto simp: validate_activity_entry_def)

end
