(* ===== verification/Node_Ids.thy ===== *)
theory Node_Ids
  imports Model_Types
begin

text \<open>
  Node ids: \<open>internal/model/id.go\<close> and \<open>internal/model/identity.go\<close>. A display path is
  \<open>PREFIX-root.child.child...\<close>; a settled path has base-10 segments only, a provisional one
  has at least one uid segment. \<open>uuid.Parse\<close> followed by \<open>String\<close> (github.com/google/uuid)
  is a parameter: a function from a text to the canonical text of the uuid it names, if any.
  The lemmas show that building and parsing ids are inverse, and that validation, the
  settled/provisional test and the extraction of uid segments agree on every valid id.
\<close>

section \<open>id.go\<close>

text \<open>The regular expressions \<open>[A-Z][A-Z0-9-]{0,19}\<close> and \<open>[A-Z][A-Z0-9_-]{0,19}\<close>, anchored.\<close>

definition prefix_char :: "char \<Rightarrow> bool" where
  "prefix_char c \<longleftrightarrow> is_upper c \<or> is_digit c \<or> c = CHR ''-''"

definition sync_prefix_char :: "char \<Rightarrow> bool" where
  "sync_prefix_char c \<longleftrightarrow> prefix_char c \<or> c = CHR ''_''"

fun project_prefix_regex :: "string \<Rightarrow> bool" where
  "project_prefix_regex [] = False"
| "project_prefix_regex (c # cs) = (is_upper c \<and> length cs \<le> 19 \<and> list_all prefix_char cs)"

fun project_prefix_pattern :: "string \<Rightarrow> bool" where
  "project_prefix_pattern [] = False"
| "project_prefix_pattern (c # cs) = (is_upper c \<and> length cs \<le> 19 \<and> list_all sync_prefix_char cs)"

definition validate_prefix :: "string \<Rightarrow> unit result" where
  "validate_prefix prefix =
     (if \<not> project_prefix_regex prefix then Inl ErrInvalidInput else Inr ())"

definition validate_sync_prefix :: "string \<Rightarrow> unit result" where
  "validate_sync_prefix prefix =
     (if \<not> project_prefix_pattern prefix then Inl ErrInvalidInput else Inr ())"

definition build_id :: "string \<Rightarrow> string \<Rightarrow> int \<Rightarrow> string" where
  "build_id proj parent n =
     (if parent = [] then proj @ ''-'' @ dec_int n else parent @ ''.'' @ dec_int n)"

definition parse_id_project :: "string \<Rightarrow> string" where
  "parse_id_project i =
     (let (head, tail, found) = cut CHR ''.'' i
      in case last_index CHR ''-'' head of
           None \<Rightarrow> []
         | Some k \<Rightarrow> if k = 0 then [] else take k head)"

definition parse_id_parent :: "string \<Rightarrow> string" where
  "parse_id_parent i = (case last_index CHR ''.'' i of None \<Rightarrow> [] | Some k \<Rightarrow> take k i)"

definition parse_id_depth :: "string \<Rightarrow> nat" where
  "parse_id_depth i =
     (case index_of CHR ''-'' i of None \<Rightarrow> 0 | Some k \<Rightarrow> count_byte CHR ''.'' (drop k i))"

definition sequence_key :: "string \<Rightarrow> string \<Rightarrow> string" where
  "sequence_key proj parent = proj @ '':'' @ parent"

section \<open>identity.go\<close>

definition is_base10_seq :: "string \<Rightarrow> bool" where
  "is_base10_seq seg \<longleftrightarrow> (if seg = [] then False else list_all is_digit seg)"

definition is_lower_hex :: "char \<Rightarrow> bool" where
  "is_lower_hex c \<longleftrightarrow> is_digit c \<or> (97 \<le> byte c \<and> byte c \<le> 102)"

fun is_uid_segment :: "string \<Rightarrow> bool" where
  "is_uid_segment [] = False"
| "is_uid_segment (c # body) = (c = CHR ''u'' \<and> body \<noteq> [] \<and> list_all is_lower_hex body)"

definition uid_segment_hex_len :: nat where "uid_segment_hex_len = 12"

definition render_uid_segment :: "(string \<Rightarrow> string option) \<Rightarrow> string \<Rightarrow> string result" where
  "render_uid_segment uuid_parse u =
     (case uuid_parse u of
        None \<Rightarrow> Inl ErrInvalidInput
      | Some canonical \<Rightarrow>
          Inr (''u'' @ take uid_segment_hex_len (filter (\<lambda>c. c \<noteq> CHR ''-'') canonical)))"

definition split_id :: "string \<Rightarrow> (string \<times> string \<times> string list) option" where
  "split_id i =
     (let (head, tail, has_dot) = cut CHR ''.'' i
      in case last_index CHR ''-'' head of
           None \<Rightarrow> None
         | Some k \<Rightarrow>
             if k = 0 then None
             else Some (take k head, drop (Suc k) head,
                        if has_dot then split_on CHR ''.'' tail else []))"

definition all_segments :: "string \<Rightarrow> string list \<Rightarrow> string list" where
  "all_segments root_seg child_segs = [root_seg] @ child_segs"

definition is_provisional :: "string \<Rightarrow> bool" where
  "is_provisional i =
     (case split_id i of
        None \<Rightarrow> False
      | Some (prefix, root_seg, child_segs) \<Rightarrow>
          list_ex (\<lambda>seg. \<not> is_base10_seq seg) (all_segments root_seg child_segs))"

definition parse_uid_segments :: "string \<Rightarrow> string list" where
  "parse_uid_segments i =
     (case split_id i of
        None \<Rightarrow> []
      | Some (prefix, root_seg, child_segs) \<Rightarrow>
          filter is_uid_segment (all_segments root_seg child_segs))"

definition build_provisional_id ::
  "(string \<Rightarrow> string option) \<Rightarrow> string \<Rightarrow> string \<Rightarrow> string result" where
  "build_provisional_id uuid_parse parent u =
     (if parent = [] then Inl ErrInvalidInput
      else bind_result (render_uid_segment uuid_parse u) (\<lambda>seg. Inr (parent @ ''.'' @ seg)))"

definition validate_node_id_with :: "string \<Rightarrow> (string \<Rightarrow> unit result) \<Rightarrow> unit result" where
  "validate_node_id_with i check_prefix =
     (case split_id i of
        None \<Rightarrow> Inl ErrInvalidInput
      | Some (prefix, root_seg, child_segs) \<Rightarrow>
          bind_result (check_prefix prefix) (\<lambda>_.
            if \<not> is_base10_seq root_seg then Inl ErrInvalidInput
            else if list_ex (\<lambda>seg. \<not> is_base10_seq seg \<and> \<not> is_uid_segment seg) child_segs
                 then Inl ErrInvalidInput
                 else Inr ()))"

definition validate_node_id :: "string \<Rightarrow> unit result" where
  "validate_node_id i = validate_node_id_with i validate_prefix"

definition validate_sync_node_id :: "string \<Rightarrow> unit result" where
  "validate_sync_node_id i = validate_node_id_with i validate_sync_prefix"

section \<open>Reading an id back\<close>

lemma special_chars [simp]:
  "\<not> is_upper CHR ''-''" "\<not> is_upper CHR ''.''" "\<not> is_upper CHR ''_''" "\<not> is_digit CHR ''_''"
  "\<not> is_lower_hex CHR ''.''" "\<not> is_lower_hex CHR ''-''"
  "\<not> prefix_char CHR ''.''" "\<not> sync_prefix_char CHR ''.''" "\<not> is_digit CHR ''u''"
  by (simp_all add: is_upper_def is_digit_def is_lower_hex_def prefix_char_def
      sync_prefix_char_def byte_def)

lemma prefix_pattern_weaker: "project_prefix_regex p \<Longrightarrow> project_prefix_pattern p"
  by (cases p) (auto simp: sync_prefix_char_def list_all_iff)

lemma prefix_pattern_facts:
  assumes "project_prefix_pattern p"
  shows "p \<noteq> []" "CHR ''.'' \<notin> set p" "length p \<le> 20"
  using assms by (cases p; auto simp: list_all_iff)+

lemma base10_facts:
  assumes "is_base10_seq s"
  shows "s \<noteq> []" "CHR ''.'' \<notin> set s" "CHR ''-'' \<notin> set s" "\<not> is_uid_segment s"
  using assms by (cases s; auto simp: is_base10_seq_def list_all_iff)+

lemma uid_segment_facts:
  assumes "is_uid_segment s"
  shows "s \<noteq> []" "CHR ''.'' \<notin> set s" "CHR ''-'' \<notin> set s" "\<not> is_base10_seq s"
  using assms by (cases s; auto simp: is_base10_seq_def list_all_iff)+

lemma dec_nat_base10: "is_base10_seq (dec_nat n)"
  using dec_nat_digits[of n] by (simp add: is_base10_seq_def all_digits_def)

text \<open>The path of a prefix and its segments, and its parse.\<close>

definition id_of :: "string \<Rightarrow> string \<Rightarrow> string list \<Rightarrow> string" where
  "id_of prefix root_seg segs = prefix @ ''-'' @ join_with CHR ''.'' (root_seg # segs)"

lemma join_with_Cons: "ps \<noteq> [] \<Longrightarrow> join_with c (p # ps) = p @ c # join_with c ps"
  by (cases ps) auto

lemma split_id_id_of:
  assumes "prefix \<noteq> []" "CHR ''.'' \<notin> set prefix"
    and "CHR ''.'' \<notin> set root_seg" "CHR ''-'' \<notin> set root_seg"
    and "\<forall>s \<in> set segs. CHR ''.'' \<notin> set s"
  shows "split_id (id_of prefix root_seg segs) = Some (prefix, root_seg, segs)"
proof -
  have head: "CHR ''.'' \<notin> set (prefix @ ''-'' @ root_seg)" using assms by auto
  have idx: "last_index CHR ''-'' (prefix @ CHR ''-'' # root_seg) = Some (length prefix)"
    using assms(4) by (rule last_index_append)
  show ?thesis
  proof (cases segs)
    case Nil
    then show ?thesis
      using assms(1) cut_absent[OF head] idx by (simp add: split_id_def id_of_def)
  next
    case (Cons s ss)
    then have "id_of prefix root_seg segs
                 = (prefix @ ''-'' @ root_seg) @ CHR ''.'' # join_with CHR ''.'' segs"
      by (simp add: id_of_def)
    moreover have "split_on CHR ''.'' (join_with CHR ''.'' segs) = segs"
      using assms(5) Cons by (intro split_join) auto
    ultimately show ?thesis
      using assms(1) cut_append[OF head] idx by (simp add: split_id_def)
  qed
qed

lemma split_id_inverse:
  assumes "split_id i = Some (prefix, root_seg, segs)"
  shows "i = id_of prefix root_seg segs \<and> prefix \<noteq> [] \<and> CHR ''.'' \<notin> set prefix
       \<and> CHR ''.'' \<notin> set root_seg \<and> CHR ''-'' \<notin> set root_seg"
proof -
  obtain head tail d where c: "cut CHR ''.'' i = (head, tail, d)" by (cases "cut CHR ''.'' i") auto
  with assms obtain k where k: "last_index CHR ''-'' head = Some k" "k \<noteq> 0"
      "prefix = take k head" "root_seg = drop (Suc k) head"
      "segs = (if d then split_on CHR ''.'' tail else [])"
    by (auto simp: split_id_def split: option.splits if_splits)
  note li = last_index_Some[OF k(1)]
  have head: "head = prefix @ ''-'' @ root_seg"
    using li k(3,4) id_take_nth_drop[of k head] by simp
  have nodot: "CHR ''.'' \<notin> set head"
    using c cut_found[of _ i head tail] cut_not_found[of _ i head tail] by (cases d) auto
  have "i = id_of prefix root_seg segs"
  proof (cases d)
    case True
    then have "i = head @ CHR ''.'' # tail" using c cut_found[of _ i head tail] by simp
    with True k(5) head show ?thesis
      by (simp add: id_of_def join_with_Cons join_split)
  next
    case False
    then have "i = head" using c cut_not_found[of "CHR ''.''" i head tail] by simp
    with False k(5) head show ?thesis by (simp add: id_of_def)
  qed
  moreover have "prefix \<noteq> []" using k(2,3) li by auto
  moreover have "CHR ''.'' \<notin> set prefix \<and> CHR ''.'' \<notin> set root_seg"
    using nodot by (simp add: head)
  moreover have "CHR ''-'' \<notin> set root_seg" using li k(4) by simp
  ultimately show ?thesis by simp
qed

section \<open>Valid ids\<close>

definition valid_segment :: "string \<Rightarrow> bool" where
  "valid_segment s \<longleftrightarrow> is_base10_seq s \<or> is_uid_segment s"

lemma valid_segment_facts:
  assumes "valid_segment s"
  shows "s \<noteq> []" "CHR ''.'' \<notin> set s" "CHR ''-'' \<notin> set s"
    "is_uid_segment s \<longleftrightarrow> \<not> is_base10_seq s"
  using assms base10_facts uid_segment_facts unfolding valid_segment_def by metis+

lemma validate_node_id_with_ok:
  "validate_node_id_with i chk = Inr () \<longleftrightarrow>
     (\<exists>p r segs. split_id i = Some (p, r, segs) \<and> chk p = Inr () \<and> is_base10_seq r
        \<and> (\<forall>s \<in> set segs. valid_segment s))"
  by (auto simp: validate_node_id_with_def go_result list_ex_iff valid_segment_def
      split: option.splits)

lemma split_valid_id:
  assumes "project_prefix_pattern p" "is_base10_seq r" "\<forall>s \<in> set segs. valid_segment s"
  shows "split_id (id_of p r segs) = Some (p, r, segs)"
  using assms
  by (intro split_id_id_of) (auto dest: prefix_pattern_facts base10_facts valid_segment_facts)

lemma validate_sync_node_id_ok:
  "validate_sync_node_id i = Inr () \<longleftrightarrow>
     (\<exists>p r segs. i = id_of p r segs \<and> project_prefix_pattern p \<and> is_base10_seq r
        \<and> (\<forall>s \<in> set segs. valid_segment s))"
  (is "?l \<longleftrightarrow> ?r")
proof
  assume ?l
  then show ?r
    by (auto simp: validate_sync_node_id_def validate_sync_prefix_def validate_node_id_with_ok
        split: if_splits dest!: split_id_inverse)
next
  assume ?r
  then show ?l
    by (auto simp: validate_sync_node_id_def validate_sync_prefix_def validate_node_id_with_ok
        split_valid_id)
qed

lemma validate_node_id_ok:
  "validate_node_id i = Inr () \<longleftrightarrow>
     (\<exists>p r segs. i = id_of p r segs \<and> project_prefix_regex p \<and> is_base10_seq r
        \<and> (\<forall>s \<in> set segs. valid_segment s))"
  (is "?l \<longleftrightarrow> ?r")
proof
  assume ?l
  then show ?r
    by (auto simp: validate_node_id_def validate_prefix_def validate_node_id_with_ok
        split: if_splits dest!: split_id_inverse)
next
  assume ?r
  then show ?l
    by (auto simp: validate_node_id_def validate_prefix_def validate_node_id_with_ok
        split_valid_id prefix_pattern_weaker)
qed

lemma local_id_is_sync_id: "validate_node_id i = Inr () \<Longrightarrow> validate_sync_node_id i = Inr ()"
  by (auto simp: validate_node_id_ok validate_sync_node_id_ok dest: prefix_pattern_weaker)

lemma valid_idI:
  assumes "is_base10_seq r" "\<forall>s \<in> set segs. valid_segment s"
  shows "project_prefix_pattern p \<Longrightarrow> validate_sync_node_id (id_of p r segs) = Inr ()"
    and "project_prefix_regex p \<Longrightarrow> validate_node_id (id_of p r segs) = Inr ()"
  unfolding validate_sync_node_id_ok validate_node_id_ok using assms by blast+

lemma first_dash_bound: "\<exists>k \<le> length a. index_of c (a @ c # b) = Some k"
  by (induction a) auto

lemma count_join: "\<forall>p \<in> set ps. c \<notin> set p \<Longrightarrow> count_byte c (join_with c ps) = length ps - 1"
  by (induction c ps rule: join_with.induct) (auto simp: go_str)

lemma parse_id_depth_id_of:
  assumes "CHR ''.'' \<notin> set p" "CHR ''.'' \<notin> set r" "\<forall>s \<in> set segs. CHR ''.'' \<notin> set s"
  shows "parse_id_depth (id_of p r segs) = length segs"
proof -
  let ?i = "id_of p r segs"
  obtain k where k: "k \<le> length p" "index_of CHR ''-'' ?i = Some k"
    using first_dash_bound[of p "CHR ''-''" "join_with CHR ''.'' (r # segs)"]
    by (auto simp: id_of_def)
  have "count_byte CHR ''.'' ?i = count_byte CHR ''.'' (take k ?i) + count_byte CHR ''.'' (drop k ?i)"
    by (simp flip: count_byte_simps(3))
  moreover have "count_byte CHR ''.'' (take k ?i) = 0"
    using k(1) assms(1) by (intro count_byte_absent) (auto simp: id_of_def dest: in_set_takeD)
  moreover have "count_byte CHR ''.'' ?i = length segs"
    using assms by (simp add: id_of_def count_byte_simps count_byte_absent count_join)
  ultimately show ?thesis using k(2) by (simp add: parse_id_depth_def)
qed

lemma join_with_snoc: "ps \<noteq> [] \<Longrightarrow> join_with c (ps @ [p]) = join_with c ps @ c # p"
  by (induction c ps rule: join_with.induct) auto

lemma id_of_snoc: "id_of p r (segs @ [s]) = id_of p r segs @ ''.'' @ s"
  using join_with_snoc[of "r # segs"] by (simp add: id_of_def)

lemma parse_id_parent_child:
  "CHR ''.'' \<notin> set s \<Longrightarrow> parse_id_parent (par @ ''.'' @ s) = par"
  by (simp add: parse_id_parent_def last_index_append)

lemma parse_id_project_id_of:
  assumes "split_id i = Some (p, r, segs)"
  shows "parse_id_project i = p"
  using assms by (auto simp: parse_id_project_def split_id_def split: prod.splits option.splits if_splits)

lemma id_of_nonempty [simp]: "id_of p r segs \<noteq> []"
  by (simp add: id_of_def)

lemma valid_id_reads:
  assumes "project_prefix_pattern p" "is_base10_seq r" "\<forall>s \<in> set segs. valid_segment s"
  shows "parse_id_project (id_of p r segs) = p"
    and "parse_id_depth (id_of p r segs) = length segs"
    and "is_provisional (id_of p r segs) \<longleftrightarrow> (\<exists>s \<in> set segs. is_uid_segment s)"
    and "parse_uid_segments (id_of p r segs) = filter is_uid_segment segs"
proof -
  note split = split_valid_id[OF assms]
  show "parse_id_project (id_of p r segs) = p" by (rule parse_id_project_id_of[OF split])
  show "parse_id_depth (id_of p r segs) = length segs"
    using assms
    by (intro parse_id_depth_id_of) (auto dest: prefix_pattern_facts base10_facts valid_segment_facts)
  show "is_provisional (id_of p r segs) \<longleftrightarrow> (\<exists>s \<in> set segs. is_uid_segment s)"
    using split assms(2,3)
    by (auto simp: is_provisional_def all_segments_def list_ex_iff valid_segment_facts(4))
  show "parse_uid_segments (id_of p r segs) = filter is_uid_segment segs"
    using split base10_facts(4)[OF assms(2)]
    by (simp add: parse_uid_segments_def all_segments_def)
qed

lemma child_of_valid_id:
  assumes "validate_sync_node_id par = Inr ()" "valid_segment s"
  shows "validate_sync_node_id (par @ ''.'' @ s) = Inr ()"
    and "validate_node_id par = Inr () \<Longrightarrow> validate_node_id (par @ ''.'' @ s) = Inr ()"
    and "parse_id_parent (par @ ''.'' @ s) = par"
    and "parse_id_project (par @ ''.'' @ s) = parse_id_project par"
    and "parse_id_depth (par @ ''.'' @ s) = Suc (parse_id_depth par)"
    and "is_provisional (par @ ''.'' @ s) \<longleftrightarrow> is_provisional par \<or> is_uid_segment s"
    and "parse_uid_segments (par @ ''.'' @ s)
           = parse_uid_segments par @ (if is_uid_segment s then [s] else [])"
proof -
  obtain p r segs where par: "par = id_of p r segs" "project_prefix_pattern p" "is_base10_seq r"
      "\<forall>s \<in> set segs. valid_segment s"
    using assms(1) by (auto simp: validate_sync_node_id_ok)
  have child: "par @ ''.'' @ s = id_of p r (segs @ [s])" by (simp add: par(1) id_of_snoc)
  have segs: "\<forall>s \<in> set (segs @ [s]). valid_segment s" using par(4) assms(2) by simp
  note reads = valid_id_reads[OF par(2,3,4)] valid_id_reads[OF par(2,3) segs]
  show "validate_sync_node_id (par @ ''.'' @ s) = Inr ()"
    unfolding child by (rule valid_idI(1)[OF par(3) segs par(2)])
  show "parse_id_parent (par @ ''.'' @ s) = par"
    using valid_segment_facts(2)[OF assms(2)] by (rule parse_id_parent_child)
  show "parse_id_project (par @ ''.'' @ s) = parse_id_project par"
    "parse_id_depth (par @ ''.'' @ s) = Suc (parse_id_depth par)"
    "is_provisional (par @ ''.'' @ s) \<longleftrightarrow> is_provisional par \<or> is_uid_segment s"
    "parse_uid_segments (par @ ''.'' @ s)
       = parse_uid_segments par @ (if is_uid_segment s then [s] else [])"
    unfolding child unfolding par(1) unfolding reads by auto
  assume "validate_node_id par = Inr ()"
  then obtain p' r' segs' where par': "par = id_of p' r' segs'" "project_prefix_regex p'"
      "is_base10_seq r'" "\<forall>s \<in> set segs'. valid_segment s"
    by (auto simp: validate_node_id_ok)
  then have "par @ ''.'' @ s = id_of p' r' (segs' @ [s])" by (simp add: id_of_snoc)
  moreover have "\<forall>s \<in> set (segs' @ [s]). valid_segment s" using par'(4) assms(2) by simp
  ultimately show "validate_node_id (par @ ''.'' @ s) = Inr ()"
    using valid_idI(2)[OF par'(3) _ par'(2), of "segs' @ [s]"] by simp
qed

lemma valid_id_nonempty: "validate_sync_node_id i = Inr () \<Longrightarrow> i \<noteq> []"
  by (auto simp: validate_sync_node_id_ok)

text \<open>
  A child id reads back. For every valid parent id (also a provisional one, also one with a
  sync-only prefix) and every sequence number, the id built for the child is valid under the
  same grammar, its parsed parent is exactly the parent, its parsed project is the parent's,
  its depth is one more, and it is provisional exactly when the parent is.
\<close>
theorem build_id_child_roundtrip:
  assumes "validate_sync_node_id par = Inr ()" and "0 \<le> n"
  shows "validate_sync_node_id (build_id proj par n) = Inr ()
       \<and> (validate_node_id par = Inr () \<longrightarrow> validate_node_id (build_id proj par n) = Inr ())
       \<and> parse_id_parent (build_id proj par n) = par
       \<and> parse_id_project (build_id proj par n) = parse_id_project par
       \<and> parse_id_depth (build_id proj par n) = Suc (parse_id_depth par)
       \<and> (is_provisional (build_id proj par n) \<longleftrightarrow> is_provisional par)"
proof -
  have seg: "valid_segment (dec_nat (nat n))" "\<not> is_uid_segment (dec_nat (nat n))"
    using dec_nat_base10[of "nat n"] base10_facts(4) by (auto simp: valid_segment_def)
  have "build_id proj par n = par @ ''.'' @ dec_nat (nat n)"
    using assms valid_id_nonempty by (auto simp: build_id_def dec_int_def)
  with child_of_valid_id[OF assms(1) seg(1)] seg(2) show ?thesis by simp
qed

theorem build_id_child_roundtrip_witness:
  "parse_id_parent (build_id ''MY-PROJ'' ''MY-PROJ-42.u0a.3'' 17) = ''MY-PROJ-42.u0a.3''"
proof -
  have "validate_sync_node_id ''MY-PROJ-42.u0a.3'' = Inr ()" by code_simp
  from build_id_child_roundtrip[OF this, of 17 "''MY-PROJ''"] show ?thesis by simp
qed

text \<open>
  A root id reads back: for every valid project prefix (which may itself contain hyphens and
  digits) and every sequence number, the root id is valid and settled, has no parent and depth
  0, and its parsed project is the prefix; and ids of one parent are equal only for equal
  sequence numbers, so a sequence number never yields a taken id.
\<close>
theorem build_id_root_roundtrip:
  assumes "validate_prefix p = Inr ()" and "0 \<le> n"
  shows "validate_node_id (build_id p [] n) = Inr () \<and> \<not> is_provisional (build_id p [] n)
       \<and> parse_id_parent (build_id p [] n) = [] \<and> parse_id_depth (build_id p [] n) = 0
       \<and> parse_id_project (build_id p [] n) = p
       \<and> (\<forall>m par. 0 \<le> m \<longrightarrow> (build_id p par m = build_id p par n \<longleftrightarrow> m = n))"
proof -
  have pre: "project_prefix_regex p" using assms(1) by (simp add: validate_prefix_def split: if_splits)
  note pat = prefix_pattern_weaker[OF pre]
  have id: "build_id p [] n = id_of p (dec_nat (nat n)) []"
    using assms(2) by (simp add: build_id_def id_of_def dec_int_def)
  note reads = valid_id_reads[OF pat dec_nat_base10[of "nat n"], of "[]"]
  have "CHR ''.'' \<notin> set (build_id p [] n)"
    using prefix_pattern_facts(2)[OF pat] base10_facts(2)[OF dec_nat_base10] by (simp add: id id_of_def)
  then have "parse_id_parent (build_id p [] n) = []"
    by (simp add: parse_id_parent_def last_index_None[THEN iffD2])
  moreover have "validate_node_id (build_id p [] n) = Inr ()"
    unfolding id using valid_idI(2)[OF dec_nat_base10 _ pre, of "[]"] by simp
  moreover have "\<forall>m par. 0 \<le> m \<longrightarrow> (build_id p par m = build_id p par n \<longleftrightarrow> m = n)"
    using assms(2) by (auto simp: build_id_def dec_int_def dec_nat_inject)
  ultimately show ?thesis using reads by (simp add: id)
qed

text \<open>
  A provisional id reads back. Whatever valid parent a node has, and whatever uid the uuid
  parser accepts (its canonical text being hyphens and lowercase hex digits, with at least one
  digit), the provisional id is valid, is recognised as provisional from its shape alone, has
  the parent as its parsed parent and one more uid segment than the parent, namely the rendered
  one; and a valid id is provisional exactly when it has a uid segment.
\<close>
theorem provisional_id_roundtrip:
  assumes "validate_sync_node_id par = Inr ()" and "uuid_parse u = Some canonical"
    and "\<forall>c \<in> set canonical. c = CHR ''-'' \<or> is_lower_hex c" and "\<exists>c \<in> set canonical. is_lower_hex c"
  shows "\<exists>seg i. render_uid_segment uuid_parse u = Inr seg
       \<and> build_provisional_id uuid_parse par u = Inr i
       \<and> validate_sync_node_id i = Inr () \<and> is_provisional i \<and> parse_id_parent i = par
       \<and> parse_uid_segments i = parse_uid_segments par @ [seg]
       \<and> (\<forall>j. validate_sync_node_id j = Inr () \<longrightarrow>
             (is_provisional j \<longleftrightarrow> parse_uid_segments j \<noteq> []))"
proof -
  define body where "body = take uid_segment_hex_len (filter (\<lambda>c. c \<noteq> CHR ''-'') canonical)"
  obtain c where c: "c \<in> set canonical" "is_lower_hex c" using assms(4) by blast
  then have "c \<noteq> CHR ''-''" using special_chars by blast
  with c(1) have "c \<in> set (filter (\<lambda>c. c \<noteq> CHR ''-'') canonical)" by simp
  then have "filter (\<lambda>c. c \<noteq> CHR ''-'') canonical \<noteq> []" by force
  then have "body \<noteq> []" by (simp add: body_def uid_segment_hex_len_def)
  moreover have "list_all is_lower_hex body"
    unfolding list_all_iff
  proof
    fix x assume "x \<in> set body"
    then have "x \<in> set (filter (\<lambda>c. c \<noteq> CHR ''-'') canonical)"
      unfolding body_def by (rule in_set_takeD)
    then show "is_lower_hex x" using assms(3) by (simp only: set_filter mem_Collect_eq) blast
  qed
  ultimately have uid: "is_uid_segment (''u'' @ body)" by simp
  then have seg: "valid_segment (''u'' @ body)" by (simp add: valid_segment_def)
  have render: "render_uid_segment uuid_parse u = Inr (''u'' @ body)"
    using assms(2) by (simp add: render_uid_segment_def body_def)
  have build: "build_provisional_id uuid_parse par u = Inr (par @ ''.'' @ ''u'' @ body)"
    using valid_id_nonempty[OF assms(1)] render by (simp add: build_provisional_id_def)
  have iff: "is_provisional j \<longleftrightarrow> parse_uid_segments j \<noteq> []" if "validate_sync_node_id j = Inr ()" for j
    using that by (auto simp: validate_sync_node_id_ok valid_id_reads filter_empty_conv)
  show ?thesis
    using child_of_valid_id[OF assms(1) seg] uid render build iff by auto
qed

theorem provisional_id_roundtrip_witness:
  "\<exists>i. build_provisional_id Some ''PRJX-1'' ''0190b2c4-7d3e-7a11-8c00-0123456789ab'' = Inr i
     \<and> is_provisional i \<and> parse_uid_segments i = [''u0190b2c47d3e'']"
proof -
  let ?u = "''0190b2c4-7d3e-7a11-8c00-0123456789ab''"
  have par: "validate_sync_node_id ''PRJX-1'' = Inr ()" "parse_uid_segments ''PRJX-1'' = []"
    by code_simp+
  have hex: "\<forall>c \<in> set ?u. c = CHR ''-'' \<or> is_lower_hex c" "\<exists>c \<in> set ?u. is_lower_hex c" by code_simp+
  have "render_uid_segment Some ?u = Inr ''u0190b2c47d3e''" by code_simp
  with provisional_id_roundtrip[where uuid_parse = Some, OF par(1) refl hex] par(2)
  show ?thesis by auto
qed

end
