(* ===== verification/Vector_Clock.thy ===== *)
theory Vector_Clock
  imports Model_Types "HOL-Library.AList"
begin

text \<open>
  \<open>internal/model/sync_clock.go\<close>: the per-author counters of causality. A Go map is an
  association list with distinct keys, whose order is the order in which a \<open>range\<close> visits the
  map; Go leaves that order open, so the properties show that no operation depends on it.
  Values are int64 (\<open>Bump\<close> wraps). The lemmas show that merging is a least upper bound, that
  \<open>Dominates\<close> is the strict pointwise order, and what pruning keeps.
\<close>

type_synonym vector_clock = "(string \<times> int) list"

definition max_vector_clock_entries :: nat where "max_vector_clock_entries = 100"
definition max_vector_clock_value :: int where "max_vector_clock_value = 2 ^ 53"

text \<open>A missing key reads as 0.\<close>

definition vc_get :: "vector_clock \<Rightarrow> string \<Rightarrow> int" where
  "vc_get vc k = (case map_of vc k of None \<Rightarrow> 0 | Some v \<Rightarrow> v)"

definition vc_bump :: "string \<Rightarrow> vector_clock \<Rightarrow> vector_clock \<times> int" where
  "vc_bump author vc =
     (let v = wrap64 (vc_get vc author + 1) in (AList.update author v vc, v))"

fun vc_put_max :: "string \<times> int \<Rightarrow> vector_clock \<Rightarrow> vector_clock" where
  "vc_put_max (k, v) out =
     (case map_of out k of
        Some cur \<Rightarrow> if v > cur then AList.update k v out else out
      | None \<Rightarrow> AList.update k v out)"

definition vc_copy :: "vector_clock \<Rightarrow> vector_clock" where
  "vc_copy vc = fold (\<lambda>(k, v). AList.update k v) vc []"

definition vc_merge :: "vector_clock \<Rightarrow> vector_clock \<Rightarrow> vector_clock" where
  "vc_merge vc other = fold vc_put_max other (vc_copy vc)"

text \<open>\<open>rank\<close>: the first position of a key in \<open>keep\<close>; \<open>None\<close> for a key that is not protected.\<close>

fun keep_rank :: "string list \<Rightarrow> string \<Rightarrow> nat option" where
  "keep_rank [] k = None"
| "keep_rank (p # ps) k = (if p = k then Some 0 else map_option Suc (keep_rank ps k))"

text \<open>The less function of the drop order.\<close>

definition prune_before :: "string list \<Rightarrow> vector_clock \<Rightarrow> string \<Rightarrow> string \<Rightarrow> bool" where
  "prune_before keep out a b =
     (case (keep_rank keep a, keep_rank keep b) of
        (None, Some rb) \<Rightarrow> True
      | (Some ra, None) \<Rightarrow> False
      | (Some ra, Some rb) \<Rightarrow> ra > rb
      | (None, None) \<Rightarrow>
          if vc_get out a \<noteq> vc_get out b then vc_get out a < vc_get out b else a > b)"

definition vc_prune :: "string list \<Rightarrow> vector_clock \<Rightarrow> vector_clock \<times> nat" where
  "vc_prune keep vc =
     (let out = vc_copy vc
      in if length out \<le> max_vector_clock_entries then (out, 0)
         else let excess = length out - max_vector_clock_entries;
                  keys = sort_by (prune_before keep out) (map fst out)
              in (fold AList.delete (take excess keys) out, excess))"

definition vc_dominates :: "vector_clock \<Rightarrow> vector_clock \<Rightarrow> bool" where
  "vc_dominates vc other =
     (if list_ex (\<lambda>(k, v). v < vc_get other k) vc then False
      else if list_ex (\<lambda>(k, ov). map_of vc k = None \<and> ov > 0) other then False
      else list_ex (\<lambda>(k, v). v > vc_get other k) vc)"

definition vc_equal :: "vector_clock \<Rightarrow> vector_clock \<Rightarrow> bool" where
  "vc_equal vc other =
     (if list_ex (\<lambda>(k, v). vc_get other k \<noteq> v) vc then False
      else \<not> list_ex (\<lambda>(k, v). map_of vc k = None \<and> v \<noteq> 0) other)"

definition vc_concurrent :: "vector_clock \<Rightarrow> vector_clock \<Rightarrow> bool" where
  "vc_concurrent vc other \<longleftrightarrow>
     \<not> vc_dominates vc other \<and> \<not> vc_dominates other vc \<and> \<not> vc_equal vc other"

definition vc_validate :: "vector_clock \<Rightarrow> unit result" where
  "vc_validate vc =
     (if length vc > max_vector_clock_entries then Inl ErrInvalidInput
      else if list_ex (\<lambda>(k, v). v < 0 \<or> v \<ge> max_vector_clock_value) vc then Inl ErrInvalidInput
      else Inr ())"

text \<open>
  \<open>MarshalJSON\<close>: the keys in lexical order. Keys are author ids, which are ASCII; the escapes
  of \<open>json.Marshal\<close> for the quote, the backslash, control bytes and the HTML bytes are
  written out.
\<close>

definition hex_digit :: "nat \<Rightarrow> char" where
  "hex_digit d = (if d < 10 then char_of (48 + d) else char_of (87 + d))"

definition json_escape :: "char \<Rightarrow> string" where
  "json_escape c =
     (let b = byte c
      in if b = 34 then [CHR 0x5C, CHR 0x22]
         else if b = 92 then [CHR 0x5C, CHR 0x5C]
         else if b = 8 then [CHR 0x5C, CHR ''b'']
         else if b = 12 then [CHR 0x5C, CHR ''f'']
         else if b = 10 then [CHR 0x5C, CHR ''n'']
         else if b = 13 then [CHR 0x5C, CHR ''r'']
         else if b = 9 then [CHR 0x5C, CHR ''t'']
         else if b < 32 \<or> b = 60 \<or> b = 62 \<or> b = 38
           then [CHR 0x5C, CHR ''u'', CHR ''0'', CHR ''0'', hex_digit (b div 16), hex_digit (b mod 16)]
         else [c])"

definition json_string :: "string \<Rightarrow> string" where
  "json_string s = [CHR 0x22] @ concat (map json_escape s) @ [CHR 0x22]"

definition json_entry :: "vector_clock \<Rightarrow> string \<Rightarrow> string" where
  "json_entry vc k = json_string k @ '':'' @ dec_int (vc_get vc k)"

definition vc_marshal_json :: "vector_clock \<Rightarrow> string" where
  "vc_marshal_json vc =
     (let keys = sort_by (\<lambda>a b. a < b) (map fst vc)
      in ''{'' @ join_with CHR '','' (map (json_entry vc) keys) @ ''}'')"

section \<open>Maps\<close>

definition vc_wf :: "vector_clock \<Rightarrow> bool" where
  "vc_wf vc \<longleftrightarrow> distinct (map fst vc)"

definition same_clock :: "vector_clock \<Rightarrow> vector_clock \<Rightarrow> bool" where
  "same_clock a b \<longleftrightarrow> map_of a = map_of b"

lemma vc_get_cong: "same_clock a b \<Longrightarrow> vc_get a = vc_get b"
  by (rule ext) (simp add: vc_get_def same_clock_def)

lemma same_clock_keys: "same_clock a b \<Longrightarrow> set (map fst a) = set (map fst b)"
  by (simp add: same_clock_def flip: dom_map_of_conv_image_fst)

lemma vc_get_some: "map_of vc k = Some v \<Longrightarrow> vc_get vc k = v"
  by (simp add: vc_get_def)

lemma vc_get_none: "map_of vc k = None \<Longrightarrow> vc_get vc k = 0"
  by (simp add: vc_get_def)

lemma vc_get_update: "vc_get (AList.update k v vc) = (vc_get vc)(k := v)"
  by (rule ext) (simp add: vc_get_def update_conv)

lemma vc_wf_update [intro]: "vc_wf vc \<Longrightarrow> vc_wf (AList.update k v vc)"
  by (simp add: vc_wf_def distinct_update)

lemma vc_wf_put_max [intro]: "vc_wf vc \<Longrightarrow> vc_wf (vc_put_max kv vc)"
  by (cases kv) (auto split: option.splits)

lemma map_of_fold_update:
  "distinct (map fst xs) \<Longrightarrow>
   map_of (fold (\<lambda>(k, v). AList.update k v) xs acc) = map_of acc ++ map_of xs"
proof (induction xs arbitrary: acc)
  case (Cons x xs)
  obtain k v where x: "x = (k, v)" by (cases x)
  with Cons.prems have "map_of xs k = None" by (simp add: map_of_eq_None_iff)
  with Cons x show ?case
    by (auto simp: update_conv' map_add_def fun_eq_iff split: option.splits)
qed simp

lemma map_of_copy: "vc_wf vc \<Longrightarrow> map_of (vc_copy vc) = map_of vc"
  by (simp add: vc_copy_def map_of_fold_update vc_wf_def)

lemma vc_wf_copy [intro]: "vc_wf (vc_copy vc)"
proof -
  have "vc_wf acc \<Longrightarrow> vc_wf (fold (\<lambda>(k, v). AList.update k v) vc acc)" for acc
    by (induction vc arbitrary: acc) (auto simp: split_def)
  then show ?thesis by (simp add: vc_copy_def vc_wf_def)
qed

lemma vc_wf_merge [simp, intro]: "vc_wf (vc_merge a b)"
proof -
  have "vc_wf acc \<Longrightarrow> vc_wf (fold vc_put_max b acc)" for acc
    by (induction b arbitrary: acc) auto
  then show ?thesis by (auto simp: vc_merge_def)
qed

text \<open>The entry of a merged clock: the per-author maximum.\<close>

fun max_entry :: "int option \<Rightarrow> int option \<Rightarrow> int option" where
  "max_entry None y = y"
| "max_entry x None = x"
| "max_entry (Some x) (Some y) = Some (max x y)"

lemma max_entry_laws:
  "max_entry x y = max_entry y x" "max_entry (max_entry x y) z = max_entry x (max_entry y z)"
  "max_entry x x = x" "max_entry x None = x"
  by (cases x; cases y; cases z; simp)+

lemma map_of_put_max: "map_of (vc_put_max (k, v) out) k' =
   (if k' = k then max_entry (map_of out k) (Some v) else map_of out k')"
  by (auto simp: update_conv split: option.splits)

lemma map_of_merge_fold:
  "distinct (map fst xs) \<Longrightarrow>
   map_of (fold vc_put_max xs acc) k = max_entry (map_of acc k) (map_of xs k)"
proof (induction xs arbitrary: acc)
  case Nil
  then show ?case by (simp add: max_entry_laws(4))
next
  case (Cons x xs)
  obtain k' v where x: "x = (k', v)" by (cases x)
  with Cons.prems have "map_of xs k' = None" by (simp add: map_of_eq_None_iff)
  with Cons x show ?case
    by (auto simp: map_of_put_max max_entry_laws simp del: vc_put_max.simps)
qed

lemma map_of_merge:
  "vc_wf a \<Longrightarrow> vc_wf b \<Longrightarrow> map_of (vc_merge a b) k = max_entry (map_of a k) (map_of b k)"
  by (simp add: vc_merge_def map_of_merge_fold map_of_copy flip: vc_wf_def)

interpretation entry: idem_join max_entry
  by unfold_locales (rule max_entry_laws)+

lemma vc_wf_foldl_merge: "vc_wf c \<Longrightarrow> vc_wf (foldl vc_merge c cs)"
  by (induction cs arbitrary: c) auto

lemma map_of_foldl_merge:
  "vc_wf c \<Longrightarrow> \<forall>x \<in> set cs. vc_wf x \<Longrightarrow>
   map_of (foldl vc_merge c cs) k = foldl max_entry (map_of c k) (map (\<lambda>x. map_of x k) cs)"
  by (induction cs arbitrary: c) (auto simp: map_of_merge)

definition vc_nonneg :: "vector_clock \<Rightarrow> bool" where
  "vc_nonneg vc \<longleftrightarrow> list_all (\<lambda>(k, v). 0 \<le> v) vc"

lemma vc_validate_ok [go_result]:
  "vc_validate vc = Inr () \<longleftrightarrow> length vc \<le> max_vector_clock_entries
     \<and> (\<forall>(k, v) \<in> set vc. 0 \<le> v \<and> v < max_vector_clock_value)"
  by (auto simp: vc_validate_def list_ex_iff split_def not_le not_less)

lemma vc_validate_nonneg: "vc_validate vc = Inr () \<Longrightarrow> vc_nonneg vc"
  by (auto simp: go_result vc_nonneg_def list_all_iff)

lemma vc_nonneg_get: "vc_nonneg vc \<Longrightarrow> 0 \<le> vc_get vc k"
  by (auto simp: vc_nonneg_def vc_get_def list_all_iff split: option.splits dest: map_of_SomeD)

lemma vc_get_merge:
  assumes "vc_wf a" "vc_wf b" "vc_nonneg a" "vc_nonneg b"
  shows "vc_get (vc_merge a b) k = max (vc_get a k) (vc_get b k)"
  using vc_nonneg_get[OF assms(3), of k] vc_nonneg_get[OF assms(4), of k] assms(1,2)
  by (auto simp: vc_get_def map_of_merge split: option.splits)

lemma entries_iff:
  "vc_wf vc \<Longrightarrow> (\<exists>(k, v) \<in> set vc. P k v) \<longleftrightarrow> (\<exists>k v. map_of vc k = Some v \<and> P k v)"
  by (auto simp: vc_wf_def)

text \<open>
  C40. Merging vector clocks converges: starting from one clock, replicas that merge the same
  set of clocks reach the same clock, whatever the order of the merges, however often a clock
  is merged again, and whatever order Go visits the maps in; and the merged clock of two
  clocks holds exactly the per-author maximum, so it is their least upper bound.
\<close>
theorem vc_merge_converges:
  assumes "vc_wf c" and "\<forall>x \<in> set cs \<union> set ds. vc_wf x \<and> vc_nonneg x" and "set cs = set ds"
  shows "same_clock (foldl vc_merge c cs) (foldl vc_merge c ds)
       \<and> (\<forall>a \<in> set cs. \<forall>b \<in> set cs. \<forall>k.
            vc_get (vc_merge a b) k = max (vc_get a k) (vc_get b k))"
proof
  show "same_clock (foldl vc_merge c cs) (foldl vc_merge c ds)"
    unfolding same_clock_def
  proof (rule ext)
    fix k
    have "foldl max_entry (map_of c k) (map (\<lambda>x. map_of x k) cs)
            = foldl max_entry (map_of c k) (map (\<lambda>x. map_of x k) ds)"
      using assms(3) by (intro entry.merges_converge) simp
    then show "map_of (foldl vc_merge c cs) k = map_of (foldl vc_merge c ds) k"
      using assms(1,2) by (simp add: map_of_foldl_merge)
  qed
  show "\<forall>a \<in> set cs. \<forall>b \<in> set cs. \<forall>k.
          vc_get (vc_merge a b) k = max (vc_get a k) (vc_get b k)"
    using assms(2) by (auto intro: vc_get_merge)
qed

theorem vc_merge_converges_witness:
  "same_clock
     (foldl vc_merge [(''me'', 4)] [[(''a'', 1), (''b'', 5)], [(''b'', 3), (''c'', 2)]])
     (foldl vc_merge [(''me'', 4)]
        [[(''b'', 3), (''c'', 2)], [(''a'', 1), (''b'', 5)], [(''b'', 3), (''c'', 2)]])"
  by (rule vc_merge_converges[THEN conjunct1])
     (auto simp: vc_wf_def vc_nonneg_def)

text \<open>The strict pointwise order of clocks.\<close>

definition vc_below :: "vector_clock \<Rightarrow> vector_clock \<Rightarrow> bool" where
  "vc_below a b \<longleftrightarrow> (\<forall>k. vc_get a k \<le> vc_get b k) \<and> (\<exists>k. vc_get a k < vc_get b k)"

lemma vc_dominates_iff:
  assumes "vc_wf vc" "vc_wf other" "vc_nonneg vc" "vc_nonneg other"
  shows "vc_dominates vc other \<longleftrightarrow> vc_below other vc"
proof -
  have nonneg: "0 \<le> vc_get vc k" "0 \<le> vc_get other k" for k
    using assms(3,4) by (auto intro: vc_nonneg_get)
  have le: "(\<not> (\<exists>(k, v) \<in> set vc. v < vc_get other k)
             \<and> \<not> (\<exists>(k, ov) \<in> set other. map_of vc k = None \<and> ov > 0))
            \<longleftrightarrow> (\<forall>k. vc_get other k \<le> vc_get vc k)"
    (is "?l \<longleftrightarrow> ?r")
  proof
    assume ?l
    show ?r
    proof
      fix k
      show "vc_get other k \<le> vc_get vc k"
        using \<open>?l\<close> nonneg[of k] assms(1,2)
        by (cases "map_of vc k"; cases "map_of other k")
           (force simp: entries_iff vc_get_def)+
    qed
  next
    assume le: ?r
    have "\<not> v < vc_get other k" if "map_of vc k = Some v" for k v
      using le vc_get_some[OF that] by (metis not_less)
    moreover have "\<not> ov > 0" if "map_of vc k = None" "map_of other k = Some ov" for k ov
      using le vc_get_none[OF that(1)] vc_get_some[OF that(2)] by (metis not_less)
    ultimately show ?l
      using assms(1,2) by (auto simp: entries_iff)
  qed
  have "(\<exists>(k, v) \<in> set vc. v > vc_get other k) \<longleftrightarrow> (\<exists>k. vc_get other k < vc_get vc k)"
  proof -
    have "vc_get other k < vc_get vc k \<longleftrightarrow> (\<exists>v. map_of vc k = Some v \<and> v > vc_get other k)" for k
      using nonneg[of k] by (auto simp: vc_get_def[of vc] split: option.splits)
    then show ?thesis using assms(1) by (simp add: entries_iff)
  qed
  with le show ?thesis by (auto simp: vc_dominates_def vc_below_def list_ex_iff split_def)
qed

lemma vc_equal_iff:
  assumes "vc_wf vc" "vc_wf other"
  shows "vc_equal vc other \<longleftrightarrow> vc_get vc = vc_get other"
proof
  assume eq: "vc_equal vc other"
  show "vc_get vc = vc_get other"
  proof
    fix k
    show "vc_get vc k = vc_get other k"
      using eq assms
      by (cases "map_of vc k"; cases "map_of other k")
         (force simp: vc_equal_def list_ex_iff entries_iff vc_get_def split: if_splits)+
  qed
next
  assume get: "vc_get vc = vc_get other"
  have "vc_get other k = v" if "map_of vc k = Some v" for k v
    using get vc_get_some[OF that] by simp
  moreover have "v = 0" if "map_of vc k = None" "map_of other k = Some v" for k v
    using get vc_get_none[OF that(1)] vc_get_some[OF that(2)] by simp
  ultimately show "vc_equal vc other"
    using assms
    by (auto simp: vc_equal_def list_ex_iff entries_iff) (metis option.exhaust)
qed

text \<open>
  Causality is the pointwise order. For clocks that pass validation, \<open>Dominates\<close> holds
  exactly when every author's counter is at least the other's and one is strictly greater
  (missing authors counting as 0), and any two clocks are in exactly one of the four relations
  the conflict rules distinguish: dominating, dominated, equal, or concurrent.
\<close>
theorem vc_causality_total:
  assumes "vc_wf a" "vc_wf b" "vc_validate a = Inr ()" "vc_validate b = Inr ()"
  shows "(vc_dominates a b \<longleftrightarrow> vc_below b a)
       \<and> length (filter id [vc_dominates a b, vc_dominates b a, vc_equal a b, vc_concurrent a b]) = 1"
proof -
  note nn = vc_validate_nonneg[OF assms(3)] vc_validate_nonneg[OF assms(4)]
  have ab: "vc_dominates a b \<longleftrightarrow> vc_below b a" and ba: "vc_dominates b a \<longleftrightarrow> vc_below a b"
    using assms(1,2) nn by (auto simp: vc_dominates_iff)
  have eq: "vc_equal a b \<longleftrightarrow> vc_get a = vc_get b" using assms(1,2) by (rule vc_equal_iff)
  have "\<not> (vc_below a b \<and> vc_below b a)" by (auto simp: vc_below_def) (metis not_le)
  moreover have "vc_get a = vc_get b \<Longrightarrow> \<not> vc_below a b \<and> \<not> vc_below b a"
    by (simp add: vc_below_def)
  ultimately show ?thesis using ab ba eq by (auto simp: vc_concurrent_def)
qed

section \<open>Pruning\<close>

lemma update_append_fresh: "k \<notin> fst ` set acc \<Longrightarrow> AList.update k v acc = acc @ [(k, v)]"
  by (induction acc) auto

lemma fold_update_fresh:
  "distinct (map fst (acc @ xs)) \<Longrightarrow> fold (\<lambda>(k, v). AList.update k v) xs acc = acc @ xs"
proof (induction xs arbitrary: acc)
  case (Cons x xs)
  obtain k v where x: "x = (k, v)" by (cases x)
  with Cons.prems have "k \<notin> fst ` set acc" by auto
  then have "AList.update k v acc = acc @ [(k, v)]" by (rule update_append_fresh)
  with Cons x show ?case by simp
qed simp

lemma vc_copy_id: "vc_wf vc \<Longrightarrow> vc_copy vc = vc"
  using fold_update_fresh[of "[]" vc] by (simp add: vc_copy_def vc_wf_def)

lemma keep_rank_None: "keep_rank keep k = None \<longleftrightarrow> k \<notin> set keep"
  by (induction keep) auto

lemma keep_rank_inj: "keep_rank keep a = Some n \<Longrightarrow> keep_rank keep b = Some n \<Longrightarrow> a = b"
  by (induction keep arbitrary: n) (auto split: if_splits)

interpretation prune_order: strict_total "prune_before keep out" for keep out
proof unfold_locales
  fix a b c
  show "\<not> prune_before keep out a a" by (auto simp: prune_before_def split: option.splits)
  show "prune_before keep out a b \<Longrightarrow> prune_before keep out b c \<Longrightarrow> prune_before keep out a c"
    by (auto simp: prune_before_def split: option.splits if_splits)
  show "a \<noteq> b \<Longrightarrow> prune_before keep out a b \<or> prune_before keep out b a"
    by (auto simp: prune_before_def split: option.splits dest: keep_rank_inj)
qed

lemma map_of_fold_delete:
  "map_of (fold AList.delete ks vc) k = (if k \<in> set ks then None else map_of vc k)"
  by (induction ks arbitrary: vc) (auto simp: delete_conv)

lemma vc_wf_fold_delete: "vc_wf vc \<Longrightarrow> vc_wf (fold AList.delete ks vc)"
  by (induction ks arbitrary: vc) (auto simp: vc_wf_def distinct_delete)

lemma vc_keys_card: "vc_wf vc \<Longrightarrow> length vc = card (dom (map_of vc))"
  using distinct_card[of "map fst vc"] by (simp add: vc_wf_def dom_map_of_conv_image_fst)

lemma length_fold_delete:
  assumes "vc_wf vc" "distinct ks" "set ks \<subseteq> dom (map_of vc)"
  shows "length (fold AList.delete ks vc) = length vc - length ks"
proof -
  have "dom (map_of (fold AList.delete ks vc)) = dom (map_of vc) - set ks"
    by (auto simp: dom_def map_of_fold_delete split: if_splits)
  then show ?thesis
    using assms vc_wf_fold_delete[OF assms(1)]
    by (simp add: vc_keys_card card_Diff_subset distinct_card)
qed

lemma prune_split:
  assumes "vc_wf vc" "length vc > max_vector_clock_entries"
  obtains ks where "vc_prune keep vc = (fold AList.delete ks vc, length vc - max_vector_clock_entries)"
    "distinct ks" "set ks \<subseteq> dom (map_of vc)" "length ks = length vc - max_vector_clock_entries"
    "\<forall>d \<in> set ks. \<forall>k \<in> dom (map_of vc) - set ks. prune_before keep vc d k"
    "\<And>vc2. vc_wf vc2 \<Longrightarrow> same_clock vc vc2 \<Longrightarrow>
       vc_prune keep vc2 = (fold AList.delete ks vc2, length vc - max_vector_clock_entries)"
proof -
  define n where "n = length vc - max_vector_clock_entries"
  define keys where "keys = sort_by (prune_before keep vc) (map fst vc)"
  have d: "distinct (map fst vc)" using assms(1) by (simp add: vc_wf_def)
  have sorted: "sorted_wrt (prune_before keep vc) (take n keys @ drop n keys)"
    using prune_order.sorted_sort[OF d] by (simp add: keys_def)
  have keys: "distinct keys" "set keys = dom (map_of vc)" "length keys = length vc"
    using d by (simp_all add: keys_def dom_map_of_conv_image_fst)
  show ?thesis
  proof (rule that[of "take n keys"])
    show "vc_prune keep vc = (fold AList.delete (take n keys) vc, length vc - max_vector_clock_entries)"
      using assms by (simp add: vc_prune_def vc_copy_id keys_def n_def Let_def)
    show "distinct (take n keys)" "set (take n keys) \<subseteq> dom (map_of vc)"
      using keys set_take_subset[of n keys] by auto
    show "length (take n keys) = length vc - max_vector_clock_entries"
      using keys(3) by (simp add: n_def)
    have "dom (map_of vc) - set (take n keys) \<subseteq> set (drop n keys)"
      using keys(2) by (metis Diff_subset_conv append_take_drop_id order_refl set_append)
    then show "\<forall>d \<in> set (take n keys). \<forall>k \<in> dom (map_of vc) - set (take n keys).
        prune_before keep vc d k"
      using sorted unfolding sorted_wrt_append by blast
  next
    fix vc2
    assume wf2: "vc_wf vc2" and same: "same_clock vc vc2"
    have before: "prune_before keep vc2 = prune_before keep vc"
      unfolding prune_before_def vc_get_cong[OF same] ..
    have "length vc2 = length vc"
      using same assms(1) wf2 by (simp add: vc_keys_card same_clock_def)
    moreover have "sort_by (prune_before keep vc2) (map fst vc2) = keys"
      unfolding keys_def before
      using wf2 d same_clock_keys[OF same]
      by (intro prune_order.sort_order_independent) (simp_all add: vc_wf_def)
    ultimately show "vc_prune keep vc2
        = (fold AList.delete (take n keys) vc2, length vc - max_vector_clock_entries)"
      using assms(2) wf2 by (simp add: vc_prune_def vc_copy_id n_def Let_def)
  qed
qed

lemma max_vector_clock_entries_pos: "0 < max_vector_clock_entries"
  by (simp add: max_vector_clock_entries_def)

lemma vc_prune_laws:
  assumes "vc_wf vc"
  shows "length (fst (vc_prune keep vc)) \<le> max_vector_clock_entries
       \<and> length (fst (vc_prune keep vc)) + snd (vc_prune keep vc) = length vc
       \<and> (\<forall>k v. map_of (fst (vc_prune keep vc)) k = Some v \<longrightarrow> map_of vc k = Some v)
       \<and> (\<forall>d k. d \<notin> set keep \<and> k \<notin> set keep
            \<and> d \<in> dom (map_of vc) \<and> d \<notin> dom (map_of (fst (vc_prune keep vc)))
            \<and> k \<in> dom (map_of (fst (vc_prune keep vc))) \<longrightarrow> vc_get vc d \<le> vc_get vc k)
       \<and> (keep \<noteq> [] \<longrightarrow> map_of (fst (vc_prune keep vc)) (hd keep) = map_of vc (hd keep))
       \<and> (card (set keep \<inter> dom (map_of vc)) \<le> max_vector_clock_entries \<longrightarrow>
            (\<forall>k \<in> set keep. map_of (fst (vc_prune keep vc)) k = map_of vc k))
       \<and> (\<forall>vc2. vc_wf vc2 \<and> same_clock vc vc2 \<longrightarrow>
            same_clock (fst (vc_prune keep vc)) (fst (vc_prune keep vc2)))"
proof (cases "length vc \<le> max_vector_clock_entries")
  case True
  have "vc_prune keep vc2 = (vc2, 0)" if "vc_wf vc2" "same_clock vc vc2" for vc2
  proof -
    have "length vc2 = length vc" using that assms by (simp add: vc_keys_card same_clock_def)
    with True that show ?thesis by (simp add: vc_prune_def vc_copy_id)
  qed
  with assms True show ?thesis by (auto simp: same_clock_def)
next
  case False
  then obtain ks where ks:
    "vc_prune keep vc = (fold AList.delete ks vc, length vc - max_vector_clock_entries)"
    "distinct ks" "set ks \<subseteq> dom (map_of vc)" "length ks = length vc - max_vector_clock_entries"
    "\<forall>d \<in> set ks. \<forall>k \<in> dom (map_of vc) - set ks. prune_before keep vc d k"
    "\<And>vc2. vc_wf vc2 \<Longrightarrow> same_clock vc vc2 \<Longrightarrow>
       vc_prune keep vc2 = (fold AList.delete ks vc2, length vc - max_vector_clock_entries)"
    using prune_split[OF assms] by (metis not_le)
  define kept where "kept = dom (map_of vc) - set ks"
  have map: "map_of (fst (vc_prune keep vc)) k = (if k \<in> set ks then None else map_of vc k)" for k
    using ks(1) by (simp add: map_of_fold_delete)
  have len: "length (fst (vc_prune keep vc)) = max_vector_clock_entries"
    using length_fold_delete[OF assms ks(2,3)] ks(1,4) False by simp
  have card_kept: "card kept = max_vector_clock_entries"
    using ks(2-4) False assms
    by (simp add: kept_def card_Diff_subset distinct_card flip: vc_keys_card)
  have before: "prune_before keep vc d k" if "d \<in> set ks" "k \<in> kept" for d k
    using ks(5) that by (auto simp: kept_def)
  have small: "vc_get vc d \<le> vc_get vc k" if "d \<in> set ks" "k \<in> kept" "d \<notin> set keep" "k \<notin> set keep" for d k
  proof -
    have "keep_rank keep d = None" "keep_rank keep k = None" using that(3,4) by (simp_all add: keep_rank_None)
    then show ?thesis using before[OF that(1,2)] by (simp add: prune_before_def split: if_splits)
  qed
  have protected_drop: "\<exists>rd rk. keep_rank keep d = Some rd \<and> keep_rank keep k = Some rk \<and> rd > rk"
    if "d \<in> set ks" "k \<in> kept" "d \<in> set keep" for d k
  proof -
    note b = before[OF that(1,2)]
    have "keep_rank keep d \<noteq> None" using that(3) by (simp add: keep_rank_None)
    then obtain rd where "keep_rank keep d = Some rd" by blast
    then show ?thesis
      using b by (cases "keep_rank keep k") (simp_all add: prune_before_def)
  qed
  obtain k0 where k0: "k0 \<in> kept"
    using card_kept max_vector_clock_entries_pos by (cases "kept = {}") auto
  have first: "hd keep \<notin> set ks" if ne: "keep \<noteq> []"
  proof
    assume "hd keep \<in> set ks"
    then obtain rd rk where "keep_rank keep (hd keep) = Some rd" "rk < rd"
      using protected_drop[OF _ k0, of "hd keep"] ne by auto
    moreover have "keep_rank keep (hd keep) = Some 0" using ne by (cases keep) auto
    ultimately show False by simp
  qed
  have all: "k \<notin> set ks"
    if "card (set keep \<inter> dom (map_of vc)) \<le> max_vector_clock_entries" "k \<in> set keep" for k
  proof
    assume k: "k \<in> set ks"
    have "kept \<subseteq> set keep \<inter> dom (map_of vc)"
    proof
      fix x assume x: "x \<in> kept"
      then have "keep_rank keep x \<noteq> None" using protected_drop[OF k x that(2)] by auto
      then show "x \<in> set keep \<inter> dom (map_of vc)" using x by (auto simp: keep_rank_None kept_def)
    qed
    moreover have "k \<in> set keep \<inter> dom (map_of vc)" "k \<notin> kept" using k that(2) ks(3) by (auto simp: kept_def)
    ultimately have "kept \<subset> set keep \<inter> dom (map_of vc)" by blast
    then have "card kept < card (set keep \<inter> dom (map_of vc))" by (intro psubset_card_mono) auto
    with that(1) card_kept show False by simp
  qed
  have same: "same_clock (fst (vc_prune keep vc)) (fst (vc_prune keep vc2))"
    if "vc_wf vc2" "same_clock vc vc2" for vc2
    using ks(1,6) that by (simp add: same_clock_def map_of_fold_delete fun_eq_iff)
  have small': "vc_get vc d \<le> vc_get vc k"
    if "d \<notin> set keep" "k \<notin> set keep" "d \<in> dom (map_of vc)"
      "d \<notin> dom (map_of (fst (vc_prune keep vc)))" "k \<in> dom (map_of (fst (vc_prune keep vc)))" for d k
  proof -
    have "d \<in> set ks" "k \<in> kept" using that(3-5) map by (auto simp: kept_def dom_def split: if_splits)
    then show ?thesis using small that(1,2) by blast
  qed
  show ?thesis
    using len ks(1) False map first all same small' by (auto split: if_splits)
qed

text \<open>
  Pruning keeps what must be kept. The pruned clock has at most 100 entries, drops exactly
  the reported number, changes no kept counter, and (when it drops any) drops no unprotected
  author whose counter is larger than that of a kept unprotected one. The first protected
  author always survives, so the local counter never resets; every protected author survives
  when the protected authors fit the cap. And the outcome is a function of the clock alone,
  never of the order in which Go visits the map.
\<close>
theorem vc_prune_keeps:
  assumes "vc_wf vc"
  shows "length (fst (vc_prune keep vc)) \<le> max_vector_clock_entries
       \<and> length (fst (vc_prune keep vc)) + snd (vc_prune keep vc) = length vc
       \<and> (\<forall>k v. map_of (fst (vc_prune keep vc)) k = Some v \<longrightarrow> map_of vc k = Some v)
       \<and> (\<forall>d k. d \<notin> set keep \<and> k \<notin> set keep
            \<and> d \<in> dom (map_of vc) \<and> d \<notin> dom (map_of (fst (vc_prune keep vc)))
            \<and> k \<in> dom (map_of (fst (vc_prune keep vc))) \<longrightarrow> vc_get vc d \<le> vc_get vc k)
       \<and> (keep \<noteq> [] \<longrightarrow> map_of (fst (vc_prune keep vc)) (hd keep) = map_of vc (hd keep))
       \<and> (card (set keep \<inter> dom (map_of vc)) \<le> max_vector_clock_entries \<longrightarrow>
            (\<forall>k \<in> set keep. map_of (fst (vc_prune keep vc)) k = map_of vc k))
       \<and> (\<forall>vc2. vc_wf vc2 \<and> same_clock vc vc2 \<longrightarrow>
            same_clock (fst (vc_prune keep vc)) (fst (vc_prune keep vc2)))"
  using assms by (rule vc_prune_laws)

definition prune_example :: vector_clock where
  "prune_example = map (\<lambda>i. (dec_nat i, int i)) [0..<101]"

theorem vc_prune_keeps_witness:
  "map_of (fst (vc_prune [''7'', ''0''] prune_example)) ''7'' = map_of prune_example ''7''"
proof -
  have "vc_wf prune_example"
    by (simp add: vc_wf_def prune_example_def comp_def distinct_map inj_on_def dec_nat_inject)
  from vc_prune_keeps[OF this, of "[''7'', ''0'']", THEN conjunct2, THEN conjunct2, THEN conjunct2,
      THEN conjunct2, THEN conjunct1]
  show ?thesis by simp
qed

section \<open>The canonical JSON text\<close>

text \<open>\<open>authorIDPattern\<close>: \<open>[a-z0-9_-]{1,64}\<close>, anchored.\<close>

definition author_char :: "char \<Rightarrow> bool" where
  "author_char c \<longleftrightarrow> is_lower c \<or> is_digit c \<or> c = CHR ''_'' \<or> c = CHR ''-''"

definition is_valid_author_id :: "string \<Rightarrow> bool" where
  "is_valid_author_id s \<longleftrightarrow> 1 \<le> length s \<and> length s \<le> 64 \<and> list_all author_char s"

interpretation key_order: strict_total "\<lambda>a b :: string. a < b"
  by unfold_locales auto

lemma author_char_plain:
  assumes "author_char c"
  shows "json_escape c = [c]" "c \<noteq> CHR '',''" "c \<noteq> CHR '':''"
  using assms
  by (auto simp: author_char_def json_escape_def Let_def is_lower_def is_digit_def byte_def)

lemma json_string_author: "list_all author_char k \<Longrightarrow> json_string k = CHR 0x22 # k @ [CHR 0x22]"
  by (induction k) (auto simp: json_string_def author_char_plain)

lemma dec_int_no_byte: "\<not> is_digit c \<Longrightarrow> c \<noteq> CHR ''-'' \<Longrightarrow> c \<notin> set (dec_int i)"
  by (auto simp: dec_int_def dec_nat_no_byte)

lemma dec_int_inject: "dec_int i = dec_int j \<longleftrightarrow> i = j"
proof
  have minus: "CHR ''-'' \<notin> set (dec_nat n)" for n by (simp add: dec_nat_no_byte)
  assume eq: "dec_int i = dec_int j"
  then have "i < 0 \<longleftrightarrow> j < 0"
    using minus by (metis dec_int_def list.set_intros(1))
  with eq show "i = j" by (auto simp: dec_int_def dec_nat_inject split: if_splits)
qed simp

lemma json_entry_read:
  assumes "list_all author_char k"
  shows "cut CHR '':'' (json_entry vc k)
           = (CHR 0x22 # k @ [CHR 0x22], dec_int (vc_get vc k), True)"
    and "CHR '','' \<notin> set (json_entry vc k)" and "json_entry vc k \<noteq> []"
proof -
  have mem: "\<forall>c \<in> set k. author_char c" using assms by (simp add: list_all_iff)
  have "CHR '':'' \<notin> set (CHR 0x22 # k @ [CHR 0x22])" "CHR '','' \<notin> set k"
    using mem author_char_plain(2,3) by auto
  moreover have "\<not> is_digit CHR '',''" by (simp add: is_digit_def byte_def)
  ultimately show "cut CHR '':'' (json_entry vc k)
           = (CHR 0x22 # k @ [CHR 0x22], dec_int (vc_get vc k), True)"
    and "CHR '','' \<notin> set (json_entry vc k)" and "json_entry vc k \<noteq> []"
    using cut_append[of "CHR '':''" "CHR 0x22 # k @ [CHR 0x22]"] dec_int_no_byte[of "CHR '',''"]
    by (auto simp: json_entry_def json_string_author[OF assms])
qed

text \<open>
  The JSON text of a clock is canonical: two clocks whose authors match the author grammar
  have byte-identical texts exactly when they hold the same counters, whatever order Go visits
  either map in. (The content hash of an event relies on it.)
\<close>
theorem vc_marshal_canonical:
  assumes "vc_wf a" "vc_wf b" and "\<forall>(k, v) \<in> set a \<union> set b. is_valid_author_id k"
  shows "vc_marshal_json a = vc_marshal_json b \<longleftrightarrow> same_clock a b"
proof
  assume same: "same_clock a b"
  have keys: "sort_by (\<lambda>a b. a < b) (map fst a) = sort_by (\<lambda>a b. a < b) (map fst b)"
    using assms(1,2) same_clock_keys[OF same]
    by (intro key_order.sort_order_independent) (simp_all add: vc_wf_def)
  show "vc_marshal_json a = vc_marshal_json b"
    unfolding vc_marshal_json_def Let_def keys json_entry_def vc_get_cong[OF same] ..
next
  define ka where "ka = sort_by (\<lambda>a b. a < b) (map fst a)"
  define kb where "kb = sort_by (\<lambda>a b. a < b) (map fst b)"
  have ok: "\<forall>k \<in> set ka \<union> set kb. list_all author_char k"
    using assms(3) by (auto simp: ka_def kb_def is_valid_author_id_def)
  assume "vc_marshal_json a = vc_marshal_json b"
  then have join: "join_with CHR '','' (map (json_entry a) ka) = join_with CHR '','' (map (json_entry b) kb)"
    by (simp add: vc_marshal_json_def Let_def ka_def kb_def)
  have split: "split_on CHR '','' (join_with CHR '','' (map (json_entry vc) ks)) = map (json_entry vc) ks"
    if "ks \<noteq> []" "\<forall>k \<in> set ks. list_all author_char k" for vc ks
    using that by (intro split_join) (auto simp: json_entry_read)
  have empty: "ks = []" if "join_with CHR '','' (map (json_entry vc) ks) = []"
    "\<forall>k \<in> set ks. list_all author_char k" for vc ks
    using that by (cases ks rule: remdups_adj.cases) (auto simp: json_entry_read)
  have entries: "map (json_entry a) ka = map (json_entry b) kb"
  proof (cases "ka = [] \<or> kb = []")
    case True
    have "\<forall>k \<in> set ka. list_all author_char k" "\<forall>k \<in> set kb. list_all author_char k"
      using ok by simp_all
    then have "ka = [] \<and> kb = []"
      using True join empty[of a ka] empty[of b kb] by force
    then show ?thesis by simp
  next
    case False
    then have "map (json_entry a) ka = split_on CHR '','' (join_with CHR '','' (map (json_entry a) ka))"
      using ok by (intro split[symmetric]) auto
    also have "\<dots> = map (json_entry b) kb"
      unfolding join using False ok by (intro split) auto
    finally show ?thesis .
  qed
  have read: "map (\<lambda>e. case cut CHR '':'' e of (k, d, f) \<Rightarrow> (butlast (tl k), d)) (map (json_entry vc) ks)
                = map (\<lambda>k. (k, dec_int (vc_get vc k))) ks"
    if "\<forall>k \<in> set ks. list_all author_char k" for vc ks
    using that by (auto simp: json_entry_read)
  have pairs: "map (\<lambda>k. (k, dec_int (vc_get a k))) ka = map (\<lambda>k. (k, dec_int (vc_get b k))) kb"
    using read[of ka a] read[of kb b] entries ok by simp
  from arg_cong[OF pairs, of "map fst"] have keys: "ka = kb" by (simp add: comp_def)
  with pairs have get: "vc_get a k = vc_get b k" if "k \<in> set ka" for k
    using that by (simp add: dec_int_inject)
  have "set ka = dom (map_of a)" by (simp add: ka_def dom_map_of_conv_image_fst)
  moreover have "set kb = dom (map_of b)" by (simp add: kb_def dom_map_of_conv_image_fst)
  ultimately have dom: "dom (map_of a) = set ka" "dom (map_of b) = set ka" using keys by simp_all
  show "same_clock a b"
    unfolding same_clock_def
  proof
    fix k
    show "map_of a k = map_of b k"
    proof (cases "k \<in> set ka")
      case True
      then have "k \<in> dom (map_of a)" "k \<in> dom (map_of b)" using dom by simp_all
      then show ?thesis using get[OF True] by (auto simp: vc_get_def)
    next
      case False
      then have "k \<notin> dom (map_of a)" "k \<notin> dom (map_of b)" using dom by simp_all
      then show ?thesis by (simp add: domIff)
    qed
  qed
qed

end
