(* ===== verification/State_Machine.thy ===== *)
theory State_Machine
  imports Model_Types
begin

text \<open>
  \<open>internal/model/state_machine.go\<close>: the table of valid status transitions with their
  constraints, its lookups, and the step relation a node's status follows.
\<close>

datatype transition_constraint =
    ConstraintNone
  | ConstraintRequiresReopen
  | ConstraintRequiresUnclaim
  | ConstraintAutoOnly
  | ConstraintRequiresRestore
  | ConstraintRequiresClaim

text \<open>The map \<open>validTransitions\<close>; \<open>None\<close> is a missing key.\<close>

fun valid_transitions :: "status \<Rightarrow> (status \<times> transition_constraint) list option" where
  "valid_transitions StatusOpen = Some
     [(StatusInProgress, ConstraintNone), (StatusDeferred, ConstraintNone),
      (StatusCancelled, ConstraintNone), (StatusBlocked, ConstraintAutoOnly),
      (StatusInvalidated, ConstraintAutoOnly)]"
| "valid_transitions StatusInProgress = Some
     [(StatusDone, ConstraintNone), (StatusDeferred, ConstraintNone),
      (StatusCancelled, ConstraintNone), (StatusOpen, ConstraintRequiresUnclaim),
      (StatusBlocked, ConstraintAutoOnly), (StatusInvalidated, ConstraintAutoOnly)]"
| "valid_transitions StatusBlocked = Some
     [(StatusOpen, ConstraintAutoOnly), (StatusInProgress, ConstraintAutoOnly),
      (StatusCancelled, ConstraintNone), (StatusInvalidated, ConstraintAutoOnly)]"
| "valid_transitions StatusDone = Some
     [(StatusOpen, ConstraintRequiresReopen), (StatusInvalidated, ConstraintAutoOnly)]"
| "valid_transitions StatusDeferred = Some
     [(StatusOpen, ConstraintNone), (StatusInProgress, ConstraintRequiresClaim),
      (StatusCancelled, ConstraintNone), (StatusInvalidated, ConstraintAutoOnly)]"
| "valid_transitions StatusCancelled = Some
     [(StatusOpen, ConstraintRequiresReopen), (StatusInvalidated, ConstraintAutoOnly)]"
| "valid_transitions StatusInvalidated = Some
     [(StatusOpen, ConstraintRequiresRestore), (StatusInProgress, ConstraintRequiresRestore),
      (StatusDeferred, ConstraintRequiresRestore), (StatusCancelled, ConstraintNone)]"
| "valid_transitions (StatusOther s) = None"

definition validate_transition :: "status \<Rightarrow> status \<Rightarrow> unit result" where
  "validate_transition src dst =
     (if src = dst then Inr ()
      else case valid_transitions src of
             None \<Rightarrow> Inl ErrInvalidTransition
           | Some entries \<Rightarrow>
               if list_ex (\<lambda>e. fst e = dst) entries then Inr () else Inl ErrInvalidTransition)"

definition transition_constraint_for :: "status \<Rightarrow> status \<Rightarrow> transition_constraint" where
  "transition_constraint_for src dst =
     (case valid_transitions src of
        None \<Rightarrow> ConstraintNone
      | Some entries \<Rightarrow>
          (case find (\<lambda>e. fst e = dst) entries of Some e \<Rightarrow> snd e | None \<Rightarrow> ConstraintNone))"

definition is_auto_managed_transition :: "status \<Rightarrow> status \<Rightarrow> bool" where
  "is_auto_managed_transition src dst \<longleftrightarrow>
     transition_constraint_for src dst = ConstraintAutoOnly"

text \<open>
  \<open>GetAllTransitions\<close> ranges over the Go map, whose order is not fixed: the model takes the
  order the range visits the keys in.
\<close>

definition get_all_transitions ::
  "status list \<Rightarrow> (status \<times> status \<times> transition_constraint) list" where
  "get_all_transitions keys =
     concat (map (\<lambda>src. case valid_transitions src of None \<Rightarrow> []
        | Some es \<Rightarrow> map (\<lambda>(dst, c). (src, dst, c)) es) keys)"

section \<open>The step relation of a node's status\<close>

text \<open>One validated change of status; an unchanged status is a no-op, not a step.\<close>

inductive status_step :: "status \<Rightarrow> status \<Rightarrow> bool" where
  allowed: "src \<noteq> dst \<Longrightarrow> validate_transition src dst = Inr () \<Longrightarrow> status_step src dst"

inductive_cases status_stepE: "status_step src dst"
inductive_simps status_step_simps: "status_step src dst"

text \<open>The statuses a node can reach from \<open>open\<close>, the status it is created with.\<close>

inductive status_reachable :: "status \<Rightarrow> bool" where
  created: "status_reachable StatusOpen"
| changed: "status_reachable s \<Longrightarrow> status_step s t \<Longrightarrow> status_reachable t"

lemma validate_transition_ok [go_result]:
  "validate_transition src dst = Inr () \<longleftrightarrow>
     src = dst \<or> (\<exists>es c. valid_transitions src = Some es \<and> (dst, c) \<in> set es)"
  by (auto simp: validate_transition_def list_ex_iff split: option.splits)

lemma validate_transition_error:
  "validate_transition src dst = Inl e \<Longrightarrow> e = ErrInvalidTransition"
  by (auto simp: validate_transition_def split: if_splits option.splits)

lemma valid_transitions_targets:
  "valid_transitions src = Some es \<Longrightarrow> (dst, c) \<in> set es \<Longrightarrow>
   status_is_valid src \<and> status_is_valid dst \<and> src \<noteq> dst"
  by (cases src) auto

lemma valid_transitions_functional:
  "valid_transitions src = Some es \<Longrightarrow> distinct (map fst es)"
  by (cases src) auto

lemma status_step_valid: "status_step src dst \<Longrightarrow> status_is_valid src \<and> status_is_valid dst"
  by (auto simp: status_step_simps go_result dest: valid_transitions_targets)

lemma transition_constraint_for_entry:
  assumes "valid_transitions src = Some es" "(dst, c) \<in> set es"
  shows "transition_constraint_for src dst = c"
proof -
  have "distinct (map fst es)" using assms(1) by (rule valid_transitions_functional)
  with assms(2) have "find (\<lambda>e. fst e = dst) es = Some (dst, c)"
    by (induction es) (auto simp: rev_image_eqI)
  with assms(1) show ?thesis by (simp add: transition_constraint_for_def)
qed

lemma status_step_edge:
  assumes "status_step s t"
  obtains es c where "valid_transitions s = Some es" "(t, c) \<in> set es"
  using assms by (auto simp: status_step_simps go_result)



text \<open>
  A finished node never moves silently. Every transition out of \<open>done\<close> or \<open>cancelled\<close> is
  either the explicit reopen to \<open>open\<close> or the system's own invalidation, \<open>done\<close> is entered only
  from \<open>in_progress\<close>, and \<open>blocked\<close> is entered only by the system (never by a user command).
\<close>
theorem status_machine_guards:
  assumes "status_step s t"
  shows "(s = StatusDone \<or> s = StatusCancelled \<longrightarrow>
            (t = StatusOpen \<and> transition_constraint_for s t = ConstraintRequiresReopen)
            \<or> (t = StatusInvalidated \<and> is_auto_managed_transition s t))
       \<and> (t = StatusDone \<longrightarrow> s = StatusInProgress)
       \<and> (t = StatusBlocked \<longrightarrow> (s = StatusOpen \<or> s = StatusInProgress)
                                \<and> is_auto_managed_transition s t)"
proof -
  from assms obtain es c where e: "valid_transitions s = Some es" "(t, c) \<in> set es"
    by (rule status_step_edge)
  then have "transition_constraint_for s t = c" by (rule transition_constraint_for_entry)
  with e show ?thesis
    by (cases s) (auto simp: is_auto_managed_transition_def)
qed

lemma get_all_transitions_iff:
  "(src, dst, c) \<in> set (get_all_transitions keys) \<longleftrightarrow>
   src \<in> set keys \<and> (\<exists>es. valid_transitions src = Some es \<and> (dst, c) \<in> set es)"
proof -
  have "x \<in> set (case r of None \<Rightarrow> [] | Some es \<Rightarrow> map f es)
          \<longleftrightarrow> (\<exists>es. r = Some es \<and> x \<in> f ` set es)"
    for x :: "status \<times> status \<times> transition_constraint" and r f
    and es :: "(status \<times> transition_constraint) list"
    by (cases r) auto
  then show ?thesis by (fastforce simp: get_all_transitions_def)
qed

lemma get_all_transitions_sound:
  assumes "(src, dst, c) \<in> set (get_all_transitions keys)"
  shows "validate_transition src dst = Inr () \<and> transition_constraint_for src dst = c"
  using assms transition_constraint_for_entry by (auto simp: get_all_transitions_iff go_result)

end
