(* ===== verification/Sync_Event.thy ===== *)
theory Sync_Event
  imports Node_Ids Vector_Clock
begin

text \<open>
  The replication record: \<open>internal/model/sync_event.go\<close> and the payload types of
  \<open>internal/model/sync_payload.go\<close>. A payload is its decoded value (\<open>EncodePayload\<close> and
  \<open>DecodePayload\<close> are the identity); the \<open>closed_at\<close> key that every workflow payload may carry
  is a field of the event (a payload whose \<open>closed_at\<close> is not a time is marked as such, and one
  that does not decode as its op's type is kept as its text), with absent (\<open>None\<close>), null (\<open>Some None\<close>) and a time told apart.
\<close>

datatype op_type =
    OpCreateNode | OpUpdateField | OpTransitionStatus | OpClaim | OpUnclaim | OpDefer
  | OpComment | OpLinkDep | OpUnlinkDep | OpDelete | OpSetAcceptance | OpSetPrompt
  | OpOther string

definition all_op_types :: "op_type list" where
  "all_op_types = [OpCreateNode, OpUpdateField, OpTransitionStatus, OpClaim, OpUnclaim, OpDefer,
     OpComment, OpLinkDep, OpUnlinkDep, OpDelete, OpSetAcceptance, OpSetPrompt]"

definition op_type_is_valid :: "op_type \<Rightarrow> bool" where
  "op_type_is_valid o' \<longleftrightarrow> list_ex (\<lambda>v. v = o') all_op_types"

datatype sync_status =
    SyncStatusPending | SyncStatusPushed | SyncStatusConflicted | SyncStatusApplied
  | SyncStatusOther string

definition all_sync_statuses :: "sync_status list" where
  "all_sync_statuses = [SyncStatusPending, SyncStatusPushed, SyncStatusConflicted,
     SyncStatusApplied]"

definition sync_status_is_valid :: "sync_status \<Rightarrow> bool" where
  "sync_status_is_valid s \<longleftrightarrow> list_ex (\<lambda>v. v = s) all_sync_statuses"

text \<open>\<open>machineHashPattern\<close>: \<open>[a-f0-9]{16}\<close>, anchored.\<close>

definition machine_hash_pattern :: "string \<Rightarrow> bool" where
  "machine_hash_pattern s \<longleftrightarrow> length s = 16 \<and> list_all is_lower_hex s"

text \<open>
  The JSON of a new value: a text, an integer, a list of texts, null, any other JSON text, or no
  value at all.
\<close>

datatype field_value =
    FieldText string | FieldInt int | FieldTexts "string list"
  | FieldNull | FieldOther string | FieldAbsent

text \<open>\<open>CommentAnnotationState\<close>: the identity and the resolution of an annotation.\<close>

record annotation_state =
  as_id :: string
  as_created_at :: int
  as_resolved :: bool
  as_addressee :: string

record create_payload =
  cp_title :: string
  cp_parent_id :: string
  cp_node_type :: node_type
  cp_issue_type :: issue_type
  cp_description :: string
  cp_prompt :: string
  cp_acceptance :: string
  cp_priority :: int
  cp_labels :: "string list"
  cp_assignee :: "string option"
  cp_creator :: string

datatype payload =
    CreateNodePayload create_payload
  | UpdateFieldPayload string field_value
  | TransitionStatusPayload status status string
  | ClaimPayload string bool
  | UnclaimPayload
  | DeferPayload string "int option"
  | CommentPayload string string string "annotation_state option"
  | LinkDepPayload string dep_type
  | UnlinkDepPayload string dep_type
  | DeletePayload
  | SetAcceptancePayload string
  | SetPromptPayload string
  | UndecodablePayload string
  | BadClosedAtPayload payload

record sync_event =
  ev_id :: string
  ev_project :: string
  ev_node :: string
  ev_uid :: string
  ev_op :: op_type
  ev_payload :: payload
  ev_closed_at :: "int option option"
  ev_wall :: int
  ev_lamport :: int
  ev_vc :: vector_clock
  ev_author :: string
  ev_machine :: string
  ev_status :: sync_status
  ev_created :: int

text \<open>
  \<open>SyncEvent.Validate\<close>. A decoded payload and a clock that is a map are never empty or nil, so
  the last two checks of the code always pass in the model.
\<close>

definition validate_sync_event :: "sync_event \<Rightarrow> unit result" where
  "validate_sync_event e =
     (if ev_id e = [] then Inl ErrInvalidInput
      else if \<not> op_type_is_valid (ev_op e) then Inl ErrInvalidInput
      else if ev_status e \<noteq> SyncStatusOther [] \<and> \<not> sync_status_is_valid (ev_status e)
        then Inl ErrInvalidInput
      else if ev_node e = [] then Inl ErrInvalidInput
      else if \<not> project_prefix_pattern (ev_project e) then Inl ErrInvalidInput
      else if \<not> is_valid_author_id (ev_author e) then Inl ErrInvalidInput
      else if \<not> machine_hash_pattern (ev_machine e) then Inl ErrInvalidInput
      else if ev_wall e < 0 then Inl ErrInvalidInput
      else if ev_lamport e < 0 then Inl ErrInvalidInput
      else Inr ())"

lemma validate_sync_event_ok [go_result]:
  "validate_sync_event e = Inr () \<longleftrightarrow>
     ev_id e \<noteq> [] \<and> op_type_is_valid (ev_op e)
     \<and> (ev_status e = SyncStatusOther [] \<or> sync_status_is_valid (ev_status e))
     \<and> ev_node e \<noteq> [] \<and> project_prefix_pattern (ev_project e) \<and> is_valid_author_id (ev_author e)
     \<and> machine_hash_pattern (ev_machine e) \<and> 0 \<le> ev_wall e \<and> 0 \<le> ev_lamport e"
  by (auto simp: validate_sync_event_def)

lemma validate_sync_event_error: "validate_sync_event e = Inl err \<Longrightarrow> err = ErrInvalidInput"
  by (auto simp: validate_sync_event_def split: if_splits)

end
