(* ===== verification/Store_Db.thy ===== *)
theory Store_Db
  imports Sync_Event
begin

text \<open>
  The SQLite store as a record of tables (\<open>internal/store/sqlite/schema.go\<close>): a table is the
  list of its rows in rowid order, a \<open>SELECT\<close> filters it, an \<open>UPDATE\<close> maps over it and an
  \<open>INSERT\<close> appends, refusing a taken primary key. The meta keys of the sync clock are fields
  with their decoded values. A write transaction is a function from a database to an error
  (the transaction is rolled back: the caller keeps the old database) or the new database.
\<close>

section \<open>Tables\<close>

record agent =
  agent_id :: string
  agent_project :: "string option"
  agent_status :: agent_state
  state_changed_at :: int
  current_node_id :: "string option"
  last_heartbeat :: "int option"

record cascade_row =
  cd_node :: string
  cd_root :: string
  cd_deleted_at :: int
  cd_deleted_by :: "string option"

datatype history_kind = HistoryKindChange | HistoryKindRetentionDrop
datatype history_origin = HistoryOriginLocal | HistoryOriginSystem | HistoryOriginHub

text \<open>
  A recorded column value of a task: text, number, list, time or one of the enumerations.
  \<open>VNull\<close> is SQL NULL; the empty text and the empty list are the same empty value.
\<close>

datatype col_value =
    VNull
  | VText string
  | VInt int
  | VRat rat
  | VList "string list"
  | VStatus status
  | VNodeType node_type
  | VIssueType issue_type
  | VAgentState agent_state
  | VNotes "annotation list"
  | VTime int

record history_row =
  h_task :: string
  h_ts :: int
  h_actor :: string
  h_origin :: history_origin
  h_kind :: history_kind
  h_field :: string
  h_old :: "col_value option"
  h_new :: "col_value option"
  h_event :: string

record snapshot =
  snap_uid :: string
  snap_values :: "(string \<times> col_value) list"

text \<open>A row of the conflict log: the two events and the field they both wrote.\<close>

record conflict_row =
  cf_winner :: string
  cf_loser :: string
  cf_node :: string
  cf_field :: string

text \<open>The history tracker of the open write transaction; a move is the old and the new root of a subtree.\<close>

record tracker =
  tr_before :: "(string \<times> snapshot) list"
  tr_seen :: "string list"
  tr_system :: "string list"
  tr_moves :: "(string \<times> string) list"

record db =
  nodes :: "node list"
  deps :: "dependency list"
  agents :: "agent list"
  cascades :: "cascade_row list"
  events :: "sync_event list"
  sequences :: "(string \<times> int) list"
  history :: "history_row list"
  cutoffs :: "(string \<times> int) list"
  hook_origins :: "(string \<times> string) list"
  applied_events :: "(string \<times> int) list"
  sync_conflicts :: "conflict_row list"
  suppressed_hooks :: "string list"
  inbox_restored :: "string list"
  hub_mark :: "string option"
  meta_lamport :: int
  meta_vclock :: vector_clock
  meta_machine_hash :: string
  meta_author :: string
  meta_queue_cap :: int
  meta_emitting :: "string list option"
  meta_prune_pending :: "(nat \<times> string) option"
  meta_pruned_reported :: bool
  tx_tracker :: "tracker option"

text \<open>
  What a write takes from outside the database: the clock (Unix nanoseconds; one transaction
  reads one time), \<open>MTIX_AUTHOR_ID\<close> and \<open>MTIX_HOOK_ORIGIN\<close>, the machine hash
  (\<open>clock.MachineHash\<close>), the event ids \<open>clock.NewEventID\<close> mints (a UUIDv7 from the clock and the
  random source: a function of the number of ids drawn so far), and the history limit.
\<close>

record env =
  now :: int
  env_author :: string
  hook_origin :: string
  machine_hash :: string
  new_event_id :: "nat \<Rightarrow> string"
  history_limit :: int

type_synonym transaction = "db \<Rightarrow> db result"

section \<open>Reading and writing the node table\<close>

definition live :: "node \<Rightarrow> bool" where
  "live n \<longleftrightarrow> deleted_at n = None"

definition find_node :: "string \<Rightarrow> db \<Rightarrow> node option" where
  "find_node i d = find (\<lambda>n. node_id n = i) (nodes d)"

definition find_live :: "string \<Rightarrow> db \<Rightarrow> node option" where
  "find_live i d = find (\<lambda>n. node_id n = i \<and> live n) (nodes d)"

definition update_where :: "(node \<Rightarrow> bool) \<Rightarrow> (node \<Rightarrow> node) \<Rightarrow> db \<Rightarrow> db" where
  "update_where P f d = d\<lparr>nodes := map (\<lambda>n. if P n then f n else n) (nodes d)\<rparr>"

definition update_live :: "string \<Rightarrow> (node \<Rightarrow> node) \<Rightarrow> db \<Rightarrow> db" where
  "update_live i f = update_where (\<lambda>n. node_id n = i \<and> live n) f"

definition update_node_row :: "string \<Rightarrow> (node \<Rightarrow> node) \<Rightarrow> db \<Rightarrow> db" where
  "update_node_row i f = update_where (\<lambda>n. node_id n = i) f"

text \<open>The primary key of the node table.\<close>

definition unique_ids :: "db \<Rightarrow> bool" where
  "unique_ids d \<longleftrightarrow> distinct (map node_id (nodes d))"

text \<open>A subtree \<open>LIKE\<close> with the id escaped: the ids that start with the id and a dot.\<close>

definition descendant_of :: "string \<Rightarrow> string \<Rightarrow> bool" where
  "descendant_of anc i \<longleftrightarrow> has_prefix i (anc @ ''.'')"

definition in_subtree :: "string \<Rightarrow> string \<Rightarrow> bool" where
  "in_subtree anc i \<longleftrightarrow> i = anc \<or> has_prefix i (anc @ ''.'')"

section \<open>Laws of the node table\<close>

text \<open>An update that keeps the key columns: what every \<open>UPDATE nodes\<close> of the code does.\<close>

definition keeps_key :: "(node \<Rightarrow> node) \<Rightarrow> bool" where
  "keeps_key f \<longleftrightarrow> (\<forall>n. node_id (f n) = node_id n \<and> parent_id (f n) = parent_id n)"

lemma keeps_keyI: "(\<And>n. node_id (f n) = node_id n) \<Longrightarrow> (\<And>n. parent_id (f n) = parent_id n) \<Longrightarrow> keeps_key f"
  by (simp add: keeps_key_def)

lemma find_node_Some: "find_node i d = Some n \<Longrightarrow> n \<in> set (nodes d) \<and> node_id n = i"
  by (auto simp: find_node_def find_Some_iff)

lemma find_live_Some: "find_live i d = Some n \<Longrightarrow> n \<in> set (nodes d) \<and> node_id n = i \<and> live n"
  by (auto simp: find_live_def find_Some_iff)

lemma find_none_iff: "find P xs = None \<longleftrightarrow> (\<forall>x \<in> set xs. \<not> P x)"
  by (induction xs) auto

lemma find_unique:
  assumes "distinct (map k xs)" "x \<in> set xs"
  shows "find (\<lambda>y. k y = k x) xs = Some x"
  using assms by (induction xs) (auto simp: rev_image_eqI)

lemma find_unique_guard:
  assumes "distinct (map k xs)" "x \<in> set xs"
  shows "find (\<lambda>y. k y = k x \<and> P y) xs = (if P x then Some x else None)"
  using assms
proof (induction xs)
  case (Cons y ys)
  show ?case
  proof (cases "x = y")
    case True
    with Cons.prems have "\<forall>z \<in> set ys. k z \<noteq> k x" by (auto simp: rev_image_eqI)
    then have "find (\<lambda>z. k z = k x \<and> P z) ys = None" by (simp add: find_none_iff)
    with True show ?thesis by simp
  next
    case False
    with Cons.prems have "x \<in> set ys" "k y \<noteq> k x" by (auto simp: rev_image_eqI)
    with Cons show ?thesis by auto
  qed
qed simp

lemma find_node_unique: "unique_ids d \<Longrightarrow> n \<in> set (nodes d) \<Longrightarrow> find_node (node_id n) d = Some n"
  by (simp add: unique_ids_def find_node_def find_unique)

lemma find_live_unique:
  "unique_ids d \<Longrightarrow> n \<in> set (nodes d) \<Longrightarrow> live n \<Longrightarrow> find_live (node_id n) d = Some n"
  by (simp add: unique_ids_def find_live_def find_unique_guard)

lemma find_live_find_node:
  "unique_ids d \<Longrightarrow> find_live i d = (case find_node i d of None \<Rightarrow> None
     | Some n \<Rightarrow> if live n then Some n else None)"
proof (cases "find_node i d")
  case None
  then have "find_live i d = None" by (auto simp: find_node_def find_live_def find_none_iff)
  with None show ?thesis by simp
next
  case (Some n)
  assume "unique_ids d"
  with Some find_node_Some[OF Some] show ?thesis
    using find_unique_guard[of node_id "nodes d" n live]
    by (simp add: find_live_def unique_ids_def)
qed

lemma find_map_key:
  "(\<And>x. k (g x) = k x) \<Longrightarrow> find (\<lambda>y. k y = i) (map g xs) = map_option g (find (\<lambda>y. k y = i) xs)"
  by (induction xs) auto

lemma nodes_update_where [row_simps]:
  "nodes (update_where P f d) = map (\<lambda>n. if P n then f n else n) (nodes d)"
  by (simp add: update_where_def)

lemma find_node_update_where [row_simps]:
  "keeps_key f \<Longrightarrow>
   find_node i (update_where P f d) = map_option (\<lambda>n. if P n then f n else n) (find_node i d)"
  by (simp add: find_node_def nodes_update_where find_map_key keeps_key_def)

lemma unique_ids_update_where [row_simps]:
  "keeps_key f \<Longrightarrow> unique_ids (update_where P f d) = unique_ids d"
proof -
  assume "keeps_key f"
  then have "map node_id (map (\<lambda>n. if P n then f n else n) (nodes d)) = map node_id (nodes d)"
    by (auto simp: keeps_key_def)
  then show ?thesis by (simp add: unique_ids_def nodes_update_where del: map_map)
qed

lemma update_where_fields [row_simps]:
  "deps (update_where P f d) = deps d" "agents (update_where P f d) = agents d"
  "cascades (update_where P f d) = cascades d" "events (update_where P f d) = events d"
  "sequences (update_where P f d) = sequences d" "history (update_where P f d) = history d"
  "cutoffs (update_where P f d) = cutoffs d" "hook_origins (update_where P f d) = hook_origins d"
  "meta_lamport (update_where P f d) = meta_lamport d"
  "meta_vclock (update_where P f d) = meta_vclock d"
  "meta_machine_hash (update_where P f d) = meta_machine_hash d"
  "meta_author (update_where P f d) = meta_author d"
  "meta_queue_cap (update_where P f d) = meta_queue_cap d"
  "meta_emitting (update_where P f d) = meta_emitting d"
  "tx_tracker (update_where P f d) = tx_tracker d"
  by (simp_all add: update_where_def)

lemmas node_updates = update_live_def update_node_row_def

lemma descendant_longer: "descendant_of anc i \<Longrightarrow> length anc < length i"
  by (auto simp: descendant_of_def has_prefix_iff)

lemma in_subtree_iff: "in_subtree anc i \<longleftrightarrow> i = anc \<or> descendant_of anc i"
  by (simp add: in_subtree_def descendant_of_def)

lemma descendant_trans: "descendant_of a b \<Longrightarrow> descendant_of b c \<Longrightarrow> descendant_of a c"
  by (auto simp: descendant_of_def has_prefix_iff)

lemma child_descends: "parent_id_path = parse_id_parent i \<Longrightarrow> parent_id_path \<noteq> [] \<Longrightarrow> descendant_of parent_id_path i"
  by (auto simp: parse_id_parent_def descendant_of_def has_prefix_iff split: option.splits
      dest!: last_index_Some)
    (metis append_take_drop_id id_take_nth_drop)

section \<open>A fresh store\<close>

text \<open>The store as the schema creates it, and a row with the defaults of its columns.\<close>

definition empty_db :: db where
  "empty_db = \<lparr>nodes = [], deps = [], agents = [], cascades = [], events = [], sequences = [],
     history = [], cutoffs = [], hook_origins = [], applied_events = [],
     sync_conflicts = [], suppressed_hooks = [], inbox_restored = [], hub_mark = None, meta_lamport = 0, meta_vclock = [],
     meta_machine_hash = [], meta_author = [], meta_queue_cap = 0, meta_emitting = None,
     meta_prune_pending = None, meta_pruned_reported = False, tx_tracker = None\<rparr>"

definition row :: "string \<Rightarrow> string \<Rightarrow> status \<Rightarrow> node" where
  "row i p st = \<lparr>node_id = i, parent_id = p, project = parse_id_project i,
     depth = int (parse_id_depth i), seq = 1, uid = [], title = ''t'', description = [],
     prompt = [], acceptance = [], node_kind = NodeTypeAuto, issue_kind = IssueTypeOther [],
     priority = 3, labels = [], status = st, progress = 0, previous_status = None,
     assignee = None, creator = [], agent_state = None, created_at = 0, updated_at = 0,
     closed_at = None, defer_until = None, weight = 1, activity = [], annotations = [], deleted_at = None,
     deleted_by = None\<rparr>"

definition example_env :: env where
  "example_env = \<lparr>now = 1700000000000000000, env_author = [], hook_origin = [],
     machine_hash = ''0123456789abcdef'', new_event_id = (\<lambda>n. ''ev-'' @ dec_nat n),
     history_limit = 0\<rparr>"

end
