(* ===== verification/Event_Log.thy ===== *)
theory Event_Log
  imports Store_Db
begin

text \<open>
  Emission of sync events (\<open>internal/store/sqlite/sync_emit.go\<close>,
  \<open>sync_vector_clock_authors.go\<close>, \<open>workflow_snapshot_emit.go\<close>, \<open>transition_snapshot.go\<close>): every
  store write appends its event in its own transaction. The lemmas give what one emission
  does to the database and the invariant of the event log that every emission preserves.
  The payload warning of an oversized event (collected outside the database) and the log lines
  are not modelled.
\<close>

section \<open>The author of an event\<close>

definition author_id_fallback :: string where "author_id_fallback = ''cli''"

text \<open>
  \<open>strings.ToLower\<close> as far as the author grammar can tell: ASCII letters, and the two
  characters outside ASCII whose lower case is an ASCII letter (the Kelvin sign and the dotted
  capital I, in their UTF-8 bytes). Every other byte outside ASCII stays outside ASCII.
\<close>

fun to_lower :: "string \<Rightarrow> string" where
  "to_lower (a # b # c # cs) =
     (if byte a = 226 \<and> byte b = 132 \<and> byte c = 170 then CHR ''k'' # to_lower cs
      else if byte a = 196 \<and> byte b = 176 then CHR ''i'' # to_lower (c # cs)
      else (if is_upper a then char_of (byte a + 32) else a) # to_lower (b # c # cs))"
| "to_lower [a, b] =
     (if byte a = 196 \<and> byte b = 176 then ''i''
      else (if is_upper a then char_of (byte a + 32) else a) # to_lower [b])"
| "to_lower [a] = [if is_upper a then char_of (byte a + 32) else a]"
| "to_lower [] = []"

definition replace_byte :: "char \<Rightarrow> char \<Rightarrow> string \<Rightarrow> string" where
  "replace_byte a b s = map (\<lambda>c. if c = a then b else c) s"

definition sanitize_author_id :: "string \<Rightarrow> string" where
  "sanitize_author_id author =
     (if is_valid_author_id author then author
      else let candidate = replace_byte CHR ''.'' CHR ''-''
                             (replace_byte CHR '' '' CHR ''-'' (to_lower author))
           in if is_valid_author_id candidate then candidate else author_id_fallback)"

definition resolve_emit_author :: "env \<Rightarrow> db \<Rightarrow> string \<Rightarrow> string" where
  "resolve_emit_author e d explicit =
     (if explicit \<noteq> [] then explicit
      else if env_author e \<noteq> [] then env_author e
      else if meta_author d \<noteq> [] then meta_author d
      else author_id_fallback)"

definition project_prefix_from_node_id :: "string \<Rightarrow> string" where
  "project_prefix_from_node_id i =
     (let prefix = parse_id_project i
      in if list_all sync_prefix_char prefix then prefix else [])"

section \<open>The clocks\<close>

definition read_or_compute_machine_hash :: "env \<Rightarrow> db \<Rightarrow> string \<times> db" where
  "read_or_compute_machine_hash e d =
     (if meta_machine_hash d \<noteq> [] then (meta_machine_hash d, d)
      else (machine_hash e, d\<lparr>meta_machine_hash := machine_hash e\<rparr>))"

definition bump_lamport :: "db \<Rightarrow> int \<times> db" where
  "bump_lamport d =
     (let next = wrap64 (meta_lamport d + 1) in (next, d\<lparr>meta_lamport := next\<rparr>))"

definition load_emitting_authors :: "env \<Rightarrow> db \<Rightarrow> string list" where
  "load_emitting_authors e d =
     (case meta_emitting d of
        None \<Rightarrow> [sanitize_author_id (resolve_emit_author e d [])]
      | Some authors \<Rightarrow> authors)"

text \<open>The authors still in the clock, each once, sorted.\<close>

definition store_emitting_authors :: "string list \<Rightarrow> vector_clock \<Rightarrow> db \<Rightarrow> db" where
  "store_emitting_authors authors vc d =
     d\<lparr>meta_emitting :=
         Some (sort_by (\<lambda>a b. a < b) (remdups (filter (\<lambda>a. map_of vc a \<noteq> None) authors)))\<rparr>"

definition note_prune :: "nat \<Rightarrow> string \<Rightarrow> db \<Rightarrow> db" where
  "note_prune pruned trigger d =
     (if pruned = 0 \<or> meta_pruned_reported d \<or> meta_prune_pending d \<noteq> None then d
      else d\<lparr>meta_prune_pending := Some (pruned, trigger)\<rparr>)"

definition bump_and_persist_vector_clock :: "env \<Rightarrow> string \<Rightarrow> db \<Rightarrow> (vector_clock \<times> db) result" where
  "bump_and_persist_vector_clock e author d =
     (let bumped = fst (vc_bump author (meta_vclock d));
          emitting = author # load_emitting_authors e d;
          (vc, pruned) = vc_prune emitting bumped;
          d1 = store_emitting_authors emitting vc (note_prune pruned author d)
      in bind_result (vc_validate vc) (\<lambda>_. Inr (vc, d1\<lparr>meta_vclock := vc\<rparr>)))"

section \<open>The payload snapshot and the uid\<close>

definition is_workflow_op :: "op_type \<Rightarrow> bool" where
  "is_workflow_op o' \<longleftrightarrow> o' \<in> {OpClaim, OpUnclaim, OpTransitionStatus, OpDefer}"

text \<open>\<open>readClosedAtSnapshot\<close>: the stored completion time, deleted nodes included.\<close>

definition read_closed_at_snapshot :: "string \<Rightarrow> db \<Rightarrow> int option result" where
  "read_closed_at_snapshot i d =
     (case find_node i d of None \<Rightarrow> Inl ErrStorage | Some n \<Rightarrow> Inr (closed_at n))"

definition capture_workflow_snapshot :: "string \<Rightarrow> op_type \<Rightarrow> db \<Rightarrow> int option option result" where
  "capture_workflow_snapshot i op d =
     (if \<not> is_workflow_op op then Inr None
      else bind_result (read_closed_at_snapshot i d) (\<lambda>closed. Inr (Some closed)))"

definition resolve_emit_uid :: "string \<Rightarrow> db \<Rightarrow> string" where
  "resolve_emit_uid i d = (case find_node i d of None \<Rightarrow> [] | Some n \<Rightarrow> uid n)"

record emit_params =
  ep_node :: string
  ep_project :: string
  ep_op :: op_type
  ep_author :: string
  ep_payload :: payload
  ep_event_id :: string

definition emit_uid_for :: "emit_params \<Rightarrow> string \<Rightarrow> db \<Rightarrow> string" where
  "emit_uid_for p event_id d =
     (if ep_op p = OpCreateNode then
        (if resolve_emit_uid (ep_node p) d \<noteq> [] then resolve_emit_uid (ep_node p) d else event_id)
      else resolve_emit_uid (ep_node p) d)"

section \<open>Emission\<close>

definition pending_count :: "db \<Rightarrow> nat" where
  "pending_count d = length (filter (\<lambda>ev. ev_status ev = SyncStatusPending) (events d))"

definition enforce_queue_limit :: "db \<Rightarrow> unit result" where
  "enforce_queue_limit d =
     (if meta_queue_cap d \<le> 0 then Inr ()
      else if int (pending_count d) \<ge> meta_queue_cap d then Inl ErrSyncQueueFull
      else Inr ())"

definition insert_event :: "sync_event \<Rightarrow> transaction" where
  "insert_event ev d =
     (if ev_id ev \<in> ev_id ` set (events d) then Inl ErrStorage
      else Inr (d\<lparr>events := events d @ [ev]\<rparr>))"

definition maybe_record_hook_origin :: "env \<Rightarrow> string \<Rightarrow> db \<Rightarrow> db" where
  "maybe_record_hook_origin e event_id d =
     (if hook_origin e = [] \<or> event_id \<in> fst ` set (hook_origins d) then d
      else d\<lparr>hook_origins := hook_origins d @ [(event_id, hook_origin e)]\<rparr>)"

text \<open>\<open>emitClocks\<close>: the machine hash, the Lamport clock, the vector clock.\<close>

definition emit_clocks :: "env \<Rightarrow> string \<Rightarrow> db \<Rightarrow> (string \<times> int \<times> vector_clock \<times> db) result" where
  "emit_clocks e author d =
     (let (hash, d1) = read_or_compute_machine_hash e d;
          (lamport, d2) = bump_lamport d1
      in bind_result (bump_and_persist_vector_clock e author d2)
           (\<lambda>(vc, d3). Inr (hash, lamport, vc, d3)))"

text \<open>The event \<open>emitEvent\<close> builds once the clocks are bumped.\<close>

definition emitted_event ::
  "env \<Rightarrow> emit_params \<Rightarrow> int option option \<Rightarrow> string \<Rightarrow> string \<Rightarrow> int \<Rightarrow> vector_clock \<Rightarrow> db \<Rightarrow> sync_event" where
  "emitted_event e p snap author hash lamport vc d1 =
     (let derived = project_prefix_from_node_id (ep_node p);
          event_id = (if ep_event_id p \<noteq> [] then ep_event_id p
                      else new_event_id e (length (events d1)))
      in \<lparr>ev_id = event_id,
          ev_project = (if derived = [] \<and> ep_project p \<noteq> [] then ep_project p else derived),
          ev_node = ep_node p, ev_uid = emit_uid_for p event_id d1, ev_op = ep_op p,
          ev_payload = ep_payload p, ev_closed_at = snap, ev_wall = now e div 1000000,
          ev_lamport = lamport, ev_vc = vc, ev_author = author, ev_machine = hash,
          ev_status = SyncStatusPending, ev_created = now e\<rparr>)"

definition emit_event :: "env \<Rightarrow> emit_params \<Rightarrow> transaction" where
  "emit_event e p d =
     bind_result (enforce_queue_limit d) (\<lambda>_.
     bind_result (capture_workflow_snapshot (ep_node p) (ep_op p) d) (\<lambda>snap.
     let author = sanitize_author_id (resolve_emit_author e d (ep_author p))
     in bind_result (emit_clocks e author d) (\<lambda>(hash, lamport, vc, d1).
        let ev = emitted_event e p snap author hash lamport vc d1
        in bind_result (validate_sync_event ev) (\<lambda>_.
           bind_result (insert_event ev d1) (\<lambda>d2.
           Inr (maybe_record_hook_origin e (ev_id ev) d2))))))"

text \<open>The common shape of the callers: no explicit project or event id beyond the node's.\<close>

definition emit_for :: "env \<Rightarrow> string \<Rightarrow> op_type \<Rightarrow> string \<Rightarrow> payload \<Rightarrow> transaction" where
  "emit_for e i op author pl =
     emit_event e \<lparr>ep_node = i, ep_project = project_prefix_from_node_id i, ep_op = op,
                   ep_author = author, ep_payload = pl, ep_event_id = []\<rparr>"

section \<open>What an emission does\<close>

lemma sanitize_author_id_valid: "is_valid_author_id (sanitize_author_id a)"
proof -
  have "is_valid_author_id author_id_fallback"
    by (simp add: author_id_fallback_def is_valid_author_id_def author_char_def is_lower_def byte_def)
  then show ?thesis by (simp add: sanitize_author_id_def Let_def)
qed

text \<open>Everything but the event log and the sync clock.\<close>

definition same_content :: "db \<Rightarrow> db \<Rightarrow> bool" where
  "same_content d d' \<longleftrightarrow>
     nodes d' = nodes d \<and> deps d' = deps d \<and> agents d' = agents d \<and> cascades d' = cascades d
     \<and> sequences d' = sequences d \<and> history d' = history d \<and> cutoffs d' = cutoffs d
     \<and> tx_tracker d' = tx_tracker d \<and> meta_author d' = meta_author d
     \<and> meta_queue_cap d' = meta_queue_cap d"

lemma same_content_refl [simp]: "same_content d d"
  by (simp add: same_content_def)

lemma same_content_trans: "same_content a b \<Longrightarrow> same_content b c \<Longrightarrow> same_content a c"
  by (simp add: same_content_def)

lemma same_content_find [row_simps]:
  "same_content d d' \<Longrightarrow> find_node i d' = find_node i d"
  "same_content d d' \<Longrightarrow> find_live i d' = find_live i d"
  "same_content d d' \<Longrightarrow> unique_ids d' = unique_ids d"
  by (simp_all add: same_content_def find_node_def find_live_def unique_ids_def)

lemma vc_wf_bump: "vc_wf vc \<Longrightarrow> vc_wf (fst (vc_bump a vc))"
  by (simp add: vc_bump_def Let_def vc_wf_update)

lemma map_of_bump: "map_of (fst (vc_bump a vc)) a = Some (wrap64 (vc_get vc a + 1))"
  by (simp add: vc_bump_def Let_def update_conv)

lemma map_of_bump_other: "k \<noteq> a \<Longrightarrow> map_of (fst (vc_bump a vc)) k = map_of vc k"
  by (simp add: vc_bump_def Let_def update_conv)

lemma vc_wf_prune: "vc_wf vc \<Longrightarrow> vc_wf (fst (vc_prune keep vc))"
  by (simp add: vc_prune_def Let_def vc_copy_id vc_wf_fold_delete)

lemma note_prune_content: "same_content d (note_prune n t d)" "events (note_prune n t d) = events d"
  "meta_lamport (note_prune n t d) = meta_lamport d"
  by (simp_all add: note_prune_def same_content_def)

lemma bump_vector_clock_ok:
  assumes "bump_and_persist_vector_clock e a d = Inr (vc, d')" "vc_wf (meta_vclock d)"
  shows "same_content d d' \<and> events d' = events d \<and> meta_lamport d' = meta_lamport d
       \<and> hook_origins d' = hook_origins d \<and> meta_vclock d' = vc \<and> vc_wf vc \<and> vc_validate vc = Inr ()
       \<and> vc_get vc a = wrap64 (vc_get (meta_vclock d) a + 1)
       \<and> (\<forall>k. k \<noteq> a \<longrightarrow> map_of vc k = None \<or> map_of vc k = map_of (meta_vclock d) k)"
proof -
  let ?b = "fst (vc_bump a (meta_vclock d))"
  let ?keep = "a # load_emitting_authors e d"
  have vc: "vc = fst (vc_prune ?keep ?b)" and val: "vc_validate vc = Inr ()"
    and d': "d' = (store_emitting_authors ?keep vc (note_prune (snd (vc_prune ?keep ?b)) a d))
                    \<lparr>meta_vclock := vc\<rparr>"
    using assms(1) by (auto simp: bump_and_persist_vector_clock_def Let_def bind_result_Inr
        split: prod.splits)
  have wf: "vc_wf ?b" using assms(2) by (rule vc_wf_bump)
  have entry: "map_of vc a = Some (wrap64 (vc_get (meta_vclock d) a + 1))"
    using vc_prune_laws[OF wf, of ?keep] map_of_bump[of a "meta_vclock d"] vc by simp
  have others: "map_of vc k = None \<or> map_of vc k = map_of (meta_vclock d) k" if "k \<noteq> a" for k
  proof (cases "map_of vc k")
    case (Some v)
    with vc_prune_laws[OF wf, of ?keep] vc have "map_of ?b k = Some v" by simp
    with Some map_of_bump_other[OF that] show ?thesis by simp
  qed simp
  have "hook_origins (note_prune n t d) = hook_origins d" for n t by (simp add: note_prune_def)
  then show ?thesis
    using entry val vc wf d' others note_prune_content
    by (simp add: vc_wf_prune vc_get_def store_emitting_authors_def same_content_def)
qed

lemma emit_clocks_ok:
  assumes "emit_clocks e a d = Inr (hash, lamport, vc, d1)" "vc_wf (meta_vclock d)"
  shows "same_content d d1 \<and> events d1 = events d \<and> lamport = wrap64 (meta_lamport d + 1)
       \<and> meta_lamport d1 = lamport \<and> meta_vclock d1 = vc \<and> vc_wf vc \<and> vc_validate vc = Inr ()
       \<and> vc_get vc a = wrap64 (vc_get (meta_vclock d) a + 1)"
proof -
  define d0 where "d0 = snd (bump_lamport (snd (read_or_compute_machine_hash e d)))"
  have d0: "same_content d d0" "events d0 = events d" "meta_vclock d0 = meta_vclock d"
    "meta_lamport d0 = wrap64 (meta_lamport d + 1)"
    by (auto simp: d0_def bump_lamport_def read_or_compute_machine_hash_def Let_def same_content_def)
  have bump: "bump_and_persist_vector_clock e a d0 = Inr (vc, d1)"
    and lam: "lamport = wrap64 (meta_lamport d + 1)"
    using assms(1)
    by (auto simp: emit_clocks_def d0_def Let_def bind_result_Inr bump_lamport_def
        read_or_compute_machine_hash_def split: prod.splits if_splits)
  have "vc_wf (meta_vclock d0)" using assms(2) d0(3) by simp
  note b = bump_vector_clock_ok[OF bump this]
  show ?thesis using b d0 lam same_content_trans[OF d0(1)] by auto
qed

lemma emit_event_ok:
  assumes "emit_event e p d = Inr d'" "vc_wf (meta_vclock d)"
  shows "\<exists>ev. events d' = events d @ [ev] \<and> same_content d d'
       \<and> ev_node ev = ep_node p \<and> ev_op ev = ep_op p \<and> ev_payload ev = ep_payload p
       \<and> ev_status ev = SyncStatusPending \<and> validate_sync_event ev = Inr ()
       \<and> ev_id ev \<notin> ev_id ` set (events d)
       \<and> ev_lamport ev = wrap64 (meta_lamport d + 1) \<and> meta_lamport d' = ev_lamport ev
       \<and> ev_author ev = sanitize_author_id (resolve_emit_author e d (ep_author p))
       \<and> vc_wf (ev_vc ev) \<and> vc_validate (ev_vc ev) = Inr () \<and> meta_vclock d' = ev_vc ev
       \<and> vc_get (ev_vc ev) (ev_author ev) = wrap64 (vc_get (meta_vclock d) (ev_author ev) + 1)
       \<and> (is_workflow_op (ep_op p) \<longrightarrow>
            (\<exists>n. find_node (ep_node p) d = Some n \<and> ev_closed_at ev = Some (closed_at n)))
       \<and> enforce_queue_limit d = Inr ()
       \<and> (ep_event_id p \<noteq> [] \<longrightarrow> ev_id ev = ep_event_id p)"
proof -
  define author where "author = sanitize_author_id (resolve_emit_author e d (ep_author p))"
  from assms(1) obtain snap hash lamport vc d1 d2 where
    q: "enforce_queue_limit d = Inr ()"
    and snap: "capture_workflow_snapshot (ep_node p) (ep_op p) d = Inr snap"
    and clocks: "emit_clocks e author d = Inr (hash, lamport, vc, d1)"
    and valid: "validate_sync_event (emitted_event e p snap author hash lamport vc d1) = Inr ()"
    and ins: "insert_event (emitted_event e p snap author hash lamport vc d1) d1 = Inr d2"
    and d': "d' = maybe_record_hook_origin e (ev_id (emitted_event e p snap author hash lamport vc d1)) d2"
    by (auto simp: emit_event_def Let_def bind_result_Inr author_def)
  define ev where "ev = emitted_event e p snap author hash lamport vc d1"
  have ev: "ev_node ev = ep_node p" "ev_op ev = ep_op p" "ev_payload ev = ep_payload p"
      "ev_status ev = SyncStatusPending" "ev_lamport ev = lamport" "ev_author ev = author"
      "ev_vc ev = vc" "ev_closed_at ev = snap"
      "ep_event_id p \<noteq> [] \<longrightarrow> ev_id ev = ep_event_id p"
    by (simp_all add: ev_def emitted_event_def Let_def)
  have valid': "validate_sync_event ev = Inr ()" using valid by (simp add: ev_def)
  note c = emit_clocks_ok[OF clocks assms(2)]
  have d2: "d2 = d1\<lparr>events := events d1 @ [ev]\<rparr>" and fresh: "ev_id ev \<notin> ev_id ` set (events d)"
    using ins c by (auto simp: insert_event_def ev_def split: if_splits)
  have content: "same_content d d'" "events d' = events d @ [ev]" "meta_lamport d' = lamport"
    "meta_vclock d' = vc"
    using c d' d2 by (auto simp: maybe_record_hook_origin_def same_content_def)
  have wfop: "is_workflow_op (ep_op p) \<Longrightarrow>
      \<exists>n. find_node (ep_node p) d = Some n \<and> snap = Some (closed_at n)"
    using snap by (auto simp: capture_workflow_snapshot_def read_closed_at_snapshot_def bind_result_Inr
        split: option.splits)
  show ?thesis
    using c content fresh ev q wfop valid' by (intro exI[of _ ev]) (simp add: author_def)
qed

lemma emit_event_error:
  "emit_event e p d = Inl err \<Longrightarrow> err \<in> {ErrSyncQueueFull, ErrInvalidInput, ErrStorage}"
proof -
  have "bump_and_persist_vector_clock e a q = Inl x \<Longrightarrow> x = ErrInvalidInput" for a q x
    by (auto simp: bump_and_persist_vector_clock_def Let_def bind_result_Inl vc_validate_def
        split: prod.splits if_splits)
  then have "emit_clocks e a q = Inl x \<Longrightarrow> x = ErrInvalidInput" for a q x
    by (auto simp: emit_clocks_def Let_def bind_result_Inl split: prod.splits)
  then show "emit_event e p d = Inl err \<Longrightarrow> err \<in> {ErrSyncQueueFull, ErrInvalidInput, ErrStorage}"
    by (auto simp: emit_event_def Let_def bind_result_Inl enforce_queue_limit_def
        capture_workflow_snapshot_def read_closed_at_snapshot_def insert_event_def
        dest: validate_sync_event_error split: if_splits option.splits)
qed

section \<open>The event log invariant\<close>

text \<open>
  What the store promises of its log: the Lamport clock is a non-negative int64 at or above
  every event, event ids are distinct, the stored vector clock passes validation, and a
  configured queue cap bounds the pending events.
\<close>

definition log_ok :: "db \<Rightarrow> bool" where
  "log_ok d \<longleftrightarrow>
     0 \<le> meta_lamport d \<and> meta_lamport d < 2 ^ 63
     \<and> (\<forall>ev \<in> set (events d). ev_lamport ev \<le> meta_lamport d)
     \<and> distinct (map ev_id (events d))
     \<and> vc_wf (meta_vclock d) \<and> vc_validate (meta_vclock d) = Inr ()
     \<and> (0 < meta_queue_cap d \<longrightarrow> int (pending_count d) \<le> meta_queue_cap d)"

lemma log_ok_cong:
  "events d' = events d \<Longrightarrow> meta_lamport d' = meta_lamport d \<Longrightarrow> meta_vclock d' = meta_vclock d \<Longrightarrow>
   meta_queue_cap d' = meta_queue_cap d \<Longrightarrow> log_ok d' = log_ok d"
  by (simp add: log_ok_def pending_count_def)

lemma wrap64_nonneg_Suc: "0 \<le> x \<Longrightarrow> x < 2 ^ 63 \<Longrightarrow> 0 \<le> wrap64 (x + 1) \<Longrightarrow> wrap64 (x + 1) = x + 1 \<and> x + 1 < 2 ^ 63"
proof -
  assume x: "0 \<le> x" "x < 2 ^ 63" "0 \<le> wrap64 (x + 1)"
  show ?thesis
  proof (cases "x + 1 < 2 ^ 63")
    case True
    with x show ?thesis by (simp add: wrap64_id)
  next
    case False
    with x have "x = 2 ^ 63 - 1" by simp
    then have "wrap64 (x + 1) = - (2 ^ 63)" by (simp add: wrap64_def)
    with x(3) show ?thesis by simp
  qed
qed

lemma emit_event_log:
  assumes "emit_event e p d = Inr d'" "log_ok d"
  shows "\<exists>ev. events d' = events d @ [ev] \<and> same_content d d' \<and> log_ok d'
       \<and> ev_node ev = ep_node p \<and> ev_op ev = ep_op p \<and> ev_payload ev = ep_payload p
       \<and> ev_status ev = SyncStatusPending \<and> validate_sync_event ev = Inr ()
       \<and> ev_lamport ev = meta_lamport d + 1 \<and> meta_lamport d' = meta_lamport d + 1
       \<and> ev_author ev = sanitize_author_id (resolve_emit_author e d (ep_author p))
       \<and> meta_vclock d' = ev_vc ev
       \<and> vc_get (ev_vc ev) (ev_author ev) = vc_get (meta_vclock d) (ev_author ev) + 1
       \<and> (is_workflow_op (ep_op p) \<longrightarrow>
            (\<exists>n. find_node (ep_node p) d = Some n \<and> ev_closed_at ev = Some (closed_at n)))
       \<and> (ep_event_id p \<noteq> [] \<longrightarrow> ev_id ev = ep_event_id p)"
proof -
  have wf: "vc_wf (meta_vclock d)" using assms(2) by (simp add: log_ok_def)
  from emit_event_ok[OF assms(1) wf] obtain ev where ev:
    "events d' = events d @ [ev]" "same_content d d'" "ev_node ev = ep_node p" "ev_op ev = ep_op p"
    "ev_payload ev = ep_payload p" "ev_status ev = SyncStatusPending" "validate_sync_event ev = Inr ()"
    "ev_id ev \<notin> ev_id ` set (events d)" "ev_lamport ev = wrap64 (meta_lamport d + 1)"
    "meta_lamport d' = ev_lamport ev"
    "ev_author ev = sanitize_author_id (resolve_emit_author e d (ep_author p))"
    "vc_wf (ev_vc ev)" "vc_validate (ev_vc ev) = Inr ()" "meta_vclock d' = ev_vc ev"
    "vc_get (ev_vc ev) (ev_author ev) = wrap64 (vc_get (meta_vclock d) (ev_author ev) + 1)"
    "is_workflow_op (ep_op p) \<longrightarrow>
       (\<exists>n. find_node (ep_node p) d = Some n \<and> ev_closed_at ev = Some (closed_at n))"
    "enforce_queue_limit d = Inr ()" "ep_event_id p \<noteq> [] \<longrightarrow> ev_id ev = ep_event_id p"
    by blast
  have lam: "ev_lamport ev = meta_lamport d + 1" "meta_lamport d + 1 < 2 ^ 63"
    using wrap64_nonneg_Suc[of "meta_lamport d"] ev(7,9) assms(2)
    by (auto simp: log_ok_def validate_sync_event_ok)
  have small: "0 \<le> vc_get (meta_vclock d) (ev_author ev) \<and> vc_get (meta_vclock d) (ev_author ev) < 2 ^ 53"
    using assms(2) by (force simp: log_ok_def vc_validate_ok max_vector_clock_value_def vc_get_def
        split: option.splits dest: map_of_SomeD)
  have count: "vc_get (ev_vc ev) (ev_author ev) = vc_get (meta_vclock d) (ev_author ev) + 1"
    using ev(15) small by (simp add: wrap64_id)
  have cap: "0 < meta_queue_cap d' \<longrightarrow> int (pending_count d') \<le> meta_queue_cap d'"
    using ev(1,2,17) by (auto simp: enforce_queue_limit_def pending_count_def same_content_def
        split: if_splits)
  have "log_ok d'"
    using assms(2) ev lam cap by (fastforce simp: log_ok_def)
  with ev lam count show ?thesis by (intro exI[of _ ev]) simp
qed

text \<open>
  C36. One emission appends one event and advances the clocks by one. On a store whose log is in
  order, an emission that succeeds appends exactly one pending event that passes its own
  validation; its Lamport number is one above the store's, which moves with it; its author's
  entry in the vector clock grows by one and the stored clock is the event's; a workflow event
  carries the completion time the row holds in this transaction; no task, edge, agent or
  history table changes, and the log stays in order: numbers never above the clock, ids
  distinct, and never more pending events than the configured cap.
\<close>
theorem emission_appends_one:
  assumes "log_ok d" and "emit_event e p d = Inr d'"
  shows "\<exists>ev. events d' = events d @ [ev] \<and> same_content d d' \<and> log_ok d'
       \<and> ev_node ev = ep_node p \<and> ev_op ev = ep_op p \<and> ev_payload ev = ep_payload p
       \<and> ev_status ev = SyncStatusPending \<and> validate_sync_event ev = Inr ()
       \<and> ev_lamport ev = meta_lamport d + 1 \<and> meta_lamport d' = meta_lamport d + 1
       \<and> ev_author ev = sanitize_author_id (resolve_emit_author e d (ep_author p))
       \<and> meta_vclock d' = ev_vc ev
       \<and> vc_get (ev_vc ev) (ev_author ev) = vc_get (meta_vclock d) (ev_author ev) + 1
       \<and> (is_workflow_op (ep_op p) \<longrightarrow>
            (\<exists>n. find_node (ep_node p) d = Some n \<and> ev_closed_at ev = Some (closed_at n)))"
  using emit_event_log[OF assms(2,1)] by blast

definition emission_example :: db where
  "emission_example = empty_db\<lparr>nodes := [row ''P-1'' [] StatusOpen], meta_queue_cap := 2\<rparr>"

theorem emission_appends_one_witness:
  "\<exists>d' ev. emit_for example_env ''P-1'' OpDelete ''alice'' DeletePayload emission_example = Inr d'
      \<and> events d' = [ev] \<and> ev_lamport ev = 1 \<and> ev_author ev = ''alice''"
proof -
  let ?p = "\<lparr>ep_node = ''P-1'', ep_project = project_prefix_from_node_id ''P-1'', ep_op = OpDelete,
    ep_author = ''alice'', ep_payload = DeletePayload, ep_event_id = []\<rparr>"
  have "log_ok emission_example" "\<not> isl (emit_event example_env ?p emission_example)" by code_simp+
  moreover then obtain d' where "emit_event example_env ?p emission_example = Inr d'"
    by (cases "emit_event example_env ?p emission_example") auto
  moreover have "sanitize_author_id (resolve_emit_author example_env emission_example ''alice'') = ''alice''"
    by code_simp
  ultimately show ?thesis
    using emission_appends_one[of emission_example example_env ?p d']
    by (auto simp: emit_for_def emission_example_def empty_db_def)
qed

end
