(* ===== verification/Task_History.thy ===== *)
theory Task_History
  imports Event_Log
begin

text \<open>
  The change history of tasks (\<open>internal/store/sqlite/task_history.go\<close>,
  \<open>task_history_tracker.go\<close>, \<open>task_history_retention.go\<close>): a write transaction snapshots the
  tasks it may change, and at its end appends one entry per recorded field that changed. Free
  text is recorded as changed without its value. The columns are those the model's node
  carries; the rename bookkeeping of the tracker and the bulk-import scope are not modelled. The lemmas show that the recorder changes nothing but the history, and which
  entries it appends.
\<close>

section \<open>Snapshots\<close>

record history_scope =
  hs_id :: string
  hs_cascade :: bool
  hs_actor :: string
  hs_origin :: "history_origin option"
  hs_event :: string

text \<open>The local write of one task by one actor.\<close>

definition local_scope :: "string \<Rightarrow> string \<Rightarrow> history_scope" where
  "local_scope i actor =
     \<lparr>hs_id = i, hs_cascade = False, hs_actor = actor, hs_origin = None, hs_event = []\<rparr>"

definition system_scope :: "string \<Rightarrow> string \<Rightarrow> history_scope" where
  "system_scope i actor =
     \<lparr>hs_id = i, hs_cascade = False, hs_actor = actor, hs_origin = Some HistoryOriginSystem,
      hs_event = []\<rparr>"

definition cascade_scope :: "string \<Rightarrow> bool \<Rightarrow> string \<Rightarrow> history_scope" where
  "cascade_scope i cascade actor =
     \<lparr>hs_id = i, hs_cascade = cascade, hs_actor = actor, hs_origin = None, hs_event = []\<rparr>"

definition opt_value :: "('a \<Rightarrow> col_value) \<Rightarrow> 'a option \<Rightarrow> col_value" where
  "opt_value f x = (case x of None \<Rightarrow> VNull | Some y \<Rightarrow> f y)"

text \<open>\<open>historySnapshotSQL\<close>: the recorded columns of a row, in the order of the field names.\<close>

definition snapshot_values :: "node \<Rightarrow> (string \<times> col_value) list" where
  "snapshot_values n =
     [(''acceptance'', VText (acceptance n)),
      (''agent_state'', opt_value VAgentState (agent_state n)),
      (''annotations'', VNotes (annotations n)),
      (''assignee'', opt_value VText (assignee n)),
      (''defer_until'', opt_value VTime (defer_until n)),
      (''deleted_at'', opt_value VTime (deleted_at n)),
      (''description'', VText (description n)),
      (''issue_type'', VIssueType (issue_kind n)),
      (''labels'', VList (labels n)),
      (''node_type'', VNodeType (node_kind n)),
      (''parent'', VText (parent_id n)),
      (''priority'', VInt (priority n)),
      (''prompt'', VText (prompt n)),
      (''status'', VStatus (status n)),
      (''title'', VText (title n)),
      (''weight'', VRat (weight n)),
      (''display_path'', VText (node_id n))]"

definition history_field_names :: "string list" where
  "history_field_names =
     [''acceptance'', ''agent_state'', ''annotations'', ''assignee'', ''defer_until'', ''deleted_at'',
      ''description'', ''issue_type'', ''labels'', ''node_type'', ''parent'', ''priority'',
      ''prompt'', ''status'', ''title'', ''weight'', ''display_path'']"

definition read_snapshot :: "node \<Rightarrow> string \<times> snapshot" where
  "read_snapshot n =
     (node_id n, \<lparr>snap_uid = (if uid n = [] then node_id n else uid n),
                  snap_values = snapshot_values n\<rparr>)"

definition snapshot_tasks :: "history_scope \<Rightarrow> db \<Rightarrow> (string \<times> snapshot) list" where
  "snapshot_tasks sc d =
     (if hs_id sc = [] then []
      else map read_snapshot
             (filter (\<lambda>n. node_id n = hs_id sc \<or> hs_cascade sc \<and> descendant_of (hs_id sc) (node_id n))
                (nodes d)))"

section \<open>The tracker\<close>

definition touch_history :: "string \<Rightarrow> db \<Rightarrow> db" where
  "touch_history i d =
     (case tx_tracker d of
        None \<Rightarrow> d
      | Some tr \<Rightarrow>
          if i = [] \<or> i \<in> set (tr_seen tr) then d
          else d\<lparr>tx_tracker := Some
                  \<lparr>tr_before = tr_before tr @ map read_snapshot (filter (\<lambda>n. node_id n = i) (nodes d)),
                   tr_seen = tr_seen tr @ [i],
                   tr_system = tr_system tr @ [i], tr_moves = tr_moves tr\<rparr>\<rparr>)"

text \<open>A renumber notes its move before it rewrites the rows.\<close>

definition note_renumber :: "string \<Rightarrow> string \<Rightarrow> db \<Rightarrow> db" where
  "note_renumber old new d =
     (case tx_tracker d of
        None \<Rightarrow> d
      | Some tr \<Rightarrow> d\<lparr>tx_tracker := Some (tr\<lparr>tr_moves := tr_moves tr @ [(old, new)]\<rparr>)\<rparr>)"

definition old_of :: "tracker \<Rightarrow> string \<Rightarrow> string option" where
  "old_of tr i =
     (case find (\<lambda>(_, new). in_subtree new i) (tr_moves tr) of
        None \<Rightarrow> None
      | Some (old, new) \<Rightarrow> Some (old @ drop (length new) i))"

section \<open>The difference of two snapshots\<close>

text \<open>The one empty value: NULL, the empty text, an empty list, no issue type.\<close>

definition norm_value :: "col_value \<Rightarrow> col_value" where
  "norm_value v = (if v \<in> {VNull, VText [], VList [], VNotes [], VIssueType (IssueTypeOther [])}
                   then VNull else v)"

definition same_history_value :: "col_value \<Rightarrow> col_value \<Rightarrow> bool" where
  "same_history_value old cur \<longleftrightarrow> norm_value old = norm_value cur"

definition value_of :: "snapshot \<Rightarrow> string \<Rightarrow> col_value" where
  "value_of s field = (case map_of (snap_values s) field of None \<Rightarrow> VNull | Some v \<Rightarrow> v)"

definition value_before :: "snapshot option \<Rightarrow> string \<Rightarrow> col_value" where
  "value_before b field = (case b of None \<Rightarrow> VNull | Some s \<Rightarrow> value_of s field)"

definition diff_entry :: "snapshot option \<Rightarrow> snapshot \<Rightarrow> string \<Rightarrow> history_row list" where
  "diff_entry before cur field =
     (if same_history_value (value_before before field) (value_of cur field) then []
      else if field = ''display_path'' \<and> before = None then []
      else [\<lparr>h_task = snap_uid cur, h_ts = 0, h_actor = [], h_origin = HistoryOriginLocal,
             h_kind = HistoryKindChange, h_field = field,
             h_old = (if history_field_class_of field = HistoryFieldStructured \<and> before \<noteq> None
                      then Some (norm_value (value_before before field)) else None),
             h_new = (if history_field_class_of field = HistoryFieldStructured
                      then Some (norm_value (value_of cur field)) else None),
             h_event = []\<rparr>])"

definition diff_snapshots :: "snapshot option \<Rightarrow> snapshot \<Rightarrow> history_row list" where
  "diff_snapshots before cur = concat (map (diff_entry before cur) history_field_names)"

text \<open>
  A row a renumber moved is paired through the move; otherwise, outside an import, the same row before
  and after, with the same uid.
\<close>

definition pairing_before :: "tracker \<Rightarrow> string \<Rightarrow> snapshot \<Rightarrow> snapshot option" where
  "pairing_before tr i cur =
     (let same = (case map_of (tr_before tr) i of
                    None \<Rightarrow> None
                  | Some b \<Rightarrow> if snap_uid b = snap_uid cur then Some b else None)
      in case old_of tr i of
           None \<Rightarrow> same
         | Some i0 \<Rightarrow> (case map_of (tr_before tr) i0 of None \<Rightarrow> same | Some b \<Rightarrow> Some b))"

definition entry_origin :: "history_scope \<Rightarrow> tracker \<Rightarrow> string \<Rightarrow> history_origin" where
  "entry_origin sc tr i =
     (if i \<in> set (tr_system tr) then HistoryOriginSystem
      else case hs_origin sc of None \<Rightarrow> HistoryOriginLocal | Some og \<Rightarrow> og)"

text \<open>\<open>historyAppendSQL\<close>: an entry with a causal event is appended once.\<close>

definition append_history_entry :: "history_row \<Rightarrow> db \<Rightarrow> db" where
  "append_history_entry r d =
     (if h_event r \<noteq> [] \<and>
         list_ex (\<lambda>q. h_event q = h_event r \<and> h_task q = h_task r \<and> h_field q = h_field r) (history d)
      then d else d\<lparr>history := history d @ [r]\<rparr>)"

section \<open>Retention\<close>

definition retention_keep :: "int \<Rightarrow> int" where
  "retention_keep limit = max (limit * 9 div 10) 1"

text \<open>The change entries of a task dated up to now, oldest first (\<open>ts\<close>, then rowid).\<close>

definition eligible_rows :: "string \<Rightarrow> int \<Rightarrow> history_row list \<Rightarrow> (nat \<times> history_row) list" where
  "eligible_rows u t rows =
     sort_key (\<lambda>(i, r). h_ts r)
       (filter (\<lambda>(i, r). h_task r = u \<and> h_kind r = HistoryKindChange \<and> h_ts r \<le> t)
          (enumerate 0 rows))"

definition raise_cutoff :: "string \<Rightarrow> int \<Rightarrow> (string \<times> int) list \<Rightarrow> (string \<times> int) list" where
  "raise_cutoff u c cs =
     AList.update u (case map_of cs u of None \<Rightarrow> c | Some old \<Rightarrow> max old c) cs"

definition trim_task :: "env \<Rightarrow> int \<Rightarrow> string \<Rightarrow> string \<Rightarrow> db \<Rightarrow> db" where
  "trim_task e limit actor u d =
     (let rows = eligible_rows u (now e) (history d)
      in if int (length rows) \<le> limit then d
         else let drop_n = nat (int (length rows) - retention_keep limit);
                  cutoff = h_ts (snd (rows ! (drop_n - 1)));
                  victims = map fst (take drop_n rows);
                  kept = map snd (filter (\<lambda>(i, r). i \<notin> set victims) (enumerate 0 (history d)));
                  marker = \<lparr>h_task = u, h_ts = now e, h_actor = actor,
                            h_origin = HistoryOriginSystem, h_kind = HistoryKindRetentionDrop,
                            h_field = ''retention'', h_old = Some (VTime cutoff),
                            h_new = Some (VInt (int drop_n)), h_event = []\<rparr>
              in append_history_entry marker
                   (d\<lparr>history := kept, cutoffs := raise_cutoff u cutoff (cutoffs d)\<rparr>))"

definition trim_history :: "env \<Rightarrow> string list \<Rightarrow> string \<Rightarrow> db \<Rightarrow> db" where
  "trim_history e uids actor d =
     (if history_limit e < 1 then d
      else fold (trim_task e (history_limit e) actor) (sort_by (\<lambda>a b. a < b) (remdups uids)) d)"

section \<open>Recording\<close>

definition read_touched :: "(string \<times> snapshot) list \<Rightarrow> tracker \<Rightarrow> db \<Rightarrow> (string \<times> snapshot) list" where
  "read_touched cur tr d =
     cur @ map read_snapshot
       (filter (\<lambda>n. node_id n \<in> set (tr_seen tr) \<and> node_id n \<notin> fst ` set cur \<and> node_id n \<noteq> [])
          (nodes d))"

text \<open>Each renumbered subtree is read under its new ids.\<close>

definition read_moved :: "(string \<times> snapshot) list \<Rightarrow> tracker \<Rightarrow> db \<Rightarrow> (string \<times> snapshot) list" where
  "read_moved cur tr d =
     fold (\<lambda>(_, new) cur. cur @ map read_snapshot
         (filter (\<lambda>n. in_subtree new (node_id n) \<and> node_id n \<notin> fst ` set cur) (nodes d)))
       (tr_moves tr) cur"

definition history_entries :: "env \<Rightarrow> history_scope \<Rightarrow> tracker \<Rightarrow> db \<Rightarrow> history_row list" where
  "history_entries e sc tr d =
     (let cur = read_moved (read_touched (snapshot_tasks sc d) tr d) tr d;
          actor = resolve_emit_author e d (hs_actor sc)
      in concat (map (\<lambda>i. case map_of cur i of None \<Rightarrow> []
           | Some s \<Rightarrow> map (\<lambda>r. r\<lparr>h_actor := actor, h_ts := now e, h_event := hs_event sc,
                                 h_origin := entry_origin sc tr i\<rparr>)
                           (diff_snapshots (pairing_before tr i s) s))
           (sort_by (\<lambda>a b. a < b) (remdups (map fst cur)))))"

definition record_history :: "env \<Rightarrow> history_scope \<Rightarrow> tracker \<Rightarrow> db \<Rightarrow> db" where
  "record_history e sc tr d =
     (let entries = history_entries e sc tr d
      in trim_history e (map h_task entries) (resolve_emit_author e d (hs_actor sc))
           (fold append_history_entry entries d))"

definition empty_tracker :: tracker where
  "empty_tracker = \<lparr>tr_before = [], tr_seen = [], tr_system = [], tr_moves = []\<rparr>"

text \<open>\<open>inTxHistory\<close>: a nested call joins the outer tracker.\<close>

definition with_history :: "env \<Rightarrow> history_scope \<Rightarrow> transaction \<Rightarrow> transaction" where
  "with_history e sc body d =
     (case tx_tracker d of
        Some _ \<Rightarrow> body (touch_history (hs_id sc) d)
      | None \<Rightarrow>
          let before = snapshot_tasks sc d;
              tr = \<lparr>tr_before = before, tr_seen = hs_id sc # map fst before, tr_system = [], tr_moves = []\<rparr>
          in bind_result (body (d\<lparr>tx_tracker := Some tr\<rparr>)) (\<lambda>d1.
               Inr ((record_history e sc (case tx_tracker d1 of None \<Rightarrow> tr | Some t \<Rightarrow> t) d1)
                      \<lparr>tx_tracker := None\<rparr>)))"

section \<open>What the recorder touches\<close>

text \<open>Everything but the history tables and the tracker.\<close>

definition same_tables :: "db \<Rightarrow> db \<Rightarrow> bool" where
  "same_tables d d' \<longleftrightarrow>
     d'\<lparr>history := [], cutoffs := [], tx_tracker := None\<rparr> = d\<lparr>history := [], cutoffs := [], tx_tracker := None\<rparr>"

lemma same_tables_fields [row_simps]:
  assumes "same_tables d d'"
  shows "nodes d' = nodes d" "deps d' = deps d" "agents d' = agents d" "cascades d' = cascades d"
    "events d' = events d" "sequences d' = sequences d" "hook_origins d' = hook_origins d"
    "meta_lamport d' = meta_lamport d" "meta_vclock d' = meta_vclock d"
    "meta_author d' = meta_author d" "meta_queue_cap d' = meta_queue_cap d"
    "meta_machine_hash d' = meta_machine_hash d" "meta_emitting d' = meta_emitting d"
proof -
  note eq = assms[unfolded same_tables_def]
  show "nodes d' = nodes d" "deps d' = deps d" "agents d' = agents d" "cascades d' = cascades d"
    using arg_cong[OF eq, of nodes] arg_cong[OF eq, of deps] arg_cong[OF eq, of agents]
      arg_cong[OF eq, of cascades] by simp_all
  show "events d' = events d" "sequences d' = sequences d" "hook_origins d' = hook_origins d"
    "meta_lamport d' = meta_lamport d" "meta_vclock d' = meta_vclock d"
    using arg_cong[OF eq, of events] arg_cong[OF eq, of sequences] arg_cong[OF eq, of hook_origins]
      arg_cong[OF eq, of meta_lamport] arg_cong[OF eq, of meta_vclock] by simp_all
  show "meta_author d' = meta_author d" "meta_queue_cap d' = meta_queue_cap d"
    "meta_machine_hash d' = meta_machine_hash d" "meta_emitting d' = meta_emitting d"
    using arg_cong[OF eq, of meta_author] arg_cong[OF eq, of meta_queue_cap]
      arg_cong[OF eq, of meta_machine_hash] arg_cong[OF eq, of meta_emitting] by simp_all
qed

lemma same_tables_refl [simp]: "same_tables d d"
  by (simp add: same_tables_def)

lemma same_tables_trans:
  assumes "same_tables a b" "same_tables b c"
  shows "same_tables a c"
  unfolding same_tables_def
  using assms(2)[unfolded same_tables_def] assms(1)[unfolded same_tables_def] by (rule trans)

lemma same_tables_sym: "same_tables a b \<Longrightarrow> same_tables b a"
  unfolding same_tables_def by (rule sym)

lemma same_tables_tracker [simp]: "same_tables d (d\<lparr>tx_tracker := t\<rparr>)" "same_tables (d\<lparr>tx_tracker := t\<rparr>) d"
  by (simp_all add: same_tables_def)

lemma same_tables_find:
  assumes "same_tables d d'"
  shows "find_node i d' = find_node i d" "find_live i d' = find_live i d"
    "unique_ids d' = unique_ids d" "log_ok d' = log_ok d"
proof -
  show "find_node i d' = find_node i d" "find_live i d' = find_live i d" "unique_ids d' = unique_ids d"
    by (simp_all add: find_node_def find_live_def unique_ids_def same_tables_fields(1)[OF assms])
  show "log_ok d' = log_ok d" by (rule log_ok_cong) (rule same_tables_fields[OF assms])+
qed

lemma append_history_entry_tables [simp]: "same_tables d (append_history_entry r d)"
  by (simp add: append_history_entry_def same_tables_def)

lemma append_history_entry_tracker [simp]: "tx_tracker (append_history_entry r d) = tx_tracker d"
  by (simp add: append_history_entry_def)

lemma same_tables_fold: "(\<And>x d. same_tables d (f x d)) \<Longrightarrow> same_tables d (fold f xs d)"
  by (induction xs arbitrary: d) (auto intro: same_tables_trans)

lemma trim_task_tables [simp]: "same_tables d (trim_task e limit actor u d)"
  by (auto simp: trim_task_def Let_def append_history_entry_def same_tables_def)

lemma record_history_tables: "same_tables d (record_history e sc tr d)"
proof -
  have "same_tables d (fold append_history_entry rs d)" for rs by (rule same_tables_fold) simp
  moreover have "same_tables q (trim_history e us a q)" for us a q
    by (simp add: trim_history_def same_tables_fold)
  ultimately show ?thesis unfolding record_history_def Let_def by (rule same_tables_trans)
qed

lemma touch_history_tables [simp]: "same_tables d (touch_history i d)"
  by (auto simp: touch_history_def same_tables_def split: option.splits)

lemmas touch_fields = same_tables_fields[OF touch_history_tables]

lemma with_history_ok:
  assumes "with_history e sc body d = Inr d'"
  obtains d0 d1 where "same_tables d d0" "body d0 = Inr d1" "same_tables d1 d'"
proof (cases "tx_tracker d")
  case None
  define tr where "tr = \<lparr>tr_before = snapshot_tasks sc d,
    tr_seen = hs_id sc # map fst (snapshot_tasks sc d), tr_system = [], tr_moves = []\<rparr>"
  from assms None obtain d1 where d1: "body (d\<lparr>tx_tracker := Some tr\<rparr>) = Inr d1"
    and d': "d' = (record_history e sc (case tx_tracker d1 of None \<Rightarrow> tr | Some t \<Rightarrow> t) d1)\<lparr>tx_tracker := None\<rparr>"
    unfolding tr_def by (auto simp: with_history_def Let_def bind_result_Inr)
  have "same_tables d1 d'"
    unfolding d' using record_history_tables by (rule same_tables_trans) (rule same_tables_tracker)
  then show ?thesis using d1 by (intro that[of "d\<lparr>tx_tracker := Some tr\<rparr>" d1]) simp_all
next
  case (Some t)
  with assms have "body (touch_history (hs_id sc) d) = Inr d'" by (simp add: with_history_def)
  then show ?thesis by (rule that[OF touch_history_tables _ same_tables_refl])
qed

lemma with_history_error:
  assumes "with_history e sc body d = Inl err"
  obtains d0 where "same_tables d d0" "body d0 = Inl err"
  using assms by (auto simp: with_history_def Let_def bind_result_Inl split: option.splits intro!: that)

section \<open>Which entries are recorded\<close>

lemma history_field_names_distinct: "distinct history_field_names"
  by (simp add: history_field_names_def)

lemma snapshot_values_fields: "map fst (snapshot_values n) = history_field_names"
  by (simp add: snapshot_values_def history_field_names_def)

lemma value_of_read: "value_of (snd (read_snapshot n)) f
    = (case map_of (snapshot_values n) f of None \<Rightarrow> VNull | Some v \<Rightarrow> v)"
  by (simp add: value_of_def read_snapshot_def)

text \<open>The entry that a changed field of a task that existed before gets.\<close>

definition change_entry ::
  "env \<Rightarrow> db \<Rightarrow> history_scope \<Rightarrow> tracker \<Rightarrow> string \<Rightarrow> snapshot \<Rightarrow> snapshot \<Rightarrow> string \<Rightarrow> history_row" where
  "change_entry e d sc tr i b s f =
     \<lparr>h_task = snap_uid s, h_ts = now e, h_actor = resolve_emit_author e d (hs_actor sc),
      h_origin = entry_origin sc tr i, h_kind = HistoryKindChange, h_field = f,
      h_old = (if history_field_class_of f = HistoryFieldStructured
               then Some (norm_value (value_of b f)) else None),
      h_new = (if history_field_class_of f = HistoryFieldStructured
               then Some (norm_value (value_of s f)) else None),
      h_event = hs_event sc\<rparr>"

lemma diff_snapshots_existing:
  "set (diff_snapshots (Some b) s) =
     (\<lambda>f. \<lparr>h_task = snap_uid s, h_ts = 0, h_actor = [], h_origin = HistoryOriginLocal,
           h_kind = HistoryKindChange, h_field = f,
           h_old = (if history_field_class_of f = HistoryFieldStructured
                    then Some (norm_value (value_of b f)) else None),
           h_new = (if history_field_class_of f = HistoryFieldStructured
                    then Some (norm_value (value_of s f)) else None),
           h_event = []\<rparr>)
       ` {f \<in> set history_field_names. norm_value (value_of b f) \<noteq> norm_value (value_of s f)}"
  by (auto simp: diff_snapshots_def diff_entry_def value_before_def same_history_value_def
      split: if_splits)

lemma map_of_read_snapshot:
  assumes "distinct (map node_id ns)" "n \<in> set ns" "P n"
  shows "map_of (map read_snapshot (filter P ns)) (node_id n) = Some (snd (read_snapshot n))"
proof -
  have "distinct (map fst (map read_snapshot (filter P ns)))"
    using assms(1) by (auto simp: read_snapshot_def comp_def distinct_map_filter)
  moreover have "(node_id n, snd (read_snapshot n)) \<in> set (map read_snapshot (filter P ns))"
    using assms(2,3) by (force simp: read_snapshot_def)
  ultimately show ?thesis by (rule map_of_is_SomeI)
qed

lemma map_of_read_none:
  fixes n :: node
  shows "node_id n \<notin> node_id ` set (filter P ns) \<Longrightarrow> map_of (map read_snapshot (filter P ns)) (node_id n) = None"
  by (induction ns) (auto simp: read_snapshot_def split: if_splits)

text \<open>After the body: every live or deleted row the tracker has seen is read back.\<close>

lemma map_of_read_touched:
  assumes "unique_ids d" "n \<in> set (nodes d)" "node_id n \<in> set (tr_seen tr)" "node_id n \<noteq> []"
  shows "map_of (read_touched (snapshot_tasks sc d) tr d) (node_id n) = Some (snd (read_snapshot n))"
proof -
  define P :: "node \<Rightarrow> bool" where "P = (\<lambda>n. hs_id sc \<noteq> [] \<and>
    (node_id n = hs_id sc \<or> hs_cascade sc \<and> descendant_of (hs_id sc) (node_id n)))"
  have cur: "snapshot_tasks sc d = map read_snapshot (filter P (nodes d))"
    by (simp add: snapshot_tasks_def P_def)
  have fst_cur: "fst ` set (snapshot_tasks sc d) = node_id ` set (filter P (nodes d))"
    by (force simp: cur read_snapshot_def)
  have dist: "distinct (map node_id (nodes d))" using assms(1) by (simp add: unique_ids_def)
  show ?thesis
  proof (cases "P n")
    case True
    then show ?thesis
      using map_of_read_snapshot[OF dist assms(2), of P] by (simp add: read_touched_def cur)
  next
    case False
    have notin: "node_id n \<notin> node_id ` set (filter P (nodes d))"
    proof
      assume "node_id n \<in> node_id ` set (filter P (nodes d))"
      then obtain m where "m \<in> set (nodes d)" "P m" "node_id m = node_id n" by auto
      then have "m = n" using dist assms(2) by (auto simp: distinct_map inj_on_def)
      with \<open>P m\<close> False show False by simp
    qed
    then have "map_of (snapshot_tasks sc d) (node_id n) = None" by (simp add: cur map_of_read_none)
    moreover have "map_of (map read_snapshot (filter (\<lambda>n. node_id n \<in> set (tr_seen tr)
        \<and> node_id n \<notin> fst ` set (snapshot_tasks sc d) \<and> node_id n \<noteq> []) (nodes d))) (node_id n)
        = Some (snd (read_snapshot n))"
      using map_of_read_snapshot[OF dist assms(2)] assms(3,4) notin fst_cur by simp
    ultimately show ?thesis by (simp add: read_touched_def map_add_def)
  qed
qed

text \<open>
  Every recorded field of a task that changed has its entry, with the old and the new value when the
  field is structured: for a task paired with a state before, and so for a tracked task of a
  transaction that renumbers nothing.
\<close>

lemma history_entries_paired:
  assumes "map_of (read_moved (read_touched (snapshot_tasks sc d) tr d) tr d) i = Some s" "pairing_before tr i s = Some b"
    and "f \<in> set history_field_names" "norm_value (value_of b f) \<noteq> norm_value (value_of s f)"
  shows "change_entry e d sc tr i b s f \<in> set (history_entries e sc tr d)"
proof -
  let ?cur = "read_moved (read_touched (snapshot_tasks sc d) tr d) tr d"
  have mem: "i \<in> set (sort_by (\<lambda>a b. a < b) (remdups (map fst ?cur)))"
    using map_of_SomeD[OF assms(1)] by force
  have entry: "change_entry e d sc tr i b s f \<in> set (map (\<lambda>r. r\<lparr>h_actor := resolve_emit_author e d (hs_actor sc),
      h_ts := now e, h_event := hs_event sc, h_origin := entry_origin sc tr i\<rparr>) (diff_snapshots (Some b) s))"
    using assms(3,4) unfolding set_map diff_snapshots_existing image_image
    by (intro image_eqI[of _ _ f]) (auto simp: change_entry_def)
  show ?thesis
    unfolding history_entries_def Let_def set_concat set_map
    by (rule UN_I[OF imageI[OF mem]]) (use assms(1,2) entry in \<open>simp\<close>)
qed

lemma history_entries_complete:
  assumes "unique_ids d" "n \<in> set (nodes d)" "node_id n \<in> set (tr_seen tr)" "node_id n \<noteq> []" "tr_moves tr = []"
    and "map_of (tr_before tr) (node_id n) = Some b" "snap_uid b = snap_uid (snd (read_snapshot n))"
    and "f \<in> set history_field_names"
    and "norm_value (value_of b f) \<noteq> norm_value (value_of (snd (read_snapshot n)) f)"
  shows "change_entry e d sc tr (node_id n) b (snd (read_snapshot n)) f \<in> set (history_entries e sc tr d)"
proof (rule history_entries_paired[OF _ _ assms(8,9)])
  show "map_of (read_moved (read_touched (snapshot_tasks sc d) tr d) tr d) (node_id n) = Some (snd (read_snapshot n))"
    using map_of_read_touched[OF assms(1-4)] assms(5) by (simp add: read_moved_def)
  show "pairing_before tr (node_id n) (snd (read_snapshot n)) = Some b"
    using assms(5-7) by (simp add: pairing_before_def old_of_def Let_def)
qed

text \<open>A renumbered task is read back under its new id, in its state now.\<close>

lemma map_of_read_moved:
  assumes "unique_ids d" "n \<in> set (nodes d)" "\<exists>(old, new) \<in> set (tr_moves tr). in_subtree new (node_id n)"
    and "map_of cur (node_id n) \<in> {None, Some (snd (read_snapshot n))}"
  shows "map_of (read_moved cur tr d) (node_id n) = Some (snd (read_snapshot n))"
proof -
  let ?s = "snd (read_snapshot n)"
  define step where "step = (\<lambda>new cur. cur @ map read_snapshot
    (filter (\<lambda>m. in_subtree new (node_id m) \<and> node_id m \<notin> fst ` set cur) (nodes d)))"
  have dist: "distinct (map node_id (nodes d))" using assms(1) by (simp add: unique_ids_def)
  have one: "map_of (step new cur) (node_id n) = (case map_of cur (node_id n) of Some s \<Rightarrow> Some s
      | None \<Rightarrow> if in_subtree new (node_id n) then Some ?s else None)" for new cur
  proof (cases "map_of cur (node_id n)")
    case None
    let ?P = "\<lambda>m. in_subtree new (node_id m) \<and> node_id m \<notin> fst ` set cur"
    have fresh: "node_id n \<notin> fst ` set cur" using None by (simp add: map_of_eq_None_iff)
    show ?thesis
    proof (cases "in_subtree new (node_id n)")
      case True
      with map_of_read_snapshot[OF dist assms(2), of ?P] fresh None show ?thesis by (simp add: step_def map_add_def)
    next
      case False
      then have "node_id n \<notin> node_id ` set (filter ?P (nodes d))" by auto
      with map_of_read_none[of n ?P "nodes d"] None False show ?thesis by (simp add: step_def map_add_def)
    qed
  qed (simp add: step_def map_add_def)
  have "map_of (fold (\<lambda>(_, new). step new) ms cur) (node_id n) = Some ?s"
    if "(\<exists>(old, new) \<in> set ms. in_subtree new (node_id n)) \<or> map_of cur (node_id n) = Some ?s"
      "map_of cur (node_id n) \<in> {None, Some ?s}" for ms cur
    using that
  proof (induction ms arbitrary: cur)
    case (Cons m ms)
    obtain old new where m: "m = (old, new)" by (cases m)
    have "map_of (step new cur) (node_id n) \<in> {None, Some ?s}" using Cons.prems(2) by (auto simp: one)
    moreover have "(\<exists>(old, new) \<in> set ms. in_subtree new (node_id n)) \<or> map_of (step new cur) (node_id n) = Some ?s"
      using Cons.prems by (auto simp: m one)
    ultimately show ?case using Cons.IH[of "step new cur"] by (simp add: m)
  qed simp
  from this[of "tr_moves tr" cur] assms(3,4) show ?thesis
    by (simp add: read_moved_def step_def case_prod_unfold)
qed

text \<open>No entry of the recorder holds the value of a free-text field.\<close>

lemma diff_entry_class:
  "r \<in> set (diff_snapshots b s) \<Longrightarrow> history_field_class_of (h_field r) = HistoryFieldValueFree \<Longrightarrow>
   h_old r = None \<and> h_new r = None"
  by (auto simp: diff_snapshots_def diff_entry_def split: if_splits)

lemma history_entries_value_free:
  "r \<in> set (history_entries e sc tr d) \<Longrightarrow> history_field_class_of (h_field r) = HistoryFieldValueFree \<Longrightarrow>
   h_old r = None \<and> h_new r = None"
  by (auto simp: history_entries_def Let_def split: option.splits dest!: diff_entry_class)

end
