(* ===== verification/Progress.thy ===== *)
theory Progress
  imports Task_History
begin

text \<open>
  The progress rollup (\<open>internal/store/sqlite/progress.go\<close>): a node's progress is the weighted
  average of its live children that are neither cancelled nor invalidated, and a change is
  propagated to the top through the stored parents. Progress and weight are rationals. The
  recursion of \<open>recalculateProgress\<close> has fuel; the lemmas show that the fuel is enough on every
  store whose parents have shorter ids, which every store operation keeps.
\<close>

section \<open>The rollup of one node\<close>

definition counted_children :: "string \<Rightarrow> db \<Rightarrow> node list" where
  "counted_children i d =
     filter (\<lambda>n. parent_id n = i \<and> live n \<and> status n \<noteq> StatusCancelled \<and> status n \<noteq> StatusInvalidated)
       (nodes d)"

definition rollup_of :: "node list \<Rightarrow> rat" where
  "rollup_of cs =
     (let total = sum_list (map weight cs);
          weighted = sum_list (map (\<lambda>n. progress n * weight n) cs)
      in if cs \<noteq> [] \<and> total > 0 then weighted / total else 0)"

definition recompute_node_progress :: "string \<Rightarrow> db \<Rightarrow> db" where
  "recompute_node_progress i d =
     update_live i (\<lambda>n. n\<lparr>progress := rollup_of (counted_children i d)\<rparr>) d"

section \<open>The walk to the root\<close>

fun recalculate_progress_fuel :: "nat \<Rightarrow> string \<Rightarrow> transaction" where
  "recalculate_progress_fuel 0 i d = Inl Diverges"
| "recalculate_progress_fuel (Suc k) i d =
     (if i = [] then Inr d
      else let d1 = recompute_node_progress i d
           in case find_node i d1 of
                None \<Rightarrow> Inr d1
              | Some n \<Rightarrow> if parent_id n \<noteq> [] then recalculate_progress_fuel k (parent_id n) d1
                          else Inr d1)"

definition recalculate_progress :: "string \<Rightarrow> transaction" where
  "recalculate_progress i d = recalculate_progress_fuel (Suc (length (nodes d))) i d"

section \<open>The shape of the tree\<close>

text \<open>Ids are unique and non-empty and a parent's id is a proper prefix of its child's.\<close>

definition key_columns :: "db \<Rightarrow> (string \<times> string) list" where
  "key_columns d = map (\<lambda>n. (node_id n, parent_id n)) (nodes d)"

definition tree_ok :: "db \<Rightarrow> bool" where
  "tree_ok d \<longleftrightarrow> distinct (map fst (key_columns d))
     \<and> (\<forall>(i, p) \<in> set (key_columns d). i \<noteq> [] \<and> (p = [] \<or> descendant_of p i))"

lemma tree_ok_cong: "key_columns d' = key_columns d \<Longrightarrow> tree_ok d' = tree_ok d"
  by (simp add: tree_ok_def)

lemma unique_ids_keys: "unique_ids d \<longleftrightarrow> distinct (map fst (key_columns d))"
  by (simp add: unique_ids_def key_columns_def comp_def)

lemma tree_ok_unique: "tree_ok d \<Longrightarrow> unique_ids d"
  by (simp add: tree_ok_def unique_ids_keys)

lemma tree_ok_node:
  "tree_ok d \<Longrightarrow> n \<in> set (nodes d) \<Longrightarrow>
   node_id n \<noteq> [] \<and> (parent_id n = [] \<or> descendant_of (parent_id n) (node_id n))"
  by (force simp: tree_ok_def key_columns_def)

lemma key_columns_same_nodes: "nodes d' = nodes d \<Longrightarrow> key_columns d' = key_columns d"
  by (simp add: key_columns_def)

lemma key_columns_update_where [row_simps]: "keeps_key f \<Longrightarrow> key_columns (update_where P f d) = key_columns d"
  by (auto simp: key_columns_def nodes_update_where keeps_key_def)

lemma tree_ok_update_where [row_simps]: "keeps_key f \<Longrightarrow> tree_ok (update_where P f d) = tree_ok d"
  by (rule tree_ok_cong) (rule key_columns_update_where)

lemma keeps_key_progress [simp, intro]: "keeps_key (\<lambda>n. n\<lparr>progress := v\<rparr>)"
  by (simp add: keeps_key_def)

text \<open>The two databases have the same rows but for the progress column.\<close>

definition same_but_progress :: "db \<Rightarrow> db \<Rightarrow> bool" where
  "same_but_progress d d' \<longleftrightarrow> d'\<lparr>nodes := nodes d\<rparr> = d
     \<and> map (\<lambda>n. n\<lparr>progress := 0\<rparr>) (nodes d') = map (\<lambda>n. n\<lparr>progress := 0\<rparr>) (nodes d)"

lemma same_but_progress_refl [simp]: "same_but_progress d d"
  by (simp add: same_but_progress_def)

lemma same_but_progress_trans:
  assumes "same_but_progress a b" "same_but_progress b c"
  shows "same_but_progress a c"
proof -
  have b: "b\<lparr>nodes := nodes a\<rparr> = a" and c: "c\<lparr>nodes := nodes b\<rparr> = b"
    using assms by (simp_all only: same_but_progress_def)
  have "(c\<lparr>nodes := nodes b\<rparr>)\<lparr>nodes := nodes a\<rparr> = a" unfolding c by (rule b)
  then have "c\<lparr>nodes := nodes a\<rparr> = a" by simp
  moreover have "map (\<lambda>n. n\<lparr>progress := 0\<rparr>) (nodes c) = map (\<lambda>n. n\<lparr>progress := 0\<rparr>) (nodes a)"
    using assms by (simp only: same_but_progress_def)
  ultimately show ?thesis unfolding same_but_progress_def by blast
qed

lemma recompute_same_but_progress [simp]: "same_but_progress d (recompute_node_progress i d)"
  by (auto simp: same_but_progress_def recompute_node_progress_def node_updates update_where_def)

lemma progress_cleared:
  assumes "map (\<lambda>n. n\<lparr>progress := 0\<rparr>) ns' = map (\<lambda>n :: node. n\<lparr>progress := 0\<rparr>) ns"
    and "\<And>n v. g (n\<lparr>progress := v\<rparr>) = g n"
  shows "map g ns' = map g ns"
proof -
  have "map g xs = map g (map (\<lambda>n. n\<lparr>progress := 0\<rparr>) xs)" for xs
    using assms(2) by (simp add: comp_def)
  with assms(1) show ?thesis by metis
qed

lemma same_but_progress_fields:
  assumes "same_but_progress d d'"
  shows "deps d' = deps d" "agents d' = agents d" "cascades d' = cascades d" "events d' = events d"
    "sequences d' = sequences d" "meta_lamport d' = meta_lamport d" "meta_vclock d' = meta_vclock d"
    "meta_queue_cap d' = meta_queue_cap d" "meta_author d' = meta_author d"
    "tx_tracker d' = tx_tracker d" "history d' = history d" "length (nodes d') = length (nodes d)"
proof -
  have eq: "d'\<lparr>nodes := nodes d\<rparr> = d" and ns: "map (\<lambda>n. n\<lparr>progress := 0\<rparr>) (nodes d')
      = map (\<lambda>n. n\<lparr>progress := 0\<rparr>) (nodes d)"
    using assms by (simp_all only: same_but_progress_def)
  show "deps d' = deps d" "agents d' = agents d" "cascades d' = cascades d" "events d' = events d"
    using arg_cong[OF eq, of deps] arg_cong[OF eq, of agents] arg_cong[OF eq, of cascades]
      arg_cong[OF eq, of events] by simp_all
  show "sequences d' = sequences d" "meta_lamport d' = meta_lamport d" "meta_vclock d' = meta_vclock d"
    "meta_queue_cap d' = meta_queue_cap d"
    using arg_cong[OF eq, of sequences] arg_cong[OF eq, of meta_lamport]
      arg_cong[OF eq, of meta_vclock] arg_cong[OF eq, of meta_queue_cap] by simp_all
  show "meta_author d' = meta_author d" "tx_tracker d' = tx_tracker d" "history d' = history d"
    using arg_cong[OF eq, of meta_author] arg_cong[OF eq, of tx_tracker] arg_cong[OF eq, of history]
    by simp_all
  show "length (nodes d') = length (nodes d)" using ns by (metis length_map)
qed

lemma same_but_progress_node:
  assumes "same_but_progress d d'"
  shows "map_option (\<lambda>n. n\<lparr>progress := 0\<rparr>) (find_node i d') = map_option (\<lambda>n. n\<lparr>progress := 0\<rparr>) (find_node i d)"
proof -
  have "find_node i q = find (\<lambda>n. node_id n = i) (nodes q)" for q by (simp add: find_node_def)
  moreover have "map_option (\<lambda>n :: node. n\<lparr>progress := 0\<rparr>) (find (\<lambda>n. node_id n = i) xs)
      = find (\<lambda>n. node_id n = i) (map (\<lambda>n. n\<lparr>progress := 0\<rparr>) xs)" for xs
    by (simp add: find_map_key)
  ultimately show ?thesis using assms by (simp add: same_but_progress_def)
qed

lemma same_but_progress_keys: "same_but_progress d d' \<Longrightarrow> key_columns d' = key_columns d"
  unfolding key_columns_def same_but_progress_def by (rule progress_cleared[OF conjunct2]) auto

lemma same_but_progress_tree: "same_but_progress d d' \<Longrightarrow> tree_ok d' = tree_ok d"
  by (rule tree_ok_cong) (rule same_but_progress_keys)

section \<open>The walk returns and is correct\<close>

lemma find_node_recompute:
  "find_node j (recompute_node_progress i d) =
     map_option (\<lambda>n. if node_id n = i \<and> live n
                    then n\<lparr>progress := rollup_of (counted_children i d)\<rparr> else n) (find_node j d)"
  by (simp add: recompute_node_progress_def node_updates row_simps)

definition short_rows :: "db \<Rightarrow> string \<Rightarrow> nat" where
  "short_rows d i = length (filter (\<lambda>(j, p). length j \<le> length i) (key_columns d))"

lemma short_rows_parent:
  assumes "tree_ok d" "n \<in> set (nodes d)" "parent_id n \<noteq> []"
  shows "short_rows d (parent_id n) < short_rows d (node_id n)"
proof -
  have shorter: "length (parent_id n) < length (node_id n)"
    using tree_ok_node[OF assms(1,2)] assms(3) by (auto dest: descendant_longer)
  have mem: "(node_id n, parent_id n) \<in> set (key_columns d)"
    using assms(2) by (auto simp: key_columns_def)
  let ?P = "\<lambda>q i. \<lambda>(j, p). length j \<le> length i"
  have sub: "filter (\<lambda>(j, p). length j \<le> length (parent_id n)) xs
      = filter (\<lambda>(j, p). length j \<le> length (parent_id n))
          (filter (\<lambda>(j, p). length j \<le> length (node_id n)) xs)" for xs :: "(string \<times> string) list"
    using shorter by (induction xs) auto
  have "(node_id n, parent_id n) \<in> set (filter (\<lambda>(j, p). length j \<le> length (node_id n)) (key_columns d))"
    using mem by simp
  then show ?thesis
    unfolding short_rows_def sub[of "key_columns d"]
    by (rule length_filter_less) (use shorter in simp)
qed

lemma short_rows_same: "same_but_progress d d' \<Longrightarrow> short_rows d' i = short_rows d i"
  by (simp add: short_rows_def same_but_progress_keys)

lemma recalculate_fuel_returns:
  "tree_ok d \<Longrightarrow> short_rows d i < k \<Longrightarrow>
   \<exists>d'. recalculate_progress_fuel k i d = Inr d' \<and> same_but_progress d d'"
proof (induction k arbitrary: i d)
  case (Suc k)
  let ?d1 = "recompute_node_progress i d"
  have d1: "same_but_progress d ?d1" by simp
  show ?case
  proof (cases "i = [] \<or> (\<forall>n. find_node i ?d1 = Some n \<longrightarrow> parent_id n = [])")
    case True
    then show ?thesis by (auto simp: Let_def split: option.splits)
  next
    case False
    then obtain n where n: "find_node i ?d1 = Some n" "parent_id n \<noteq> []" and i: "i \<noteq> []" by auto
    have ok: "tree_ok ?d1" using Suc.prems(1) same_but_progress_tree[OF d1] by simp
    have mem: "n \<in> set (nodes ?d1)" "node_id n = i" using find_node_Some[OF n(1)] by auto
    have "short_rows ?d1 (parent_id n) < short_rows ?d1 i"
      using short_rows_parent[OF ok mem(1) n(2)] mem(2) by simp
    then have "short_rows ?d1 (parent_id n) < k"
      using Suc.prems(2) short_rows_same[OF d1] by simp
    from Suc.IH[OF ok this] obtain d' where
      "recalculate_progress_fuel k (parent_id n) ?d1 = Inr d'" "same_but_progress ?d1 d'"
      by blast
    then show ?thesis using n i same_but_progress_trans[OF d1] by (auto simp: Let_def)
  qed
qed simp

lemma short_rows_le: "short_rows d i \<le> length (nodes d)"
  by (metis key_columns_def length_filter_le length_map short_rows_def)

lemma recalculate_progress_returns:
  "tree_ok d \<Longrightarrow> \<exists>d'. recalculate_progress i d = Inr d' \<and> same_but_progress d d'"
  unfolding recalculate_progress_def
  by (rule recalculate_fuel_returns) (simp_all add: short_rows_le le_imp_less_Suc)

lemma recalculate_progress_frame:
  "recalculate_progress_fuel k i d = Inr d' \<Longrightarrow> same_but_progress d d'"
proof (induction k arbitrary: i d)
  case (Suc k)
  then show ?case
    by (auto simp: Let_def split: if_splits option.splits
        intro: same_but_progress_trans[OF recompute_same_but_progress])
qed simp

lemma recalculate_progress_content: "recalculate_progress i d = Inr d' \<Longrightarrow> same_but_progress d d'"
  unfolding recalculate_progress_def by (rule recalculate_progress_frame)

text \<open>The ids the walk from an id recomputes: the id and its stored ancestors.\<close>

inductive walks_to :: "db \<Rightarrow> string \<Rightarrow> string \<Rightarrow> bool" for d :: db and i :: string where
  start: "walks_to d i i"
| parent: "walks_to d i j \<Longrightarrow> (j, p) \<in> set (key_columns d) \<Longrightarrow> p \<noteq> [] \<Longrightarrow> walks_to d i p"

inductive_cases walks_toE: "walks_to d i j"

lemma walks_to_first: "walks_to d i a \<Longrightarrow> a = i \<or> (\<exists>p. (i, p) \<in> set (key_columns d) \<and> p \<noteq> [] \<and> walks_to d p a)"
  by (induction rule: walks_to.induct) (blast intro: walks_to.intros)+

lemma walks_to_step: "(i, p) \<in> set (key_columns d) \<Longrightarrow> p \<noteq> [] \<Longrightarrow> walks_to d p a \<Longrightarrow> walks_to d i a"
  by (rotate_tac 2, induction rule: walks_to.induct) (blast intro: walks_to.intros)+

lemma walks_to_length:
  assumes "walks_to d i a" "tree_ok d"
  shows "length a \<le> length i"
  using assms
proof (induction rule: walks_to.induct)
  case (parent j p)
  then have "descendant_of p j" by (force simp: tree_ok_def)
  with parent show ?case by (auto dest: descendant_longer)
qed simp

lemma walks_to_cong: "key_columns d' = key_columns d \<Longrightarrow> walks_to d' i a = walks_to d i a"
proof -
  have "walks_to d i a \<Longrightarrow> key_columns d' = key_columns d \<Longrightarrow> walks_to d' i a" for d d' i a
    by (induction rule: walks_to.induct) (auto intro: walks_to.intros)
  then show "key_columns d' = key_columns d \<Longrightarrow> walks_to d' i a = walks_to d i a" by metis
qed

lemma nodes_by_keys:
  assumes "unique_ids d'" "key_columns d' = key_columns d"
  shows "nodes d' = map (\<lambda>n. the (find_node (node_id n) d')) (nodes d)"
proof -
  have ids: "map node_id (nodes d') = map node_id (nodes d)"
    using arg_cong[OF assms(2), of "map fst"] by (simp add: key_columns_def comp_def)
  have "nodes d' = map (\<lambda>n. the (find_node (node_id n) d')) (nodes d')"
    using assms(1) by (auto simp: find_node_unique intro!: map_idI[symmetric])
  also have "\<dots> = map (\<lambda>i. the (find_node i d')) (map node_id (nodes d'))" by simp
  also have "\<dots> = map (\<lambda>n. the (find_node (node_id n) d')) (nodes d)" unfolding ids by simp
  finally show ?thesis .
qed

lemma counted_children_cong:
  assumes "unique_ids d" "unique_ids d'" "key_columns d' = key_columns d"
    and "\<And>n. n \<in> set (nodes d) \<Longrightarrow> parent_id n = i \<Longrightarrow> find_node (node_id n) d' = Some n"
  shows "counted_children i d' = counted_children i d"
proof -
  let ?g = "\<lambda>n. the (find_node (node_id n) d')"
  have g: "parent_id (?g n) = parent_id n" if "n \<in> set (nodes d)" for n
  proof -
    have "(node_id n, parent_id n) \<in> set (key_columns d')" using that assms(3) by (auto simp: key_columns_def)
    then obtain m where m: "m \<in> set (nodes d')" "node_id m = node_id n" "parent_id m = parent_id n"
      by (auto simp: key_columns_def)
    then show ?thesis using find_node_unique[OF assms(2) m(1)] by simp
  qed
  have eq: "?g n = n" if "n \<in> set (nodes d)" "parent_id n = i" for n
    using assms(4)[OF that] by simp
  have "filter P (map ?g ns) = filter P ns"
    if "\<forall>n \<in> set ns. parent_id (?g n) = parent_id n \<and> (parent_id n = i \<longrightarrow> ?g n = n)"
      "\<forall>n. P n \<longrightarrow> parent_id n = i" for P and ns :: "node list"
    using that by (induction ns) auto
  note same_filter = this
  show ?thesis
    unfolding counted_children_def nodes_by_keys[OF assms(2,3)]
    by (rule same_filter) (use g eq in blast)+
qed

lemma recompute_children:
  assumes "tree_ok d"
  shows "counted_children i (recompute_node_progress i d) = counted_children i d"
proof (rule counted_children_cong)
  let ?d1 = "recompute_node_progress i d"
  show "unique_ids d" "unique_ids ?d1" "key_columns ?d1 = key_columns d"
    using assms same_but_progress_tree[of d ?d1] same_but_progress_keys[of d ?d1]
    by (auto intro: tree_ok_unique)
  fix n assume n: "n \<in> set (nodes d)" "parent_id n = i"
  then have "node_id n \<noteq> i" using tree_ok_node[OF assms n(1)] by (auto dest: descendant_longer)
  then show "find_node (node_id n) ?d1 = Some n"
    using find_node_unique[OF tree_ok_unique[OF assms] n(1)] by (simp add: find_node_recompute)
qed

text \<open>What the walk establishes at an id: a live row holds its rollup.\<close>

definition rolled_up :: "db \<Rightarrow> string \<Rightarrow> bool" where
  "rolled_up d a \<longleftrightarrow> (\<forall>n. find_node a d = Some n \<and> live n \<longrightarrow> progress n = rollup_of (counted_children a d))"

text \<open>What the recorder's bookkeeping leaves alone, in the form the operations use.\<close>

lemma same_tables_views:
  assumes "same_tables d d'"
  shows "find_node j d' = find_node j d" "find_live j d' = find_live j d" "walks_to d' p a = walks_to d p a"
    "rolled_up d' a = rolled_up d a" "nodes d' = nodes d" "cascades d' = cascades d" "events d' = events d"
    "deps d' = deps d"
proof -
  note same = same_tables_fields[OF assms]
  show "find_node j d' = find_node j d" "find_live j d' = find_live j d" by (rule same_tables_find[OF assms])+
  show "walks_to d' p a = walks_to d p a" by (rule walks_to_cong) (simp add: key_columns_def same(1))
  show "rolled_up d' a = rolled_up d a" by (simp add: rolled_up_def counted_children_def find_node_def same(1))
  show "nodes d' = nodes d" "cascades d' = cascades d" "events d' = events d" "deps d' = deps d"
    by (simp_all only: same)
qed

lemma rolled_up_recompute: "tree_ok d \<Longrightarrow> rolled_up (recompute_node_progress i d) i"
proof -
  assume ok: "tree_ok d"
  let ?r = "rollup_of (counted_children i d)"
  have "progress n = ?r" if n: "find_node i (recompute_node_progress i d) = Some n" "live n" for n
  proof -
    from n(1) obtain m where m: "find_node i d = Some m"
        "n = (if node_id m = i \<and> live m then m\<lparr>progress := ?r\<rparr> else m)"
      by (auto simp: find_node_recompute)
    then have "node_id m = i" using find_node_Some[OF m(1)] by simp
    with m(2) n(2) show ?thesis by (cases "live m") simp_all
  qed
  then show ?thesis unfolding rolled_up_def recompute_children[OF ok] by blast
qed

lemma recalculate_fuel_correct:
  "recalculate_progress_fuel k i d = Inr d' \<Longrightarrow> tree_ok d \<Longrightarrow> i \<noteq> [] \<Longrightarrow>
   (\<forall>a. walks_to d i a \<longrightarrow> rolled_up d' a) \<and> (\<forall>j. \<not> walks_to d i j \<longrightarrow> find_node j d' = find_node j d)"
proof (induction k arbitrary: i d)
  case (Suc k)
  let ?d1 = "recompute_node_progress i d"
  have keys: "key_columns ?d1 = key_columns d" by (rule same_but_progress_keys) simp
  have ok: "tree_ok ?d1" using Suc.prems(2) tree_ok_cong[OF keys] by simp
  have other: "find_node j ?d1 = find_node j d" if "j \<noteq> i" for j
    using that find_node_Some[of j d] by (cases "find_node j d") (auto simp: find_node_recompute)
  have here: "rolled_up ?d1 i" using Suc.prems(2) by (rule rolled_up_recompute)
  show ?case
  proof (cases "\<exists>n. find_node i ?d1 = Some n \<and> parent_id n \<noteq> []")
    case False
    then have d': "d' = ?d1" using Suc.prems by (auto simp: Let_def split: option.splits if_splits)
    have only: "a = i" if "walks_to d i a" for a
    proof (rule ccontr)
      assume "a \<noteq> i"
      with walks_to_first[OF that] obtain p where p: "(i, p) \<in> set (key_columns ?d1)" "p \<noteq> []"
        using keys by auto
      then obtain m where "m \<in> set (nodes ?d1)" "node_id m = i" "parent_id m = p"
        by (auto simp: key_columns_def)
      with p(2) False find_node_unique[OF tree_ok_unique[OF ok]] show False by blast
    qed
    have start: "walks_to d i i" by (rule walks_to.start)
    show ?thesis
    proof (intro conjI allI impI)
      fix a assume "walks_to d i a"
      then have "a = i" by (rule only)
      with here show "rolled_up d' a" by (simp only: d')
    next
      fix j assume "\<not> walks_to d i j"
      with start have "j \<noteq> i" by blast
      then show "find_node j d' = find_node j d" unfolding d' by (rule other)
    qed
  next
    case True
    then obtain n where n: "find_node i ?d1 = Some n" "parent_id n \<noteq> []" by blast
    let ?p = "parent_id n"
    have rec: "recalculate_progress_fuel k ?p ?d1 = Inr d'"
      using Suc.prems n by (simp add: Let_def)
    note ih = Suc.IH[OF rec ok n(2)]
    have mem: "n \<in> set (nodes ?d1)" "node_id n = i" using find_node_Some[OF n(1)] by auto
    have "(node_id n, ?p) \<in> set (key_columns ?d1)" using mem(1) by (auto simp: key_columns_def)
    then have edge: "(i, ?p) \<in> set (key_columns d)" unfolding keys mem(2) .
    have short: "length ?p < length i"
      using tree_ok_node[OF ok mem(1)] mem(2) n(2) by (auto dest: descendant_longer)
    have unmoved: "\<not> walks_to ?d1 ?p j" if "length i \<le> length j" for j
      using walks_to_length[OF _ ok] that short by fastforce
    have keys': "key_columns d' = key_columns ?d1"
      by (rule same_but_progress_keys) (rule recalculate_progress_frame[OF rec])
    have kids: "counted_children i d' = counted_children i ?d1"
    proof (rule counted_children_cong)
      show "unique_ids ?d1" "key_columns d' = key_columns ?d1" "unique_ids d'"
        using ok keys' tree_ok_cong[OF keys'] by (auto intro: tree_ok_unique)
      fix c assume c: "c \<in> set (nodes ?d1)" "parent_id c = i"
      then have "length i \<le> length (node_id c)"
        using tree_ok_node[OF ok c(1)] Suc.prems(3) by (auto dest!: descendant_longer)
      then show "find_node (node_id c) d' = Some c"
        using ih unmoved find_node_unique[OF tree_ok_unique[OF ok] c(1)] by simp
    qed
    have at_i: "rolled_up d' i"
      using here ih unmoved[of i] kids by (simp add: rolled_up_def)
    show ?thesis
    proof (intro conjI allI impI)
      fix a assume a: "walks_to d i a"
      from walks_to_first[OF a] show "rolled_up d' a"
      proof
        assume "a = i" with at_i show ?thesis by simp
      next
        assume "\<exists>p. (i, p) \<in> set (key_columns d) \<and> p \<noteq> [] \<and> walks_to d p a"
        then obtain p where p: "(i, p) \<in> set (key_columns d)" "walks_to d p a" by blast
        have "distinct (map fst (key_columns d))" using Suc.prems(2) by (simp add: tree_ok_def)
        with p(1) edge have "p = ?p" by (metis eq_key_imp_eq_value)
        with p(2) ih walks_to_cong[OF keys] show ?thesis by simp
      qed
    next
      fix j assume j: "\<not> walks_to d i j"
      then have "\<not> walks_to ?d1 ?p j" "j \<noteq> i"
        using walks_to_step[OF edge n(2)] walks_to_cong[OF keys] walks_to.start by blast+
      with ih other show "find_node j d' = find_node j d" by simp
    qed
  qed
qed simp

lemma recalculate_progress_rolls_up:
  assumes "recalculate_progress i d = Inr d'" "tree_ok d" "i \<noteq> []"
  shows "walks_to d i a \<Longrightarrow> rolled_up d' a" "\<not> walks_to d i j \<Longrightarrow> find_node j d' = find_node j d"
  using recalculate_fuel_correct[OF assms(1)[unfolded recalculate_progress_def] assms(2,3)] by blast+

section \<open>Bounds\<close>

definition progress_bounded :: "db \<Rightarrow> bool" where
  "progress_bounded d \<longleftrightarrow> (\<forall>n \<in> set (nodes d). 0 \<le> progress n \<and> progress n \<le> 1 \<and> 0 \<le> weight n)"

lemma rollup_of_bounds:
  assumes "\<forall>n \<in> set cs. 0 \<le> progress n \<and> progress n \<le> 1 \<and> 0 \<le> weight n"
  shows "0 \<le> rollup_of cs \<and> rollup_of cs \<le> 1"
proof -
  have "0 \<le> sum_list (map (\<lambda>n. progress n * weight n) cs)"
    using assms by (intro sum_list_nonneg) auto
  moreover have "sum_list (map (\<lambda>n. progress n * weight n) cs) \<le> sum_list (map weight cs)"
    using assms by (intro sum_list_mono) (auto intro: mult_left_le_one_le)
  ultimately show ?thesis by (auto simp: rollup_of_def Let_def divide_le_eq)
qed

lemma progress_bounded_recompute:
  assumes "progress_bounded d"
  shows "progress_bounded (recompute_node_progress i d)"
proof -
  have "0 \<le> rollup_of (counted_children i d) \<and> rollup_of (counted_children i d) \<le> 1"
    using assms by (intro rollup_of_bounds) (auto simp: progress_bounded_def counted_children_def)
  then show ?thesis
    using assms by (auto simp: progress_bounded_def recompute_node_progress_def node_updates row_simps)
qed

lemma progress_bounded_recalculate_fuel:
  "recalculate_progress_fuel k i d = Inr d' \<Longrightarrow> progress_bounded d \<Longrightarrow> progress_bounded d'"
proof (induction k arbitrary: i d)
  case (Suc k)
  have "progress_bounded (recompute_node_progress i d)"
    using Suc.prems(2) by (rule progress_bounded_recompute)
  with Suc show ?case by (auto simp: Let_def split: if_splits option.splits)
qed simp

lemma progress_bounded_recalculate:
  "recalculate_progress i d = Inr d' \<Longrightarrow> progress_bounded d \<Longrightarrow> progress_bounded d'"
  unfolding recalculate_progress_def by (rule progress_bounded_recalculate_fuel)


definition progress_example :: db where
  "progress_example = empty_db\<lparr>nodes :=
     [row ''P-1'' [] StatusOpen, row ''P-1.1'' ''P-1'' StatusOpen,
      (row ''P-1.1.1'' ''P-1.1'' StatusDone)\<lparr>progress := 1\<rparr>, row ''P-1.1.2'' ''P-1.1'' StatusOpen]\<rparr>"


end
