(* ===== verification/Store_Invariant.thy ===== *)
theory Store_Invariant
  imports Progress State_Machine
begin

text \<open>
  The invariant of the store and the relation every write keeps: the tree of ids, the event
  log, the acyclic blocks graph, and what the rows promise (a blocked row remembers a status it
  can return to, a finished row has its completion time, progress is within 0 and 1); and that
  a write moves each row's status only along the status machine. The primitives the store
  operations are made of are shown to keep both, so that an operation's proof is a chain of
  them. Also the helpers of \<open>transition.go\<close> that every operation uses.
\<close>

section \<open>Shared helpers\<close>

text \<open>\<open>appendActivityEntry\<close>: a missing row is an error of the read.\<close>

definition append_activity_entry :: "string \<Rightarrow> activity_entry \<Rightarrow> transaction" where
  "append_activity_entry i a d =
     (case find_node i d of
        None \<Rightarrow> Inl ErrStorage
      | Some n \<Rightarrow> Inr (update_node_row i (\<lambda>n. n\<lparr>activity := activity n @ [a]\<rparr>) d))"

definition activity_now :: "env \<Rightarrow> activity_type \<Rightarrow> string \<Rightarrow> string \<Rightarrow> activity_meta \<Rightarrow> activity_entry" where
  "activity_now e ty author txt meta =
     \<lparr>act_id = ''act-'' @ dec_int (now e), act_type = ty, act_author = author, act_text = txt,
      act_created_at = now e, act_metadata = meta\<rparr>"

definition now_second :: "env \<Rightarrow> int" where
  "now_second e = unix_second (now e)"

section \<open>The invariant\<close>

definition blocks_edges :: "dependency list \<Rightarrow> (string \<times> string) set" where
  "blocks_edges ds = {(from_id x, to_id x) | x. x \<in> set ds \<and> dep_kind x = DepTypeBlocks}"

definition node_ok :: "node \<Rightarrow> bool" where
  "node_ok n \<longleftrightarrow> status_is_valid (status n)
     \<and> (status n = StatusBlocked \<longrightarrow> previous_status n \<in> {Some StatusOpen, Some StatusInProgress})
     \<and> (status n \<in> {StatusDone, StatusCancelled} \<longrightarrow> closed_at n \<noteq> None)
     \<and> 0 \<le> progress n \<and> progress n \<le> 1 \<and> 0 \<le> weight n"

definition core_ok :: "db \<Rightarrow> bool" where
  "core_ok d \<longleftrightarrow> tree_ok d \<and> log_ok d \<and> acyclic (blocks_edges (deps d)) \<and> list_all node_ok (nodes d)"

definition node_moves :: "db \<Rightarrow> db \<Rightarrow> bool" where
  "node_moves d d' \<longleftrightarrow> (\<forall>i n. find_node i d = Some n \<longrightarrow>
     (\<exists>n'. find_node i d' = Some n' \<and> status_step\<^sup>*\<^sup>* (status n) (status n')))"

definition step_ok :: "db \<Rightarrow> db \<Rightarrow> bool" where
  "step_ok d d' \<longleftrightarrow> (core_ok d \<longrightarrow> core_ok d' \<and> node_moves d d')"

lemma core_ok_facts:
  assumes "core_ok d"
  shows "tree_ok d" "unique_ids d" "log_ok d" "acyclic (blocks_edges (deps d))"
    "n \<in> set (nodes d) \<Longrightarrow> node_ok n"
  using assms by (auto simp: core_ok_def list_all_iff tree_ok_unique)

lemma node_moves_refl [simp]: "node_moves d d"
  by (simp add: node_moves_def)

lemma node_moves_trans: "node_moves a b \<Longrightarrow> node_moves b c \<Longrightarrow> node_moves a c"
  unfolding node_moves_def by (meson rtranclp_trans)

lemma step_ok_refl [simp]: "step_ok d d"
  by (simp add: step_ok_def)

lemma step_ok_trans: "step_ok a b \<Longrightarrow> step_ok b c \<Longrightarrow> step_ok a c"
  unfolding step_ok_def using node_moves_trans by blast

lemma step_okI: "(core_ok d \<Longrightarrow> step_ok d d') \<Longrightarrow> step_ok d d'"
  by (simp add: step_ok_def)

lemma step_ok_core: "step_ok d d' \<Longrightarrow> core_ok d \<Longrightarrow> core_ok d'"
  by (simp add: step_ok_def)

section \<open>The primitives keep it\<close>

lemma keeps_key_fields [simp, intro]:
  "keeps_key (\<lambda>n. n\<lparr>status := s, previous_status := p, updated_at := t\<rparr>)"
  by (simp_all add: keeps_key_def)

lemma step_ok_tables:
  assumes "same_tables d d'"
  shows "step_ok d d'"
proof -
  have "tree_ok d' = tree_ok d"
    by (rule tree_ok_cong) (intro key_columns_same_nodes same_tables_fields assms)
  then have "core_ok d' = core_ok d"
    unfolding core_ok_def same_tables_fields[OF assms] same_tables_find[OF assms] by simp
  moreover have "node_moves d d'"
    unfolding node_moves_def same_tables_find[OF assms] by blast
  ultimately show ?thesis by (simp add: step_ok_def)
qed

lemma step_ok_touch [simp]: "step_ok d (touch_history i d)"
  by (rule step_ok_tables) simp

lemma same_content_tree: "same_content d d' \<Longrightarrow> tree_ok d' = tree_ok d"
  by (rule tree_ok_cong, rule key_columns_same_nodes) (simp add: same_content_def)

lemma same_content_moves: "same_content d d' \<Longrightarrow> node_moves d d'"
  unfolding node_moves_def by (simp add: same_content_find)

lemma step_ok_content:
  assumes "same_content d d'" "log_ok d \<Longrightarrow> log_ok d'"
  shows "step_ok d d'"
proof -
  have "deps d' = deps d" "nodes d' = nodes d" using assms(1) by (simp_all add: same_content_def)
  then show ?thesis
    using assms(2) same_content_tree[OF assms(1)] same_content_moves[OF assms(1)]
    by (simp add: step_ok_def core_ok_def)
qed

lemma step_ok_emit_event: "emit_event e p d = Inr d' \<Longrightarrow> step_ok d d'"
proof (rule step_okI)
  assume em: "emit_event e p d = Inr d'" and "core_ok d"
  then have "log_ok d" by (auto intro: core_ok_facts)
  from emit_event_log[OF em this] have "same_content d d'" "log_ok d'" by auto
  then show "step_ok d d'" by (rule step_ok_content)
qed

lemma step_ok_emit_for: "emit_for e i op a pl d = Inr d' \<Longrightarrow> step_ok d d'"
  unfolding emit_for_def by (rule step_ok_emit_event)

lemma log_ok_update_where: "log_ok (update_where P f d) = log_ok d"
  by (rule log_ok_cong) (simp_all add: row_simps)

lemma step_ok_update_where:
  assumes "keeps_key f"
    and "\<And>n. core_ok d \<Longrightarrow> n \<in> set (nodes d) \<Longrightarrow> P n \<Longrightarrow>
           node_ok (f n) \<and> status_step\<^sup>*\<^sup>* (status n) (status (f n))"
  shows "step_ok d (update_where P f d)"
proof (rule step_okI)
  assume core: "core_ok d"
  have ok: "node_ok (f n)" and st: "status_step\<^sup>*\<^sup>* (status n) (status (f n))"
    if "n \<in> set (nodes d)" "P n" for n
    using assms(2)[OF core] that by simp_all
  have "core_ok (update_where P f d)"
    using core ok assms(1)
    by (auto simp: core_ok_def row_simps log_ok_update_where list_all_iff)
  moreover have "node_moves d (update_where P f d)"
    using st assms(1) by (auto simp: node_moves_def row_simps dest!: find_node_Some)
  ultimately show "step_ok d (update_where P f d)" by (simp add: step_ok_def)
qed

lemma live_row_unique:
  assumes "unique_ids d" "find_live i d = Some n" "m \<in> set (nodes d)" "node_id m = i"
  shows "m = n"
proof -
  have n: "n \<in> set (nodes d)" "node_id n = i" using find_live_Some[OF assms(2)] by auto
  then show ?thesis using find_node_unique[OF assms(1)] assms(3,4) by (metis option.inject)
qed

text \<open>An update of one live row, whose new values may depend on the row that was read.\<close>

lemma step_ok_update_live:
  assumes "find_live i d = Some n" "keeps_key f"
    and "core_ok d \<Longrightarrow> node_ok n \<Longrightarrow> node_ok (f n) \<and> status_step\<^sup>*\<^sup>* (status n) (status (f n))"
  shows "step_ok d (update_live i f d)"
  unfolding update_live_def
proof (rule step_ok_update_where[OF assms(2)])
  fix m assume core: "core_ok d" and m: "m \<in> set (nodes d)" "node_id m = i \<and> live m"
  then have "m = n" using live_row_unique[OF core_ok_facts(2)[OF core] assms(1)] by simp
  then show "node_ok (f m) \<and> status_step\<^sup>*\<^sup>* (status m) (status (f m))"
    using assms(3)[OF core] core_ok_facts(5)[OF core] m(1) by simp
qed

text \<open>An update of columns the invariant does not read.\<close>

definition plain_update :: "(node \<Rightarrow> node) \<Rightarrow> bool" where
  "plain_update f \<longleftrightarrow> keeps_key f \<and> (\<forall>n. status (f n) = status n \<and> (node_ok n \<longrightarrow> node_ok (f n)))"

lemma step_ok_plain: "plain_update f \<Longrightarrow> step_ok d (update_where P f d)"
  by (rule step_ok_update_where) (auto simp: plain_update_def dest: core_ok_facts(5))

lemma plain_updates [simp, intro]:
  "plain_update (\<lambda>n. n\<lparr>activity := f n\<rparr>)" "plain_update (\<lambda>n. n\<lparr>updated_at := t\<rparr>)"
  "plain_update (\<lambda>n. n\<lparr>defer_until := u\<rparr>)" "plain_update (\<lambda>n. n\<lparr>defer_until := u, updated_at := t\<rparr>)"
  "plain_update (\<lambda>n. n\<lparr>assignee := a, agent_state := g, updated_at := t\<rparr>)"
  "plain_update (\<lambda>n. n\<lparr>deleted_at := x, deleted_by := y, updated_at := t\<rparr>)"
  by (simp_all add: plain_update_def keeps_key_def node_ok_def)

lemma step_ok_activity: "append_activity_entry i a d = Inr d' \<Longrightarrow> step_ok d d'"
  by (auto simp: append_activity_entry_def update_node_row_def intro: step_ok_plain split: option.splits)

lemma step_ok_same_but_progress:
  assumes same: "same_but_progress d d'" and "progress_bounded d \<Longrightarrow> progress_bounded d'"
  shows "step_ok d d'"
proof (rule step_okI)
  assume core: "core_ok d"
  have bounded: "progress_bounded d'"
    using core by (intro assms(2))
      (auto simp: progress_bounded_def dest: core_ok_facts(5) simp: node_ok_def)
  have ns: "map (\<lambda>n. n\<lparr>progress := 0\<rparr>) (nodes d') = map (\<lambda>n. n\<lparr>progress := 0\<rparr>) (nodes d)"
    using same by (simp only: same_but_progress_def)
  have row: "\<exists>m \<in> set (nodes d). n\<lparr>progress := 0\<rparr> = m\<lparr>progress := 0\<rparr>" if "n \<in> set (nodes d')" for n
  proof -
    have "n\<lparr>progress := 0\<rparr> \<in> set (map (\<lambda>n. n\<lparr>progress := 0\<rparr>) (nodes d))"
      using that unfolding ns[symmetric] by simp
    then show ?thesis by (simp add: image_iff)
  qed
  have "node_ok n" if n: "n \<in> set (nodes d')" for n
  proof -
    obtain m where m: "m \<in> set (nodes d)" "n\<lparr>progress := 0\<rparr> = m\<lparr>progress := 0\<rparr>" using row[OF n] by blast
    have "status n = status m" "previous_status n = previous_status m" "closed_at n = closed_at m"
      using arg_cong[OF m(2), of status] arg_cong[OF m(2), of previous_status]
        arg_cong[OF m(2), of closed_at] by simp_all
    then show ?thesis
      using core_ok_facts(5)[OF core m(1)] bounded n by (simp add: node_ok_def progress_bounded_def)
  qed
  moreover have "log_ok d' = log_ok d"
    by (rule log_ok_cong) (rule same_but_progress_fields[OF same])+
  moreover have "tree_ok d' = tree_ok d" by (rule same_but_progress_tree[OF same])
  ultimately have "core_ok d'"
    using core by (auto simp: core_ok_def list_all_iff same_but_progress_fields[OF same])
  moreover have "node_moves d d'"
    unfolding node_moves_def
  proof (intro allI impI)
    fix j n assume n: "find_node j d = Some n"
    then obtain n' where n': "find_node j d' = Some n'" "n'\<lparr>progress := 0\<rparr> = n\<lparr>progress := 0\<rparr>"
      using same_but_progress_node[OF same, of j] by auto
    have "status n' = status n" using arg_cong[OF n'(2), of status] by simp
    with n' show "\<exists>n'. find_node j d' = Some n' \<and> status_step\<^sup>*\<^sup>* (status n) (status n')" by auto
  qed
  ultimately show "step_ok d d'" by (simp add: step_ok_def)
qed

lemma step_ok_progress: "recalculate_progress i d = Inr d' \<Longrightarrow> step_ok d d'"
  by (rule step_ok_same_but_progress) (rule recalculate_progress_content progress_bounded_recalculate; assumption)+

lemma step_ok_recompute: "step_ok d (recompute_node_progress i d)"
  by (rule step_ok_same_but_progress) (simp_all add: progress_bounded_recompute)

lemma step_ok_recomputes: "step_ok d (fold recompute_node_progress is d)"
  by (induction "is" arbitrary: d) (auto intro: step_ok_trans step_ok_recompute)

lemma step_ok_with_history:
  assumes "with_history e sc body d = Inr d'" "\<And>a b. body a = Inr b \<Longrightarrow> step_ok a b"
  shows "step_ok d d'"
  using assms(1)
proof (rule with_history_ok)
  fix d0 d1 assume "same_tables d d0" "body d0 = Inr d1" "same_tables d1 d'"
  then show "step_ok d d'"
    using assms(2) step_ok_tables step_ok_trans by metis
qed

lemma step_ok_fold:
  assumes "fold_result f xs d = Inr d'" "\<And>x a b. f x a = Inr b \<Longrightarrow> step_ok a b"
  shows "step_ok d d'"
  using assms(1)
proof (induction xs arbitrary: d)
  case (Cons x xs)
  then obtain d1 where "f x d = Inr d1" "fold_result f xs d1 = Inr d'" by (auto simp: bind_result_Inr)
  with Cons.IH assms(2) show ?case by (blast intro: step_ok_trans)
qed simp

end
