(* ===== verification/Blocking.thy ===== *)
theory Blocking
  imports Store_Invariant
begin

text \<open>
  Dependencies between nodes and the automatic blocked status
  (\<open>internal/store/sqlite/dependency.go\<close>, \<open>dependency_removal.go\<close>, \<open>refresh_blocked.go\<close>, and the
  helpers of \<open>transition.go\<close> the paths share). Foreign keys are enforced (\<open>dsn.go\<close>), so an edge
  to a missing row is refused by the driver. The lemmas show that the cycle search is exact,
  that the blocks graph stays acyclic, and when a blocked node is released.
\<close>

section \<open>The cycle search\<close>

definition cycle_neighbors :: "dependency list \<Rightarrow> string \<Rightarrow> string list" where
  "cycle_neighbors ds i = map to_id (filter (\<lambda>x. from_id x = i \<and> dep_kind x = DepTypeBlocks) ds)"

text \<open>\<open>detectCycle\<close>: breadth first from the target along the blocks edges.\<close>

function detect_cycle_loop ::
  "dependency list \<Rightarrow> string \<Rightarrow> string list \<Rightarrow> string list \<Rightarrow> unit result" where
  "detect_cycle_loop ds from visited [] = Inr ()"
| "detect_cycle_loop ds from visited (current # queue) =
     (if current = from then Inl ErrCycleDetected
      else if current \<in> set visited then detect_cycle_loop ds from visited queue
      else detect_cycle_loop ds from (current # visited) (queue @ cycle_neighbors ds current))"
  by pat_completeness auto
termination
proof (relation "inv_image (less_than <*lex*> less_than)
    (\<lambda>(ds, from, visited, queue). (card (from_id ` set ds - set visited), length queue))")
  show "wf (inv_image (less_than <*lex*> less_than)
    (\<lambda>(ds :: dependency list, from :: string, visited, queue :: string list).
       (card (from_id ` set ds - set visited), length queue)))"
    by auto
  fix ds :: "dependency list" and src current :: string and visited queue :: "string list"
  assume "\<not> current \<in> set visited"
  then have new: "current \<notin> set visited" by simp
  show "((ds, src, current # visited, queue @ cycle_neighbors ds current), ds, src, visited, current # queue)
      \<in> inv_image (less_than <*lex*> less_than)
          (\<lambda>(ds, from, visited, queue). (card (from_id ` set ds - set visited), length queue))"
  proof (cases "current \<in> from_id ` set ds")
    case True
    then have "from_id ` set ds - set (current # visited) \<subset> from_id ` set ds - set visited"
      using new by auto
    then have "card (from_id ` set ds - set (current # visited)) < card (from_id ` set ds - set visited)"
      by (intro psubset_card_mono) auto
    then show ?thesis by simp
  next
    case False
    then have "cycle_neighbors ds current = []" by (auto simp: cycle_neighbors_def filter_empty_conv)
    moreover have "from_id ` set ds - set (current # visited) = from_id ` set ds - set visited"
      using False by auto
    ultimately show ?thesis by simp
  qed
qed simp

definition detect_cycle :: "string \<Rightarrow> string \<Rightarrow> db \<Rightarrow> unit result" where
  "detect_cycle from to d = detect_cycle_loop (deps d) from [] [to]"

section \<open>Automatic blocking\<close>

definition auto_block_node :: "env \<Rightarrow> string \<Rightarrow> db \<Rightarrow> db" where
  "auto_block_node e i d =
     (let d1 = touch_history i d
      in case find_live i d1 of
           None \<Rightarrow> d1
         | Some n \<Rightarrow>
             if status n \<noteq> StatusOpen \<and> status n \<noteq> StatusInProgress then d1
             else update_live i (\<lambda>m. m\<lparr>status := StatusBlocked, previous_status := Some (status n),
                                      updated_at := now_second e\<rparr>) d1)"

definition resolving_status :: "status \<Rightarrow> bool" where
  "resolving_status s \<longleftrightarrow> s = StatusDone \<or> s = StatusCancelled \<or> s = StatusInvalidated"

text \<open>The live, unresolved blockers of a node (the join of \<open>GetBlockers\<close> and of the count).\<close>

definition get_blockers :: "string \<Rightarrow> db \<Rightarrow> dependency list" where
  "get_blockers i d =
     filter (\<lambda>x. to_id x = i \<and> dep_kind x = DepTypeBlocks
               \<and> list_ex (\<lambda>n. node_id n = from_id x \<and> \<not> resolving_status (status n) \<and> live n) (nodes d))
       (deps d)"

definition restore_target :: "status option \<Rightarrow> status" where
  "restore_target prev = (case prev of None \<Rightarrow> StatusOpen
     | Some s \<Rightarrow> if status_text s \<noteq> [] then s else StatusOpen)"

definition restore_unblocked_node :: "env \<Rightarrow> string \<Rightarrow> status option \<Rightarrow> transaction" where
  "restore_unblocked_node e i prev d =
     (let restore_to = restore_target prev;
          d1 = update_live i (\<lambda>m. m\<lparr>status := restore_to, previous_status := None,
                                   updated_at := now_second e\<rparr>) d
      in emit_for e i OpTransitionStatus [] (TransitionStatusPayload StatusBlocked restore_to []) d1)"

definition auto_unblock_node :: "env \<Rightarrow> string \<Rightarrow> transaction" where
  "auto_unblock_node e i d =
     (let d1 = touch_history i d
      in case find_live i d1 of
           None \<Rightarrow> Inr d1
         | Some n \<Rightarrow>
             if status n \<noteq> StatusBlocked then Inr d1
             else if length (get_blockers i d1) > 0 then Inr d1
             else restore_unblocked_node e i (previous_status n) d1)"

text \<open>\<open>unblockDependents\<close> of transition.go: the dependents are read first.\<close>

definition unblock_dependents :: "env \<Rightarrow> string \<Rightarrow> transaction" where
  "unblock_dependents e resolved d =
     fold_result (auto_unblock_node e) (cycle_neighbors (deps d) resolved) d"

section \<open>The operations\<close>

definition same_edge :: "string \<Rightarrow> string \<Rightarrow> dep_type \<Rightarrow> dependency \<Rightarrow> bool" where
  "same_edge from to ty x \<longleftrightarrow> from_id x = from \<and> to_id x = to \<and> dep_kind x = ty"

definition insert_dependency :: "dependency \<Rightarrow> transaction" where
  "insert_dependency dep d =
     (if list_ex (same_edge (from_id dep) (to_id dep) (dep_kind dep)) (deps d) then Inl ErrAlreadyExists
      else if find_node (from_id dep) d = None \<or> find_node (to_id dep) d = None then Inl ErrStorage
      else Inr (d\<lparr>deps := deps d @ [dep]\<rparr>))"

definition add_dependency :: "env \<Rightarrow> dependency \<Rightarrow> transaction" where
  "add_dependency e dep d =
     bind_result (validate_dependency dep) (\<lambda>_.
     with_history e (system_scope (to_id dep) (dep_created_by dep)) (\<lambda>d.
       bind_result (if dep_kind dep = DepTypeBlocks then detect_cycle (from_id dep) (to_id dep) d
                    else Inr ()) (\<lambda>_.
       bind_result (insert_dependency dep d) (\<lambda>d1.
       let d2 = (if dep_kind dep = DepTypeBlocks then auto_block_node e (to_id dep) d1 else d1)
       in emit_for e (from_id dep) OpLinkDep (dep_created_by dep)
            (LinkDepPayload (to_id dep) (dep_kind dep)) d2))) d)"

definition dependency_removal_text :: "string \<Rightarrow> string \<Rightarrow> string" where
  "dependency_removal_text to typ = ''Removed dependency: '' @ typ @ '' '' @ to"

fun dep_type_text :: "dep_type \<Rightarrow> string" where
  "dep_type_text DepTypeBlocks = ''blocks''"
| "dep_type_text DepTypeRelated = ''related''"
| "dep_type_text DepTypeDiscoveredFrom = ''discovered_from''"
| "dep_type_text DepTypeDuplicates = ''duplicates''"
| "dep_type_text (DepTypeOther s) = s"

text \<open>The code stamps \<open>updated_at\<close> with nanoseconds here; the model keeps the second.\<close>

definition record_dependency_removal :: "env \<Rightarrow> string \<Rightarrow> string \<Rightarrow> dep_type \<Rightarrow> transaction" where
  "record_dependency_removal e from to ty d =
     bind_result (append_activity_entry from
         (activity_now e ActivityTypeSystem ''system''
            (dependency_removal_text to (dep_type_text ty)) NoMeta) (touch_history from d)) (\<lambda>d1.
     Inr (update_node_row from (\<lambda>n. n\<lparr>updated_at := now_second e\<rparr>) d1))"

definition remove_dependency :: "env \<Rightarrow> string \<Rightarrow> string \<Rightarrow> dep_type \<Rightarrow> transaction" where
  "remove_dependency e from to ty =
     with_history e (system_scope to []) (\<lambda>d.
       if \<not> list_ex (same_edge from to ty) (deps d) then Inl ErrNotFound
       else bind_result (record_dependency_removal e from to ty
                           (d\<lparr>deps := filter (\<lambda>x. \<not> same_edge from to ty x) (deps d)\<rparr>)) (\<lambda>d1.
            bind_result (if ty = DepTypeBlocks then auto_unblock_node e to d1 else Inr d1) (\<lambda>d2.
            emit_for e from OpUnlinkDep [] (UnlinkDepPayload to ty) d2)))"

definition refresh_blocked :: "env \<Rightarrow> string \<Rightarrow> transaction" where
  "refresh_blocked e i = with_history e (system_scope i []) (auto_unblock_node e i)"

section \<open>The cycle search is exact\<close>

lemma cycle_neighbors_edges: "b \<in> set (cycle_neighbors ds a) \<longleftrightarrow> (a, b) \<in> blocks_edges ds"
  by (auto simp: cycle_neighbors_def blocks_edges_def)

lemma detect_cycle_loop_result:
  "detect_cycle_loop ds src visited queue = Inr () \<or> detect_cycle_loop ds src visited queue = Inl ErrCycleDetected"
  by (induction ds src visited queue rule: detect_cycle_loop.induct) auto

lemma detect_cycle_loop_found:
  "detect_cycle_loop ds src visited queue = Inl err \<Longrightarrow> \<exists>q \<in> set queue. (q, src) \<in> (blocks_edges ds)\<^sup>*"
proof (induction ds src visited queue rule: detect_cycle_loop.induct)
  case (2 ds src visited current queue)
  show ?case
  proof (cases "current = src \<or> current \<in> set visited")
    case True
    with 2 show ?thesis by (auto split: if_splits)
  next
    case False
    with 2 obtain q where q: "q \<in> set (queue @ cycle_neighbors ds current)" "(q, src) \<in> (blocks_edges ds)\<^sup>*"
      by auto
    then show ?thesis
      by (auto simp: cycle_neighbors_edges intro: converse_rtrancl_into_rtrancl)
  qed
qed simp

lemma detect_cycle_loop_clear:
  "detect_cycle_loop ds src visited queue = Inr () \<Longrightarrow> src \<notin> set visited \<Longrightarrow>
   (\<forall>v \<in> set visited. set (cycle_neighbors ds v) \<subseteq> set visited \<union> set queue) \<Longrightarrow>
   \<forall>q \<in> set visited \<union> set queue. (q, src) \<notin> (blocks_edges ds)\<^sup>*"
proof (induction ds src visited queue rule: detect_cycle_loop.induct)
  case (1 ds src visited)
  have closed: "b \<in> set visited" if "a \<in> set visited" "(a, b) \<in> blocks_edges ds" for a b
    using 1(3) that by (auto simp: cycle_neighbors_edges[symmetric])
  have "(q, x) \<in> (blocks_edges ds)\<^sup>* \<Longrightarrow> q \<in> set visited \<Longrightarrow> x \<in> set visited" for q x
    by (induction rule: rtrancl_induct) (blast intro: closed)+
  with 1 show ?case by auto
next
  case (2 ds src visited current queue)
  show ?case
  proof (cases "current \<in> set visited")
    case True
    with 2 show ?thesis by (auto split: if_splits)
  next
    case False
    with 2(3) have ne: "current \<noteq> src"
      and rec: "detect_cycle_loop ds src (current # visited) (queue @ cycle_neighbors ds current) = Inr ()"
      by (auto split: if_splits)
    have "\<forall>q \<in> set (current # visited) \<union> set (queue @ cycle_neighbors ds current).
        (q, src) \<notin> (blocks_edges ds)\<^sup>*"
      by (rule 2(2)[OF ne False rec]) (use 2(4,5) ne in auto)
    then show ?thesis by auto
  qed
qed

lemma detect_cycle_iff: "detect_cycle src dst d = Inr () \<longleftrightarrow> (dst, src) \<notin> (blocks_edges (deps d))\<^sup>*"
proof
  assume "detect_cycle src dst d = Inr ()"
  then show "(dst, src) \<notin> (blocks_edges (deps d))\<^sup>*"
    using detect_cycle_loop_clear[of "deps d" src "[]" "[dst]"] by (simp add: detect_cycle_def)
next
  assume "(dst, src) \<notin> (blocks_edges (deps d))\<^sup>*"
  then have "\<not> (\<exists>err. detect_cycle src dst d = Inl err)"
    using detect_cycle_loop_found[of "deps d" src "[]" "[dst]"] by (auto simp: detect_cycle_def)
  then show "detect_cycle src dst d = Inr ()"
    using detect_cycle_loop_result[of "deps d" src "[]" "[dst]"] by (auto simp: detect_cycle_def)
qed

lemma detect_cycle_error: "detect_cycle src dst d = Inl err \<Longrightarrow> err = ErrCycleDetected"
  using detect_cycle_loop_result[of "deps d" src "[]" "[dst]"] by (auto simp: detect_cycle_def)

section \<open>Every operation keeps the store invariant\<close>

lemma status_step_edges [simp, intro]:
  "status_step StatusOpen StatusBlocked" "status_step StatusInProgress StatusBlocked"
  "status_step StatusBlocked StatusOpen" "status_step StatusBlocked StatusInProgress"
  by (simp_all add: status_step_simps validate_transition_def)

lemma step_ok_auto_block: "step_ok d (auto_block_node e i d)"
proof -
  let ?d1 = "touch_history i d"
  have "step_ok ?d1 (auto_block_node e i d)"
  proof (cases "find_live i ?d1")
    case (Some n)
    show ?thesis
    proof (cases "status n \<noteq> StatusOpen \<and> status n \<noteq> StatusInProgress")
      case False
      then have "auto_block_node e i d = update_live i (\<lambda>m. m\<lparr>status := StatusBlocked,
          previous_status := Some (status n), updated_at := now_second e\<rparr>) ?d1"
        using Some by (auto simp: auto_block_node_def Let_def)
      moreover have "step_ok ?d1 (update_live i (\<lambda>m. m\<lparr>status := StatusBlocked,
          previous_status := Some (status n), updated_at := now_second e\<rparr>) ?d1)"
        by (rule step_ok_update_live[OF Some]) (use False in \<open>auto simp: node_ok_def\<close>)
      ultimately show ?thesis by simp
    qed (use Some in \<open>simp add: auto_block_node_def Let_def\<close>)
  qed (simp add: auto_block_node_def Let_def)
  then show ?thesis by (rule step_ok_trans[OF step_ok_touch])
qed

lemma restore_target_blocked:
  "node_ok n \<Longrightarrow> status n = StatusBlocked \<Longrightarrow>
   restore_target (previous_status n) \<in> {StatusOpen, StatusInProgress}"
  by (auto simp: node_ok_def restore_target_def)

lemma step_ok_restore:
  assumes "find_live i d = Some n" "status n = StatusBlocked"
  shows "step_ok d (update_live i (\<lambda>m. m\<lparr>status := restore_target (previous_status n),
        previous_status := None, updated_at := t\<rparr>) d)"
proof (rule step_ok_update_live[OF assms(1)])
  assume ok: "node_ok n"
  have "restore_target (previous_status n) \<in> {StatusOpen, StatusInProgress}"
    using restore_target_blocked[OF ok assms(2)] .
  then show "node_ok (n\<lparr>status := restore_target (previous_status n), previous_status := None,
          updated_at := t\<rparr>)
      \<and> status_step\<^sup>*\<^sup>* (status n) (status (n\<lparr>status := restore_target (previous_status n),
            previous_status := None, updated_at := t\<rparr>))"
    using ok assms(2) by (auto simp: node_ok_def)
qed simp

lemma step_ok_auto_unblock:
  assumes "auto_unblock_node e i d = Inr d'"
  shows "step_ok d d'"
proof -
  let ?d1 = "touch_history i d"
  have "step_ok ?d1 d'"
  proof (cases "\<exists>n. find_live i ?d1 = Some n \<and> status n = StatusBlocked \<and> get_blockers i ?d1 = []")
    case True
    then obtain n where n: "find_live i ?d1 = Some n" "status n = StatusBlocked" "get_blockers i ?d1 = []"
      by blast
    define u where "u = update_live i (\<lambda>m. m\<lparr>status := restore_target (previous_status n),
        previous_status := None, updated_at := now_second e\<rparr>) ?d1"
    have emit: "emit_for e i OpTransitionStatus []
        (TransitionStatusPayload StatusBlocked (restore_target (previous_status n)) []) u = Inr d'"
      using assms n by (simp add: auto_unblock_node_def restore_unblocked_node_def Let_def u_def)
    have "step_ok ?d1 u" unfolding u_def using n(1,2) by (rule step_ok_restore)
    then show ?thesis using step_ok_emit_for[OF emit] by (rule step_ok_trans)
  next
    case False
    then have "d' = ?d1"
      using assms by (auto simp: auto_unblock_node_def Let_def split: option.splits if_splits)
    then show ?thesis by simp
  qed
  then show ?thesis by (rule step_ok_trans[OF step_ok_touch])
qed

lemma step_ok_unblock_dependents: "unblock_dependents e i d = Inr d' \<Longrightarrow> step_ok d d'"
  unfolding unblock_dependents_def by (rule step_ok_fold) (auto intro: step_ok_auto_unblock)

lemma step_ok_deps:
  assumes "core_ok d \<Longrightarrow> acyclic (blocks_edges ds)"
  shows "step_ok d (d\<lparr>deps := ds\<rparr>)"
proof -
  have "log_ok (d\<lparr>deps := ds\<rparr>) = log_ok d" by (rule log_ok_cong) simp_all
  moreover have "tree_ok (d\<lparr>deps := ds\<rparr>) = tree_ok d"
    by (rule tree_ok_cong) (simp add: key_columns_def)
  moreover have "node_moves d (d\<lparr>deps := ds\<rparr>)" by (auto simp: node_moves_def find_node_def)
  ultimately show ?thesis using assms by (auto simp: step_ok_def core_ok_def)
qed

lemma blocks_edges_add:
  "blocks_edges (ds @ [x]) = (if dep_kind x = DepTypeBlocks then insert (from_id x, to_id x) (blocks_edges ds)
     else blocks_edges ds)"
  by (auto simp: blocks_edges_def)

lemma step_ok_insert_dependency:
  assumes "insert_dependency x d = Inr d'"
    and "dep_kind x = DepTypeBlocks \<Longrightarrow> detect_cycle (from_id x) (to_id x) d = Inr ()"
  shows "step_ok d d'"
proof -
  have d': "d' = d\<lparr>deps := deps d @ [x]\<rparr>"
    using assms(1) by (auto simp: insert_dependency_def split: if_splits)
  show ?thesis
    unfolding d'
  proof (rule step_ok_deps)
    assume "core_ok d"
    then show "acyclic (blocks_edges (deps d @ [x]))"
      using assms(2) by (auto simp: blocks_edges_add acyclic_insert detect_cycle_iff dest: core_ok_facts(4))
  qed
qed

lemma step_ok_add_dependency:
  assumes "add_dependency e x d = Inr d'"
  shows "step_ok d d'"
proof -
  from assms have "with_history e (system_scope (to_id x) (dep_created_by x)) (\<lambda>d.
       bind_result (if dep_kind x = DepTypeBlocks then detect_cycle (from_id x) (to_id x) d
                    else Inr ()) (\<lambda>_.
       bind_result (insert_dependency x d) (\<lambda>d1.
       let d2 = (if dep_kind x = DepTypeBlocks then auto_block_node e (to_id x) d1 else d1)
       in emit_for e (from_id x) OpLinkDep (dep_created_by x)
            (LinkDepPayload (to_id x) (dep_kind x)) d2))) d = Inr d'"
    by (simp add: add_dependency_def bind_result_Inr)
  then show ?thesis
  proof (rule step_ok_with_history)
    fix a b :: db
    assume "bind_result (if dep_kind x = DepTypeBlocks then detect_cycle (from_id x) (to_id x) a
                    else Inr ()) (\<lambda>_.
       bind_result (insert_dependency x a) (\<lambda>d1.
       let d2 = (if dep_kind x = DepTypeBlocks then auto_block_node e (to_id x) d1 else d1)
       in emit_for e (from_id x) OpLinkDep (dep_created_by x)
            (LinkDepPayload (to_id x) (dep_kind x)) d2)) = Inr b"
    then obtain d1 where d1: "dep_kind x = DepTypeBlocks \<Longrightarrow> detect_cycle (from_id x) (to_id x) a = Inr ()"
        "insert_dependency x a = Inr d1"
        "emit_for e (from_id x) OpLinkDep (dep_created_by x) (LinkDepPayload (to_id x) (dep_kind x))
           (if dep_kind x = DepTypeBlocks then auto_block_node e (to_id x) d1 else d1) = Inr b"
      by (auto simp: bind_result_Inr Let_def split: if_splits)
    have "step_ok a d1" using d1(2,1) by (rule step_ok_insert_dependency)
    also have "step_ok d1 (if dep_kind x = DepTypeBlocks then auto_block_node e (to_id x) d1 else d1)"
      by (simp add: step_ok_auto_block)
    finally (step_ok_trans) show "step_ok a b"
      using step_ok_emit_for[OF d1(3)] by (rule step_ok_trans)
  qed
qed

lemma step_ok_record_removal:
  assumes "record_dependency_removal e src dst ty d = Inr d'"
  shows "step_ok d d'"
proof -
  from assms obtain d1 where d1: "append_activity_entry src (activity_now e ActivityTypeSystem ''system''
      (dependency_removal_text dst (dep_type_text ty)) NoMeta) (touch_history src d) = Inr d1"
    and d': "d' = update_node_row src (\<lambda>n. n\<lparr>updated_at := now_second e\<rparr>) d1"
    by (auto simp: record_dependency_removal_def bind_result_Inr)
  have "step_ok d1 d'" unfolding d' update_node_row_def by (rule step_ok_plain) simp
  with step_ok_activity[OF d1] show ?thesis by (blast intro: step_ok_trans step_ok_touch)
qed

lemma step_ok_remove_dependency:
  assumes "remove_dependency e src dst ty d = Inr d'"
  shows "step_ok d d'"
  using assms[unfolded remove_dependency_def]
proof (rule step_ok_with_history)
  fix a b :: db
  let ?a = "a\<lparr>deps := filter (\<lambda>x. \<not> same_edge src dst ty x) (deps a)\<rparr>"
  assume "(if \<not> list_ex (same_edge src dst ty) (deps a) then Inl ErrNotFound
       else bind_result (record_dependency_removal e src dst ty ?a) (\<lambda>d1.
            bind_result (if ty = DepTypeBlocks then auto_unblock_node e dst d1 else Inr d1) (\<lambda>d2.
            emit_for e src OpUnlinkDep [] (UnlinkDepPayload dst ty) d2))) = Inr b"
  then have "bind_result (record_dependency_removal e src dst ty ?a) (\<lambda>d1.
            bind_result (if ty = DepTypeBlocks then auto_unblock_node e dst d1 else Inr d1) (\<lambda>d2.
            emit_for e src OpUnlinkDep [] (UnlinkDepPayload dst ty) d2)) = Inr b"
    by (cases "list_ex (same_edge src dst ty) (deps a)") simp_all
  then obtain d1 d2 where d: "record_dependency_removal e src dst ty ?a = Inr d1"
      "(if ty = DepTypeBlocks then auto_unblock_node e dst d1 else Inr d1) = Inr d2"
      "emit_for e src OpUnlinkDep [] (UnlinkDepPayload dst ty) d2 = Inr b"
    by (simp only: bind_result_Inr) blast
  have "step_ok a ?a"
  proof (rule step_ok_deps)
    assume "core_ok a"
    moreover have "blocks_edges (filter (\<lambda>x. \<not> same_edge src dst ty x) (deps a)) \<subseteq> blocks_edges (deps a)"
      by (auto simp: blocks_edges_def)
    ultimately show "acyclic (blocks_edges (filter (\<lambda>x. \<not> same_edge src dst ty x) (deps a)))"
      using acyclic_subset core_ok_facts(4) by blast
  qed
  also have "step_ok ?a d1" using d(1) by (rule step_ok_record_removal)
  also (step_ok_trans) have "step_ok d1 d2"
    using d(2) by (auto intro: step_ok_auto_unblock split: if_splits)
  finally (step_ok_trans) show "step_ok a b"
    using step_ok_emit_for[OF d(3)] by (rule step_ok_trans)
qed

lemma step_ok_refresh_blocked:
  "refresh_blocked e i d = Inr d' \<Longrightarrow> step_ok d d'"
  unfolding refresh_blocked_def by (rule step_ok_with_history) (auto intro: step_ok_auto_unblock)

section \<open>Adding an edge\<close>

lemma emit_for_fields:
  assumes "emit_for e i op a pl d = Inr d'" "log_ok d"
  shows "nodes d' = nodes d" "deps d' = deps d" "find_node j d' = find_node j d"
    "get_blockers j d' = get_blockers j d"
proof -
  have "same_content d d'"
    using emit_event_log[OF assms(1)[unfolded emit_for_def] assms(2)] by blast
  then show "nodes d' = nodes d" "deps d' = deps d" "find_node j d' = find_node j d"
    "get_blockers j d' = get_blockers j d"
    by (simp_all add: same_content_def find_node_def get_blockers_def)
qed

lemma auto_block_deps: "deps (auto_block_node e i d) = deps d"
  by (auto simp: auto_block_node_def Let_def node_updates row_simps touch_fields split: option.splits)

lemma auto_block_rows:
  assumes "unique_ids d"
  shows "find_node j (auto_block_node e i d) = map_option (\<lambda>n.
      if j = i \<and> live n \<and> status n \<in> {StatusOpen, StatusInProgress}
      then n\<lparr>status := StatusBlocked, previous_status := Some (status n), updated_at := now_second e\<rparr>
      else n) (find_node j d)"
proof -
  let ?d1 = "touch_history i d"
  have rows: "find_node j ?d1 = find_node j d" "find_live i ?d1 = find_live i d" for j
    by (simp_all add: same_tables_find[OF touch_history_tables])
  note live = find_live_find_node[OF assms, of i]
  have node: "node_id n = k" if "find_node k d = Some n" for n k
    using find_node_Some[OF that] by simp
  show ?thesis
    using live node[of j]
    by (cases "find_node j d"; cases "j = i")
      (auto simp: auto_block_node_def Let_def rows node_updates row_simps split: option.splits dest: node)
qed

lemma add_dependency_inv:
  assumes "add_dependency e x d = Inr d'" "core_ok d"
  shows "validate_dependency x = Inr ()
       \<and> (dep_kind x = DepTypeBlocks \<longrightarrow> detect_cycle (from_id x) (to_id x) d = Inr ())
       \<and> deps d' = deps d @ [x] \<and> \<not> list_ex (same_edge (from_id x) (to_id x) (dep_kind x)) (deps d)
       \<and> (dep_kind x = DepTypeBlocks \<longrightarrow>
            (\<forall>j. find_node j d' = find_node j (auto_block_node e (to_id x) d)))"
proof -
  from assms(1) have val: "validate_dependency x = Inr ()"
    and run: "with_history e (system_scope (to_id x) (dep_created_by x)) (\<lambda>d.
       bind_result (if dep_kind x = DepTypeBlocks then detect_cycle (from_id x) (to_id x) d
                    else Inr ()) (\<lambda>_.
       bind_result (insert_dependency x d) (\<lambda>d1.
       let d2 = (if dep_kind x = DepTypeBlocks then auto_block_node e (to_id x) d1 else d1)
       in emit_for e (from_id x) OpLinkDep (dep_created_by x)
            (LinkDepPayload (to_id x) (dep_kind x)) d2))) d = Inr d'"
    by (auto simp: add_dependency_def bind_result_Inr)
  from run show ?thesis
  proof (rule with_history_ok)
    fix d0 d4
    assume same: "same_tables d d0" and last: "same_tables d4 d'"
      and body: "bind_result (if dep_kind x = DepTypeBlocks then detect_cycle (from_id x) (to_id x) d0
                    else Inr ()) (\<lambda>_.
       bind_result (insert_dependency x d0) (\<lambda>d1.
       let d2 = (if dep_kind x = DepTypeBlocks then auto_block_node e (to_id x) d1 else d1)
       in emit_for e (from_id x) OpLinkDep (dep_created_by x)
            (LinkDepPayload (to_id x) (dep_kind x)) d2)) = Inr d4"
    then obtain d1 where d1: "dep_kind x = DepTypeBlocks \<Longrightarrow> detect_cycle (from_id x) (to_id x) d0 = Inr ()"
        "insert_dependency x d0 = Inr d1"
        "emit_for e (from_id x) OpLinkDep (dep_created_by x) (LinkDepPayload (to_id x) (dep_kind x))
           (if dep_kind x = DepTypeBlocks then auto_block_node e (to_id x) d1 else d1) = Inr d4"
      by (auto simp: bind_result_Inr Let_def split: if_splits)
    let ?d2 = "if dep_kind x = DepTypeBlocks then auto_block_node e (to_id x) d1 else d1"
    have deps0: "deps d0 = deps d" using same by (rule same_tables_fields)
    have "step_ok d d0" using same by (rule step_ok_tables)
    also have "step_ok d0 d1" using d1(2,1) by (rule step_ok_insert_dependency)
    also (step_ok_trans) have "step_ok d1 ?d2" by (simp add: step_ok_auto_block)
    finally (step_ok_trans) have "step_ok d ?d2" .
    note em = emit_for_fields[OF d1(3) core_ok_facts(3)[OF step_ok_core[OF this assms(2)]]]
    have unique: "unique_ids d" "unique_ids d1"
      using \<open>step_ok d d0\<close> \<open>step_ok d0 d1\<close> step_ok_core core_ok_facts(2) assms(2) by blast+
    have "nodes d1 = nodes d"
      using d1(2) same_tables_fields[OF same] by (auto simp: insert_dependency_def split: if_splits)
    then have "find_node j d1 = find_node j d" for j by (simp add: find_node_def)
    then have "dep_kind x = DepTypeBlocks \<Longrightarrow> find_node j d' = find_node j (auto_block_node e (to_id x) d)" for j
      using em(3)[of j] same_tables_find[OF last] by (simp add: auto_block_rows unique)
    moreover from em(2) have "deps d4 = deps d1" by (simp add: auto_block_deps)
    moreover have "deps d1 = deps d @ [x]"
        "\<not> list_ex (same_edge (from_id x) (to_id x) (dep_kind x)) (deps d)"
      using d1(2) deps0 by (auto simp: insert_dependency_def split: if_splits)
    moreover have "deps d' = deps d4" using last by (rule same_tables_fields)
    moreover have "detect_cycle (from_id x) (to_id x) d0 = detect_cycle (from_id x) (to_id x) d"
      by (simp add: detect_cycle_def deps0)
    ultimately show ?thesis using val d1(1) by simp
  qed
qed

lemma add_dependency_cycle_error:
  assumes "validate_dependency x = Inr ()" "dep_kind x = DepTypeBlocks"
  shows "add_dependency e x d = Inl ErrCycleDetected \<longleftrightarrow>
     (to_id x, from_id x) \<in> (blocks_edges (deps d))\<^sup>*"
proof
  assume "add_dependency e x d = Inl ErrCycleDetected"
  with assms have "with_history e (system_scope (to_id x) (dep_created_by x)) (\<lambda>d.
       bind_result (detect_cycle (from_id x) (to_id x) d) (\<lambda>_.
       bind_result (insert_dependency x d) (\<lambda>d1.
       emit_for e (from_id x) OpLinkDep (dep_created_by x)
            (LinkDepPayload (to_id x) (dep_kind x)) (auto_block_node e (to_id x) d1)))) d
       = Inl ErrCycleDetected"
    by (simp add: add_dependency_def)
  then show "(to_id x, from_id x) \<in> (blocks_edges (deps d))\<^sup>*"
  proof (rule with_history_error)
    fix d0 assume same: "same_tables d d0"
      and "bind_result (detect_cycle (from_id x) (to_id x) d0) (\<lambda>_.
       bind_result (insert_dependency x d0) (\<lambda>d1.
       emit_for e (from_id x) OpLinkDep (dep_created_by x)
            (LinkDepPayload (to_id x) (dep_kind x)) (auto_block_node e (to_id x) d1))) = Inl ErrCycleDetected"
    then have "detect_cycle (from_id x) (to_id x) d0 \<noteq> Inr ()"
      by (auto simp: bind_result_Inl insert_dependency_def emit_for_def
          dest: emit_event_error split: if_splits)
    then show ?thesis by (simp add: detect_cycle_iff same_tables_fields(2)[OF same])
  qed
next
  assume reach: "(to_id x, from_id x) \<in> (blocks_edges (deps d))\<^sup>*"
  have "detect_cycle (from_id x) (to_id x) d0 = Inl ErrCycleDetected" if "deps d0 = deps d" for d0
    using reach that detect_cycle_iff[of "from_id x" "to_id x" d0] detect_cycle_error
    by (cases "detect_cycle (from_id x) (to_id x) d0") auto
  then show "add_dependency e x d = Inl ErrCycleDetected"
    using assms by (auto simp: add_dependency_def with_history_def Let_def touch_fields split: option.splits)
qed


text \<open>
  A new blocks edge blocks its target at once: the live target in open or in progress becomes
  blocked and remembers the status it had, any other row stays. The code asks nothing of the
  blocker, so a target whose blocker is already done is blocked as well.
\<close>
theorem add_dependency_blocks_target:
  assumes "core_ok d" and "dep_kind x = DepTypeBlocks" and "add_dependency e x d = Inr d'"
  shows "find_node j d' = map_option (\<lambda>n.
      if j = to_id x \<and> live n \<and> status n \<in> {StatusOpen, StatusInProgress}
      then n\<lparr>status := StatusBlocked, previous_status := Some (status n), updated_at := now_second e\<rparr>
      else n) (find_node j d)"
  using add_dependency_inv[OF assms(3,1)] assms(2) auto_block_rows[OF core_ok_facts(2)[OF assms(1)]]
  by simp

definition blocking_example :: db where
  "blocking_example = empty_db\<lparr>
     nodes := [row ''P-1'' [] StatusOpen, row ''P-2'' [] StatusOpen,
               (row ''P-3'' [] StatusBlocked)\<lparr>previous_status := Some StatusInProgress\<rparr>],
     deps := [\<lparr>from_id = ''P-1'', to_id = ''P-2'', dep_kind = DepTypeBlocks, dep_created_by = []\<rparr>,
              \<lparr>from_id = ''P-2'', to_id = ''P-3'', dep_kind = DepTypeBlocks, dep_created_by = []\<rparr>]\<rparr>"

lemma blocks_edges_code:
  "blocks_edges ds = set (map (\<lambda>x. (from_id x, to_id x)) (filter (\<lambda>x. dep_kind x = DepTypeBlocks) ds))"
  by (auto simp: blocks_edges_def)

lemma blocking_example_edges:
  "blocks_edges (deps blocking_example) = {(''P-1'', ''P-2''), (''P-2'', ''P-3'')}"
  by (simp add: blocks_edges_code blocking_example_def)

lemma blocking_example_ok: "core_ok blocking_example"
proof -
  note blocking_example_edges
  moreover have "acyclic {(''P-1'', ''P-2''), (''P-2'', ''P-3'')}"
    by (auto simp: acyclic_insert wf_acyclic elim: rtranclE converse_rtranclE)
  moreover have "tree_ok blocking_example" "log_ok blocking_example" "list_all node_ok (nodes blocking_example)"
    by code_simp+
  ultimately show ?thesis by (simp add: core_ok_def)
qed


section \<open>Releasing the dependents of a resolved node\<close>

definition unblocked :: "env \<Rightarrow> node \<Rightarrow> node" where
  "unblocked e n = n\<lparr>status := restore_target (previous_status n), previous_status := None,
     updated_at := now_second e\<rparr>"

definition released :: "db \<Rightarrow> string \<Rightarrow> node \<Rightarrow> bool" where
  "released d j n \<longleftrightarrow> live n \<and> status n = StatusBlocked \<and> get_blockers j d = []"

lemma get_blockers_map:
  assumes "nodes d' = map g (nodes d)" "deps d' = deps d"
    and "\<And>n. n \<in> set (nodes d) \<Longrightarrow>
      node_id (g n) = node_id n \<and> live (g n) = live n \<and> resolving_status (status (g n)) = resolving_status (status n)"
  shows "get_blockers j d' = get_blockers j d"
proof -
  have "list_ex (\<lambda>n. node_id n = i \<and> \<not> resolving_status (status n) \<and> live n) (nodes d')
      = list_ex (\<lambda>n. node_id n = i \<and> \<not> resolving_status (status n) \<and> live n) (nodes d)" for i
    using assms(3) by (auto simp: assms(1) list_ex_iff)
  then show ?thesis by (simp add: get_blockers_def assms(2))
qed

text \<open>The rows after the named nodes were asked to unblock.\<close>

definition release :: "env \<Rightarrow> db \<Rightarrow> string list \<Rightarrow> node \<Rightarrow> node" where
  "release e d ks n = (if node_id n \<in> set ks \<and> released d (node_id n) n then unblocked e n else n)"

lemma release_fields [simp]:
  "node_id (release e d ks n) = node_id n" "parent_id (release e d ks n) = parent_id n"
  "live (release e d ks n) = live n" "progress (release e d ks n) = progress n"
  "weight (release e d ks n) = weight n" "closed_at (release e d ks n) = closed_at n"
  "defer_until (release e d ks n) = defer_until n" "deleted_at (release e d ks n) = deleted_at n"
  by (simp_all add: release_def unblocked_def live_def)

lemma release_status:
  "node_ok n \<Longrightarrow> status n \<noteq> StatusBlocked \<Longrightarrow> release e d ks n = n"
  "node_ok n \<Longrightarrow> status (release e d ks n) = status n \<or>
     status n = StatusBlocked \<and> status (release e d ks n) \<in> {StatusOpen, StatusInProgress}"
  using restore_target_blocked[of n] by (auto simp: release_def released_def unblocked_def)

lemma auto_unblock_rows:
  assumes "auto_unblock_node e k d = Inr d'" "core_ok d"
  shows "nodes d' = map (release e d [k]) (nodes d)
       \<and> (\<forall>j. get_blockers j d' = get_blockers j d) \<and> deps d' = deps d \<and> core_ok d'"
proof -
  let ?d1 = "touch_history k d"
  note same = touch_history_tables[of d k]
  have rows: "find_node i ?d1 = find_node i d" "find_live i ?d1 = find_live i d"
    "get_blockers i ?d1 = get_blockers i d" "deps ?d1 = deps d" "nodes ?d1 = nodes d" for i
    using same_tables_find[OF same] same_tables_fields[OF same] by (simp_all add: get_blockers_def)
  have core1: "core_ok ?d1" "unique_ids d"
    using assms(2) step_ok_core[OF step_ok_touch] core_ok_facts(2) by auto
  have core: "core_ok d'" using step_ok_core[OF step_ok_auto_unblock[OF assms(1)] assms(2)] .
  have main: "nodes d' = map (release e d [k]) (nodes d) \<and> deps d' = deps d"
  proof (cases "\<exists>n. find_live k d = Some n \<and> status n = StatusBlocked \<and> get_blockers k d = []")
    case True
    then obtain n where n: "find_live k d = Some n" "status n = StatusBlocked" "get_blockers k d = []"
      by blast
    define u where "u = update_live k (\<lambda>m. m\<lparr>status := restore_target (previous_status n),
        previous_status := None, updated_at := now_second e\<rparr>) ?d1"
    have emit: "emit_for e k OpTransitionStatus []
        (TransitionStatusPayload StatusBlocked (restore_target (previous_status n)) []) u = Inr d'"
      using assms(1) n by (simp add: auto_unblock_node_def restore_unblocked_node_def Let_def u_def rows)
    have "log_ok u"
      using step_ok_core[OF step_ok_restore core1(1)] n core_ok_facts(3) unfolding u_def by (simp add: rows)
    note em = emit_for_fields[OF emit this]
    have "(if node_id m = k \<and> live m then m\<lparr>status := restore_target (previous_status n),
        previous_status := None, updated_at := now_second e\<rparr> else m) = release e d [k] m"
      if "m \<in> set (nodes d)" for m
      using live_row_unique[OF core1(2) n(1) that] n
      by (auto simp: release_def released_def unblocked_def)
    then show ?thesis using em by (simp add: u_def node_updates row_simps rows)
  next
    case False
    then have "d' = ?d1"
      using assms(1) by (auto simp: auto_unblock_node_def Let_def rows split: option.splits if_splits)
    moreover have "release e d [k] m = m" if "m \<in> set (nodes d)" for m
      using False find_live_unique[OF core1(2) that] by (auto simp: release_def released_def)
    ultimately show ?thesis by (simp add: rows map_idI)
  qed
  moreover have "get_blockers j d' = get_blockers j d" for j
  proof (rule get_blockers_map[of d' "release e d [k]"])
    fix n assume "n \<in> set (nodes d)"
    then show "node_id (release e d [k] n) = node_id n \<and> live (release e d [k] n) = live n
        \<and> resolving_status (status (release e d [k] n)) = resolving_status (status n)"
      using release_status(2)[OF core_ok_facts(5)[OF assms(2)], of n e d "[k]"]
      by (auto simp: resolving_status_def)
  qed (use main in simp_all)
  ultimately show ?thesis using core by simp
qed

lemma unblock_fold_rows:
  assumes "fold_result (auto_unblock_node e) ks d = Inr d'" "core_ok d"
  shows "nodes d' = map (release e d ks) (nodes d)
       \<and> (\<forall>j. get_blockers j d' = get_blockers j d) \<and> deps d' = deps d \<and> core_ok d'"
  using assms
proof (induction ks arbitrary: d)
  case (Cons k ks)
  then obtain d1 where d1: "auto_unblock_node e k d = Inr d1" "fold_result (auto_unblock_node e) ks d1 = Inr d'"
    by (auto simp: bind_result_Inr)
  note a = auto_unblock_rows[OF d1(1) Cons.prems(2)]
  note b = Cons.IH[OF d1(2)] a[THEN conjunct2, THEN conjunct2, THEN conjunct2]
  have "release e d1 ks (release e d [k] n) = release e d (k # ks) n" if "n \<in> set (nodes d)" for n
  proof (cases "node_id n = k \<and> released d k n")
    case True
    then have "\<not> released d1 k (unblocked e n)"
      using restore_target_blocked[OF core_ok_facts(5)[OF Cons.prems(2) that]]
      by (auto simp: released_def unblocked_def)
    then show ?thesis using True by (simp add: release_def) (simp add: unblocked_def)
  next
    case False
    then have "release e d [k] n = n" by (auto simp: release_def)
    moreover have "released d1 j m = released d j m" for j m using a by (simp add: released_def)
    ultimately show ?thesis using False by (auto simp: release_def)
  qed
  then show ?case using a b by simp
qed (simp add: release_def map_idI)

lemma find_node_release:
  assumes "nodes d' = map (release e d ks) (nodes d)"
  shows "find_node j d' = map_option (release e d ks) (find_node j d)"
  by (simp add: find_node_def assms find_map_key)

lemma unblock_dependents_rows:
  assumes "unblock_dependents e i d = Inr d'" "core_ok d"
  shows "nodes d' = map (release e d (cycle_neighbors (deps d) i)) (nodes d)"
    "find_node j d' = map_option (release e d (cycle_neighbors (deps d) i)) (find_node j d)"
    "deps d' = deps d" "core_ok d'"
  using unblock_fold_rows[OF assms(1)[unfolded unblock_dependents_def] assms(2)] find_node_release
  by blast+

text \<open>
  C35. Resolving a node releases exactly its dependents that have no other open blocker: such a
  dependent, if it is live and blocked, returns to the status it had before it was blocked
  (open or in progress) with the memory of it cleared; every other row, and every edge, stays.
\<close>
theorem unblock_dependents_exact:
  assumes "core_ok d" and "unblock_dependents e i d = Inr d'"
  shows "find_node j d' = map_option (\<lambda>n.
            if (i, j) \<in> blocks_edges (deps d) \<and> live n \<and> status n = StatusBlocked \<and> get_blockers j d = []
            then n\<lparr>status := restore_target (previous_status n), previous_status := None,
                   updated_at := now_second e\<rparr>
            else n) (find_node j d)
       \<and> (\<forall>n \<in> set (nodes d). status n = StatusBlocked \<longrightarrow>
            restore_target (previous_status n) \<in> {StatusOpen, StatusInProgress})
       \<and> deps d' = deps d"
proof -
  have "release e d (cycle_neighbors (deps d) i) n =
     (if (i, j) \<in> blocks_edges (deps d) \<and> live n \<and> status n = StatusBlocked \<and> get_blockers j d = []
      then n\<lparr>status := restore_target (previous_status n), previous_status := None,
             updated_at := now_second e\<rparr>
      else n)" if "find_node j d = Some n" for n
    using find_node_Some[OF that] by (auto simp: release_def released_def unblocked_def cycle_neighbors_edges)
  then have "find_node j d' = map_option (\<lambda>n.
      if (i, j) \<in> blocks_edges (deps d) \<and> live n \<and> status n = StatusBlocked \<and> get_blockers j d = []
      then n\<lparr>status := restore_target (previous_status n), previous_status := None,
             updated_at := now_second e\<rparr>
      else n) (find_node j d)"
    using unblock_dependents_rows(2)[OF assms(2,1), of j] by (cases "find_node j d") simp_all
  then show ?thesis
    using unblock_dependents_rows(3)[OF assms(2,1)] restore_target_blocked core_ok_facts(5)[OF assms(1)]
    by blast
qed

definition resolved_example :: db where
  "resolved_example = empty_db\<lparr>nodes := [(row ''P-1'' [] StatusDone)\<lparr>closed_at := Some 1\<rparr>,
     row ''P-2'' [] StatusOpen]\<rparr>"

lemma resolved_example_ok: "core_ok resolved_example"
proof -
  have "blocks_edges (deps resolved_example) = {}"
    by (simp add: blocks_edges_code resolved_example_def empty_db_def)
  moreover have "tree_ok resolved_example" "log_ok resolved_example"
    "list_all node_ok (nodes resolved_example)" by code_simp+
  ultimately show ?thesis by (simp add: core_ok_def wf_acyclic)
qed

theorem add_dependency_blocks_target_witness:
  "\<exists>d'. add_dependency example_env \<lparr>from_id = ''P-1'', to_id = ''P-2'', dep_kind = DepTypeBlocks,
        dep_created_by = []\<rparr> resolved_example = Inr d'
      \<and> map_option status (find_node ''P-2'' d') = Some StatusBlocked"
proof -
  let ?x = "\<lparr>from_id = ''P-1'', to_id = ''P-2'', dep_kind = DepTypeBlocks, dep_created_by = []\<rparr>"
  have "\<not> isl (add_dependency example_env ?x resolved_example)" by code_simp
  then obtain d' where d': "add_dependency example_env ?x resolved_example = Inr d'"
    by (cases "add_dependency example_env ?x resolved_example") auto
  have "find_node ''P-2'' resolved_example = Some (row ''P-2'' [] StatusOpen)" by code_simp
  with add_dependency_blocks_target[OF resolved_example_ok _ d', of "''P-2''"] d'
  show ?thesis by (simp add: live_def row_def)
qed

definition unblock_example :: db where
  "unblock_example = blocking_example\<lparr>nodes :=
     [row ''P-1'' [] StatusOpen, (row ''P-2'' [] StatusDone)\<lparr>closed_at := Some 1\<rparr>,
      (row ''P-3'' [] StatusBlocked)\<lparr>previous_status := Some StatusInProgress\<rparr>]\<rparr>"

lemma unblock_example_ok: "core_ok unblock_example"
proof -
  have "deps unblock_example = deps blocking_example" by (simp add: unblock_example_def)
  moreover have "tree_ok unblock_example" "log_ok unblock_example"
    "list_all node_ok (nodes unblock_example)" by code_simp+
  ultimately show ?thesis using core_ok_facts(4)[OF blocking_example_ok] by (simp add: core_ok_def)
qed

theorem unblock_dependents_exact_witness:
  "\<exists>d'. unblock_dependents example_env ''P-2'' unblock_example = Inr d'
      \<and> map_option status (find_node ''P-3'' d') = Some StatusInProgress"
proof -
  have "\<not> isl (unblock_dependents example_env ''P-2'' unblock_example)" by code_simp
  then obtain d' where d': "unblock_dependents example_env ''P-2'' unblock_example = Inr d'"
    by (cases "unblock_dependents example_env ''P-2'' unblock_example") auto
  have n: "find_node ''P-3'' unblock_example
      = Some ((row ''P-3'' [] StatusBlocked)\<lparr>previous_status := Some StatusInProgress\<rparr>)"
    "get_blockers ''P-3'' unblock_example = []" "deps unblock_example = deps blocking_example"
    by (code_simp, code_simp, simp add: unblock_example_def)
  show ?thesis
    using unblock_dependents_exact[OF unblock_example_ok d', of "''P-3''"] d' n
    by (simp add: blocking_example_edges live_def row_def restore_target_def)
qed

end
