(* ===== verification/Transitions.thy ===== *)
theory Transitions
  imports Blocking Task_History
begin

text \<open>
  The status operations of the store: \<open>internal/store/sqlite/transition.go\<close>,
  \<open>transition_guarded.go\<close>, \<open>claim.go\<close>, \<open>cancel.go\<close> and \<open>defer.go\<close>. Each is one transaction:
  the guards in the order of the code, the row update, the activity entry, the sync event, the
  progress of the ancestors and the release of the dependents. The lemmas show that every
  operation keeps the store invariant, and what each one does to the row it names.
\<close>

section \<open>transition.go\<close>

text \<open>\<open>buildTransitionClauses\<close>: the columns a transition sets.\<close>

definition transition_clauses :: "env \<Rightarrow> status \<Rightarrow> status \<Rightarrow> node \<Rightarrow> node" where
  "transition_clauses e src dst n =
     (let n1 = n\<lparr>status := dst, updated_at := now_second e\<rparr>;
          n2 = (if src = StatusDeferred then n1\<lparr>defer_until := None\<rparr> else n1);
          n3 = (if dst = StatusDone \<or> dst = StatusCancelled
                then n2\<lparr>closed_at := Some (now_second e)\<rparr> else n2);
          n4 = (if (src = StatusDone \<or> src = StatusCancelled) \<and> dst = StatusOpen
                then n3\<lparr>closed_at := None\<rparr> else n3);
          n5 = (if dst = StatusBlocked \<or> dst = StatusInvalidated
                then n4\<lparr>previous_status := Some src\<rparr> else n4)
      in if dst = StatusDone then n5\<lparr>progress := 1\<rparr> else n5)"

definition apply_transition_update ::
  "env \<Rightarrow> string \<Rightarrow> status \<Rightarrow> status \<Rightarrow> string \<Rightarrow> string \<Rightarrow> transaction" where
  "apply_transition_update e i src dst reason author d =
     append_activity_entry i (activity_now e ActivityTypeStatusChange author reason (StatusMeta src dst))
       (update_live i (transition_clauses e src dst) d)"

definition recalculate_parent :: "string \<Rightarrow> transaction" where
  "recalculate_parent p d = (if p \<noteq> [] then recalculate_progress p d else Inr d)"

definition execute_transition :: "env \<Rightarrow> string \<Rightarrow> status \<Rightarrow> string \<Rightarrow> string \<Rightarrow> transaction" where
  "execute_transition e i dst reason author d =
     (case find_live i d of
        None \<Rightarrow> Inl ErrNotFound
      | Some n \<Rightarrow>
          if status n = dst then Inr d
          else bind_result (validate_transition (status n) dst) (\<lambda>_.
               bind_result (apply_transition_update e i (status n) dst reason author d) (\<lambda>d1.
               bind_result (emit_for e i OpTransitionStatus author
                              (TransitionStatusPayload (status n) dst reason) d1) (\<lambda>d2.
               bind_result (recalculate_parent (parent_id n) d2) (\<lambda>d3.
               if resolving_status dst then unblock_dependents e i d3 else Inr d3)))))"

definition transition_status :: "env \<Rightarrow> string \<Rightarrow> status \<Rightarrow> string \<Rightarrow> string \<Rightarrow> transaction" where
  "transition_status e i dst reason author =
     with_history e (local_scope i author) (execute_transition e i dst reason author)"

section \<open>transition_guarded.go\<close>

definition transition_status_from ::
  "env \<Rightarrow> string \<Rightarrow> status \<Rightarrow> status \<Rightarrow> string \<Rightarrow> string \<Rightarrow> transaction" where
  "transition_status_from e i expected dst reason author =
     with_history e (local_scope i author) (\<lambda>d.
       case find_live i d of
         None \<Rightarrow> Inl ErrNotFound
       | Some n \<Rightarrow> if status n \<noteq> expected then Inl ErrConflict
                  else execute_transition e i dst reason author d)"

definition restore_to :: "node \<Rightarrow> status" where
  "restore_to n =
     (case previous_status n of
        None \<Rightarrow> StatusOpen
      | Some s \<Rightarrow> if status_text s \<noteq> [] \<and> validate_transition StatusInvalidated s = Inr ()
                  then s else StatusOpen)"

definition restore_invalidated :: "env \<Rightarrow> string \<Rightarrow> string \<Rightarrow> transaction" where
  "restore_invalidated e i author =
     with_history e (local_scope i author) (\<lambda>d.
       case find_live i d of
         None \<Rightarrow> Inl ErrNotFound
       | Some n \<Rightarrow> if status n \<noteq> StatusInvalidated then Inl ErrInvalidTransition
                  else execute_transition e i (restore_to n) ''restored from invalidated'' author d)"

section \<open>claim.go\<close>

text \<open>A heartbeat or wake time is a whole second; the clock has nanoseconds.\<close>

definition check_defer_expired :: "env \<Rightarrow> int option \<Rightarrow> unit result" where
  "check_defer_expired e du =
     (case du of None \<Rightarrow> Inr ()
      | Some t \<Rightarrow> if t * 1000000000 > now e then Inl ErrStillDeferred else Inr ())"

definition validate_claim_status :: "env \<Rightarrow> string \<Rightarrow> db \<Rightarrow> unit result" where
  "validate_claim_status e i d =
     (case find_live i d of
        None \<Rightarrow> Inl ErrNotFound
      | Some n \<Rightarrow>
          (case status n of
             StatusOpen \<Rightarrow> Inr ()
           | StatusDeferred \<Rightarrow> check_defer_expired e (defer_until n)
           | StatusInProgress \<Rightarrow> Inl ErrAlreadyClaimed
           | StatusBlocked \<Rightarrow> Inl ErrNodeBlocked
           | _ \<Rightarrow> Inl ErrInvalidTransition))"

text \<open>\<open>INSERT OR IGNORE\<close> skips a known agent and a row without a project.\<close>

definition ensure_and_sync_agent :: "env \<Rightarrow> string \<Rightarrow> string \<Rightarrow> db \<Rightarrow> db" where
  "ensure_and_sync_agent e a i d =
     (let fresh = (if list_ex (\<lambda>g. agent_id g = a) (agents d) then []
                   else case find_node i d of
                          None \<Rightarrow> []
                        | Some n \<Rightarrow> [\<lparr>agent_id = a, agent_project = Some (project n),
                                     agent_status = AgentStateIdle, state_changed_at = now_second e,
                                     current_node_id = None, last_heartbeat = Some (now_second e)\<rparr>])
      in d\<lparr>agents := map (\<lambda>g. if agent_id g = a
                              then g\<lparr>current_node_id := Some i, agent_status := AgentStateWorking,
                                     state_changed_at := now_second e\<rparr>
                              else g) (agents d @ fresh)\<rparr>)"

definition reset_old_agent :: "env \<Rightarrow> string option \<Rightarrow> db \<Rightarrow> db" where
  "reset_old_agent e a d =
     (if a = None \<or> a = Some [] then d
      else d\<lparr>agents := map (\<lambda>g. if a = Some (agent_id g)
                              then g\<lparr>current_node_id := None, agent_status := AgentStateIdle,
                                     state_changed_at := now_second e\<rparr>
                              else g) (agents d)\<rparr>)"

definition claim_node_tx :: "env \<Rightarrow> string \<Rightarrow> string \<Rightarrow> transaction" where
  "claim_node_tx e i a d =
     bind_result (validate_claim_status e i d) (\<lambda>_.
     let d1 = update_live i (\<lambda>n. n\<lparr>status := StatusInProgress, assignee := Some a,
                 agent_state := Some AgentStateWorking, updated_at := now_second e,
                 defer_until := None\<rparr>) d;
         d2 = ensure_and_sync_agent e a i d1
     in bind_result (append_activity_entry i
                       (activity_now e ActivityTypeClaim a (''Claimed by '' @ a) NoMeta) d2) (\<lambda>d3.
        emit_for e i OpClaim a (ClaimPayload a False) d3))"

definition claim_node :: "env \<Rightarrow> string \<Rightarrow> string \<Rightarrow> transaction" where
  "claim_node e i a = with_history e (local_scope i a) (claim_node_tx e i a)"

definition validate_unclaim_status :: "string \<Rightarrow> db \<Rightarrow> node result" where
  "validate_unclaim_status i d =
     (case find_live i d of
        None \<Rightarrow> Inl ErrNotFound
      | Some n \<Rightarrow> if status n \<noteq> StatusInProgress then Inl ErrInvalidTransition else Inr n)"

definition unclaim_node :: "env \<Rightarrow> string \<Rightarrow> string \<Rightarrow> string \<Rightarrow> transaction" where
  "unclaim_node e i reason author d =
     (if reason = [] then Inl ErrInvalidInput
      else with_history e (local_scope i author) (\<lambda>d.
             bind_result (validate_unclaim_status i d) (\<lambda>n.
             let d1 = update_live i (\<lambda>n. n\<lparr>status := StatusOpen, assignee := None,
                         agent_state := None, updated_at := now_second e\<rparr>) d;
                 d2 = reset_old_agent e (assignee n) d1
             in bind_result (append_activity_entry i
                               (activity_now e ActivityTypeUnclaim author reason NoMeta) d2) (\<lambda>d3.
                emit_for e i OpUnclaim author UnclaimPayload d3))) d)"

definition check_agent_stale :: "env \<Rightarrow> string option \<Rightarrow> int \<Rightarrow> db \<Rightarrow> unit result" where
  "check_agent_stale e a threshold d =
     (if a = None \<or> a = Some [] then Inr ()
      else case find (\<lambda>g. a = Some (agent_id g)) (agents d) of
             None \<Rightarrow> Inr ()
           | Some g \<Rightarrow>
               (case last_heartbeat g of
                  None \<Rightarrow> Inr ()
                | Some hb \<Rightarrow> if now e - hb * 1000000000 < threshold then Inl ErrAgentStillActive
                            else Inr ()))"

definition validate_force_reclaim :: "env \<Rightarrow> string \<Rightarrow> int \<Rightarrow> db \<Rightarrow> string option result" where
  "validate_force_reclaim e i threshold d =
     (case find_live i d of
        None \<Rightarrow> Inl ErrNotFound
      | Some n \<Rightarrow>
          if status n \<noteq> StatusInProgress then Inl ErrInvalidTransition
          else bind_result (check_agent_stale e (assignee n) threshold d) (\<lambda>_. Inr (assignee n)))"

definition force_reclaim_node :: "env \<Rightarrow> string \<Rightarrow> string \<Rightarrow> int \<Rightarrow> transaction" where
  "force_reclaim_node e i a threshold =
     with_history e (local_scope i a) (\<lambda>d.
       bind_result (validate_force_reclaim e i threshold d) (\<lambda>old.
       let d1 = update_live i (\<lambda>n. n\<lparr>assignee := Some a, agent_state := Some AgentStateWorking,
                   updated_at := now_second e\<rparr>) d;
           d2 = ensure_and_sync_agent e a i (reset_old_agent e old d1)
       in bind_result (append_activity_entry i
                         (activity_now e ActivityTypeClaim a
                            (''Force-reclaimed from '' @ (case old of None \<Rightarrow> [] | Some o' \<Rightarrow> o')) NoMeta) d2)
            (\<lambda>d3. emit_for e i OpClaim a (ClaimPayload a True) d3)))"

section \<open>cancel.go\<close>

definition apply_cancel_update :: "env \<Rightarrow> string \<Rightarrow> status \<Rightarrow> string \<Rightarrow> string \<Rightarrow> transaction" where
  "apply_cancel_update e i src reason author d =
     append_activity_entry i
       (activity_now e ActivityTypeStatusChange author reason (StatusMeta src StatusCancelled))
       (update_live i (\<lambda>n. n\<lparr>status := StatusCancelled, closed_at := Some (now_second e),
                            updated_at := now_second e, defer_until := None\<rparr>) d)"

definition cascades_to :: "string \<Rightarrow> node \<Rightarrow> bool" where
  "cascades_to anc n \<longleftrightarrow> descendant_of anc (node_id n) \<and> live n
     \<and> \<not> (status n = StatusDone \<or> status n = StatusCancelled \<or> status n = StatusInvalidated)"

text \<open>\<open>cancelDescendants\<close>: the update and the rows it returns.\<close>

definition cancel_descendants :: "env \<Rightarrow> string \<Rightarrow> db \<Rightarrow> (string \<times> string) list \<times> db" where
  "cancel_descendants e anc d =
     (map (\<lambda>n. (node_id n, parent_id n)) (filter (cascades_to anc) (nodes d)),
      update_where (cascades_to anc)
        (\<lambda>n. n\<lparr>status := StatusCancelled, closed_at := Some (now_second e),
              updated_at := now_second e, defer_until := None\<rparr>) d)"

definition cascade_cancel :: "env \<Rightarrow> string \<Rightarrow> db \<Rightarrow> ((string \<times> string) list \<times> db) result" where
  "cascade_cancel e anc d =
     (let (cancelled, d1) = cancel_descendants e anc d
      in bind_result (fold_result (unblock_dependents e) (map fst cancelled) d1)
           (\<lambda>d2. Inr (cancelled, d2)))"

text \<open>The inner loop of \<open>cascadeProgressTargets\<close>: up from one stored parent.\<close>

function progress_targets_from :: "string \<Rightarrow> string \<Rightarrow> string list \<Rightarrow> string list" where
  "progress_targets_from anc p targets =
     (if in_subtree anc p \<and> p \<notin> set targets
      then progress_targets_from anc (parse_id_parent p) (targets @ [p])
      else targets)"
  by pat_completeness auto
termination
proof (relation "measure (\<lambda>(anc, p, targets). if p \<in> set targets then 0 else Suc (length p))")
  show "wf (measure (\<lambda>(anc :: string, p :: string, targets).
      if p \<in> set targets then 0 else Suc (length p)))"
    by simp
  fix anc p :: string and targets
  assume "in_subtree anc p \<and> p \<notin> set targets"
  then show "((anc, parse_id_parent p, targets @ [p]), anc, p, targets)
      \<in> measure (\<lambda>(anc, p, targets). if p \<in> set targets then 0 else Suc (length p))"
    using descendant_longer[OF child_descends[of "parse_id_parent p" p]]
    by (cases "parse_id_parent p = []") (auto simp: parse_id_parent_def split: option.splits)
qed

declare progress_targets_from.simps [simp del]

definition dot_depth :: "string \<Rightarrow> nat" where
  "dot_depth s = count_byte CHR ''.'' s"

definition deeper_first :: "string \<Rightarrow> string \<Rightarrow> bool" where
  "deeper_first a b \<longleftrightarrow> (if dot_depth a \<noteq> dot_depth b then dot_depth a > dot_depth b else a < b)"

definition cascade_progress_targets :: "string \<Rightarrow> (string \<times> string) list \<Rightarrow> string list" where
  "cascade_progress_targets anc cancelled =
     sort_by deeper_first (fold (\<lambda>c ts. progress_targets_from anc (snd c) ts) cancelled [])"

definition recompute_cascade_progress :: "string \<Rightarrow> (string \<times> string) list \<Rightarrow> db \<Rightarrow> db" where
  "recompute_cascade_progress anc cancelled d =
     fold recompute_node_progress (cascade_progress_targets anc cancelled) d"

definition execute_cancel :: "env \<Rightarrow> string \<Rightarrow> string \<Rightarrow> string \<Rightarrow> bool \<Rightarrow> transaction" where
  "execute_cancel e i reason author cascade d =
     (case find_live i d of
        None \<Rightarrow> Inl ErrNotFound
      | Some n \<Rightarrow>
          bind_result (validate_transition (status n) StatusCancelled) (\<lambda>_.
          bind_result (apply_cancel_update e i (status n) reason author d) (\<lambda>d1.
          bind_result (emit_for e i OpTransitionStatus author
                         (TransitionStatusPayload (status n) StatusCancelled reason) d1) (\<lambda>d2.
          bind_result (if cascade
                       then bind_result (cascade_cancel e i d2) (\<lambda>(cancelled, d3).
                              Inr (recompute_cascade_progress i cancelled d3))
                       else Inr d2) (\<lambda>d4.
          bind_result (recalculate_parent (parent_id n) d4) (\<lambda>d5.
          unblock_dependents e i d5))))))"

definition cancel_node :: "env \<Rightarrow> string \<Rightarrow> string \<Rightarrow> string \<Rightarrow> bool \<Rightarrow> transaction" where
  "cancel_node e i reason author cascade d =
     (if reason = [] then Inl ErrInvalidInput
      else with_history e (cascade_scope i cascade author)
             (execute_cancel e i reason author cascade) d)"

section \<open>defer.go\<close>

text \<open>\<open>redeferTx\<close>: a changed wake time is stored and recorded, without an event.\<close>

definition redefer :: "env \<Rightarrow> string \<Rightarrow> int option \<Rightarrow> string \<Rightarrow> string \<Rightarrow> transaction" where
  "redefer e i until reason author d =
     (case find_live i d of
        None \<Rightarrow> Inl ErrStorage
      | Some n \<Rightarrow>
          if defer_until n = until then Inr d
          else append_activity_entry i
                 (activity_now e ActivityTypeStatusChange author reason (DeferMeta (defer_until n) until))
                 (update_live i (\<lambda>n. n\<lparr>defer_until := until, updated_at := now_second e\<rparr>) d))"

definition execute_defer :: "env \<Rightarrow> string \<Rightarrow> int option \<Rightarrow> string \<Rightarrow> string \<Rightarrow> transaction" where
  "execute_defer e i until reason author d =
     (case find_live i d of
        None \<Rightarrow> Inl ErrNotFound
      | Some n \<Rightarrow>
          if status n = StatusDeferred then redefer e i until reason author d
          else bind_result (execute_transition e i StatusDeferred reason author d) (\<lambda>d1.
               Inr (update_live i (\<lambda>n. n\<lparr>defer_until := until\<rparr>) d1)))"

definition defer_node :: "env \<Rightarrow> string \<Rightarrow> int option \<Rightarrow> string \<Rightarrow> string \<Rightarrow> transaction" where
  "defer_node e i until reason author d =
     (if (case until of None \<Rightarrow> False | Some t \<Rightarrow> \<not> is_storable_time t) then Inl ErrInvalidInput
      else with_history e (local_scope i author)
             (execute_defer e i (map_option unix_second until) reason author) d)"

definition wake_due :: "string \<Rightarrow> int \<Rightarrow> db \<Rightarrow> bool" where
  "wake_due i t d \<longleftrightarrow>
     list_ex (\<lambda>n. node_id n = i \<and> live n \<and> status n = StatusDeferred
                \<and> (case defer_until n of None \<Rightarrow> False | Some u \<Rightarrow> u \<le> unix_second t)) (nodes d)"

definition wake_deferred_node :: "env \<Rightarrow> string \<Rightarrow> int \<Rightarrow> transaction" where
  "wake_deferred_node e i t =
     with_history e (system_scope i ''system'') (\<lambda>d.
       if \<not> wake_due i t d then Inr d
       else execute_transition e i StatusOpen ''Auto-reopened: defer_until has passed'' ''system'' d)"

section \<open>Every operation keeps the store invariant\<close>

lemma status_step_validated:
  "validate_transition src dst = Inr () \<Longrightarrow> src \<noteq> dst \<Longrightarrow> status_step\<^sup>*\<^sup>* src dst"
  by (rule r_into_rtranclp) (simp add: status_step_simps)

lemma keeps_key_transition [simp, intro]: "keeps_key (transition_clauses e src dst)"
  by (simp add: keeps_key_def transition_clauses_def Let_def)

lemma transition_clauses_ok:
  assumes "node_ok n" "validate_transition (status n) dst = Inr ()" "status n \<noteq> dst"
  shows "node_ok (transition_clauses e (status n) dst n)"
  using assms
  by (cases "status n"; cases dst)
    (auto simp: node_ok_def transition_clauses_def validate_transition_def)

lemma step_ok_transition_update:
  assumes "find_live i d = Some n" "validate_transition (status n) dst = Inr ()" "status n \<noteq> dst"
    and "apply_transition_update e i (status n) dst reason author d = Inr d'"
  shows "step_ok d d'"
proof -
  have "step_ok d (update_live i (transition_clauses e (status n) dst) d)"
  proof (rule step_ok_update_live[OF assms(1)])
    have "status (transition_clauses e (status n) dst n) = dst"
      by (simp add: transition_clauses_def Let_def)
    then show "node_ok n \<Longrightarrow> node_ok (transition_clauses e (status n) dst n)
        \<and> status_step\<^sup>*\<^sup>* (status n) (status (transition_clauses e (status n) dst n))"
      using assms(2,3) by (simp add: transition_clauses_ok status_step_validated)
  qed simp
  also have "step_ok (update_live i (transition_clauses e (status n) dst) d) d'"
    using assms(4) unfolding apply_transition_update_def by (rule step_ok_activity)
  finally (step_ok_trans) show ?thesis .
qed

lemma step_ok_recalculate_parent: "recalculate_parent p d = Inr d' \<Longrightarrow> step_ok d d'"
  by (auto simp: recalculate_parent_def intro: step_ok_progress split: if_splits)

text \<open>The stages of a transition that changes the status.\<close>

lemma execute_transition_stages:
  assumes "execute_transition e i dst reason author d = Inr d'"
  obtains (same) n where "find_live i d = Some n" "status n = dst" "d' = d"
  | (changed) n d1 d2 d3 where "find_live i d = Some n" "status n \<noteq> dst"
      "validate_transition (status n) dst = Inr ()"
      "apply_transition_update e i (status n) dst reason author d = Inr d1"
      "emit_for e i OpTransitionStatus author (TransitionStatusPayload (status n) dst reason) d1 = Inr d2"
      "recalculate_parent (parent_id n) d2 = Inr d3"
      "(if resolving_status dst then unblock_dependents e i d3 else Inr d3) = Inr d'"
proof (cases "find_live i d")
  case (Some n)
  show ?thesis
  proof (cases "status n = dst")
    case True
    with Some assms show ?thesis by (intro same[of n]) (auto simp: execute_transition_def)
  next
    case False
    with Some assms show ?thesis
      by (auto simp: execute_transition_def bind_result_Inr simp del: split_paired_Ex intro: changed)
  qed
qed (use assms in \<open>simp add: execute_transition_def\<close>)

lemma step_ok_execute_transition:
  assumes "execute_transition e i dst reason author d = Inr d'"
  shows "step_ok d d'"
  using assms
proof (cases rule: execute_transition_stages)
  case (changed n d1 d2 d3)
  have "step_ok d d1" using changed(1,3,2,4) by (rule step_ok_transition_update)
  also have "step_ok d1 d2" using changed(5) by (rule step_ok_emit_for)
  also (step_ok_trans) have "step_ok d2 d3" using changed(6) by (rule step_ok_recalculate_parent)
  also (step_ok_trans) have "step_ok d3 d'"
    using changed(7) by (auto intro: step_ok_unblock_dependents split: if_splits)
  finally (step_ok_trans) show ?thesis .
qed simp

lemma step_ok_transition_status: "transition_status e i dst reason author d = Inr d' \<Longrightarrow> step_ok d d'"
  unfolding transition_status_def
  by (erule step_ok_with_history) (rule step_ok_execute_transition)

lemma step_ok_transition_status_from:
  "transition_status_from e i expected dst reason author d = Inr d' \<Longrightarrow> step_ok d d'"
  unfolding transition_status_from_def
  by (erule step_ok_with_history) (auto split: option.splits if_splits intro: step_ok_execute_transition)

lemma step_ok_restore_invalidated: "restore_invalidated e i author d = Inr d' \<Longrightarrow> step_ok d d'"
  unfolding restore_invalidated_def
  by (erule step_ok_with_history) (auto split: option.splits if_splits intro: step_ok_execute_transition)

lemma step_ok_agents: "step_ok d (d\<lparr>agents := a\<rparr>)"
proof -
  have "log_ok (d\<lparr>agents := a\<rparr>) = log_ok d" by (rule log_ok_cong) simp_all
  moreover have "tree_ok (d\<lparr>agents := a\<rparr>) = tree_ok d"
    by (rule tree_ok_cong) (simp add: key_columns_def)
  moreover have "node_moves d (d\<lparr>agents := a\<rparr>)" by (auto simp: node_moves_def find_node_def)
  ultimately show ?thesis by (simp add: step_ok_def core_ok_def)
qed

lemma step_ok_ensure_agent: "step_ok d (ensure_and_sync_agent e a i d)"
  unfolding ensure_and_sync_agent_def Let_def by (rule step_ok_agents)

lemma step_ok_reset_agent: "step_ok d (reset_old_agent e a d)"
  by (simp add: reset_old_agent_def step_ok_agents)

lemma status_step_claims [simp, intro]:
  "status_step StatusOpen StatusInProgress" "status_step StatusDeferred StatusInProgress"
  "status_step StatusInProgress StatusOpen"
  by (simp_all add: status_step_simps validate_transition_def)

lemma validate_claim_status_ok:
  "validate_claim_status e i d = Inr () \<longleftrightarrow>
     (\<exists>n. find_live i d = Some n \<and> (status n = StatusOpen
        \<or> status n = StatusDeferred \<and> (\<forall>t. defer_until n = Some t \<longrightarrow> t * 1000000000 \<le> now e)))"
  by (auto simp: validate_claim_status_def check_defer_expired_def
      split: option.splits status.splits if_splits)

lemma step_ok_claim_node_tx:
  assumes "claim_node_tx e i a d = Inr d'"
  shows "step_ok d d'"
proof -
  define f where "f n = n\<lparr>status := StatusInProgress, assignee := Some a,
     agent_state := Some AgentStateWorking, updated_at := now_second e, defer_until := None\<rparr>" for n :: node
  from assms obtain d3 where v: "validate_claim_status e i d = Inr ()"
    and d3: "append_activity_entry i (activity_now e ActivityTypeClaim a (''Claimed by '' @ a) NoMeta)
               (ensure_and_sync_agent e a i (update_live i f d)) = Inr d3"
    and d': "emit_for e i OpClaim a (ClaimPayload a False) d3 = Inr d'"
    unfolding f_def by (auto simp: claim_node_tx_def Let_def bind_result_Inr)
  from v obtain n where n: "find_live i d = Some n" "status n = StatusOpen \<or> status n = StatusDeferred"
    by (auto simp: validate_claim_status_ok)
  have "step_ok d (update_live i f d)"
    by (rule step_ok_update_live[OF n(1)]) (use n(2) in \<open>auto simp: f_def node_ok_def keeps_key_def\<close>)
  also have "step_ok (update_live i f d) (ensure_and_sync_agent e a i (update_live i f d))"
    by (rule step_ok_ensure_agent)
  also (step_ok_trans) have "step_ok (ensure_and_sync_agent e a i (update_live i f d)) d3"
    using d3 by (rule step_ok_activity)
  also (step_ok_trans) have "step_ok d3 d'" using d' by (rule step_ok_emit_for)
  finally (step_ok_trans) show ?thesis .
qed

lemma step_ok_claim_node: "claim_node e i a d = Inr d' \<Longrightarrow> step_ok d d'"
  unfolding claim_node_def by (erule step_ok_with_history) (rule step_ok_claim_node_tx)

lemma step_ok_unclaim_node:
  assumes "unclaim_node e i reason author d = Inr d'"
  shows "step_ok d d'"
proof -
  define f where "f n = n\<lparr>status := StatusOpen, assignee := None, agent_state := None,
     updated_at := now_second e\<rparr>" for n :: node
  let ?act = "activity_now e ActivityTypeUnclaim author reason NoMeta"
  from assms have "with_history e (local_scope i author) (\<lambda>d.
      bind_result (validate_unclaim_status i d) (\<lambda>n.
      bind_result (append_activity_entry i ?act (reset_old_agent e (assignee n) (update_live i f d))) (\<lambda>d3.
      emit_for e i OpUnclaim author UnclaimPayload d3))) d = Inr d'"
    unfolding f_def by (simp add: unclaim_node_def Let_def split: if_splits)
  then show ?thesis
  proof (rule step_ok_with_history)
    fix a b :: db
    assume "bind_result (validate_unclaim_status i a) (\<lambda>n.
      bind_result (append_activity_entry i ?act (reset_old_agent e (assignee n) (update_live i f a))) (\<lambda>d3.
      emit_for e i OpUnclaim author UnclaimPayload d3)) = Inr b"
    then obtain n d3 where n: "find_live i a = Some n" "status n = StatusInProgress"
      and d3: "append_activity_entry i ?act (reset_old_agent e (assignee n) (update_live i f a)) = Inr d3"
      and b: "emit_for e i OpUnclaim author UnclaimPayload d3 = Inr b"
      by (auto simp: bind_result_Inr validate_unclaim_status_def split: option.splits if_splits)
    have "step_ok a (update_live i f a)"
      by (rule step_ok_update_live[OF n(1)]) (use n(2) in \<open>auto simp: f_def node_ok_def keeps_key_def\<close>)
    also have "step_ok (update_live i f a) (reset_old_agent e (assignee n) (update_live i f a))"
      by (rule step_ok_reset_agent)
    also (step_ok_trans) have "step_ok (reset_old_agent e (assignee n) (update_live i f a)) d3"
      using d3 by (rule step_ok_activity)
    also (step_ok_trans) have "step_ok d3 b" using b by (rule step_ok_emit_for)
    finally (step_ok_trans) show "step_ok a b" .
  qed
qed

lemma step_ok_force_reclaim_node:
  assumes "force_reclaim_node e i a threshold d = Inr d'"
  shows "step_ok d d'"
  using assms[unfolded force_reclaim_node_def Let_def]
proof (rule step_ok_with_history)
  fix d0 b :: db
  define u where "u = update_live i (\<lambda>n. n\<lparr>assignee := Some a, agent_state := Some AgentStateWorking,
     updated_at := now_second e\<rparr>) d0"
  assume "bind_result (validate_force_reclaim e i threshold d0) (\<lambda>old.
      bind_result (append_activity_entry i (activity_now e ActivityTypeClaim a
          (''Force-reclaimed from '' @ (case old of None \<Rightarrow> [] | Some o' \<Rightarrow> o')) NoMeta)
        (ensure_and_sync_agent e a i (reset_old_agent e old
          (update_live i (\<lambda>n. n\<lparr>assignee := Some a, agent_state := Some AgentStateWorking,
             updated_at := now_second e\<rparr>) d0))))
      (\<lambda>d3. emit_for e i OpClaim a (ClaimPayload a True) d3)) = Inr b"
  then obtain old act d3 where
    d3: "append_activity_entry i act (ensure_and_sync_agent e a i (reset_old_agent e old u)) = Inr d3"
    and b: "emit_for e i OpClaim a (ClaimPayload a True) d3 = Inr b"
    unfolding u_def by (auto simp: bind_result_Inr)
  have "step_ok d0 u" unfolding u_def update_live_def by (rule step_ok_plain) simp
  also have "step_ok u (reset_old_agent e old u)" by (rule step_ok_reset_agent)
  also (step_ok_trans) have "step_ok (reset_old_agent e old u) (ensure_and_sync_agent e a i (reset_old_agent e old u))"
    by (rule step_ok_ensure_agent)
  also (step_ok_trans) have "step_ok (ensure_and_sync_agent e a i (reset_old_agent e old u)) d3"
    using d3 by (rule step_ok_activity)
  also (step_ok_trans) have "step_ok d3 b" using b by (rule step_ok_emit_for)
  finally (step_ok_trans) show "step_ok d0 b" .
qed

lemma cancel_step:
  assumes "validate_transition (status n) StatusCancelled = Inr ()" "node_ok n"
  shows "node_ok (n\<lparr>status := StatusCancelled, closed_at := Some t, updated_at := t, defer_until := None\<rparr>)
       \<and> status_step\<^sup>*\<^sup>* (status n) StatusCancelled"
  using assms by (cases "status n = StatusCancelled") (auto simp: node_ok_def status_step_validated)

lemma keeps_key_cancel [simp, intro]:
  "keeps_key (\<lambda>n. n\<lparr>status := s, closed_at := c, updated_at := t, defer_until := u\<rparr>)"
  by (simp add: keeps_key_def)

lemma step_ok_cancel_descendants: "cancel_descendants e anc d = (cs, d') \<Longrightarrow> step_ok d d'"
proof -
  assume "cancel_descendants e anc d = (cs, d')"
  then have d': "d' = update_where (cascades_to anc) (\<lambda>n. n\<lparr>status := StatusCancelled,
      closed_at := Some (now_second e), updated_at := now_second e, defer_until := None\<rparr>) d"
    by (simp add: cancel_descendants_def)
  show ?thesis
    unfolding d'
  proof (rule step_ok_update_where)
    fix n assume "core_ok d" "n \<in> set (nodes d)" "cascades_to anc n"
    then have "node_ok n" "validate_transition (status n) StatusCancelled = Inr ()"
      using core_ok_facts(5)[of d n]
      by (auto simp: cascades_to_def node_ok_def validate_transition_def split: status.splits)
        (cases "status n"; simp)+
    then show "node_ok (n\<lparr>status := StatusCancelled, closed_at := Some (now_second e),
          updated_at := now_second e, defer_until := None\<rparr>)
        \<and> status_step\<^sup>*\<^sup>* (status n) (status (n\<lparr>status := StatusCancelled,
          closed_at := Some (now_second e), updated_at := now_second e, defer_until := None\<rparr>))"
      using cancel_step by simp
  qed simp
qed

lemma cascade_cancel_stages:
  assumes "cascade_cancel e anc d = Inr (cs, d')"
  obtains d1 where "cancel_descendants e anc d = (cs, d1)"
    "fold_result (unblock_dependents e) (map fst cs) d1 = Inr d'"
proof (cases "cancel_descendants e anc d")
  case (Pair xs d1)
  with assms show ?thesis by (intro that[of d1]) (auto simp: cascade_cancel_def bind_result_Inr)
qed

lemma step_ok_cascade_cancel:
  assumes "cascade_cancel e anc d = Inr (cs, d')"
  shows "step_ok d d'"
  using assms
proof (cases rule: cascade_cancel_stages)
  case (1 d1)
  have "step_ok d1 d'" using 1(2) by (rule step_ok_fold) (rule step_ok_unblock_dependents)
  with step_ok_cancel_descendants[OF 1(1)] show ?thesis by (rule step_ok_trans)
qed

lemma execute_cancel_stages:
  assumes "execute_cancel e i reason author cascade d = Inr d'"
  obtains n d1 d2 d4 d5 where "find_live i d = Some n" "validate_transition (status n) StatusCancelled = Inr ()"
    "apply_cancel_update e i (status n) reason author d = Inr d1"
    "emit_for e i OpTransitionStatus author (TransitionStatusPayload (status n) StatusCancelled reason) d1 = Inr d2"
    "\<not> cascade \<and> d4 = d2 \<or> cascade \<and> (\<exists>cs d3. cascade_cancel e i d2 = Inr (cs, d3)
        \<and> d4 = recompute_cascade_progress i cs d3)"
    "recalculate_parent (parent_id n) d4 = Inr d5" "unblock_dependents e i d5 = Inr d'"
proof (cases "find_live i d")
  case (Some n)
  from assms Some obtain d1 d2 d4 d5 where d: "validate_transition (status n) StatusCancelled = Inr ()"
    "apply_cancel_update e i (status n) reason author d = Inr d1"
    "emit_for e i OpTransitionStatus author (TransitionStatusPayload (status n) StatusCancelled reason) d1 = Inr d2"
    "(if cascade then bind_result (cascade_cancel e i d2) (\<lambda>(cancelled, d3).
        Inr (recompute_cascade_progress i cancelled d3)) else Inr d2) = Inr d4"
    "recalculate_parent (parent_id n) d4 = Inr d5" "unblock_dependents e i d5 = Inr d'"
    by (auto simp: execute_cancel_def bind_result_Inr simp del: split_paired_Ex)
  from d(4) have "\<not> cascade \<and> d4 = d2 \<or> cascade \<and> (\<exists>cs d3. cascade_cancel e i d2 = Inr (cs, d3)
      \<and> d4 = recompute_cascade_progress i cs d3)"
    by (auto simp: bind_result_Inr split: if_splits)
  with Some d show ?thesis by (blast intro: that)
qed (use assms in \<open>simp add: execute_cancel_def\<close>)

lemma step_ok_cancel_update:
  assumes "find_live i d = Some n" "validate_transition (status n) StatusCancelled = Inr ()"
    and "apply_cancel_update e i (status n) reason author d = Inr d'"
  shows "step_ok d d'"
proof -
  let ?u = "update_live i (\<lambda>n. n\<lparr>status := StatusCancelled, closed_at := Some (now_second e),
      updated_at := now_second e, defer_until := None\<rparr>) d"
  have "step_ok d ?u" by (rule step_ok_update_live[OF assms(1)]) (use cancel_step[OF assms(2)] in simp_all)
  also have "step_ok ?u d'" using assms(3) unfolding apply_cancel_update_def by (rule step_ok_activity)
  finally (step_ok_trans) show ?thesis .
qed

lemma step_ok_execute_cancel:
  assumes "execute_cancel e i reason author cascade d = Inr d'"
  shows "step_ok d d'"
  using assms
proof (cases rule: execute_cancel_stages)
  case (1 n d1 d2 d4 d5)
  have "step_ok d d1" using 1(1-3) by (rule step_ok_cancel_update)
  also have "step_ok d1 d2" using 1(4) by (rule step_ok_emit_for)
  also (step_ok_trans) have "step_ok d2 d4"
    using 1(5) by (auto simp: recompute_cascade_progress_def
        intro: step_ok_trans[OF step_ok_cascade_cancel step_ok_recomputes])
  also (step_ok_trans) have "step_ok d4 d5" using 1(6) by (rule step_ok_recalculate_parent)
  also (step_ok_trans) have "step_ok d5 d'" using 1(7) by (rule step_ok_unblock_dependents)
  finally (step_ok_trans) show ?thesis .
qed

lemma step_ok_cancel_node: "cancel_node e i reason author cascade d = Inr d' \<Longrightarrow> step_ok d d'"
  unfolding cancel_node_def
  by (auto split: if_splits elim!: step_ok_with_history intro: step_ok_execute_cancel)

lemma step_ok_redefer: "redefer e i until reason author d = Inr d' \<Longrightarrow> step_ok d d'"
  by (auto simp: redefer_def update_live_def split: option.splits if_splits
      dest!: step_ok_activity intro: step_ok_trans[OF step_ok_plain])

lemma step_ok_execute_defer: "execute_defer e i until reason author d = Inr d' \<Longrightarrow> step_ok d d'"
  by (auto simp: execute_defer_def update_live_def bind_result_Inr split: option.splits if_splits
      dest: step_ok_redefer intro: step_ok_trans[OF step_ok_execute_transition step_ok_plain])

lemma step_ok_defer_node: "defer_node e i until reason author d = Inr d' \<Longrightarrow> step_ok d d'"
  unfolding defer_node_def
  by (auto split: if_splits option.splits elim!: step_ok_with_history intro: step_ok_execute_defer)

lemma step_ok_wake_deferred_node: "wake_deferred_node e i t d = Inr d' \<Longrightarrow> step_ok d d'"
  unfolding wake_deferred_node_def
  by (erule step_ok_with_history) (auto split: if_splits intro: step_ok_execute_transition)

section \<open>What the stages do to the rows\<close>

lemma rollup_of_map:
  "(\<And>n. n \<in> set cs \<Longrightarrow> progress (g n) = progress n \<and> weight (g n) = weight n) \<Longrightarrow>
   rollup_of (map g cs) = rollup_of cs"
  by (simp add: rollup_of_def Let_def comp_def cong: map_cong)

lemma find_map_on:
  "(\<And>x. x \<in> set xs \<Longrightarrow> k (g x) = k x) \<Longrightarrow>
   find (\<lambda>y. k y = i) (map g xs) = map_option g (find (\<lambda>y. k y = i) xs)"
  by (induction xs) auto

lemma rolled_up_map:
  assumes nodes: "nodes d' = map g (nodes d)"
    and g: "\<And>n. n \<in> set (nodes d) \<Longrightarrow> node_id (g n) = node_id n \<and> parent_id (g n) = parent_id n
      \<and> live (g n) = live n \<and> progress (g n) = progress n \<and> weight (g n) = weight n
      \<and> (status (g n) \<in> {StatusCancelled, StatusInvalidated}) = (status n \<in> {StatusCancelled, StatusInvalidated})"
  shows "rolled_up d' a = rolled_up d a"
proof -
  have "counted_children a d' = map g (counted_children a d)"
    unfolding counted_children_def nodes filter_map comp_def
    by (rule arg_cong[of _ _ "map g"], rule filter_cong) (use g in auto)
  then have "rollup_of (counted_children a d') = rollup_of (counted_children a d)"
    using rollup_of_map[of "counted_children a d" g] g by (auto simp: counted_children_def)
  moreover have "find_node a d' = map_option g (find_node a d)"
    unfolding find_node_def nodes by (rule find_map_on) (use g in blast)
  ultimately show ?thesis
    using g find_node_Some[of a d] by (cases "find_node a d") (auto simp: rolled_up_def)
qed

lemma rolled_up_rows:
  assumes "unique_ids d" "unique_ids d'" "key_columns d' = key_columns d"
    and rows: "\<And>n. n \<in> set (nodes d) \<Longrightarrow> \<exists>n'. find_node (node_id n) d' = Some n' \<and> live n' = live n
      \<and> progress n' = progress n \<and> weight n' = weight n
      \<and> (status n' \<in> {StatusCancelled, StatusInvalidated}) = (status n \<in> {StatusCancelled, StatusInvalidated})"
  shows "rolled_up d' a = rolled_up d a"
proof (rule rolled_up_map[OF nodes_by_keys[OF assms(2,3)]])
  fix n assume n: "n \<in> set (nodes d)"
  then obtain n' where n': "find_node (node_id n) d' = Some n'" using rows by blast
  have "(node_id n', parent_id n') \<in> set (key_columns d)"
    using find_node_Some[OF n'] unfolding assms(3)[symmetric] by (auto simp: key_columns_def intro!: image_eqI[of _ _ n'])
  then obtain m where "m \<in> set (nodes d)" "node_id m = node_id n'" "parent_id m = parent_id n'"
    by (auto simp: key_columns_def)
  then have "parent_id n' = parent_id n"
    using find_node_unique[OF assms(1)] n find_node_Some[OF n'] by (metis option.inject)
  then show "node_id (the (find_node (node_id n) d')) = node_id n
      \<and> parent_id (the (find_node (node_id n) d')) = parent_id n
      \<and> live (the (find_node (node_id n) d')) = live n
      \<and> progress (the (find_node (node_id n) d')) = progress n
      \<and> weight (the (find_node (node_id n) d')) = weight n
      \<and> (status (the (find_node (node_id n) d')) \<in> {StatusCancelled, StatusInvalidated})
        = (status n \<in> {StatusCancelled, StatusInvalidated})"
    using rows[OF n] n' find_node_Some[OF n'] by auto
qed

lemma activity_rows:
  "append_activity_entry i a d = Inr d' \<Longrightarrow>
   d' = update_node_row i (\<lambda>n. n\<lparr>activity := activity n @ [a]\<rparr>) d"
  by (auto simp: append_activity_entry_def split: option.splits)

lemma activity_returns: "find_live i d = Some n \<Longrightarrow> \<exists>d'. append_activity_entry i a d = Inr d'"
  by (auto simp: append_activity_entry_def find_live_def find_node_def find_none_iff find_Some_iff
      split: option.splits)

lemma transition_update_rows:
  assumes "apply_transition_update e i src dst reason author d = Inr d1" "find_live i d = Some n" "unique_ids d"
  shows "find_node j d1 = (if j = i
      then Some ((transition_clauses e src dst n)\<lparr>activity := activity n @
             [activity_now e ActivityTypeStatusChange author reason (StatusMeta src dst)]\<rparr>)
      else find_node j d)"
    "key_columns d1 = key_columns d" "deps d1 = deps d"
proof -
  let ?a = "activity_now e ActivityTypeStatusChange author reason (StatusMeta src dst)"
  have d1: "d1 = update_node_row i (\<lambda>n. n\<lparr>activity := activity n @ [?a]\<rparr>)
      (update_live i (transition_clauses e src dst) d)"
    using assms(1) unfolding apply_transition_update_def by (rule activity_rows)
  have kept: "keeps_key (\<lambda>n. n\<lparr>activity := activity n @ [?a]\<rparr>)" by (simp add: keeps_key_def)
  have id: "node_id (transition_clauses e src dst n) = node_id n"
    "activity (transition_clauses e src dst n) = activity n" for n
    by (simp_all add: transition_clauses_def Let_def)
  show "key_columns d1 = key_columns d" "deps d1 = deps d"
    by (simp_all add: d1 node_updates row_simps kept)
  have n: "find_node i d = Some n" "live n" "node_id n = i"
    using assms(2,3) find_live_Some[OF assms(2)] find_live_find_node[OF assms(3), of i]
    by (auto split: option.splits if_splits)
  show "find_node j d1 = (if j = i
      then Some ((transition_clauses e src dst n)\<lparr>activity := activity n @ [?a]\<rparr>) else find_node j d)"
  proof (cases "j = i")
    case True
    then show ?thesis using n by (simp add: d1 node_updates row_simps kept id)
  next
    case False
    then show ?thesis
      using find_node_Some[of j d]
      by (cases "find_node j d") (auto simp: d1 node_updates row_simps kept)
  qed
qed

lemma recalculate_parent_rows:
  assumes "recalculate_parent p d = Inr d'" "tree_ok d"
  shows "same_but_progress d d'" "p \<noteq> [] \<Longrightarrow> walks_to d p a \<Longrightarrow> rolled_up d' a"
    "p = [] \<or> \<not> walks_to d p j \<Longrightarrow> find_node j d' = find_node j d"
proof -
  show "same_but_progress d d'"
    using assms(1) by (auto simp: recalculate_parent_def intro: recalculate_progress_content split: if_splits)
  show "p \<noteq> [] \<Longrightarrow> walks_to d p a \<Longrightarrow> rolled_up d' a"
    "p = [] \<or> \<not> walks_to d p j \<Longrightarrow> find_node j d' = find_node j d"
    using assms recalculate_progress_rolls_up[of p d d']
    by (auto simp: recalculate_parent_def split: if_splits)
qed

lemma recalculate_parent_returns: "tree_ok d \<Longrightarrow> \<exists>d'. recalculate_parent p d = Inr d'"
  using recalculate_progress_returns by (auto simp: recalculate_parent_def)

lemma not_above_own_parent:
  assumes "tree_ok d" "n \<in> set (nodes d)" "parent_id n \<noteq> []"
  shows "\<not> walks_to d (parent_id n) (node_id n)"
  using tree_ok_node[OF assms(1,2)] assms(1,3) walks_to_length[of d "parent_id n" "node_id n"]
  by (auto dest: descendant_longer)

lemma progress_row:
  assumes "same_but_progress d d'" "find_node j d = Some m"
  obtains m' where "find_node j d' = Some m'" "m'\<lparr>progress := 0\<rparr> = m\<lparr>progress := 0\<rparr>"
    "status m' = status m" "live m' = live m" "closed_at m' = closed_at m"
proof -
  from same_but_progress_node[OF assms(1), of j] assms(2) obtain m' where
    m': "find_node j d' = Some m'" "m'\<lparr>progress := 0\<rparr> = m\<lparr>progress := 0\<rparr>" by auto
  have "status m' = status m" using arg_cong[OF m'(2), of status] by simp
  moreover have "live m' = live m" using arg_cong[OF m'(2), of deleted_at] by (simp add: live_def)
  moreover have "closed_at m' = closed_at m" using arg_cong[OF m'(2), of closed_at] by simp
  ultimately show ?thesis by (rule that[OF m'])
qed

section \<open>A transition, exactly\<close>

lemma log_ok_step: "step_ok d d' \<Longrightarrow> core_ok d \<Longrightarrow> log_ok d'"
  by (rule core_ok_facts(3)) (rule step_ok_core)

lemma rolled_up_release:
  assumes "nodes d' = map (release e d ks) (nodes d)" "core_ok d"
  shows "rolled_up d' a = rolled_up d a"
proof (rule rolled_up_map[OF assms(1)])
  fix n assume "n \<in> set (nodes d)"
  then have "node_ok n" using assms(2) by (rule core_ok_facts(5)[rotated])
  then show "node_id (release e d ks n) = node_id n \<and> parent_id (release e d ks n) = parent_id n
      \<and> live (release e d ks n) = live n \<and> progress (release e d ks n) = progress n
      \<and> weight (release e d ks n) = weight n
      \<and> (status (release e d ks n) \<in> {StatusCancelled, StatusInvalidated})
        = (status n \<in> {StatusCancelled, StatusInvalidated})"
    using release_status(2)[of n e d ks] by auto
qed

lemma execute_transition_rows:
  assumes core: "core_ok d" and n: "find_live i d = Some n" "status n \<noteq> dst"
    and run: "execute_transition e i dst reason author d = Inr d'"
  shows "find_node i d' = Some ((transition_clauses e (status n) dst n)\<lparr>activity := activity n @
           [activity_now e ActivityTypeStatusChange author reason (StatusMeta (status n) dst)]\<rparr>)
       \<and> (\<forall>a. parent_id n \<noteq> [] \<and> walks_to d (parent_id n) a \<longrightarrow> rolled_up d' a)
       \<and> (\<forall>j m. j \<noteq> i \<and> find_node j d = Some m \<longrightarrow>
            (\<exists>m'. find_node j d' = Some m' \<and> (status m' = status m
               \<or> resolving_status dst \<and> (i, j) \<in> blocks_edges (deps d)
                 \<and> status m = StatusBlocked \<and> status m' \<in> {StatusOpen, StatusInProgress})))"
  using run
proof (cases rule: execute_transition_stages)
  case (changed n' d1 d2 d3)
  note changed = changed[folded option.inject[THEN iffD1, OF changed(1)[unfolded n(1)]]]
  let ?row = "(transition_clauses e (status n) dst n)\<lparr>activity := activity n @
           [activity_now e ActivityTypeStatusChange author reason (StatusMeta (status n) dst)]\<rparr>"
  have s1: "step_ok d d1" using changed(1,3,2,4) by (rule step_ok_transition_update)
  have core1: "core_ok d1" using s1 core by (rule step_ok_core)
  have core2: "core_ok d2" using step_ok_emit_for[OF changed(5)] core1 by (rule step_ok_core)
  have core3: "core_ok d3" using step_ok_recalculate_parent[OF changed(6)] core2 by (rule step_ok_core)
  note t = transition_update_rows[OF changed(4) n(1) core_ok_facts(2)[OF core]]
  note em = emit_for_fields[OF changed(5) core_ok_facts(3)[OF core1]]
  note up = recalculate_parent_rows[OF changed(6) core_ok_facts(1)[OF core2]]
  have keys: "key_columns d2 = key_columns d" "deps d3 = deps d"
    using t(2,3) em(1,2) same_but_progress_fields(1)[OF up(1)] by (simp_all add: key_columns_def)
  have mem: "n \<in> set (nodes d)" "node_id n = i" using find_live_Some[OF n(1)] by auto
  have "find_node i d3 = find_node i d2"
    using not_above_own_parent[OF core_ok_facts(1)[OF core] mem(1)] mem(2)
    by (intro up(3)) (auto simp: walks_to_cong[OF keys(1)])
  then have row3: "find_node i d3 = Some ?row" using t(1)[of i] em(3)[of i] by simp
  have status: "status ?row = dst" by (simp add: transition_clauses_def Let_def)
  have rolled3: "rolled_up d3 a" if "parent_id n \<noteq> []" "walks_to d (parent_id n) a" for a
    using up(2)[OF that(1)] that(2) by (simp add: walks_to_cong[OF keys(1)])
  have others3: "\<exists>m'. find_node j d3 = Some m' \<and> status m' = status m"
    if "j \<noteq> i" "find_node j d = Some m" for j m
  proof -
    have "find_node j d2 = Some m" using t(1)[of j] em(3)[of j] that by simp
    then show ?thesis by (rule progress_row[OF up(1)]) blast
  qed
  show ?thesis
  proof (cases "resolving_status dst")
    case True
    then have un: "unblock_dependents e i d3 = Inr d'" using changed(7) by simp
    note rel = unblock_dependents_rows[OF un core3]
    let ?g = "release e d3 (cycle_neighbors (deps d3) i)"
    have ok: "node_ok ?row" using core_ok_facts(5)[OF core3] find_node_Some[OF row3] by blast
    have "?g ?row = ?row"
      using True status by (intro release_status(1)[OF ok]) (auto simp: resolving_status_def)
    then have "find_node i d' = Some ?row" using rel(2)[of i] row3 by simp
    moreover have "rolled_up d' a" if "parent_id n \<noteq> []" "walks_to d (parent_id n) a" for a
      using rolled_up_release[OF rel(1) core3] rolled3[OF that] by simp
    moreover have "\<exists>m'. find_node j d' = Some m' \<and> (status m' = status m
               \<or> resolving_status dst \<and> (i, j) \<in> blocks_edges (deps d)
                 \<and> status m = StatusBlocked \<and> status m' \<in> {StatusOpen, StatusInProgress})"
      if j: "j \<noteq> i" "find_node j d = Some m" for j m
    proof -
      obtain m3 where m3: "find_node j d3 = Some m3" "status m3 = status m" using others3[OF j] by blast
      have "node_ok m3" "node_id m3 = j" using core_ok_facts(5)[OF core3] find_node_Some[OF m3(1)] by auto
      then show ?thesis
        using rel(2)[of j] m3 True release_status(2)[of m3 e d3 "cycle_neighbors (deps d3) i"]
        by (auto simp: release_def cycle_neighbors_edges keys split: if_splits)
    qed
    ultimately show ?thesis by blast
  next
    case False
    then show ?thesis using changed(7) row3 rolled3 others3 by auto
  qed
qed (use n in simp)


definition store_example :: db where
  "store_example = empty_db\<lparr>nodes := [row ''P-1'' [] StatusOpen, row ''P-1.1'' ''P-1'' StatusInProgress]\<rparr>"

text \<open>A small clock value: its decimal text is short.\<close>

definition epoch_env :: env where
  "epoch_env = example_env\<lparr>now := 7\<rparr>"

lemma no_deps_core_ok: "deps d = [] \<Longrightarrow> tree_ok d \<Longrightarrow> log_ok d \<Longrightarrow> list_all node_ok (nodes d) \<Longrightarrow> core_ok d"
  by (simp add: core_ok_def blocks_edges_code wf_acyclic)

lemma store_example_ok: "core_ok store_example"
  by (rule no_deps_core_ok) code_simp+

lemma result_cases: "\<not> isl x \<Longrightarrow> \<exists>d. x = Inr d"
  by (cases x) auto


section \<open>When a transition is refused\<close>

lemma unblock_error:
  assumes "unblock_dependents e i d = Inl err"
  shows "err \<in> {ErrSyncQueueFull, ErrInvalidInput, ErrStorage}"
proof -
  have one: "err \<in> {ErrSyncQueueFull, ErrInvalidInput, ErrStorage}"
    if "auto_unblock_node e k q = Inl err" for k q
    using that by (auto simp: auto_unblock_node_def restore_unblocked_node_def emit_for_def Let_def
        split: option.splits if_splits dest: emit_event_error)
  have "fold_result (auto_unblock_node e) ks q = Inl err \<Longrightarrow> err \<in> {ErrSyncQueueFull, ErrInvalidInput, ErrStorage}"
    for ks q
    by (induction ks arbitrary: q) (auto simp: bind_result_Inl dest: one)
  with assms show ?thesis by (auto simp: unblock_dependents_def)
qed

lemma emit_for_error:
  "emit_for e i op a pl d = Inl err \<Longrightarrow> err \<in> {ErrSyncQueueFull, ErrInvalidInput, ErrStorage}"
  unfolding emit_for_def by (rule emit_event_error)

lemma execute_transition_error:
  assumes "execute_transition e i dst reason author d = Inl err" "core_ok d" "find_live i d = Some n"
  shows "status n \<noteq> dst \<and> (validate_transition (status n) dst = Inl ErrInvalidTransition \<and> err = ErrInvalidTransition
    \<or> validate_transition (status n) dst = Inr () \<and> err \<in> {ErrSyncQueueFull, ErrInvalidInput, ErrStorage})"
proof (cases "validate_transition (status n) dst")
  case (Inl err')
  then show ?thesis
    using assms validate_transition_error[OF Inl] by (auto simp: execute_transition_def split: if_splits)
next
  case (Inr u)
  have ne: "status n \<noteq> dst" using assms(1,3) by (auto simp: execute_transition_def)
  obtain d1 where d1: "apply_transition_update e i (status n) dst reason author d = Inr d1"
    using activity_returns[of i "update_live i (transition_clauses e (status n) dst) d"] assms(2,3)
    by (fastforce simp: apply_transition_update_def find_live_find_node core_ok_facts(2) node_updates
        row_simps transition_clauses_def Let_def live_def split: option.splits if_splits)
  have core1: "core_ok d1"
    using step_ok_transition_update[OF assms(3) _ ne d1] Inr assms(2) by (auto dest: step_ok_core)
  from assms(1,3) ne Inr d1 consider
      "emit_for e i OpTransitionStatus author (TransitionStatusPayload (status n) dst reason) d1 = Inl err"
    | d2 where "emit_for e i OpTransitionStatus author (TransitionStatusPayload (status n) dst reason) d1 = Inr d2"
        "recalculate_parent (parent_id n) d2 = Inl err"
    | d3 where "unblock_dependents e i d3 = Inl err"
    by (auto simp: execute_transition_def bind_result_Inl split: if_splits)
  then have "err \<in> {ErrSyncQueueFull, ErrInvalidInput, ErrStorage}"
  proof cases
    case 1
    then show ?thesis by (rule emit_for_error)
  next
    case (2 d2)
    then have "tree_ok d2" using step_ok_emit_for[OF 2(1)] core1 step_ok_core core_ok_facts(1) by blast
    with 2(2) recalculate_parent_returns[of d2 "parent_id n"] show ?thesis by auto
  next
    case 3
    then show ?thesis by (rule unblock_error)
  qed
  with ne Inr show ?thesis by simp
qed

text \<open>
  C38. The outcomes of a transition request. An unknown or deleted node is not found; a request for
  the status the node already has is a no-op that writes no row, no event and no clock; a pair
  outside the table is refused; and an allowed transition can only fail because its sync event
  cannot be recorded (a full queue, a value the event check refuses, a storage error).
\<close>
theorem transition_status_outcomes:
  assumes "core_ok d"
  shows "(find_live i d = None \<longrightarrow> transition_status e i dst reason author d = Inl ErrNotFound)
       \<and> (\<forall>n. find_live i d = Some n \<longrightarrow>
            (if status n = dst then \<exists>d'. transition_status e i dst reason author d = Inr d' \<and> same_tables d d'
             else if validate_transition (status n) dst \<noteq> Inr ()
             then transition_status e i dst reason author d = Inl ErrInvalidTransition
             else \<forall>err. transition_status e i dst reason author d = Inl err \<longrightarrow>
                    err \<in> {ErrSyncQueueFull, ErrInvalidInput, ErrStorage}))"
proof -
  let ?body = "execute_transition e i dst reason author"
  have outcome: "(\<exists>err d0. transition_status e i dst reason author d = Inl err \<and> same_tables d d0 \<and> ?body d0 = Inl err)
      \<or> (\<exists>d' d0 d1. transition_status e i dst reason author d = Inr d' \<and> same_tables d d0
            \<and> ?body d0 = Inr d1 \<and> same_tables d1 d')"
  proof (cases "transition_status e i dst reason author d")
    case (Inl err)
    from Inl[unfolded transition_status_def] show ?thesis
      by (rule with_history_error) (use Inl in blast)
  next
    case (Inr d')
    from Inr[unfolded transition_status_def] show ?thesis
      by (rule with_history_ok) (use Inr in blast)
  qed
  have rows: "find_live i d0 = find_live i d" "core_ok d0" if "same_tables d d0" for d0
    using same_tables_find[OF that] step_ok_core[OF step_ok_tables[OF that] assms] by simp_all
  show ?thesis
  proof (intro conjI impI allI)
    assume "find_live i d = None"
    then have "?body d0 = Inl ErrNotFound" if "same_tables d d0" for d0
      using rows(1)[OF that] by (simp add: execute_transition_def)
    then show "transition_status e i dst reason author d = Inl ErrNotFound"
      using outcome by (elim disjE exE conjE) simp_all
  next
    fix n assume n: "find_live i d = Some n"
    have err: "status n \<noteq> dst \<and> (validate_transition (status n) dst = Inl ErrInvalidTransition \<and> err = ErrInvalidTransition
        \<or> validate_transition (status n) dst = Inr () \<and> err \<in> {ErrSyncQueueFull, ErrInvalidInput, ErrStorage})"
      if "same_tables d d0" "?body d0 = Inl err" for d0 err
      using execute_transition_error[OF that(2) rows(2)[OF that(1)]] rows(1)[OF that(1)] n by simp
    have ok: "status n = dst \<and> d1 = d0 \<or> status n \<noteq> dst \<and> validate_transition (status n) dst = Inr ()"
      if "same_tables d d0" "?body d0 = Inr d1" for d0 d1
      using that(2) rows(1)[OF that(1)] n by (auto elim!: execute_transition_stages)
    show "if status n = dst then \<exists>d'. transition_status e i dst reason author d = Inr d' \<and> same_tables d d'
             else if validate_transition (status n) dst \<noteq> Inr ()
             then transition_status e i dst reason author d = Inl ErrInvalidTransition
             else \<forall>err. transition_status e i dst reason author d = Inl err \<longrightarrow>
                    err \<in> {ErrSyncQueueFull, ErrInvalidInput, ErrStorage}"
      using outcome
    proof (elim disjE exE conjE)
      fix err d0 assume run: "transition_status e i dst reason author d = Inl err" "same_tables d d0" "?body d0 = Inl err"
      then show ?thesis using err[OF run(2,3)] by auto
    next
      fix d' d0 d1 assume run: "transition_status e i dst reason author d = Inr d'" "same_tables d d0"
        "?body d0 = Inr d1" "same_tables d1 d'"
      then show ?thesis using ok[OF run(2,3)] same_tables_trans by auto
    qed
  qed
qed

theorem transition_status_outcomes_witness:
  "transition_status epoch_env ''P-9'' StatusDone [] [] store_example = Inl ErrNotFound
   \<and> transition_status epoch_env ''P-1'' StatusDone [] [] store_example = Inl ErrInvalidTransition"
proof -
  have "find_live ''P-9'' store_example = None"
    "find_live ''P-1'' store_example = Some (row ''P-1'' [] StatusOpen)" by code_simp+
  then show ?thesis
    using transition_status_outcomes[OF store_example_ok, of "''P-9''" epoch_env StatusDone "[]" "[]"]
      transition_status_outcomes[OF store_example_ok, of "''P-1''" epoch_env StatusDone "[]" "[]"]
    by (simp add: row_def validate_transition_def)
qed

section \<open>Claims\<close>

definition claimed :: "env \<Rightarrow> string \<Rightarrow> node \<Rightarrow> node" where
  "claimed e a n = n\<lparr>status := StatusInProgress, assignee := Some a, agent_state := Some AgentStateWorking,
     updated_at := now_second e, defer_until := None,
     activity := activity n @ [activity_now e ActivityTypeClaim a (''Claimed by '' @ a) NoMeta]\<rparr>"

lemma agent_fields:
  "nodes (ensure_and_sync_agent e a i d) = nodes d" "find_node j (ensure_and_sync_agent e a i d) = find_node j d"
  by (simp_all add: ensure_and_sync_agent_def Let_def find_node_def)

lemma agent_works:
  assumes "find_node i d = Some n"
  shows "\<exists>g \<in> set (agents (ensure_and_sync_agent e a i d)). agent_id g = a
           \<and> current_node_id g = Some i \<and> agent_status g = AgentStateWorking"
proof -
  define fresh where "fresh = (if list_ex (\<lambda>g. agent_id g = a) (agents d) then []
     else [\<lparr>agent_id = a, agent_project = Some (project n), agent_status = AgentStateIdle,
            state_changed_at = now_second e, current_node_id = None, last_heartbeat = Some (now_second e)\<rparr>])"
  have "\<exists>g \<in> set (agents d @ fresh). agent_id g = a" by (auto simp: fresh_def list_ex_iff)
  then obtain g where g: "g \<in> set (agents d @ fresh)" "agent_id g = a" by blast
  define h where "h g = (if agent_id g = a then g\<lparr>current_node_id := Some i,
     agent_status := AgentStateWorking, state_changed_at := now_second e\<rparr> else g)" for g :: agent
  have "agents (ensure_and_sync_agent e a i d) = map h (agents d @ fresh)"
    by (simp add: ensure_and_sync_agent_def Let_def assms fresh_def h_def)
  then have "h g \<in> set (agents (ensure_and_sync_agent e a i d))" using g(1) by auto
  then show ?thesis using g(2) by (intro bexI[of _ "h g"]) (simp_all add: h_def)
qed

lemma claim_node_rows:
  assumes run: "claim_node_tx e i a d = Inr d'" and core: "core_ok d" and n: "find_live i d = Some n"
  shows "find_node j d' = (if j = i then Some (claimed e a n) else find_node j d)"
    "\<exists>g \<in> set (agents d'). agent_id g = a \<and> current_node_id g = Some i \<and> agent_status g = AgentStateWorking"
    "validate_claim_status e i d = Inr ()" "key_columns d' = key_columns d"
    "\<exists>ev. events d' = events d @ [ev] \<and> ev_op ev = OpClaim \<and> ev_node ev = i"
proof -
  let ?f = "\<lambda>n :: node. n\<lparr>status := StatusInProgress, assignee := Some a,
     agent_state := Some AgentStateWorking, updated_at := now_second e, defer_until := None\<rparr>"
  let ?act = "activity_now e ActivityTypeClaim a (''Claimed by '' @ a) NoMeta"
  let ?u = "ensure_and_sync_agent e a i (update_live i ?f d)"
  from run obtain d3 where v: "validate_claim_status e i d = Inr ()"
    and d3: "append_activity_entry i ?act ?u = Inr d3"
    and d': "emit_for e i OpClaim a (ClaimPayload a False) d3 = Inr d'"
    by (auto simp: claim_node_tx_def Let_def bind_result_Inr)
  from v n have st: "status n = StatusOpen \<or> status n = StatusDeferred"
    by (auto simp: validate_claim_status_ok)
  have key: "keeps_key ?f" "keeps_key (\<lambda>n. n\<lparr>activity := activity n @ [?act]\<rparr>)"
    by (simp_all add: keeps_key_def)
  have "step_ok d (update_live i ?f d)"
    by (rule step_ok_update_live[OF n]) (use st in \<open>auto simp: node_ok_def keeps_key_def\<close>)
  also have "step_ok (update_live i ?f d) ?u" by (rule step_ok_ensure_agent)
  also (step_ok_trans) have "step_ok ?u d3" using d3 by (rule step_ok_activity)
  finally (step_ok_trans) have "log_ok d3" using core by (rule log_ok_step)
  note em = emit_for_fields[OF d' this]
  have row: "find_node i d = Some n" "live n" "node_id n = i"
    using find_live_Some[OF n] find_live_find_node[OF core_ok_facts(2)[OF core], of i] n
    by (auto split: option.splits if_splits)
  have d3': "d3 = update_node_row i (\<lambda>n. n\<lparr>activity := activity n @ [?act]\<rparr>) ?u"
    using d3 by (rule activity_rows)
  have "find_node j d' = map_option (\<lambda>m. if node_id m = i then m\<lparr>activity := activity m @ [?act]\<rparr> else m)
      (map_option (\<lambda>m. if node_id m = i \<and> live m then ?f m else m) (find_node j d))"
    unfolding em(3) d3' node_updates find_node_update_where[OF key(2)] agent_fields
      find_node_update_where[OF key(1)] ..
  moreover have "node_id m \<noteq> i" if "find_node j d = Some m" "j \<noteq> i" for m
    using find_node_Some[OF that(1)] that(2) by blast
  ultimately show "find_node j d' = (if j = i then Some (claimed e a n) else find_node j d)"
    using row by (cases "j = i"; cases "find_node j d") (simp_all add: claimed_def)
  have "find_node i (update_live i ?f d) = Some (?f n)" using row by (simp add: node_updates row_simps key)
  note works = agent_works[OF this, of e a]
  have "same_content d3 d'"
    using emit_event_log[OF d'[unfolded emit_for_def] \<open>log_ok d3\<close>] by blast
  then have "agents d' = agents d3" by (simp add: same_content_def)
  also have "\<dots> = agents ?u" unfolding d3' node_updates by (rule update_where_fields)
  finally have "agents d' = agents ?u" .
  with works show "\<exists>g \<in> set (agents d'). agent_id g = a \<and> current_node_id g = Some i
      \<and> agent_status g = AgentStateWorking"
    by (simp only:)
  show "validate_claim_status e i d = Inr ()" by (rule v)
  have "events ?u = events d" "key_columns ?u = key_columns d"
    by (simp_all add: ensure_and_sync_agent_def Let_def key_columns_def node_updates update_where_def)
  then have d3_fields: "events d3 = events d" "key_columns d3 = key_columns d"
    unfolding d3' update_node_row_def update_where_fields key_columns_update_where[OF key(2)] .
  then show "\<exists>ev. events d' = events d @ [ev] \<and> ev_op ev = OpClaim \<and> ev_node ev = i"
    using emit_event_log[OF d'[unfolded emit_for_def] \<open>log_ok d3\<close>] by auto
  show "key_columns d' = key_columns d" using d3_fields(2) em(1) by (simp add: key_columns_def)
qed

lemma claim_refused:
  assumes "find_live i d = Some n" "validate_claim_status e i d = Inl err"
  shows "claim_node e i a d = Inl err"
proof -
  have refused: "claim_node_tx e i a d0 = Inl err" if "same_tables d d0" for d0
    using assms same_tables_find(2)[OF that] by (simp add: claim_node_tx_def validate_claim_status_def)
  show ?thesis
  proof (cases "claim_node e i a d")
    case (Inl err')
    from Inl[unfolded claim_node_def] show ?thesis
      by (rule with_history_error) (use Inl refused in auto)
  next
    case (Inr d')
    from Inr[unfolded claim_node_def] show ?thesis
      by (rule with_history_ok) (use refused in auto)
  qed
qed

lemma claim_node_laws:
  assumes "core_ok d" "find_live i d = Some n" "claim_node e i a d = Inr d'"
  shows "find_node j d' = (if j = i then Some (claimed e a n) else find_node j d)"
    "\<exists>g \<in> set (agents d'). agent_id g = a \<and> current_node_id g = Some i \<and> agent_status g = AgentStateWorking"
    "validate_claim_status e i d = Inr ()"
proof -
  have "(find_node j d' = (if j = i then Some (claimed e a n) else find_node j d))
    \<and> (\<exists>g \<in> set (agents d'). agent_id g = a \<and> current_node_id g = Some i \<and> agent_status g = AgentStateWorking)
    \<and> validate_claim_status e i d = Inr ()"
    using assms(3)[unfolded claim_node_def]
  proof (rule with_history_ok)
    fix d0 d1 assume same: "same_tables d d0" and run: "claim_node_tx e i a d0 = Inr d1" and last: "same_tables d1 d'"
    have core0: "core_ok d0" using step_ok_tables[OF same] assms(1) by (rule step_ok_core)
    have n0: "find_live i d0 = Some n" using same_tables_find[OF same] assms(2) by simp
    have "validate_claim_status e i d0 = validate_claim_status e i d"
      using same_tables_find(2)[OF same] by (simp add: validate_claim_status_def)
    then show ?thesis
      using claim_node_rows[OF run core0 n0] same_tables_find[OF same] same_tables_find[OF last]
        same_tables_fields(3)[OF last]
      by simp
  qed
  then show "find_node j d' = (if j = i then Some (claimed e a n) else find_node j d)"
    "\<exists>g \<in> set (agents d'). agent_id g = a \<and> current_node_id g = Some i \<and> agent_status g = AgentStateWorking"
    "validate_claim_status e i d = Inr ()"
    by blast+
qed

text \<open>
  C34. A claim is a compare-and-swap. It is refused with the reason the row's status gives (already
  claimed, blocked, still deferred, not claimable), and a claim that succeeds found the row open
  or deferred with its wake time passed; then exactly that row changes, to in progress under
  the claiming agent with no wake time, the agent is registered as working on it, and whoever
  claims it next, at any time and as any agent, is told it is already claimed.
\<close>
theorem claim_node_exclusive:
  assumes "core_ok d" and "find_live i d = Some n"
  shows "(status n = StatusInProgress \<longrightarrow> claim_node e i a d = Inl ErrAlreadyClaimed)
       \<and> (status n = StatusBlocked \<longrightarrow> claim_node e i a d = Inl ErrNodeBlocked)
       \<and> (status_is_terminal (status n) \<longrightarrow> claim_node e i a d = Inl ErrInvalidTransition)
       \<and> (\<forall>t. status n = StatusDeferred \<and> defer_until n = Some t \<and> now e < t * 1000000000 \<longrightarrow>
            claim_node e i a d = Inl ErrStillDeferred)
       \<and> (\<forall>d'. claim_node e i a d = Inr d' \<longrightarrow>
            (status n = StatusOpen \<or> status n = StatusDeferred)
          \<and> (\<forall>j. find_node j d' = (if j = i then Some (claimed e a n) else find_node j d))
          \<and> (\<exists>g \<in> set (agents d'). agent_id g = a \<and> current_node_id g = Some i
               \<and> agent_status g = AgentStateWorking)
          \<and> (\<forall>e' b. claim_node e' i b d' = Inl ErrAlreadyClaimed))"
proof (intro conjI impI allI)
  note refused = claim_refused[OF assms(2)]
  show "status n = StatusInProgress \<Longrightarrow> claim_node e i a d = Inl ErrAlreadyClaimed"
    "status n = StatusBlocked \<Longrightarrow> claim_node e i a d = Inl ErrNodeBlocked"
    using refused assms(2) by (simp_all add: validate_claim_status_def)
  show "status_is_terminal (status n) \<Longrightarrow> claim_node e i a d = Inl ErrInvalidTransition"
    using refused assms(2) by (cases "status n") (simp_all add: validate_claim_status_def)
  show "claim_node e i a d = Inl ErrStillDeferred"
    if "status n = StatusDeferred \<and> defer_until n = Some t \<and> now e < t * 1000000000" for t
    using refused assms(2) that by (simp add: validate_claim_status_def check_defer_expired_def)
  fix d' assume run: "claim_node e i a d = Inr d'"
  note laws = claim_node_laws[OF assms run]
  show "status n = StatusOpen \<or> status n = StatusDeferred"
    using laws(3) assms(2) by (auto simp: validate_claim_status_ok)
  show "find_node j d' = (if j = i then Some (claimed e a n) else find_node j d)" for j by (rule laws(1))
  show "\<exists>g \<in> set (agents d'). agent_id g = a \<and> current_node_id g = Some i \<and> agent_status g = AgentStateWorking"
    by (rule laws(2))
  have core': "core_ok d'" using step_ok_claim_node[OF run] assms(1) by (rule step_ok_core)
  have "live (claimed e a n)" using find_live_Some[OF assms(2)] by (simp add: claimed_def live_def)
  then have "find_live i d' = Some (claimed e a n)"
    using laws(1)[of i] find_live_find_node[OF core_ok_facts(2)[OF core'], of i] by simp
  from claim_refused[OF this] this show "claim_node e' i b d' = Inl ErrAlreadyClaimed" for e' b
    by (simp add: validate_claim_status_def claimed_def)
qed

theorem claim_node_exclusive_witness:
  "\<exists>d'. claim_node epoch_env ''P-1'' ''alice'' store_example = Inr d'
      \<and> claim_node epoch_env ''P-1'' ''bob'' d' = Inl ErrAlreadyClaimed"
proof -
  have "\<not> isl (claim_node epoch_env ''P-1'' ''alice'' store_example)" by code_simp
  then obtain d' where d': "claim_node epoch_env ''P-1'' ''alice'' store_example = Inr d'"
    using result_cases by blast
  have "find_live ''P-1'' store_example = Some (row ''P-1'' [] StatusOpen)" by code_simp
  from claim_node_exclusive[OF store_example_ok this, of epoch_env "''alice''"] d' show ?thesis
    by simp
qed

end
