(* ===== verification/Cascades.thy ===== *)
theory Cascades
  imports Transitions
begin

text \<open>
  What a cascade cancel (\<open>internal/store/sqlite/cancel.go\<close>) does to the whole subtree: which rows
  it cancels, which dependents it releases, and that the deepest-first pass over
  \<open>cascadeProgressTargets\<close> leaves every ancestor of a cancelled node with its rollup although each
  node is recomputed once only.
\<close>

section \<open>The order of the pass\<close>

lemma dot_depth_descendant: "descendant_of a c \<Longrightarrow> dot_depth a < dot_depth c"
  by (auto simp: descendant_of_def has_prefix_iff dot_depth_def count_byte_simps)

interpretation depth_order: strict_total deeper_first
  by unfold_locales (auto simp: deeper_first_def split: if_splits)

lemma in_subtree_parent: "in_subtree anc (parse_id_parent p) \<Longrightarrow> anc \<noteq> [] \<Longrightarrow> in_subtree anc p"
  using child_descends[of "parse_id_parent p" p] descendant_trans[of anc "parse_id_parent p" p]
  by (cases "parse_id_parent p = []") (auto simp: in_subtree_iff descendant_of_def has_prefix_iff)

definition upward_closed :: "string \<Rightarrow> string list \<Rightarrow> bool" where
  "upward_closed anc ts \<longleftrightarrow>
     (\<forall>q \<in> set ts. in_subtree anc (parse_id_parent q) \<longrightarrow> parse_id_parent q \<in> set ts)"

lemma progress_targets_from_laws:
  "set ts \<subseteq> set (progress_targets_from anc p ts)
   \<and> (in_subtree anc p \<longrightarrow> p \<in> set (progress_targets_from anc p ts))
   \<and> (distinct ts \<longrightarrow> distinct (progress_targets_from anc p ts))
   \<and> ((\<forall>q \<in> set ts. in_subtree anc (parse_id_parent q) \<longrightarrow> parse_id_parent q \<in> set ts \<or> parse_id_parent q = p)
        \<longrightarrow> upward_closed anc (progress_targets_from anc p ts))"
proof (induction anc p ts rule: progress_targets_from.induct)
  case (1 anc p ts)
  show ?case
  proof (cases "in_subtree anc p \<and> p \<notin> set ts")
    case True
    then show ?thesis
      using 1[OF True] by (simp add: progress_targets_from.simps[of anc p ts]) blast
  next
    case False
    then show ?thesis
      by (auto simp: progress_targets_from.simps[of anc p ts] upward_closed_def)
  qed
qed

lemma cascade_targets_fold:
  assumes "distinct ts" "upward_closed anc ts"
  shows "distinct (fold (\<lambda>c ts. progress_targets_from anc (snd c) ts) cs ts)
    \<and> upward_closed anc (fold (\<lambda>c ts. progress_targets_from anc (snd c) ts) cs ts)
    \<and> set ts \<subseteq> set (fold (\<lambda>c ts. progress_targets_from anc (snd c) ts) cs ts)
    \<and> (\<forall>c \<in> set cs. in_subtree anc (snd c) \<longrightarrow>
         snd c \<in> set (fold (\<lambda>c ts. progress_targets_from anc (snd c) ts) cs ts))"
  using assms
proof (induction cs arbitrary: ts)
  case (Cons c cs)
  note one = progress_targets_from_laws[of ts anc "snd c"]
  let ?ts = "progress_targets_from anc (snd c) ts"
  have "distinct ?ts" "upward_closed anc ?ts" using one Cons.prems by (auto simp: upward_closed_def)
  from Cons.IH[OF this] one show ?case by auto
qed simp

lemma cascade_progress_targets_laws:
  "sorted_wrt deeper_first (cascade_progress_targets anc cs)"
  "upward_closed anc (cascade_progress_targets anc cs)"
  "c \<in> set cs \<Longrightarrow> in_subtree anc (snd c) \<Longrightarrow> snd c \<in> set (cascade_progress_targets anc cs)"
  using cascade_targets_fold[of "[]" anc cs]
  by (auto simp: cascade_progress_targets_def upward_closed_def intro: depth_order.sorted_sort)

text \<open>Every dotted ancestor within the subtree is a target.\<close>

lemma cascade_progress_targets_up:
  assumes "c \<in> set cs" "anc \<noteq> []" "in_subtree anc ((parse_id_parent ^^ k) (snd c))"
  shows "(parse_id_parent ^^ k) (snd c) \<in> set (cascade_progress_targets anc cs)"
  using assms(3)
proof (induction k)
  case 0
  then show ?case using cascade_progress_targets_laws(3)[OF assms(1)] by simp
next
  case (Suc k)
  then have "in_subtree anc ((parse_id_parent ^^ k) (snd c))"
    using in_subtree_parent[OF _ assms(2)] by simp
  with Suc show ?case
    using cascade_progress_targets_laws(2)[of anc cs] by (simp add: upward_closed_def)
qed

section \<open>The pass leaves every target rolled up\<close>

lemma rolled_up_cong:
  assumes "unique_ids d" "unique_ids d'" "key_columns d' = key_columns d" "find_node a d' = find_node a d"
    and "\<And>n. n \<in> set (nodes d) \<Longrightarrow> parent_id n = a \<Longrightarrow> find_node (node_id n) d' = Some n"
  shows "rolled_up d' a = rolled_up d a"
  using counted_children_cong[OF assms(1-3,5)] assms(4) by (simp add: rolled_up_def)

lemma rolled_up_recompute_other:
  assumes "tree_ok d" "u \<noteq> a" "\<And>n. n \<in> set (nodes d) \<Longrightarrow> node_id n = u \<Longrightarrow> parent_id n \<noteq> a"
  shows "rolled_up (recompute_node_progress u d) a = rolled_up d a"
proof (rule rolled_up_cong)
  let ?d1 = "recompute_node_progress u d"
  show "unique_ids d" "unique_ids ?d1" "key_columns ?d1 = key_columns d"
    using assms(1) same_but_progress_tree[of d ?d1] same_but_progress_keys[of d ?d1]
    by (auto intro: tree_ok_unique)
  have other: "node_id m \<noteq> u" if "find_node j d = Some m" "j \<noteq> u" for j m
    using find_node_Some[OF that(1)] that(2) by blast
  show "find_node a ?d1 = find_node a d"
    using other[of a] assms(2) by (cases "find_node a d") (simp_all add: find_node_recompute)
  fix n assume n: "n \<in> set (nodes d)" "parent_id n = a"
  then show "find_node (node_id n) ?d1 = Some n"
    using find_node_unique[OF tree_ok_unique[OF assms(1)] n(1)] assms(3)[OF n(1)]
    by (auto simp: find_node_recompute)
qed

lemma recomputes_frame:
  "tree_ok d \<Longrightarrow> tree_ok (fold recompute_node_progress us d) \<and> same_but_progress d (fold recompute_node_progress us d)
     \<and> (j \<notin> set us \<longrightarrow> find_node j (fold recompute_node_progress us d) = find_node j d)"
proof (induction us arbitrary: d)
  case (Cons u us)
  let ?d1 = "recompute_node_progress u d"
  have "tree_ok ?d1" using same_but_progress_tree[of d ?d1] Cons.prems by simp
  moreover have "find_node j ?d1 = find_node j d" if "j \<noteq> u"
    using that find_node_Some[of j d] by (cases "find_node j d") (auto simp: find_node_recompute)
  ultimately show ?case
    using Cons.IH[of ?d1] same_but_progress_trans[OF recompute_same_but_progress[of d u]] by auto
qed simp

lemma recomputes_keep:
  assumes "tree_ok d" "rolled_up d a" "\<forall>u \<in> set us. u \<noteq> a \<and> \<not> descendant_of a u" "a \<noteq> []"
  shows "rolled_up (fold recompute_node_progress us d) a"
  using assms
proof (induction us arbitrary: d)
  case (Cons u us)
  let ?d1 = "recompute_node_progress u d"
  have "parent_id n \<noteq> a" if "n \<in> set (nodes d)" "node_id n = u" for n
    using tree_ok_node[OF Cons.prems(1) that(1)] Cons.prems(3,4) that(2) by auto
  then have "rolled_up ?d1 a" using rolled_up_recompute_other[OF Cons.prems(1)] Cons.prems by auto
  moreover have "tree_ok ?d1" using same_but_progress_tree[of d ?d1] Cons.prems(1) by simp
  ultimately show ?case using Cons by simp
qed simp

lemma recomputes_roll_up:
  assumes "tree_ok d" "sorted_wrt deeper_first us" "a \<in> set us" "a \<noteq> []"
  shows "rolled_up (fold recompute_node_progress us d) a"
  using assms
proof (induction us arbitrary: d)
  case (Cons u us)
  let ?d1 = "recompute_node_progress u d"
  have ok: "tree_ok ?d1" using same_but_progress_tree[of d ?d1] Cons.prems(1) by simp
  show ?case
  proof (cases "a \<in> set us")
    case True
    then show ?thesis using Cons.IH[OF ok] Cons.prems by simp
  next
    case False
    then have a: "a = u" using Cons.prems(3) by simp
    have "v \<noteq> u \<and> \<not> descendant_of u v" if "v \<in> set us" for v
      using that Cons.prems(2) dot_depth_descendant[of u v] depth_order.irrefl
      by (auto simp: deeper_first_def split: if_splits)
    then show ?thesis
      using recomputes_keep[OF ok rolled_up_recompute[OF Cons.prems(1)]] a Cons.prems(4) by simp
  qed
qed simp

section \<open>Steps that only release blocked rows\<close>

definition row_released :: "node \<Rightarrow> node \<Rightarrow> bool" where
  "row_released n n' \<longleftrightarrow> node_id n' = node_id n \<and> parent_id n' = parent_id n \<and> live n' = live n
     \<and> progress n' = progress n \<and> weight n' = weight n \<and> closed_at n' = closed_at n
     \<and> defer_until n' = defer_until n
     \<and> (status n' = status n \<or> status n = StatusBlocked \<and> status n' \<in> {StatusOpen, StatusInProgress})"

definition only_releases :: "db \<Rightarrow> db \<Rightarrow> bool" where
  "only_releases d d' \<longleftrightarrow> (\<exists>g. nodes d' = map g (nodes d) \<and> (\<forall>n \<in> set (nodes d). row_released n (g n)))"

lemma row_released_refl [simp]: "row_released n n"
  by (simp add: row_released_def)

lemma row_released_trans: "row_released a b \<Longrightarrow> row_released b c \<Longrightarrow> row_released a c"
  by (auto simp: row_released_def)

lemma only_releases_refl: "only_releases d d"
  unfolding only_releases_def by (intro exI[of _ id]) simp

lemma only_releases_trans: "only_releases a b \<Longrightarrow> only_releases b c \<Longrightarrow> only_releases a c"
proof -
  assume "only_releases a b" "only_releases b c"
  then obtain g h where "nodes b = map g (nodes a)" "\<forall>n \<in> set (nodes a). row_released n (g n)"
    "nodes c = map h (nodes b)" "\<forall>n \<in> set (nodes b). row_released n (h n)"
    unfolding only_releases_def by blast
  then show "only_releases a c"
    unfolding only_releases_def
    by (intro exI[of _ "h \<circ> g"]) (auto intro: row_released_trans)
qed

lemma only_releases_row:
  assumes "only_releases d d'" "find_node j d = Some m"
  shows "\<exists>m'. find_node j d' = Some m' \<and> row_released m m'"
proof -
  from assms(1) obtain g where g: "nodes d' = map g (nodes d)" "\<forall>n \<in> set (nodes d). row_released n (g n)"
    by (auto simp: only_releases_def)
  then have "find_node j d' = map_option g (find_node j d)"
    unfolding find_node_def g(1) by (intro find_map_on) (auto simp: row_released_def)
  then show ?thesis using assms(2) g(2) find_node_Some[OF assms(2)] by auto
qed

lemma only_releases_keys: "only_releases d d' \<Longrightarrow> key_columns d' = key_columns d"
  by (auto simp: only_releases_def key_columns_def row_released_def)

lemma only_releases_rolled:
  assumes "only_releases d d'"
  shows "rolled_up d' a = rolled_up d a"
proof -
  from assms obtain g where g: "nodes d' = map g (nodes d)" "\<forall>n \<in> set (nodes d). row_released n (g n)"
    by (auto simp: only_releases_def)
  show ?thesis by (rule rolled_up_map[OF g(1)]) (use g(2) in \<open>force simp: row_released_def\<close>)
qed

lemma unblock_only_releases:
  assumes "unblock_dependents e i d = Inr d'" "core_ok d"
  shows "only_releases d d'" "core_ok d'"
proof -
  note rows = unblock_dependents_rows[OF assms]
  show "core_ok d'" by (rule rows(4))
  have "row_released n (release e d ks n)" if "n \<in> set (nodes d)" for n ks
    using release_status(2)[OF core_ok_facts(5)[OF assms(2) that], of e d ks]
    by (auto simp: row_released_def)
  with rows(1) show "only_releases d d'" unfolding only_releases_def by blast
qed

lemma unblocks_only_release:
  assumes "fold_result (unblock_dependents e) ks d = Inr d'" "core_ok d"
  shows "only_releases d d' \<and> core_ok d'"
  using assms
proof (induction ks arbitrary: d)
  case (Cons k ks)
  then obtain d1 where d1: "unblock_dependents e k d = Inr d1" "fold_result (unblock_dependents e) ks d1 = Inr d'"
    by (auto simp: bind_result_Inr)
  from Cons.IH[OF d1(2)] unblock_only_releases[OF d1(1) Cons.prems(2)] show ?case
    using only_releases_trans by blast
qed (simp add: only_releases_refl)

section \<open>The stages of a cascade cancel\<close>

definition cancelled_row :: "env \<Rightarrow> node \<Rightarrow> bool" where
  "cancelled_row e n \<longleftrightarrow> status n = StatusCancelled \<and> closed_at n = Some (now_second e) \<and> defer_until n = None"

lemma cancelled_row_released: "row_released n n' \<Longrightarrow> cancelled_row e n \<Longrightarrow> cancelled_row e n'"
  by (auto simp: row_released_def cancelled_row_def)

lemma cancel_update_rows:
  assumes "apply_cancel_update e i src reason author d = Inr d1" "find_live i d = Some n" "unique_ids d"
  shows "\<exists>n'. find_node i d1 = Some n' \<and> cancelled_row e n'" "j \<noteq> i \<Longrightarrow> find_node j d1 = find_node j d"
    "key_columns d1 = key_columns d" "deps d1 = deps d"
proof -
  let ?f = "\<lambda>n :: node. n\<lparr>status := StatusCancelled, closed_at := Some (now_second e),
      updated_at := now_second e, defer_until := None\<rparr>"
  let ?a = "activity_now e ActivityTypeStatusChange author reason (StatusMeta src StatusCancelled)"
  have d1: "d1 = update_node_row i (\<lambda>n. n\<lparr>activity := activity n @ [?a]\<rparr>) (update_live i ?f d)"
    using assms(1) unfolding apply_cancel_update_def by (rule activity_rows)
  have key: "keeps_key (\<lambda>n. n\<lparr>activity := activity n @ [?a]\<rparr>)" "keeps_key ?f" by (simp_all add: keeps_key_def)
  show "key_columns d1 = key_columns d" "deps d1 = deps d"
    by (simp_all add: d1 node_updates row_simps key)
  have row: "find_node j d1 = map_option (\<lambda>m. if node_id m = i then m\<lparr>activity := activity m @ [?a]\<rparr> else m)
      (map_option (\<lambda>m. if node_id m = i \<and> live m then ?f m else m) (find_node j d))" for j
    unfolding d1 node_updates find_node_update_where[OF key(1)] find_node_update_where[OF key(2)] ..
  have n: "find_node i d = Some n" "live n" "node_id n = i"
    using assms(2,3) find_live_Some[OF assms(2)] find_live_find_node[OF assms(3), of i]
    by (auto split: option.splits if_splits)
  then show "\<exists>n'. find_node i d1 = Some n' \<and> cancelled_row e n'"
    unfolding row[of i] by (simp add: cancelled_row_def)
  have other: "node_id m \<noteq> i" if "find_node j d = Some m" "j \<noteq> i" for m
    using find_node_Some[OF that(1)] that(2) by blast
  show "j \<noteq> i \<Longrightarrow> find_node j d1 = find_node j d"
    using other unfolding row[of j] by (cases "find_node j d") simp_all
qed

lemma cancel_descendants_keys: "cancel_descendants e anc d = (cs, d') \<Longrightarrow> key_columns d' = key_columns d"
  by (auto simp: cancel_descendants_def row_simps)

lemma cancel_descendants_rows:
  assumes "cancel_descendants e anc d = (cs, d')" "find_node j d = Some m"
  shows "\<exists>m'. find_node j d' = Some m' \<and> (if cascades_to anc m then cancelled_row e m' else m' = m)"
    "cascades_to anc m \<Longrightarrow> (j, parent_id m) \<in> set cs"
proof -
  have d': "d' = update_where (cascades_to anc) (\<lambda>n. n\<lparr>status := StatusCancelled,
      closed_at := Some (now_second e), updated_at := now_second e, defer_until := None\<rparr>) d"
    and cs: "cs = map (\<lambda>n. (node_id n, parent_id n)) (filter (cascades_to anc) (nodes d))"
    using assms(1) by (simp_all add: cancel_descendants_def)
  show "\<exists>m'. find_node j d' = Some m' \<and> (if cascades_to anc m then cancelled_row e m' else m' = m)"
    using assms(2) by (simp add: d' row_simps cancelled_row_def)
  have "m \<in> set (nodes d)" "node_id m = j" using find_node_Some[OF assms(2)] by auto
  then show "cascades_to anc m \<Longrightarrow> (j, parent_id m) \<in> set cs" by (auto simp: cs)
qed

lemma progress_row_fields:
  assumes "same_but_progress d d'" "find_node j d = Some m"
  shows "\<exists>m'. find_node j d' = Some m' \<and> status m' = status m \<and> closed_at m' = closed_at m
      \<and> defer_until m' = defer_until m"
proof -
  from same_but_progress_node[OF assms(1), of j] assms(2) obtain m' where
    m': "find_node j d' = Some m'" "m'\<lparr>progress := 0\<rparr> = m\<lparr>progress := 0\<rparr>" by auto
  have "status m' = status m" using arg_cong[OF m'(2), of status] by simp
  moreover have "closed_at m' = closed_at m" using arg_cong[OF m'(2), of closed_at] by simp
  moreover have "defer_until m' = defer_until m" using arg_cong[OF m'(2), of defer_until] by simp
  ultimately show ?thesis using m'(1) by simp
qed

text \<open>What the stages after the subtree update do to one row.\<close>

lemma cancel_tail_row:
  assumes rel1: "only_releases d0 d3" and prog: "same_but_progress d3 d5" and rel2: "only_releases d5 d'"
    and m: "find_node j d0 = Some m"
  shows "\<exists>m'. find_node j d' = Some m' \<and> (cancelled_row e m \<longrightarrow> cancelled_row e m')
      \<and> (status m' = status m \<and> closed_at m' = closed_at m
         \<or> status m = StatusBlocked \<and> status m' \<in> {StatusOpen, StatusInProgress})"
proof -
  obtain m3 where m3: "find_node j d3 = Some m3" "row_released m m3"
    using only_releases_row[OF rel1 m] by blast
  obtain m5 where m5: "find_node j d5 = Some m5" "status m5 = status m3" "closed_at m5 = closed_at m3"
    "defer_until m5 = defer_until m3"
    using progress_row_fields[OF prog m3(1)] by blast
  obtain m' where m': "find_node j d' = Some m'" "row_released m5 m'"
    using only_releases_row[OF rel2 m5(1)] by blast
  show ?thesis
    using m' m3(2) m5(2-4) by (intro exI[of _ m']) (auto simp: row_released_def cancelled_row_def)
qed

lemma recalculate_above_keeps:
  assumes run: "recalculate_parent p d = Inr d'" and ok: "tree_ok d" and above: "p = [] \<or> descendant_of p anc"
    and a: "in_subtree anc a"
  shows "rolled_up d' a = rolled_up d a"
proof -
  note up = recalculate_parent_rows[OF run ok]
  have ok': "tree_ok d'" using same_but_progress_tree[OF up(1)] ok by simp
  have same: "find_node j d' = find_node j d" if "in_subtree anc j" for j
  proof (rule up(3))
    show "p = [] \<or> \<not> walks_to d p j"
      using above that descendant_longer[of p anc] descendant_longer[of anc j] walks_to_length[of d p j] ok
      by (auto simp: in_subtree_iff)
  qed
  show ?thesis
  proof (rule rolled_up_cong[OF tree_ok_unique[OF ok] tree_ok_unique[OF ok'] same_but_progress_keys[OF up(1)] same[OF a]])
    fix n assume n: "n \<in> set (nodes d)" "parent_id n = a"
    have "node_id n = a \<or> a = [] \<or> descendant_of a (node_id n)" using tree_ok_node[OF ok n(1)] n(2) by auto
    then have "in_subtree anc (node_id n) \<or> a = []"
      using a descendant_trans[of anc a "node_id n"] by (auto simp: in_subtree_iff)
    moreover have "p = []" if "a = []"
      using that a above by (auto simp: in_subtree_iff descendant_of_def has_prefix_iff)
    ultimately have "find_node (node_id n) d' = find_node (node_id n) d"
      using same up(3)[of "node_id n"] by blast
    then show "find_node (node_id n) d' = Some n" using find_node_unique[OF tree_ok_unique[OF ok] n(1)] by simp
  qed
qed

lemma execute_cancel_rows:
  assumes core: "core_ok d" and n: "find_live i d = Some n"
    and run: "execute_cancel e i reason author True d = Inr d'"
  shows "(\<exists>n'. find_node i d' = Some n' \<and> cancelled_row e n')
    \<and> (\<forall>j m. j \<noteq> i \<and> find_node j d = Some m \<longrightarrow> (\<exists>m'. find_node j d' = Some m'
         \<and> (if cascades_to i m then cancelled_row e m'
            else status m' = status m \<and> closed_at m' = closed_at m
              \<or> status m = StatusBlocked \<and> status m' \<in> {StatusOpen, StatusInProgress})))
    \<and> (\<forall>j m k. find_node j d = Some m \<and> cascades_to i m \<and> in_subtree i ((parse_id_parent ^^ k) (parent_id m)) \<longrightarrow>
         rolled_up d' ((parse_id_parent ^^ k) (parent_id m)))
    \<and> (\<forall>a. parent_id n \<noteq> [] \<and> walks_to d (parent_id n) a \<longrightarrow> rolled_up d' a)"
  using run
proof (cases rule: execute_cancel_stages)
  case (1 n' d1 d2 d4 d5)
  have n': "n' = n" using 1(1) n by simp
  from 1(5) obtain cs d3 where cc: "cascade_cancel e i d2 = Inr (cs, d3)"
    and d4: "d4 = recompute_cascade_progress i cs d3" by auto
  from cascade_cancel_stages[OF cc] obtain dx where dx: "cancel_descendants e i d2 = (cs, dx)"
    "fold_result (unblock_dependents e) (map fst cs) dx = Inr d3" by blast
  have core1: "core_ok d1" using step_ok_cancel_update[OF 1(1-3)] core by (rule step_ok_core)
  have core2: "core_ok d2" using step_ok_emit_for[OF 1(4)] core1 by (rule step_ok_core)
  have corex: "core_ok dx" using step_ok_cancel_descendants[OF dx(1)] core2 by (rule step_ok_core)
  note rel1 = unblocks_only_release[OF dx(2) corex]
  have core4: "core_ok d4"
    using step_ok_recomputes rel1 step_ok_core unfolding d4 recompute_cascade_progress_def by blast
  have core5: "core_ok d5" using step_ok_recalculate_parent[OF 1(6)] core4 by (rule step_ok_core)
  note rel2 = unblock_only_releases[OF 1(7) core5]
  note r1 = cancel_update_rows[OF 1(3,1) core_ok_facts(2)[OF core]]
  note em = emit_for_fields[OF 1(4) core_ok_facts(3)[OF core1]]
  note frame = recomputes_frame[OF core_ok_facts(1)[OF rel1[THEN conjunct2]],
      of "cascade_progress_targets i cs", folded recompute_cascade_progress_def d4]
  note up = recalculate_parent_rows[OF 1(6) core_ok_facts(1)[OF core4]]
  have prog: "same_but_progress d3 d5" using frame up(1) same_but_progress_trans by blast
  have keys: "key_columns d4 = key_columns d"
    using same_but_progress_keys[of d3 d4] frame only_releases_keys[OF conjunct1[OF rel1]] r1(3)
      key_columns_same_nodes[OF em(1)] cancel_descendants_keys[OF dx(1)] by simp
  have i: "n \<in> set (nodes d)" "node_id n = i" using find_live_Some[OF n] by auto
  have above: "i \<noteq> []" "parent_id n = [] \<or> descendant_of (parent_id n) i"
    using tree_ok_node[OF core_ok_facts(1)[OF core] i(1)] i(2) by auto
  note descend = cancel_descendants_rows[OF dx(1)]
  note tail = cancel_tail_row[OF conjunct1[OF rel1] prog rel2(1)]
  have "\<exists>n'. find_node i d' = Some n' \<and> cancelled_row e n'"
  proof -
    obtain n2 where n2: "find_node i d2 = Some n2" "cancelled_row e n2" using r1(1) em(3) by auto
    then have "\<not> cascades_to i n2" by (simp add: cascades_to_def cancelled_row_def)
    with descend(1)[OF n2(1)] n2 have "find_node i dx = Some n2" by simp
    from tail[OF this, of e] n2(2) show ?thesis by blast
  qed
  moreover have "\<exists>m'. find_node j d' = Some m' \<and> (if cascades_to i m then cancelled_row e m'
            else status m' = status m \<and> closed_at m' = closed_at m
              \<or> status m = StatusBlocked \<and> status m' \<in> {StatusOpen, StatusInProgress})"
    if j: "j \<noteq> i" "find_node j d = Some m" for j m
  proof -
    have "find_node j d2 = Some m" using r1(2)[OF j(1)] em(3)[of j] j(2) by simp
    from descend(1)[OF this] obtain mx where mx: "find_node j dx = Some mx"
      "if cascades_to i m then cancelled_row e mx else mx = m" by blast
    from tail[OF mx(1), of e] mx(2) show ?thesis by (cases "cascades_to i m") auto
  qed
  moreover have "rolled_up d' ((parse_id_parent ^^ k) (parent_id m))"
    if m: "find_node j d = Some m" "cascades_to i m" "in_subtree i ((parse_id_parent ^^ k) (parent_id m))" for j m k
  proof -
    let ?a = "(parse_id_parent ^^ k) (parent_id m)"
    have "j \<noteq> i" using m(2) find_node_Some[OF m(1)] by (auto simp: cascades_to_def dest: descendant_longer)
    then have "find_node j d2 = Some m" using r1(2) em(3)[of j] m(1) by simp
    then have c: "(j, parent_id m) \<in> set cs" using descend(2) m(2) by blast
    have "?a \<in> set (cascade_progress_targets i cs)"
      using cascade_progress_targets_up[OF c above(1), of k] m(3) by simp
    moreover have "?a \<noteq> []"
      using m(3) above(1) by (auto simp: in_subtree_iff descendant_of_def has_prefix_iff)
    ultimately have "rolled_up d4 ?a"
      using recomputes_roll_up[OF core_ok_facts(1)[OF conjunct2[OF rel1]] cascade_progress_targets_laws(1)]
      unfolding d4 recompute_cascade_progress_def by blast
    then have "rolled_up d5 ?a"
      using recalculate_above_keeps[OF 1(6) core_ok_facts(1)[OF core4], of i ?a] above(2) m(3) n' by simp
    then show ?thesis using only_releases_rolled[OF rel2(1)] by simp
  qed
  moreover have "rolled_up d' a" if "parent_id n \<noteq> []" "walks_to d (parent_id n) a" for a
    using up(2)[of a] that walks_to_cong[OF keys] only_releases_rolled[OF rel2(1)] n' by simp
  ultimately show ?thesis by blast
qed



end
