(* ===== verification/Deferral.thy ===== *)
theory Deferral
  imports Transitions
begin

text \<open>
  What the deferral and the restore paths promise (\<open>internal/store/sqlite/defer.go\<close>,
  \<open>claim.go\<close>, \<open>transition_guarded.go\<close>): a wake time holds a node back from claims and from the
  wake pass until it has passed, and an invalidated node returns to the status it came from when
  that status is one it can be restored to.
\<close>

lemma execute_transition_row:
  assumes "core_ok d" "find_live i d = Some n" "status n \<noteq> dst"
    and "execute_transition e i dst reason author d = Inr d'"
  shows "\<exists>n'. find_live i d' = Some n' \<and> n' = (transition_clauses e (status n) dst n)\<lparr>activity := activity n @
           [activity_now e ActivityTypeStatusChange author reason (StatusMeta (status n) dst)]\<rparr>"
proof -
  have core': "core_ok d'" using step_ok_execute_transition[OF assms(4)] assms(1) by (rule step_ok_core)
  have "live ((transition_clauses e (status n) dst n)\<lparr>activity := a\<rparr>)" for a
    using find_live_Some[OF assms(2)] by (simp add: transition_clauses_def Let_def live_def)
  then show ?thesis
    using execute_transition_rows[OF assms] find_live_find_node[OF core_ok_facts(2)[OF core'], of i] by simp
qed

text \<open>The status row operations leave: shape of a transaction under the history recorder.\<close>

lemma with_history_transfer:
  assumes "with_history e sc body d = Inr d'" "core_ok d"
  obtains d0 d1 where "core_ok d0" "body d0 = Inr d1"
    "\<And>j. find_live j d0 = find_live j d" "\<And>j. find_live j d' = find_live j d1" "nodes d0 = nodes d"
  using assms(1)
proof (rule with_history_ok)
  fix d0 d1 assume same: "same_tables d d0" "body d0 = Inr d1" "same_tables d1 d'"
  have "core_ok d0" using step_ok_tables[OF same(1)] assms(2) by (rule step_ok_core)
  then show ?thesis
    using that same(2) same_tables_find(2)[OF same(1)] same_tables_find(2)[OF same(3)]
      same_tables_fields(1)[OF same(1)] by blast
qed

lemma find_live_update_live:
  assumes "unique_ids d" "find_live i d = Some n" "keeps_key f" "live (f n)"
  shows "find_live i (update_live i f d) = Some (f n)"
proof -
  have "find_node i d = Some n" "live n" "node_id n = i"
    using assms(1,2) find_live_Some[OF assms(2)] find_live_find_node[OF assms(1), of i]
    by (auto split: option.splits if_splits)
  then have "find_node i (update_live i f d) = Some (f n)"
    using assms(3) by (simp add: node_updates row_simps)
  moreover have "unique_ids (update_live i f d)" using assms(1,3) by (simp add: node_updates row_simps)
  ultimately show ?thesis using assms(4) by (simp add: find_live_find_node)
qed

lemma defer_node_row:
  assumes "core_ok d" "find_live i d = Some n" "status n \<noteq> StatusDeferred"
    and "defer_node e i (Some t) reason author d = Inr d1"
  shows "\<exists>n1. find_live i d1 = Some n1 \<and> status n1 = StatusDeferred \<and> defer_until n1 = Some (unix_second t)"
proof -
  from assms(4) have "with_history e (local_scope i author)
      (execute_defer e i (Some (unix_second t)) reason author) d = Inr d1"
    by (simp add: defer_node_def split: if_splits)
  then show ?thesis
    using assms(1)
  proof (rule with_history_transfer)
    fix q0 q1 assume q: "core_ok q0" "execute_defer e i (Some (unix_second t)) reason author q0 = Inr q1"
      "\<And>j. find_live j q0 = find_live j d" "\<And>j. find_live j d1 = find_live j q1"
    have n0: "find_live i q0 = Some n" using q(3) assms(2) by simp
    from q(2) n0 assms(3) obtain qa where
      qa: "execute_transition e i StatusDeferred reason author q0 = Inr qa"
        "q1 = update_live i (\<lambda>n. n\<lparr>defer_until := Some (unix_second t)\<rparr>) qa"
      by (auto simp: execute_defer_def bind_result_Inr)
    obtain na where na: "find_live i qa = Some na" "status na = StatusDeferred"
      using execute_transition_row[OF q(1) n0 assms(3) qa(1)]
      by (auto simp: transition_clauses_def Let_def)
    have "core_ok qa" using step_ok_execute_transition[OF qa(1)] q(1) by (rule step_ok_core)
    moreover have "live na" using find_live_Some[OF na(1)] by simp
    ultimately have "find_live i q1 = Some (na\<lparr>defer_until := Some (unix_second t)\<rparr>)"
      unfolding qa(2) by (intro find_live_update_live[OF core_ok_facts(2) na(1)])
        (simp_all add: keeps_key_def live_def)
    then show ?thesis using q(4) na(2) by simp
  qed
qed

lemma wake_due_iff:
  assumes "unique_ids d" "find_live i d = Some n" "status n = StatusDeferred" "defer_until n = Some u"
  shows "wake_due i t d \<longleftrightarrow> u \<le> unix_second t"
proof -
  have n: "n \<in> set (nodes d)" "node_id n = i" "live n" using find_live_Some[OF assms(2)] by auto
  note uniq = live_row_unique[OF assms(1,2)]
  show ?thesis
  proof
    assume "wake_due i t d"
    then obtain m where "m \<in> set (nodes d)" "node_id m = i"
        "case defer_until m of None \<Rightarrow> False | Some u \<Rightarrow> u \<le> unix_second t"
      unfolding wake_due_def list_ex_iff by blast
    then show "u \<le> unix_second t" using uniq[of m] assms(4) by simp
  next
    assume "u \<le> unix_second t"
    then show "wake_due i t d"
      unfolding wake_due_def list_ex_iff by (intro bexI[OF _ n(1)]) (simp add: n assms(3,4))
  qed
qed

lemma with_history_returns: "(\<And>d0. same_tables d d0 \<Longrightarrow> body d0 = Inr d0) \<Longrightarrow>
   \<exists>d'. with_history e sc body d = Inr d' \<and> same_tables d d'"
proof (cases "with_history e sc body d")
  case (Inl err)
  assume body: "\<And>d0. same_tables d d0 \<Longrightarrow> body d0 = Inr d0"
  from Inl show ?thesis by (rule with_history_error) (use body in auto)
next
  case (Inr d')
  assume body: "\<And>d0. same_tables d d0 \<Longrightarrow> body d0 = Inr d0"
  from Inr show ?thesis
    by (rule with_history_ok) (use body Inr in \<open>auto intro: same_tables_trans\<close>)
qed

lemma wake_row:
  assumes "core_ok d" "find_live i d = Some n" "status n = StatusDeferred" "defer_until n = Some u"
  shows "unix_second t < u \<Longrightarrow> \<exists>d'. wake_deferred_node e i t d = Inr d' \<and> same_tables d d'"
    and "u \<le> unix_second t \<Longrightarrow> wake_deferred_node e i t d = Inr d' \<Longrightarrow>
      \<exists>n'. find_live i d' = Some n' \<and> status n' = StatusOpen \<and> defer_until n' = None"
proof -
  have due: "wake_due i t d0 \<longleftrightarrow> u \<le> unix_second t" if "nodes d0 = nodes d" for d0
    using wake_due_iff[OF core_ok_facts(2)[OF assms(1)] assms(2-4), of t] that by (simp add: wake_due_def)
  show "\<exists>d'. wake_deferred_node e i t d = Inr d' \<and> same_tables d d'" if "unix_second t < u"
    unfolding wake_deferred_node_def
    by (rule with_history_returns) (use due same_tables_fields(1) that in auto)
  assume late: "u \<le> unix_second t" and "wake_deferred_node e i t d = Inr d'"
  from this(2)[unfolded wake_deferred_node_def] assms(1)
  show "\<exists>n'. find_live i d' = Some n' \<and> status n' = StatusOpen \<and> defer_until n' = None"
  proof (rule with_history_transfer)
    fix q0 q1 assume q: "core_ok q0" "nodes q0 = nodes d"
      "(if \<not> wake_due i t q0 then Inr q0
        else execute_transition e i StatusOpen ''Auto-reopened: defer_until has passed'' ''system'' q0) = Inr q1"
      "\<And>j. find_live j q0 = find_live j d" "\<And>j. find_live j d' = find_live j q1"
    have "execute_transition e i StatusOpen ''Auto-reopened: defer_until has passed'' ''system'' q0 = Inr q1"
      using q(3) due[OF q(2)] late by simp
    from execute_transition_row[OF q(1) _ _ this, of n] q(4,5) assms(2,3)
    show ?thesis by (auto simp: transition_clauses_def Let_def)
  qed
qed

text \<open>
  A deferral holds. A node deferred until a time is deferred with that wake time (in whole
  seconds); before it, every claim by any agent is refused as still deferred and the wake pass
  changes no table; once the second of the wake time is reached, a wake reopens the node and
  clears its wake time.
\<close>
theorem defer_holds_until_wake:
  assumes "core_ok d" and "find_live i d = Some n" and "status n \<noteq> StatusDeferred"
    and "defer_node e i (Some t) reason author d = Inr d1"
  shows "(\<exists>n1. find_live i d1 = Some n1 \<and> status n1 = StatusDeferred \<and> defer_until n1 = Some (unix_second t))
       \<and> (\<forall>e' a. now e' < unix_second t * 1000000000 \<longrightarrow> claim_node e' i a d1 = Inl ErrStillDeferred)
       \<and> (\<forall>e' t'. unix_second t' < unix_second t \<longrightarrow>
            (\<exists>d2. wake_deferred_node e' i t' d1 = Inr d2 \<and> same_tables d1 d2))
       \<and> (\<forall>e' t' d2. unix_second t \<le> unix_second t' \<and> wake_deferred_node e' i t' d1 = Inr d2 \<longrightarrow>
            (\<exists>n2. find_live i d2 = Some n2 \<and> status n2 = StatusOpen \<and> defer_until n2 = None))"
proof -
  obtain n1 where n1: "find_live i d1 = Some n1" "status n1 = StatusDeferred"
      "defer_until n1 = Some (unix_second t)"
    using defer_node_row[OF assms] by blast
  have core1: "core_ok d1" using step_ok_defer_node[OF assms(4)] assms(1) by (rule step_ok_core)
  show ?thesis
    using n1 claim_refused[OF n1(1)] wake_row[OF core1 n1]
    by (auto simp: validate_claim_status_def check_defer_expired_def)
qed

theorem defer_holds_until_wake_witness:
  "\<exists>d1. defer_node epoch_env ''P-1'' (Some 5000000000) [] [] store_example = Inr d1
      \<and> claim_node epoch_env ''P-1'' ''bob'' d1 = Inl ErrStillDeferred"
proof -
  have "\<not> isl (defer_node epoch_env ''P-1'' (Some 5000000000) [] [] store_example)" by code_simp
  then obtain d1 where d1: "defer_node epoch_env ''P-1'' (Some 5000000000) [] [] store_example = Inr d1"
    using result_cases by blast
  have "find_live ''P-1'' store_example = Some (row ''P-1'' [] StatusOpen)" by code_simp
  from defer_holds_until_wake[OF store_example_ok this _ d1] d1 show ?thesis
    by (simp add: row_def unix_second_def epoch_env_def)
qed

section \<open>Restoring an invalidated node\<close>

lemma restore_invalidated_row:
  assumes "core_ok d" "find_live i d = Some n" "status n = StatusInvalidated"
    and "restore_invalidated e i author d = Inr d'"
  shows "\<exists>n'. find_live i d' = Some n' \<and> status n' = restore_to n
    \<and> closed_at n' = (if restore_to n = StatusCancelled then Some (now_second e) else closed_at n)"
  using assms(4)[unfolded restore_invalidated_def] assms(1)
proof (rule with_history_transfer)
  fix q0 q1 assume q: "core_ok q0"
    "(case find_live i q0 of None \<Rightarrow> Inl ErrNotFound
      | Some n \<Rightarrow> if status n \<noteq> StatusInvalidated then Inl ErrInvalidTransition
                 else execute_transition e i (restore_to n) ''restored from invalidated'' author q0) = Inr q1"
    "\<And>j. find_live j q0 = find_live j d" "\<And>j. find_live j d' = find_live j q1"
  have n0: "find_live i q0 = Some n" using q(3) assms(2) by simp
  have run: "execute_transition e i (restore_to n) ''restored from invalidated'' author q0 = Inr q1"
    using q(2) n0 assms(3) by simp
  show ?thesis
  proof (cases "restore_to n = StatusInvalidated")
    case True
    then have "q1 = q0" using run n0 assms(3) by (simp add: execute_transition_def)
    then show ?thesis using q(4) n0 True assms(3) by simp
  next
    case False
    have "restore_to n \<noteq> StatusDone"
      by (auto simp: restore_to_def validate_transition_def split: option.splits if_splits)
    with execute_transition_row[OF q(1) n0 _ run] False assms(3) q(4)
    show ?thesis by (auto simp: transition_clauses_def Let_def)
  qed
qed

lemma invalidated_row:
  assumes "core_ok d" "find_live i d = Some n" "status n \<noteq> StatusInvalidated"
    and "transition_status e i StatusInvalidated reason author d = Inr d'"
  shows "\<exists>n'. find_live i d' = Some n' \<and> status n' = StatusInvalidated
    \<and> previous_status n' = Some (status n) \<and> closed_at n' = closed_at n"
  using assms(4)[unfolded transition_status_def] assms(1)
proof (rule with_history_transfer)
  fix q0 q1 assume q: "core_ok q0" "execute_transition e i StatusInvalidated reason author q0 = Inr q1"
    "\<And>j. find_live j q0 = find_live j d" "\<And>j. find_live j d' = find_live j q1"
  from execute_transition_row[OF q(1) _ _ q(2), of n] q(3,4) assms(2,3)
  show ?thesis by (auto simp: transition_clauses_def Let_def)
qed


definition invalidate_example :: db where
  "invalidate_example = empty_db\<lparr>nodes := [(row ''P-1'' [] StatusDone)\<lparr>closed_at := Some 1\<rparr>]\<rparr>"


end
