(* ===== verification/Creation.thy ===== *)
theory Creation
  imports Transitions
begin

text \<open>
  Creating nodes: the sequence counters (\<open>internal/store/sqlite/sequence_allocate.go\<close>,
  \<open>sequence_advance.go\<close>), the allocation of ids (\<open>node_allocate.go\<close>), the creation
  transactions (\<open>node_create.go\<close>) and the way the service builds the new node
  (\<open>internal/service/node_service.go\<close>). The uid a node is born with, a UUIDv7 minted before the
  transaction, is an argument. The id of the created activity entry uses the clock of the
  transaction. The columns the model's node does not carry are not modelled.
\<close>

section \<open>Sequence counters\<close>

definition max_sequence :: int where "max_sequence = 2147483647"

text \<open>
  The numbers the ids of a namespace hold: the ids that start with it (\<open>idRange\<close> selects exactly
  these), whose rest is all digits and at most the maximum.
\<close>

definition taken_numbers :: "string \<Rightarrow> db \<Rightarrow> int list" where
  "taken_numbers ns d =
     map (\<lambda>n. int (digits_val (drop (length ns) (node_id n))))
       (filter (\<lambda>n. has_prefix (node_id n) ns
                  \<and> all_digits (drop (length ns) (node_id n)) \<and> drop (length ns) (node_id n) \<noteq> []
                  \<and> int (digits_val (drop (length ns) (node_id n))) \<le> max_sequence) (nodes d))"

definition set_counter :: "string \<Rightarrow> int \<Rightarrow> db \<Rightarrow> db" where
  "set_counter key v d = d\<lparr>sequences := AList.update key v (sequences d)\<rparr>"

text \<open>\<open>skipSQL\<close>: the counter moves past the highest taken number, or not at all.\<close>

definition skip_taken :: "string \<Rightarrow> string \<Rightarrow> db \<Rightarrow> (int \<times> db) result" where
  "skip_taken ns key d =
     (let n = foldr max (taken_numbers ns d) 0
      in if n \<ge> max_sequence then Inl ErrInvalidInput
         else case map_of (sequences d) key of
                None \<Rightarrow> Inr (n + 1, set_counter key (n + 1) d)
              | Some v \<Rightarrow> if max v n < max_sequence
                          then Inr (max v n + 1, set_counter key (max v n + 1) d)
                          else Inl ErrInvalidInput)"

definition skip_taken_sequence :: "string \<Rightarrow> int \<Rightarrow> db \<Rightarrow> (int \<times> db) result" where
  "skip_taken_sequence key v d =
     (let (proj, parent, found) = cut CHR '':'' key
      in if find_node (build_id proj parent v) d = None then Inr (v, d)
         else skip_taken (if parent \<noteq> [] then parent @ ''.'' else proj @ ''-'') key d)"

definition next_sequence :: "string \<Rightarrow> db \<Rightarrow> (int \<times> db) result" where
  "next_sequence key d =
     (case map_of (sequences d) key of
        None \<Rightarrow> skip_taken_sequence key 1 (set_counter key 1 d)
      | Some v \<Rightarrow> if v < max_sequence
                  then skip_taken_sequence key (v + 1) (set_counter key (v + 1) d)
                  else Inl ErrInvalidInput)"

section \<open>Allocation\<close>

record create_options =
  opt_assignee :: string
  opt_provisional :: bool
  opt_claim_parent :: bool

definition initial_claim_assignee :: "node \<Rightarrow> create_options \<Rightarrow> db \<Rightarrow> string" where
  "initial_claim_assignee n opts d =
     (if \<not> opt_claim_parent opts \<or> opt_assignee opts \<noteq> [] \<or> parent_id n = [] then opt_assignee opts
      else case find (\<lambda>p. node_id p = parent_id n \<and> status p = StatusInProgress) (nodes d) of
             None \<Rightarrow> []
           | Some p \<Rightarrow> (case assignee p of None \<Rightarrow> [] | Some a \<Rightarrow> a))"

definition allocate_node_id ::
  "(string \<Rightarrow> string option) \<Rightarrow> node \<Rightarrow> bool \<Rightarrow> db \<Rightarrow> (node \<times> db) result" where
  "allocate_node_id uuid_parse n provisional d =
     bind_result (next_sequence (sequence_key (project n) (parent_id n)) d) (\<lambda>(s, d1).
     bind_result (if provisional then build_provisional_id uuid_parse (parent_id n) (uid n)
                  else Inr (build_id (project n) (parent_id n) s)) (\<lambda>i.
     Inr (n\<lparr>seq := s, node_id := i\<rparr>, d1)))"

section \<open>Insertion\<close>

definition validate_parent_status :: "string \<Rightarrow> db \<Rightarrow> unit result" where
  "validate_parent_status p d =
     (case find_live p d of
        None \<Rightarrow> Inl ErrNotFound
      | Some n \<Rightarrow> if status_is_terminal (status n) then Inl ErrInvalidInput else Inr ())"

definition created_activity :: "env \<Rightarrow> node \<Rightarrow> activity_entry" where
  "created_activity e n = activity_now e ActivityTypeCreated (creator n) ''Node created'' NoMeta"

text \<open>
  \<open>insertNode\<close>: the primary key and the unique index over non-empty uids, the foreign key of the
  parent, and the activity stream with its first entry.
\<close>

definition insert_node :: "env \<Rightarrow> node \<Rightarrow> transaction" where
  "insert_node e n d =
     (if find_node (node_id n) d \<noteq> None \<or> uid n \<noteq> [] \<and> list_ex (\<lambda>m. uid m = uid n) (nodes d)
      then Inl ErrAlreadyExists
      else if parent_id n \<noteq> [] \<and> parent_id n \<noteq> node_id n \<and> find_node (parent_id n) d = None
      then Inl ErrStorage
      else Inr (d\<lparr>nodes := nodes d @ [n\<lparr>activity := [created_activity e n]\<rparr>]\<rparr>))"

definition build_create_payload :: "node \<Rightarrow> payload" where
  "build_create_payload n = CreateNodePayload
     \<lparr>cp_title = title n, cp_parent_id = parent_id n, cp_node_type = node_kind n,
      cp_issue_type = issue_kind n, cp_description = description n, cp_prompt = prompt n,
      cp_acceptance = acceptance n, cp_priority = priority n, cp_labels = labels n,
      cp_assignee = assignee n, cp_creator = creator n\<rparr>"

definition insert_and_claim_node :: "env \<Rightarrow> node \<Rightarrow> string \<Rightarrow> transaction" where
  "insert_and_claim_node e n a d =
     bind_result (if parent_id n \<noteq> [] then validate_parent_status (parent_id n) d else Inr ()) (\<lambda>_.
     bind_result (insert_node e n d) (\<lambda>d1.
     bind_result (emit_event e \<lparr>ep_node = node_id n, ep_project = project n, ep_op = OpCreateNode,
                    ep_author = creator n, ep_payload = build_create_payload n, ep_event_id = uid n\<rparr> d1) (\<lambda>d2.
     bind_result (recalculate_parent (parent_id n) d2) (\<lambda>d3.
     if a \<noteq> [] then claim_node_tx e (node_id n) a d3 else Inr d3))))"

definition create_node_tx :: "env \<Rightarrow> node \<Rightarrow> string \<Rightarrow> transaction" where
  "create_node_tx e n a d =
     bind_result (insert_and_claim_node e n a d) (\<lambda>d1.
     Inr (record_history e (local_scope (node_id n) (creator n)) empty_tracker d1))"

definition create_node_allocated_tx ::
  "env \<Rightarrow> (string \<Rightarrow> string option) \<Rightarrow> node \<Rightarrow> create_options \<Rightarrow> transaction" where
  "create_node_allocated_tx e uuid_parse n opts d =
     bind_result (if parent_id n \<noteq> [] then validate_parent_status (parent_id n) d else Inr ()) (\<lambda>_.
     let a = initial_claim_assignee n opts d
     in bind_result (allocate_node_id uuid_parse n (opt_provisional opts) d) (\<lambda>(n1, d1).
        create_node_tx e n1 a d1))"

definition ensure_create_node_uid :: "string \<Rightarrow> node \<Rightarrow> node" where
  "ensure_create_node_uid minted n = (if uid n = [] then n\<lparr>uid := minted\<rparr> else n)"

section \<open>The operations\<close>

text \<open>\<open>CreateNode\<close> and \<open>CreateNodeAndClaim\<close> take the id from the caller.\<close>

definition create_node :: "env \<Rightarrow> string \<Rightarrow> node \<Rightarrow> string \<Rightarrow> transaction" where
  "create_node e minted n a d =
     bind_result (validate_node n) (\<lambda>_. create_node_tx e (ensure_create_node_uid minted n) a d)"

definition create_node_and_claim :: "env \<Rightarrow> string \<Rightarrow> node \<Rightarrow> string \<Rightarrow> transaction" where
  "create_node_and_claim e minted n a d =
     (if a = [] \<or> status n \<noteq> StatusOpen \<or> assignee n \<noteq> None then Inl ErrInvalidInput
      else create_node e minted n a d)"

definition claim_needs_open :: "node \<Rightarrow> create_options \<Rightarrow> bool" where
  "claim_needs_open n opts \<longleftrightarrow>
     (opt_assignee opts \<noteq> [] \<or> opt_claim_parent opts) \<and> (status n \<noteq> StatusOpen \<or> assignee n \<noteq> None)"

definition create_node_allocated ::
  "env \<Rightarrow> (string \<Rightarrow> string option) \<Rightarrow> string \<Rightarrow> node \<Rightarrow> create_options \<Rightarrow> transaction" where
  "create_node_allocated e uuid_parse minted n opts d =
     bind_result (validate_node n) (\<lambda>_.
     if claim_needs_open n opts then Inl ErrInvalidInput
     else create_node_allocated_tx e uuid_parse (ensure_create_node_uid minted n) opts d)"

definition check_batch_node :: "create_options \<Rightarrow> node \<Rightarrow> unit result" where
  "check_batch_node opts n =
     bind_result (validate_node n) (\<lambda>_. if claim_needs_open n opts then Inl ErrInvalidInput else Inr ())"

text \<open>The uids of a batch are all minted before the transaction.\<close>

definition create_nodes_allocated ::
  "env \<Rightarrow> (string \<Rightarrow> string option) \<Rightarrow> string list \<Rightarrow> node list \<Rightarrow> create_options \<Rightarrow> transaction" where
  "create_nodes_allocated e uuid_parse minted ns opts d =
     (if ns = [] then Inl ErrInvalidInput
      else bind_result (fold_result (\<lambda>n _. check_batch_node opts n) ns ()) (\<lambda>_.
           fold_result (\<lambda>n. create_node_allocated_tx e uuid_parse n opts)
             (map (\<lambda>(n, u). ensure_create_node_uid u n) (zip ns minted)) d))"

section \<open>The service\<close>

record create_request =
  cr_project :: string
  cr_parent :: string
  cr_title :: string
  cr_issue_type :: issue_type
  cr_description :: string
  cr_prompt :: string
  cr_acceptance :: string
  cr_labels :: "string list"
  cr_priority :: int
  cr_creator :: string
  cr_assignee :: string
  cr_defer_until :: "int option"

text \<open>\<open>buildNode\<close>: the defaults of a new node under its parent.\<close>

definition build_node :: "env \<Rightarrow> string \<Rightarrow> create_request \<Rightarrow> db \<Rightarrow> node result" where
  "build_node e minted req d =
     bind_result
       (if cr_parent req = [] then Inr 0
        else case find_live (cr_parent req) d of
               None \<Rightarrow> Inl ErrNotFound
             | Some p \<Rightarrow> bind_result (validate_prefix (parse_id_project (node_id p))) (\<lambda>_. Inr (depth p + 1)))
       (\<lambda>dp. Inr \<lparr>node_id = [], parent_id = cr_parent req, project = cr_project req, depth = dp,
          seq = 0, uid = minted, title = cr_title req, description = cr_description req,
          prompt = cr_prompt req, acceptance = cr_acceptance req, node_kind = node_type_for_depth dp,
          issue_kind = cr_issue_type req, priority = (if cr_priority req = 0 then 3 else cr_priority req),
          labels = cr_labels req, status = StatusOpen, progress = 0, previous_status = None,
          assignee = None, creator = cr_creator req, agent_state = None, created_at = now_second e,
          updated_at = now_second e, closed_at = None, defer_until = cr_defer_until req, weight = 1,
          activity = [], annotations = [], deleted_at = None, deleted_by = None\<rparr>)"

text \<open>\<open>validateAgentID\<close> is a check of the assignee's Unicode text; it is an argument.\<close>

definition validate_create_request :: "(string \<Rightarrow> unit result) \<Rightarrow> create_request \<Rightarrow> unit result" where
  "validate_create_request validate_agent_id req =
     bind_result (validate_agent_id (cr_assignee req)) (\<lambda>_.
     bind_result (validate_issue_type (cr_issue_type req)) (\<lambda>_.
     if cr_title req = [] then Inl ErrInvalidInput
     else if length (cr_title req) > max_title_length then Inl ErrInvalidInput
     else if length (cr_description req) > max_description_size then Inl ErrInvalidInput
     else if length (cr_prompt req) > max_prompt_size then Inl ErrInvalidInput
     else validate_prefix (cr_project req)))"

definition service_create_node ::
  "env \<Rightarrow> (string \<Rightarrow> string option) \<Rightarrow> (string \<Rightarrow> unit result) \<Rightarrow> bool \<Rightarrow> bool \<Rightarrow> string \<Rightarrow> create_request \<Rightarrow>
   transaction" where
  "service_create_node e uuid_parse validate_agent_id auto_claim hub_away minted req d =
     bind_result (validate_create_request validate_agent_id req) (\<lambda>_.
     bind_result (build_node e minted req d) (\<lambda>n.
     create_node_allocated e uuid_parse minted n
       \<lparr>opt_assignee = cr_assignee req, opt_provisional = (parent_id n \<noteq> [] \<and> hub_away),
        opt_claim_parent = auto_claim\<rparr> d))"

section \<open>Allocated numbers are fresh\<close>

lemma foldr_max_ge: "x \<in> set xs \<Longrightarrow> (x :: int) \<le> foldr max xs 0"
  by (induction xs) auto

lemma foldr_max_nonneg: "0 \<le> foldr max xs (0 :: int)"
  by (induction xs) auto

lemma dec_int_nonneg: "0 \<le> n \<Longrightarrow> dec_int n = dec_nat (nat n)"
  by (simp add: dec_int_def)

lemma taken_number:
  assumes "find_node (ns @ dec_int n) d = Some x" "0 \<le> n" "n \<le> max_sequence"
  shows "n \<in> set (taken_numbers ns d)"
proof -
  have x: "x \<in> set (nodes d)" "node_id x = ns @ dec_nat (nat n)"
    using find_node_Some[OF assms(1)] assms(2) by (simp_all add: dec_int_nonneg)
  then have "drop (length ns) (node_id x) = dec_nat (nat n)" "has_prefix (node_id x) ns"
    by (auto simp: has_prefix_iff)
  with x(1) assms(2,3) show ?thesis
    unfolding taken_numbers_def set_map set_filter
    by (intro image_eqI[of _ _ x]) (simp_all add: dec_nat_digits digits_val_dec_nat del: drop_eq_Nil)
qed

lemma skip_taken_ok:
  assumes "skip_taken ns key d = Inr (s, d')" "\<And>v. map_of (sequences d) key = Some v \<Longrightarrow> 0 \<le> v"
  shows "0 < s \<and> s \<le> max_sequence \<and> s \<notin> set (taken_numbers ns d) \<and> d' = set_counter key s d
       \<and> (\<forall>v. map_of (sequences d) key = Some v \<longrightarrow> v < s)"
proof -
  define top where "top = foldr max (taken_numbers ns d) 0"
  have top: "0 \<le> top" "\<And>k. k \<in> set (taken_numbers ns d) \<Longrightarrow> k \<le> top"
    by (simp_all add: top_def foldr_max_nonneg foldr_max_ge)
  have "s > top \<and> s \<le> max_sequence \<and> d' = set_counter key s d
      \<and> (\<forall>v. map_of (sequences d) key = Some v \<longrightarrow> v < s)"
    using assms(1) by (auto simp: skip_taken_def Let_def top_def[symmetric] split: if_splits option.splits)
  then show ?thesis using top by fastforce
qed

lemma set_counter_fields [row_simps]:
  "nodes (set_counter key v d) = nodes d" "find_node i (set_counter key v d) = find_node i d"
  "deps (set_counter key v d) = deps d" "events (set_counter key v d) = events d"
  "taken_numbers ns (set_counter key v d) = taken_numbers ns d"
  "set_counter key w (set_counter key v d) = set_counter key w d"
  "map_of (sequences (set_counter key v d)) k = (if k = key then Some v else map_of (sequences d) k)"
  by (simp_all add: set_counter_def find_node_def taken_numbers_def update_conv)

lemma namespace_id:
  "build_id proj par n = (if par \<noteq> [] then par @ ''.'' else proj @ ''-'') @ dec_int n"
  by (simp add: build_id_def)

lemma next_sequence_laws:
  assumes "next_sequence (sequence_key proj par) d = Inr (s, d')" "CHR '':'' \<notin> set proj"
    and "\<And>v. map_of (sequences d) (sequence_key proj par) = Some v \<Longrightarrow> 0 \<le> v"
  shows "0 < s \<and> s \<le> max_sequence \<and> find_node (build_id proj par s) d = None
       \<and> d' = set_counter (sequence_key proj par) s d
       \<and> (\<forall>v. map_of (sequences d) (sequence_key proj par) = Some v \<longrightarrow> v < s)"
proof -
  let ?key = "sequence_key proj par"
  define v where "v = (case map_of (sequences d) ?key of None \<Rightarrow> 1 | Some v \<Rightarrow> v + 1)"
  have v: "0 < v" "v \<le> max_sequence" "\<And>u. map_of (sequences d) ?key = Some u \<Longrightarrow> u < v"
    and skip: "skip_taken_sequence ?key v (set_counter ?key v d) = Inr (s, d')"
    using assms(1,3) by (auto simp: next_sequence_def v_def max_sequence_def split: option.splits if_splits)
  have cut: "cut CHR '':'' ?key = (proj, par, True)"
    using assms(2) by (simp add: sequence_key_def cut_append)
  show ?thesis
  proof (cases "find_node (build_id proj par v) d")
    case None
    then show ?thesis using skip v cut by (auto simp: skip_taken_sequence_def row_simps)
  next
    case (Some x)
    let ?ns = "if par \<noteq> [] then par @ ''.'' else proj @ ''-''"
    have "skip_taken ?ns ?key (set_counter ?key v d) = Inr (s, d')"
      using skip cut Some by (simp add: skip_taken_sequence_def row_simps)
    from skip_taken_ok[OF this] v(1) have s: "0 < s" "s \<le> max_sequence" "s \<notin> set (taken_numbers ?ns d)"
      "d' = set_counter ?key s d" "v < s"
      by (auto simp: row_simps)
    then have "find_node (build_id proj par s) d = None"
      unfolding namespace_id using taken_number[of ?ns s d] by (cases "find_node (?ns @ dec_int s) d") auto
    with s v show ?thesis by fastforce
  qed
qed

text \<open>
  C12. An allocated number is free. The number a create takes from the counter of its namespace is
  positive, at most the int32 maximum and above everything the counter handed out before; no
  node, live or deleted, holds the id it names, however far the counter had fallen behind the
  ids; and only that counter changes, to the number. So two allocations never give one id.
\<close>
theorem next_sequence_fresh:
  assumes "next_sequence (sequence_key proj par) d = Inr (s, d1)" and "CHR '':'' \<notin> set proj"
    and "\<forall>v. map_of (sequences d) (sequence_key proj par) = Some v \<longrightarrow> 0 \<le> v"
  shows "0 < s \<and> s \<le> max_sequence \<and> find_node (build_id proj par s) d = None
       \<and> (\<forall>v. map_of (sequences d) (sequence_key proj par) = Some v \<longrightarrow> v < s)
       \<and> nodes d1 = nodes d
       \<and> (\<forall>k. map_of (sequences d1) k = (if k = sequence_key proj par then Some s else map_of (sequences d) k))
       \<and> (\<forall>t d2. next_sequence (sequence_key proj par) d1 = Inr (t, d2) \<longrightarrow>
            build_id proj par t \<noteq> build_id proj par s)"
proof -
  note first = next_sequence_laws[OF assms(1,2)]
  have "build_id proj par t \<noteq> build_id proj par s"
    if "next_sequence (sequence_key proj par) d1 = Inr (t, d2)" for t d2
  proof -
    have "s < t" "0 < s"
      using next_sequence_laws[OF that assms(2)] first assms(3) by (auto simp: row_simps)
    then show ?thesis by (simp add: build_id_def dec_int_nonneg dec_nat_inject)
  qed
  with first assms(3) show ?thesis by (auto simp: row_simps)
qed

definition behind_example :: db where
  "behind_example = empty_db\<lparr>nodes := [row ''P-1'' [] StatusOpen, row ''P-1.1'' ''P-1'' StatusOpen,
     (row ''P-1.7'' ''P-1'' StatusDone)\<lparr>deleted_at := Some 9\<rparr>], sequences := [(''P:P-1'', 6)]\<rparr>"

theorem next_sequence_fresh_witness:
  "\<exists>d1. next_sequence (sequence_key ''P'' ''P-1'') behind_example = Inr (8, d1)
      \<and> find_node (build_id ''P'' ''P-1'' 8) behind_example = None"
proof -
  have "next_sequence (sequence_key ''P'' ''P-1'') behind_example
      = Inr (8, set_counter ''P:P-1'' 8 behind_example)"
    by code_simp
  with next_sequence_fresh[OF this] show ?thesis
    by (auto simp: behind_example_def sequence_key_def)
qed

section \<open>A new row\<close>

definition new_row_ok :: "node \<Rightarrow> bool" where
  "new_row_ok n \<longleftrightarrow> node_id n \<noteq> [] \<and> (parent_id n = [] \<or> descendant_of (parent_id n) (node_id n)) \<and> node_ok n"

lemma find_snoc: "find P (xs @ [x]) = (if find P xs = None \<and> P x then Some x else find P xs)"
  by (induction xs) auto

lemma insert_node_ok:
  assumes "insert_node e n d = Inr d'"
  shows "find_node (node_id n) d = None" "d' = d\<lparr>nodes := nodes d @ [n\<lparr>activity := [created_activity e n]\<rparr>]\<rparr>"
    "find_node j d' = (if j = node_id n then Some (n\<lparr>activity := [created_activity e n]\<rparr>) else find_node j d)"
proof -
  show none: "find_node (node_id n) d = None"
    and d': "d' = d\<lparr>nodes := nodes d @ [n\<lparr>activity := [created_activity e n]\<rparr>]\<rparr>"
    using assms by (auto simp: insert_node_def split: if_splits)
  show "find_node j d' = (if j = node_id n then Some (n\<lparr>activity := [created_activity e n]\<rparr>) else find_node j d)"
    using arg_cong[OF d', of nodes] none by (auto simp: find_node_def find_snoc)
qed

lemma step_ok_insert_node:
  assumes "insert_node e n d = Inr d'" "new_row_ok n"
  shows "step_ok d d'"
proof (rule step_okI)
  assume core: "core_ok d"
  note ins = insert_node_ok[OF assms(1)]
  have "node_id n \<notin> node_id ` set (nodes d)" using ins(1) by (auto simp: find_node_def find_none_iff)
  moreover have keys: "key_columns d' = key_columns d @ [(node_id n, parent_id n)]"
    by (simp add: key_columns_def ins(2))
  ultimately have "tree_ok d'"
    using core_ok_facts(1)[OF core] assms(2)
    unfolding tree_ok_def keys new_row_ok_def by (auto simp: key_columns_def)
  moreover have "log_ok d' = log_ok d" by (rule log_ok_cong) (simp_all add: ins(2))
  moreover have "node_ok (n\<lparr>activity := [created_activity e n]\<rparr>)"
    using assms(2) by (simp add: new_row_ok_def node_ok_def)
  ultimately have "core_ok d'" using core by (simp add: core_ok_def ins(2))
  moreover have "node_moves d d'"
    unfolding node_moves_def
  proof (intro allI impI)
    fix i m assume "find_node i d = Some m"
    then have "find_node i d' = Some m" using ins(1) ins(3)[of i] by auto
    then show "\<exists>m'. find_node i d' = Some m' \<and> status_step\<^sup>*\<^sup>* (status m) (status m')" by blast
  qed
  ultimately show "step_ok d d'" by (simp add: step_ok_def)
qed

lemma insert_and_claim_stages:
  assumes "insert_and_claim_node e n a d = Inr d'"
  obtains d1 d2 d3 where "parent_id n \<noteq> [] \<longrightarrow> validate_parent_status (parent_id n) d = Inr ()"
    "insert_node e n d = Inr d1"
    "emit_event e \<lparr>ep_node = node_id n, ep_project = project n, ep_op = OpCreateNode,
       ep_author = creator n, ep_payload = build_create_payload n, ep_event_id = uid n\<rparr> d1 = Inr d2"
    "recalculate_parent (parent_id n) d2 = Inr d3"
    "if a \<noteq> [] then claim_node_tx e (node_id n) a d3 = Inr d' else d' = d3"
proof -
  from assms obtain d1 d2 d3 u where
    "(if parent_id n \<noteq> [] then validate_parent_status (parent_id n) d else Inr ()) = Inr u"
    "insert_node e n d = Inr d1"
    "emit_event e \<lparr>ep_node = node_id n, ep_project = project n, ep_op = OpCreateNode,
       ep_author = creator n, ep_payload = build_create_payload n, ep_event_id = uid n\<rparr> d1 = Inr d2"
    "recalculate_parent (parent_id n) d2 = Inr d3"
    "(if a \<noteq> [] then claim_node_tx e (node_id n) a d3 else Inr d3) = Inr d'"
    by (auto simp: insert_and_claim_node_def bind_result_Inr)
  note stages = this
  show ?thesis by (rule that[OF _ stages(2-4)]) (use stages(1,5) in \<open>auto split: if_splits\<close>)
qed

lemma step_ok_insert_and_claim:
  assumes "insert_and_claim_node e n a d = Inr d'" "new_row_ok n"
  shows "step_ok d d'"
  using assms(1)
proof (cases rule: insert_and_claim_stages)
  case (1 d1 d2 d3)
  have "step_ok d d1" using 1(2) assms(2) by (rule step_ok_insert_node)
  also have "step_ok d1 d2" using 1(3) by (rule step_ok_emit_event)
  also (step_ok_trans) have "step_ok d2 d3" using 1(4) by (rule step_ok_recalculate_parent)
  also (step_ok_trans) have "step_ok d3 d'" using 1(5) by (auto intro: step_ok_claim_node_tx split: if_splits)
  finally (step_ok_trans) show ?thesis .
qed

lemma step_ok_create_node_tx:
  assumes "create_node_tx e n a d = Inr d'" "new_row_ok n"
  shows "step_ok d d'"
proof -
  from assms(1) obtain d1 where "insert_and_claim_node e n a d = Inr d1"
    "d' = record_history e (local_scope (node_id n) (creator n)) empty_tracker d1"
    by (auto simp: create_node_tx_def bind_result_Inr)
  then show ?thesis
    using step_ok_trans[OF step_ok_insert_and_claim[OF _ assms(2)] step_ok_tables[OF record_history_tables]]
    by blast
qed

lemma step_ok_create_node:
  "create_node e minted n a d = Inr d' \<Longrightarrow> new_row_ok n \<Longrightarrow> step_ok d d'"
  by (auto simp: create_node_def bind_result_Inr ensure_create_node_uid_def new_row_ok_def node_ok_def
      intro!: step_ok_create_node_tx)

section \<open>Allocated rows\<close>

text \<open>The row an allocated create inserts is well placed whatever the caller asked for.\<close>

lemma allocate_node_id_ok:
  assumes "allocate_node_id uuid_parse n provisional d = Inr (n1, d1)"
  shows "\<exists>s i. n1 = n\<lparr>seq := s, node_id := i\<rparr>
       \<and> (i = build_id (project n) (parent_id n) s \<or> provisional \<and> build_provisional_id uuid_parse (parent_id n) (uid n) = Inr i)
       \<and> next_sequence (sequence_key (project n) (parent_id n)) d = Inr (s, d1)
       \<and> i \<noteq> [] \<and> (parent_id n = [] \<or> descendant_of (parent_id n) i)"
  using assms
  by (auto simp: allocate_node_id_def bind_result_Inr build_id_def build_provisional_id_def
      descendant_of_def has_prefix_iff split: if_splits)

lemma next_sequence_counter:
  "next_sequence key d = Inr (s, d1) \<Longrightarrow> \<exists>v. d1 = set_counter key v d"
  by (auto simp: next_sequence_def skip_taken_sequence_def skip_taken_def Let_def row_simps
      split: option.splits if_splits prod.splits)

lemma set_counter_same:
  "step_ok d (set_counter key v d)" "core_ok (set_counter key v d) = core_ok d"
proof -
  have tree: "tree_ok (set_counter key v d) = tree_ok d"
    by (rule tree_ok_cong) (simp add: key_columns_def set_counter_def)
  moreover have "log_ok (set_counter key v d) = log_ok d"
    by (rule log_ok_cong) (simp_all add: set_counter_def)
  ultimately show core: "core_ok (set_counter key v d) = core_ok d"
    by (simp add: core_ok_def row_simps)
  have "node_moves d (set_counter key v d)" by (simp add: node_moves_def row_simps)
  then show "step_ok d (set_counter key v d)" using core by (simp add: step_ok_def)
qed

lemma step_ok_allocated_tx:
  assumes "create_node_allocated_tx e uuid_parse n opts d = Inr d'" "node_ok n"
  shows "step_ok d d'"
proof -
  from assms(1) obtain n1 d1 where al: "allocate_node_id uuid_parse n (opt_provisional opts) d = Inr (n1, d1)"
    and cr: "create_node_tx e n1 (initial_claim_assignee n opts d) d1 = Inr d'"
    by (auto simp: create_node_allocated_tx_def bind_result_Inr Let_def split: prod.splits)
  from allocate_node_id_ok[OF al] obtain s where
    seq: "next_sequence (sequence_key (project n) (parent_id n)) d = Inr (s, d1)" by blast
  have "new_row_ok n1" using allocate_node_id_ok[OF al] assms(2) by (auto simp: new_row_ok_def node_ok_def)
  moreover have "\<exists>key v. d1 = set_counter key v d" using next_sequence_counter[OF seq] by blast
  ultimately show ?thesis
    using step_ok_trans[OF set_counter_same(1) step_ok_create_node_tx] cr by blast
qed

lemma step_ok_create_node_allocated:
  "create_node_allocated e uuid_parse minted n opts d = Inr d' \<Longrightarrow> node_ok n \<Longrightarrow> step_ok d d'"
  by (auto simp: create_node_allocated_def bind_result_Inr ensure_create_node_uid_def node_ok_def
      intro!: step_ok_allocated_tx split: if_splits)

lemma step_ok_service_create_node:
  assumes "service_create_node e uuid_parse validate_agent_id auto_claim hub_away minted req d = Inr d'"
  shows "step_ok d d'"
proof -
  from assms obtain n opts where n: "build_node e minted req d = Inr n"
    "create_node_allocated e uuid_parse minted n opts d = Inr d'"
    by (auto simp: service_create_node_def bind_result_Inr)
  then have "node_ok n" by (auto simp: build_node_def bind_result_Inr node_ok_def split: if_splits)
  with n(2) show ?thesis by (rule step_ok_create_node_allocated)
qed

section \<open>What a create does\<close>

text \<open>The row a create leaves: as built, with its first activity entry, and claimed when asked to.\<close>

definition created_row :: "env \<Rightarrow> node \<Rightarrow> string \<Rightarrow> node" where
  "created_row e n a =
     (let n1 = n\<lparr>activity := [created_activity e n]\<rparr> in if a = [] then n1 else claimed e a n1)"

lemma walks_to_more:
  "walks_to d i a \<Longrightarrow> set (key_columns d) \<subseteq> set (key_columns d') \<Longrightarrow> walks_to d' i a"
  by (induction rule: walks_to.induct) (auto intro: walks_to.intros)

lemma validate_parent_status_ok:
  "validate_parent_status p d = Inr () \<longleftrightarrow>
     (\<exists>n. find_live p d = Some n \<and> \<not> status_is_terminal (status n))"
  by (auto simp: validate_parent_status_def split: option.splits)

lemma claim_keeps_rollups:
  assumes "claim_node_tx e i a d = Inr d'" "core_ok d" "find_live i d = Some n"
  shows "rolled_up d' q = rolled_up d q"
proof -
  note rows = claim_node_rows[OF assms]
  have core': "core_ok d'" using step_ok_claim_node_tx[OF assms(1)] assms(2) by (rule step_ok_core)
  have st: "status n = StatusOpen \<or> status n = StatusDeferred"
    using rows(3) assms(3) by (auto simp: validate_claim_status_ok)
  have n: "find_node i d = Some n"
    using find_live_find_node[OF core_ok_facts(2)[OF assms(2)], of i] assms(3)
    by (auto split: option.splits if_splits)
  show ?thesis
  proof (rule rolled_up_rows[OF core_ok_facts(2)[OF assms(2)] core_ok_facts(2)[OF core']])
    show "key_columns d' = key_columns d" by (rule rows(4))
    fix m assume m: "m \<in> set (nodes d)"
    have fm: "find_node (node_id m) d = Some m"
      by (rule find_node_unique[OF core_ok_facts(2)[OF assms(2)] m])
    show "\<exists>n'. find_node (node_id m) d' = Some n' \<and> live n' = live m \<and> progress n' = progress m
        \<and> weight n' = weight m
        \<and> (status n' \<in> {StatusCancelled, StatusInvalidated}) = (status m \<in> {StatusCancelled, StatusInvalidated})"
    proof (cases "node_id m = i")
      case True
      then have "m = n" using fm n by simp
      then show ?thesis using rows(1)[of i] True st by (auto simp: claimed_def live_def)
    next
      case False
      then show ?thesis using rows(1)[of "node_id m"] fm by simp
    qed
  qed
qed

lemma create_event:
  assumes "emit_event e \<lparr>ep_node = node_id n, ep_project = project n, ep_op = OpCreateNode,
       ep_author = creator n, ep_payload = build_create_payload n, ep_event_id = uid n\<rparr> d1 = Inr d2"
    and "log_ok d1" "uid n \<noteq> []"
  shows "same_content d1 d2"
    "\<exists>ev. events d2 = events d1 @ [ev] \<and> ev_id ev = uid n \<and> ev_op ev = OpCreateNode \<and> ev_node ev = node_id n"
  using emit_event_log[OF assms(1,2)] assms(3) by auto

lemma insert_and_claim_rows:
  assumes core: "core_ok d" and n: "new_row_ok n" "live n" "uid n \<noteq> []"
    and run: "insert_and_claim_node e n a d = Inr d'"
  shows "find_node (node_id n) d = None" "find_node (node_id n) d' = Some (created_row e n a)"
    "j \<noteq> node_id n \<Longrightarrow> map_option (\<lambda>m. m\<lparr>progress := 0\<rparr>) (find_node j d')
       = map_option (\<lambda>m. m\<lparr>progress := 0\<rparr>) (find_node j d)"
    "parent_id n \<noteq> [] \<Longrightarrow> \<exists>p. find_live (parent_id n) d = Some p \<and> \<not> status_is_terminal (status p)"
    "parent_id n \<noteq> [] \<Longrightarrow> walks_to d (parent_id n) q \<Longrightarrow> rolled_up d' q"
    "\<exists>ev rest. events d' = events d @ ev # rest \<and> ev_id ev = uid n \<and> ev_op ev = OpCreateNode
       \<and> ev_node ev = node_id n"
proof -
  obtain d1 d2 d3 where parent: "parent_id n \<noteq> [] \<longrightarrow> validate_parent_status (parent_id n) d = Inr ()"
    and ins: "insert_node e n d = Inr d1"
    and em: "emit_event e \<lparr>ep_node = node_id n, ep_project = project n, ep_op = OpCreateNode,
       ep_author = creator n, ep_payload = build_create_payload n, ep_event_id = uid n\<rparr> d1 = Inr d2"
    and rec: "recalculate_parent (parent_id n) d2 = Inr d3"
    and claim: "if a \<noteq> [] then claim_node_tx e (node_id n) a d3 = Inr d' else d' = d3"
    using insert_and_claim_stages[OF run] by metis
  let ?n1 = "n\<lparr>activity := [created_activity e n]\<rparr>"
  have core1: "core_ok d1" using step_ok_insert_node[OF ins n(1)] core by (rule step_ok_core)
  have core2: "core_ok d2" using step_ok_emit_event[OF em] core1 by (rule step_ok_core)
  have core3: "core_ok d3" using step_ok_recalculate_parent[OF rec] core2 by (rule step_ok_core)
  note i = insert_node_ok[OF ins]
  note ev = create_event[OF em core_ok_facts(3)[OF core1] n(3)]
  note up = recalculate_parent_rows[OF rec core_ok_facts(1)[OF core2]]
  show "find_node (node_id n) d = None" by (rule i(1))
  have row1: "find_node j d2 = (if j = node_id n then Some ?n1 else find_node j d)" for j
    using i(3)[of j] same_content_find(1)[OF ev(1), of j] by (simp only:)
  have n1: "?n1 \<in> set (nodes d2)" using find_node_Some[OF row1[of "node_id n", simplified]] by blast
  have keys: "key_columns d2 = key_columns d @ [(node_id n, parent_id n)]"
    using ev(1) i(2) by (simp add: same_content_def key_columns_def)
  have "parent_id n = [] \<or> \<not> walks_to d2 (parent_id n) (node_id n)"
    using not_above_own_parent[OF core_ok_facts(1)[OF core2] n1] by auto
  then have row3: "find_node (node_id n) d3 = Some ?n1"
    using up(3)[of "node_id n"] row1[of "node_id n"] by simp
  have live3: "find_live (node_id n) d3 = Some ?n1"
    using row3 n(2) by (simp add: find_live_find_node[OF core_ok_facts(2)[OF core3]] live_def)
  have others3: "map_option (\<lambda>m. m\<lparr>progress := 0\<rparr>) (find_node j d3) = map_option (\<lambda>m. m\<lparr>progress := 0\<rparr>) (find_node j d)"
    if "j \<noteq> node_id n" for j
    using same_but_progress_node[OF up(1), of j] row1[of j] that by simp
  have events3: "events d3 = events d2" by (rule same_but_progress_fields(4)[OF up(1)])
  obtain cev where cev: "events d2 = events d @ [cev]" "ev_id cev = uid n" "ev_op cev = OpCreateNode"
    "ev_node cev = node_id n"
    using ev(2) i(2) by auto
  show "parent_id n \<noteq> [] \<Longrightarrow> \<exists>p. find_live (parent_id n) d = Some p \<and> \<not> status_is_terminal (status p)"
    using parent by (simp add: validate_parent_status_ok)
  have rolled3: "rolled_up d3 q" if "parent_id n \<noteq> []" "walks_to d (parent_id n) q"
  proof -
    have "set (key_columns d) \<subseteq> set (key_columns d2)" by (auto simp: keys)
    then show ?thesis by (rule up(2)[OF that(1) walks_to_more[OF that(2)]])
  qed
  have "find_node (node_id n) d' = Some (created_row e n a)
    \<and> (j \<noteq> node_id n \<longrightarrow> find_node j d' = find_node j d3) \<and> rolled_up d' q = rolled_up d3 q
    \<and> (\<exists>rest. events d' = events d3 @ rest)" for j q
  proof (cases "a = []")
    case True
    then show ?thesis using claim row3 by (simp add: created_row_def)
  next
    case False
    then have cl: "claim_node_tx e (node_id n) a d3 = Inr d'" using claim by simp
    show ?thesis
      using claim_node_rows[OF cl core3 live3] claim_keeps_rollups[OF cl core3 live3] False
      by (auto simp: created_row_def)
  qed
  note tail = this
  show "find_node (node_id n) d' = Some (created_row e n a)" using tail by blast
  show "j \<noteq> node_id n \<Longrightarrow> map_option (\<lambda>m. m\<lparr>progress := 0\<rparr>) (find_node j d')
       = map_option (\<lambda>m. m\<lparr>progress := 0\<rparr>) (find_node j d)"
    using tail[of j] others3 by simp
  show "parent_id n \<noteq> [] \<Longrightarrow> walks_to d (parent_id n) q \<Longrightarrow> rolled_up d' q"
    using tail[of _ q] rolled3 by blast
  show "\<exists>ev rest. events d' = events d @ ev # rest \<and> ev_id ev = uid n \<and> ev_op ev = OpCreateNode
       \<and> ev_node ev = node_id n"
  proof -
    obtain rest where "events d' = events d3 @ rest" using tail by blast
    then show ?thesis using events3 cev by (intro exI[of _ cev] exI[of _ rest]) simp
  qed
qed

lemma walks_to_set_counter: "walks_to (set_counter k v d) i a = walks_to d i a"
  by (rule walks_to_cong) (simp add: key_columns_def set_counter_def)

lemma create_allocated_rows:
  assumes core: "core_ok d" and n: "node_ok n" "live n" "uid n \<noteq> []"
    and run: "create_node_allocated_tx e uuid_parse n opts d = Inr d'"
  shows "\<exists>s i. (i = build_id (project n) (parent_id n) s
         \<or> opt_provisional opts \<and> build_provisional_id uuid_parse (parent_id n) (uid n) = Inr i)
     \<and> find_node i d = None
     \<and> find_node i d' = Some (created_row e (n\<lparr>seq := s, node_id := i\<rparr>) (initial_claim_assignee n opts d))
     \<and> (\<forall>j. j \<noteq> i \<longrightarrow> map_option (\<lambda>m. m\<lparr>progress := 0\<rparr>) (find_node j d')
            = map_option (\<lambda>m. m\<lparr>progress := 0\<rparr>) (find_node j d))
     \<and> (parent_id n \<noteq> [] \<longrightarrow> (\<exists>p. find_live (parent_id n) d = Some p \<and> \<not> status_is_terminal (status p)))
     \<and> (\<forall>q. parent_id n \<noteq> [] \<and> walks_to d (parent_id n) q \<longrightarrow> rolled_up d' q)
     \<and> (\<exists>ev rest. events d' = events d @ ev # rest \<and> ev_id ev = uid n \<and> ev_op ev = OpCreateNode
          \<and> ev_node ev = i)"
proof -
  from run obtain n1 d1 d2 where al: "allocate_node_id uuid_parse n (opt_provisional opts) d = Inr (n1, d1)"
    and cr: "insert_and_claim_node e n1 (initial_claim_assignee n opts d) d1 = Inr d2"
    and d': "d' = record_history e (local_scope (node_id n1) (creator n1)) empty_tracker d2"
    by (auto simp: create_node_allocated_tx_def create_node_tx_def bind_result_Inr Let_def split: prod.splits)
  from allocate_node_id_ok[OF al] obtain s i where n1: "n1 = n\<lparr>seq := s, node_id := i\<rparr>"
    and i: "i = build_id (project n) (parent_id n) s
         \<or> opt_provisional opts \<and> build_provisional_id uuid_parse (parent_id n) (uid n) = Inr i"
    and seq: "next_sequence (sequence_key (project n) (parent_id n)) d = Inr (s, d1)"
    and ok: "i \<noteq> []" "parent_id n = [] \<or> descendant_of (parent_id n) i"
    by blast
  obtain k v where d1: "d1 = set_counter k v d" using next_sequence_counter[OF seq] by blast
  have row: "new_row_ok n1" "live n1" "uid n1 \<noteq> []" "node_id n1 = i" "parent_id n1 = parent_id n"
    "uid n1 = uid n"
    using n ok by (auto simp: n1 new_row_ok_def node_ok_def live_def)
  have core1: "core_ok d1" using core by (simp add: d1 set_counter_same)
  have same: "find_node j d1 = find_node j d" "find_live j d1 = find_live j d" "events d1 = events d"
    "walks_to d1 p q = walks_to d p q" for j p q
    by (simp_all add: d1 row_simps walks_to_set_counter) (simp add: find_live_def row_simps)
  note last = record_history_tables[of d2 e "local_scope (node_id n1) (creator n1)" empty_tracker, folded d']
  have after: "find_node j d' = find_node j d2" "rolled_up d' q = rolled_up d2 q" "events d' = events d2" for j q
    using same_tables_find[OF last] same_tables_fields[OF last] by (simp_all add: rolled_up_def counted_children_def)
  note rows = insert_and_claim_rows[OF core1 row(1-3) cr, unfolded row(4-6) same, folded after]
  show ?thesis
    using i rows n1 by (intro exI[of _ s] exI[of _ i]) auto
qed

lemma build_node_ok:
  assumes "build_node e minted req d = Inr n"
  shows "node_ok n" "live n" "uid n = minted" "parent_id n = cr_parent req" "project n = cr_project req"
    "title n = cr_title req" "status n = StatusOpen" "assignee n = None"
    "cr_parent req = [] \<Longrightarrow> depth n = 0"
    "find_live (cr_parent req) d = Some p \<Longrightarrow> cr_parent req \<noteq> [] \<Longrightarrow> depth n = depth p + 1"
  using assms by (auto simp: build_node_def bind_result_Inr node_ok_def live_def split: if_splits option.splits)


definition example_request :: create_request where
  "example_request = \<lparr>cr_project = ''P'', cr_parent = ''P-1'', cr_title = ''task'',
     cr_issue_type = IssueTypeOther [], cr_description = [], cr_prompt = [], cr_acceptance = [],
     cr_labels = [], cr_priority = 0, cr_creator = ''ann'', cr_assignee = ''bob'', cr_defer_until = None\<rparr>"

definition example_node :: node where
  "example_node = (row [] ''P-1'' StatusOpen)\<lparr>project := ''P'', depth := 1, seq := 0, uid := ''ev-new'',
     title := ''task'', node_kind := NodeTypeStory, creator := ''ann''\<rparr>"

definition example_options :: create_options where
  "example_options = \<lparr>opt_assignee = ''bob'', opt_provisional = False, opt_claim_parent = False\<rparr>"

lemma example_create:
  "service_create_node epoch_env (\<lambda>_. None) (\<lambda>_. Inr ()) False False ''ev-new'' example_request store_example
   = create_node_allocated_tx epoch_env (\<lambda>_. None) example_node example_options store_example"
proof -
  have "validate_prefix ''P'' = Inr ()" by code_simp
  then have "validate_create_request (\<lambda>_. Inr ()) example_request = Inr ()"
    by (simp add: validate_create_request_def example_request_def validate_issue_type_def max_title_length_def)
  moreover have "build_node epoch_env ''ev-new'' example_request store_example = Inr example_node" by code_simp
  moreover have "validate_node example_node = Inr ()"
    by (simp add: validate_node_ok example_node_def row_def max_title_length_def priority_is_valid_def)
  ultimately show ?thesis
    by (simp add: service_create_node_def create_node_allocated_def claim_needs_open_def
        ensure_create_node_uid_def example_node_def example_options_def example_request_def row_def)
qed


section \<open>Batches\<close>

lemma insert_and_claim_keys:
  assumes "core_ok d" "new_row_ok n" "live n" "uid n \<noteq> []" "insert_and_claim_node e n a d = Inr d'"
  shows "key_columns d' = key_columns d @ [(node_id n, parent_id n)]"
  using assms(5)
proof (cases rule: insert_and_claim_stages)
  case (1 d1 d2 d3)
  have core1: "core_ok d1" using step_ok_insert_node[OF 1(2) assms(2)] assms(1) by (rule step_ok_core)
  have core2: "core_ok d2" using step_ok_emit_event[OF 1(3)] core1 by (rule step_ok_core)
  have core3: "core_ok d3" using step_ok_recalculate_parent[OF 1(4)] core2 by (rule step_ok_core)
  note up = recalculate_parent_rows(1)[OF 1(4) core_ok_facts(1)[OF core2]]
  have "nodes d2 = nodes d1"
    using create_event(1)[OF 1(3) core_ok_facts(3)[OF core1] assms(4)] by (simp add: same_content_def)
  then have keys3: "key_columns d3 = key_columns d @ [(node_id n, parent_id n)]"
    using same_but_progress_keys[OF up] insert_node_ok(2)[OF 1(2)] by (simp add: key_columns_def)
  show ?thesis
  proof (cases "a = []")
    case False
    have "find_node (node_id n) d' = Some (created_row e n a)"
      by (rule insert_and_claim_rows(2)[OF assms(1-5)])
    obtain m where "find_live (node_id n) d3 = Some m"
      using 1(5) False by (auto simp: claim_node_tx_def bind_result_Inr validate_claim_status_ok)
    then show ?thesis using claim_node_rows(4)[OF _ core3] 1(5) False keys3 by auto
  qed (use 1(5) keys3 in simp)
qed

lemma create_allocated_keys:
  assumes "core_ok d" "node_ok n" "live n" "uid n \<noteq> []"
    and "create_node_allocated_tx e uuid_parse n opts d = Inr d'"
  shows "\<exists>i. key_columns d' = key_columns d @ [(i, parent_id n)]"
proof -
  from assms(5) obtain n1 d1 d2 a where al: "allocate_node_id uuid_parse n (opt_provisional opts) d = Inr (n1, d1)"
    and cr: "insert_and_claim_node e n1 a d1 = Inr d2"
    and d': "d' = record_history e (local_scope (node_id n1) (creator n1)) empty_tracker d2"
    by (auto simp: create_node_allocated_tx_def create_node_tx_def bind_result_Inr Let_def split: prod.splits)
  from allocate_node_id_ok[OF al] obtain s i where n1: "n1 = n\<lparr>seq := s, node_id := i\<rparr>"
    and seq: "next_sequence (sequence_key (project n) (parent_id n)) d = Inr (s, d1)"
    and ok: "i \<noteq> []" "parent_id n = [] \<or> descendant_of (parent_id n) i"
    by blast
  obtain k v where d1: "d1 = set_counter k v d" using next_sequence_counter[OF seq] by blast
  have row: "new_row_ok n1" "live n1" "uid n1 \<noteq> []"
    using assms(2-4) ok by (auto simp: n1 new_row_ok_def node_ok_def live_def)
  have "core_ok d1" using assms(1) by (simp add: d1 set_counter_same)
  from insert_and_claim_keys[OF this row cr] have "key_columns d2 = key_columns d1 @ [(i, parent_id n)]"
    by (simp add: n1)
  then have "key_columns d2 = key_columns d @ [(i, parent_id n)]" by (simp add: d1 key_columns_def set_counter_def)
  moreover have "nodes d' = nodes d2"
    unfolding d' by (rule same_tables_fields(1)[OF record_history_tables])
  ultimately show ?thesis by (auto simp: key_columns_def)
qed

lemma create_batch_keys:
  "fold_result (\<lambda>n. create_node_allocated_tx e uuid_parse n opts) ns d = Inr d' \<Longrightarrow> core_ok d \<Longrightarrow>
   \<forall>n \<in> set ns. node_ok n \<and> live n \<and> uid n \<noteq> [] \<Longrightarrow>
   step_ok d d' \<and> (\<exists>is. key_columns d' = key_columns d @ zip is (map parent_id ns) \<and> length is = length ns)"
proof (induction ns arbitrary: d)
  case (Cons n ns)
  from Cons.prems(1) obtain d1 where one: "create_node_allocated_tx e uuid_parse n opts d = Inr d1"
    and rest: "fold_result (\<lambda>n. create_node_allocated_tx e uuid_parse n opts) ns d1 = Inr d'"
    by (auto simp: bind_result_Inr)
  have st: "step_ok d d1" using one Cons.prems(3) by (intro step_ok_allocated_tx) auto
  obtain i where i: "key_columns d1 = key_columns d @ [(i, parent_id n)]"
    using create_allocated_keys[OF Cons.prems(2) _ _ _ one] Cons.prems(3) by auto
  have "\<forall>n \<in> set ns. node_ok n \<and> live n \<and> uid n \<noteq> []" using Cons.prems(3) by simp
  from Cons.IH[OF rest step_ok_core[OF st Cons.prems(2)] this] obtain "is" where
    "step_ok d1 d'" "key_columns d' = key_columns d1 @ zip is (map parent_id ns)" "length is = length ns"
    by blast
  then show ?case using st i by (intro conjI exI[of _ "i # is"]) (auto intro: step_ok_trans)
qed simp

lemma ensured_uid:
  "[] \<noteq> u \<Longrightarrow> uid (ensure_create_node_uid u n) \<noteq> []" "parent_id (ensure_create_node_uid u n) = parent_id n"
  "node_ok (ensure_create_node_uid u n) = node_ok n" "live (ensure_create_node_uid u n) = live n"
  by (auto simp: ensure_create_node_uid_def node_ok_def live_def)

lemma ensured_batch:
  "length us = length ns \<Longrightarrow> [] \<notin> set us \<Longrightarrow> \<forall>n \<in> set ns. node_ok n \<and> live n \<Longrightarrow>
   (\<forall>n \<in> set (map (\<lambda>(n, u). ensure_create_node_uid u n) (zip ns us)). node_ok n \<and> live n \<and> uid n \<noteq> [])
   \<and> map parent_id (map (\<lambda>(n, u). ensure_create_node_uid u n) (zip ns us)) = map parent_id ns"
  by (induction us ns rule: list_induct2) (simp_all add: ensured_uid)

text \<open>
  C27. A batch is created whole. When a batch create succeeds, the store gained exactly one row per
  requested node, in the order of the request, each under its requested parent (which may be a
  node that was there before), with ids that no other row has, and it is still well formed; an
  empty batch, or one with a single invalid node, is refused.
\<close>
theorem create_nodes_allocated_batch:
  assumes "core_ok d" and "\<forall>n \<in> set ns. node_ok n \<and> live n"
    and "length minted = length ns" and "[] \<notin> set minted"
  shows "(ns = [] \<longrightarrow> create_nodes_allocated e uuid_parse minted ns opts d = Inl ErrInvalidInput)
       \<and> (\<forall>d'. create_nodes_allocated e uuid_parse minted ns opts d = Inr d' \<longrightarrow>
            core_ok d' \<and> (\<forall>n \<in> set ns. validate_node n = Inr ())
          \<and> (\<exists>is. map node_id (nodes d') = map node_id (nodes d) @ is \<and> length is = length ns
               \<and> distinct (map node_id (nodes d) @ is)
               \<and> map parent_id (nodes d') = map parent_id (nodes d) @ map parent_id ns))"
proof (intro conjI allI impI)
  show "ns = [] \<Longrightarrow> create_nodes_allocated e uuid_parse minted ns opts d = Inl ErrInvalidInput"
    by (simp add: create_nodes_allocated_def)
next
  fix d' assume run: "create_nodes_allocated e uuid_parse minted ns opts d = Inr d'"
  let ?ns = "map (\<lambda>(n, u). ensure_create_node_uid u n) (zip ns minted)"
  from run have checks: "fold_result (\<lambda>n _. check_batch_node opts n) ns () = Inr ()"
    and go: "fold_result (\<lambda>n. create_node_allocated_tx e uuid_parse n opts) ?ns d = Inr d'"
    by (auto simp: create_nodes_allocated_def bind_result_Inr split: if_splits)
  have "fold_result (\<lambda>n _. check_batch_node opts n) xs () = Inr () \<Longrightarrow> \<forall>n \<in> set xs. validate_node n = Inr ()" for xs
    by (induction xs) (auto simp: bind_result_Inr check_batch_node_def)
  with checks show "\<forall>n \<in> set ns. validate_node n = Inr ()" by blast
  note batch = ensured_batch[OF assms(3,4,2)]
  have ok: "\<forall>n \<in> set ?ns. node_ok n \<and> live n \<and> uid n \<noteq> []" using batch by (rule conjunct1)
  from create_batch_keys[OF go assms(1) ok] obtain "is" where st: "step_ok d d'"
    and keys: "key_columns d' = key_columns d @ zip is (map parent_id ns)" "length is = length ns"
    using batch assms(3) by auto
  show core: "core_ok d'" using st assms(1) by (rule step_ok_core)
  have ids: "map node_id (nodes d') = map node_id (nodes d) @ is"
    using arg_cong[OF keys(1), of "map fst"] keys(2) by (simp add: key_columns_def comp_def)
  moreover have "map parent_id (nodes d') = map parent_id (nodes d) @ map parent_id ns"
    using arg_cong[OF keys(1), of "map snd"] keys(2) by (simp add: key_columns_def comp_def)
  moreover have "distinct (map node_id (nodes d) @ is)"
    using core_ok_facts(2)[OF core] ids by (simp add: unique_ids_def)
  ultimately show "\<exists>is. map node_id (nodes d') = map node_id (nodes d) @ is \<and> length is = length ns
               \<and> distinct (map node_id (nodes d) @ is)
               \<and> map parent_id (nodes d') = map parent_id (nodes d) @ map parent_id ns"
    using keys(2) by blast
qed

theorem create_nodes_allocated_batch_witness:
  "\<exists>d'. create_nodes_allocated epoch_env (\<lambda>_. None) [''u1''] [example_node] example_options store_example = Inr d'
      \<and> map parent_id (nodes d') = [[], ''P-1'', ''P-1'']"
proof -
  let ?run = "create_node_allocated_tx epoch_env (\<lambda>_. None) example_node example_options store_example"
  have "\<not> isl ?run" by code_simp
  then obtain d' where d': "?run = Inr d'" using result_cases by blast
  have "validate_node example_node = Inr ()"
    by (simp add: validate_node_ok example_node_def row_def max_title_length_def priority_is_valid_def)
  then have run: "create_nodes_allocated epoch_env (\<lambda>_. None) [''u1''] [example_node] example_options store_example = Inr d'"
    using d' by (simp add: create_nodes_allocated_def check_batch_node_def claim_needs_open_def
        ensure_create_node_uid_def example_node_def row_def)
  have "\<forall>n \<in> set [example_node]. node_ok n \<and> live n" by code_simp
  from create_nodes_allocated_batch[OF store_example_ok this, of "[''u1'']"] run show ?thesis
    by (auto simp: store_example_def row_def example_node_def)
qed

end
