(* ===== verification/Deletion.thy ===== *)
theory Deletion
  imports Transitions
begin

text \<open>
  Soft deletion and restore (\<open>internal/store/sqlite/node_delete.go\<close>). A delete stamps the row,
  and with cascade every live descendant, and records in \<open>cascade_deletes\<close> which delete removed
  each of them; a restore brings back what the same delete removed. The lemmas show what a
  delete and a restore do to the rows, and that restoring the root of a cascade undoes it.
\<close>

section \<open>Delete\<close>

record delete_options =
  do_cascade :: bool
  do_by :: string
  do_root :: string

definition deleted_row :: "env \<Rightarrow> string \<Rightarrow> node \<Rightarrow> node" where
  "deleted_row e by n =
     n\<lparr>deleted_at := Some (now_second e), deleted_by := Some by, updated_at := now_second e\<rparr>"

text \<open>The upsert of one provenance row; \<open>node_id\<close> is the primary key of the table.\<close>

definition upsert_cascade :: "cascade_row \<Rightarrow> cascade_row list \<Rightarrow> cascade_row list" where
  "upsert_cascade r rs =
     (if list_ex (\<lambda>q. cd_node q = cd_node r) rs
      then map (\<lambda>q. if cd_node q = cd_node r then r else q) rs else rs @ [r])"

definition cascade_stamp :: "env \<Rightarrow> string \<Rightarrow> string \<Rightarrow> string \<Rightarrow> cascade_row" where
  "cascade_stamp e rt by i =
     \<lparr>cd_node = i, cd_root = rt, cd_deleted_at = now_second e, cd_deleted_by = Some by\<rparr>"

definition load_delete_target :: "string \<Rightarrow> db \<Rightarrow> string result" where
  "load_delete_target i d =
     (case find_live i d of None \<Rightarrow> Inl ErrNotFound | Some n \<Rightarrow> Inr (parent_id n))"

text \<open>\<open>recordCascadeRoot\<close>: the root is a foreign key.\<close>

definition record_cascade_root :: "env \<Rightarrow> string \<Rightarrow> delete_options \<Rightarrow> transaction" where
  "record_cascade_root e i opts d =
     (if find_node (do_root opts) d = None then Inl ErrStorage
      else Inr (d\<lparr>cascades := upsert_cascade (cascade_stamp e (do_root opts) (do_by opts) i) (cascades d)\<rparr>))"

definition live_descendant :: "string \<Rightarrow> node \<Rightarrow> bool" where
  "live_descendant i n \<longleftrightarrow> descendant_of i (node_id n) \<and> live n"

definition cascade_delete :: "env \<Rightarrow> string \<Rightarrow> string \<Rightarrow> db \<Rightarrow> db" where
  "cascade_delete e i by d =
     update_where (live_descendant i) (deleted_row e by)
       (d\<lparr>cascades := fold (\<lambda>n. upsert_cascade (cascade_stamp e i by (node_id n)))
                        (filter (live_descendant i) (nodes d)) (cascades d)\<rparr>)"

definition delete_node_tx :: "env \<Rightarrow> string \<Rightarrow> delete_options \<Rightarrow> transaction" where
  "delete_node_tx e i opts d =
     bind_result (load_delete_target i d) (\<lambda>p.
     let d1 = update_live i (deleted_row e (do_by opts)) d
     in bind_result (record_cascade_root e i opts d1) (\<lambda>d2.
        let d3 = (if do_cascade opts then cascade_delete e i (do_by opts) d2 else d2)
        in bind_result (emit_for e i OpDelete (do_by opts) DeletePayload d3) (\<lambda>d4.
           recalculate_parent p d4)))"

definition delete_node_opts :: "env \<Rightarrow> string \<Rightarrow> delete_options \<Rightarrow> transaction" where
  "delete_node_opts e i opts =
     with_history e (cascade_scope i (do_cascade opts) (do_by opts)) (delete_node_tx e i opts)"

definition delete_node :: "env \<Rightarrow> string \<Rightarrow> bool \<Rightarrow> string \<Rightarrow> transaction" where
  "delete_node e i cascade by =
     delete_node_opts e i \<lparr>do_cascade = cascade, do_by = by, do_root = i\<rparr>"

definition delete_node_with_root :: "env \<Rightarrow> string \<Rightarrow> string \<Rightarrow> string \<Rightarrow> transaction" where
  "delete_node_with_root e i rt by d =
     (if rt = [] \<or> (i \<noteq> rt \<and> \<not> has_prefix i (rt @ ''.'')) then Inl ErrInvalidInput
      else delete_node_opts e i \<lparr>do_cascade = False, do_by = by, do_root = rt\<rparr> d)"

section \<open>Restore\<close>

text \<open>A provenance row is trusted while its stamp is the row's current delete.\<close>

definition trusts :: "cascade_row \<Rightarrow> node \<Rightarrow> bool" where
  "trusts r n \<longleftrightarrow> cd_node r = node_id n \<and> deleted_at n = Some (cd_deleted_at r) \<and> cd_deleted_by r = deleted_by n"

definition trusted_root :: "cascade_row list \<Rightarrow> node \<Rightarrow> string option" where
  "trusted_root rs n = map_option cd_root (find (\<lambda>r. trusts r n) rs)"

record undelete_target =
  ut_id :: string
  ut_parent :: string
  ut_deleted_at :: "int option"
  ut_deleted_by :: "string option"
  ut_root :: "string option"

definition load_undelete_target :: "string \<Rightarrow> db \<Rightarrow> undelete_target result" where
  "load_undelete_target i d =
     (case find (\<lambda>n. node_id n = i \<and> \<not> live n) (nodes d) of
        None \<Rightarrow> Inl ErrNotFound
      | Some n \<Rightarrow> Inr \<lparr>ut_id = i, ut_parent = parent_id n, ut_deleted_at = deleted_at n,
                       ut_deleted_by = deleted_by n, ut_root = trusted_root (cascades d) n\<rparr>)"

definition select_recorded_cascade :: "string \<Rightarrow> string \<Rightarrow> db \<Rightarrow> (string \<times> string) list" where
  "select_recorded_cascade i rt d =
     map (\<lambda>n. (node_id n, parent_id n))
       (filter (\<lambda>n. descendant_of i (node_id n) \<and> \<not> live n \<and> trusted_root (cascades d) n = Some rt) (nodes d))"

definition select_unrecorded_cascade :: "undelete_target \<Rightarrow> db \<Rightarrow> (string \<times> string) list" where
  "select_unrecorded_cascade t d =
     map (\<lambda>n. (node_id n, parent_id n))
       (filter (\<lambda>n. descendant_of (ut_id t) (node_id n) \<and> deleted_at n = ut_deleted_at t
                  \<and> deleted_by n = ut_deleted_by t \<and> trusted_root (cascades d) n = None) (nodes d))"

definition restored_row :: "env \<Rightarrow> node \<Rightarrow> node" where
  "restored_row e n = n\<lparr>deleted_at := None, deleted_by := None, updated_at := now_second e\<rparr>"

definition restore_node :: "env \<Rightarrow> string \<Rightarrow> db \<Rightarrow> db" where
  "restore_node e i d =
     update_node_row i (restored_row e) (d\<lparr>cascades := filter (\<lambda>r. cd_node r \<noteq> i) (cascades d)\<rparr>)"

definition restore_nodes :: "env \<Rightarrow> (string \<times> string) list \<Rightarrow> db \<Rightarrow> db" where
  "restore_nodes e rs d = fold (\<lambda>r. restore_node e (fst r)) rs d"

fun recalculate_restored_parents :: "string list \<Rightarrow> (string \<times> string) list \<Rightarrow> transaction" where
  "recalculate_restored_parents seen [] d = Inr d"
| "recalculate_restored_parents seen (r # rs) d =
     (if snd r = [] \<or> snd r \<in> set seen then recalculate_restored_parents seen rs d
      else bind_result (recalculate_progress (snd r) d) (recalculate_restored_parents (snd r # seen) rs))"

definition undelete_node_tx :: "env \<Rightarrow> string \<Rightarrow> transaction" where
  "undelete_node_tx e i d =
     bind_result (load_undelete_target i d) (\<lambda>t.
     let rs = (case ut_root t of
                 Some rt \<Rightarrow> select_recorded_cascade i rt d
               | None \<Rightarrow> select_unrecorded_cascade t d) @ [(i, ut_parent t)]
     in recalculate_restored_parents [] rs (restore_nodes e rs d))"

definition undelete_node :: "env \<Rightarrow> string \<Rightarrow> transaction" where
  "undelete_node e i = with_history e (cascade_scope i True []) (undelete_node_tx e i)"

section \<open>Both keep the store well formed\<close>

lemma keeps_key_deletion [simp, intro]:
  "keeps_key (deleted_row e by)" "keeps_key (restored_row e)"
  "plain_update (deleted_row e by)" "plain_update (restored_row e)"
  by (simp_all add: keeps_key_def plain_update_def deleted_row_def restored_row_def node_ok_def)

lemma step_ok_cascades: "step_ok d (d\<lparr>cascades := cs\<rparr>)"
proof -
  have "tree_ok (d\<lparr>cascades := cs\<rparr>) = tree_ok d" by (rule tree_ok_cong) (simp add: key_columns_def)
  moreover have "log_ok (d\<lparr>cascades := cs\<rparr>) = log_ok d" by (rule log_ok_cong) simp_all
  moreover have "find_node i (d\<lparr>cascades := cs\<rparr>) = find_node i d" for i by (simp add: find_node_def)
  ultimately show ?thesis by (simp add: step_ok_def core_ok_def node_moves_def)
qed

lemma delete_stages:
  assumes "delete_node_tx e i opts d = Inr d'"
  obtains n d2 d3 d4 where "find_live i d = Some n" "find_node (do_root opts) d \<noteq> None"
    "d2 = (update_live i (deleted_row e (do_by opts)) d)
       \<lparr>cascades := upsert_cascade (cascade_stamp e (do_root opts) (do_by opts) i) (cascades d)\<rparr>"
    "d3 = (if do_cascade opts then cascade_delete e i (do_by opts) d2 else d2)"
    "emit_for e i OpDelete (do_by opts) DeletePayload d3 = Inr d4"
    "recalculate_parent (parent_id n) d4 = Inr d'"
proof -
  from assms obtain p d2 d4 where p: "load_delete_target i d = Inr p"
    and d2: "record_cascade_root e i opts (update_live i (deleted_row e (do_by opts)) d) = Inr d2"
    and d4: "emit_for e i OpDelete (do_by opts) DeletePayload
       (if do_cascade opts then cascade_delete e i (do_by opts) d2 else d2) = Inr d4"
    and last: "recalculate_parent p d4 = Inr d'"
    by (auto simp: delete_node_tx_def Let_def bind_result_Inr)
  from p obtain n where n: "find_live i d = Some n" "p = parent_id n"
    by (auto simp: load_delete_target_def split: option.splits)
  have "find_node (do_root opts) d \<noteq> None"
    "d2 = (update_live i (deleted_row e (do_by opts)) d)
       \<lparr>cascades := upsert_cascade (cascade_stamp e (do_root opts) (do_by opts) i) (cascades d)\<rparr>"
    using d2 by (auto simp: record_cascade_root_def node_updates row_simps split: if_splits)
  with n d4 last show ?thesis by (intro that) auto
qed

lemma step_ok_delete_tx:
  assumes "delete_node_tx e i opts d = Inr d'"
  shows "step_ok d d'"
  using assms
proof (cases rule: delete_stages)
  case (1 n d2 d3 d4)
  have "step_ok d d2"
    unfolding 1(3) by (rule step_ok_trans[OF _ step_ok_cascades]) (simp add: update_live_def step_ok_plain)
  also have "step_ok d2 d3"
    unfolding 1(4) cascade_delete_def by (auto intro: step_ok_trans[OF step_ok_cascades step_ok_plain])
  also (step_ok_trans) have "step_ok d3 d4" using 1(5) by (rule step_ok_emit_for)
  also (step_ok_trans) have "step_ok d4 d'" using 1(6) by (rule step_ok_recalculate_parent)
  finally (step_ok_trans) show ?thesis .
qed

lemma step_ok_delete_opts: "delete_node_opts e i opts d = Inr d' \<Longrightarrow> step_ok d d'"
  unfolding delete_node_opts_def by (erule step_ok_with_history) (rule step_ok_delete_tx)

lemma step_ok_delete_node: "delete_node e i cascade by d = Inr d' \<Longrightarrow> step_ok d d'"
  unfolding delete_node_def by (rule step_ok_delete_opts)

lemma step_ok_delete_with_root: "delete_node_with_root e i rt by d = Inr d' \<Longrightarrow> step_ok d d'"
  by (auto simp: delete_node_with_root_def split: if_splits intro: step_ok_delete_opts)

lemma step_ok_restore_node: "step_ok d (restore_node e i d)"
  unfolding restore_node_def update_node_row_def
  by (rule step_ok_trans[OF step_ok_cascades step_ok_plain]) simp

lemma step_ok_restore_nodes: "step_ok d (restore_nodes e rs d)"
  unfolding restore_nodes_def
  by (induction rs arbitrary: d) (auto intro: step_ok_trans step_ok_restore_node)

lemma step_ok_restored_parents: "recalculate_restored_parents seen rs d = Inr d' \<Longrightarrow> step_ok d d'"
  by (induction seen rs d rule: recalculate_restored_parents.induct)
    (auto simp: bind_result_Inr split: if_splits intro: step_ok_trans step_ok_progress)

lemma step_ok_undelete_node: "undelete_node e i d = Inr d' \<Longrightarrow> step_ok d d'"
  unfolding undelete_node_def undelete_node_tx_def
  by (erule step_ok_with_history)
    (auto simp: bind_result_Inr Let_def intro: step_ok_trans step_ok_restore_nodes step_ok_restored_parents)

section \<open>The provenance table\<close>

definition cascade_entry :: "cascade_row list \<Rightarrow> string \<Rightarrow> cascade_row option" where
  "cascade_entry rs i = find (\<lambda>r. cd_node r = i) rs"

definition cascade_keys :: "db \<Rightarrow> bool" where
  "cascade_keys d \<longleftrightarrow> distinct (map cd_node (cascades d))"

lemma cascade_entry_replaced:
  "cascade_entry (map (\<lambda>q. if cd_node q = cd_node r then r else q) rs) i =
     (if i = cd_node r \<and> list_ex (\<lambda>q. cd_node q = cd_node r) rs then Some r else cascade_entry rs i)"
  unfolding cascade_entry_def by (induction rs) auto

lemma cascade_entry_new:
  "\<not> list_ex (\<lambda>q. cd_node q = cd_node r) rs \<Longrightarrow>
   cascade_entry (rs @ [r]) i = (if i = cd_node r then Some r else cascade_entry rs i)"
  unfolding cascade_entry_def by (induction rs) auto

lemma cascade_entry_upsert:
  "cascade_entry (upsert_cascade r rs) i = (if i = cd_node r then Some r else cascade_entry rs i)"
  by (cases "list_ex (\<lambda>q. cd_node q = cd_node r) rs")
    (simp_all add: upsert_cascade_def cascade_entry_replaced cascade_entry_new)

lemma upsert_keys: "distinct (map cd_node rs) \<Longrightarrow> distinct (map cd_node (upsert_cascade r rs))"
proof -
  have "map cd_node (map (\<lambda>q. if cd_node q = cd_node r then r else q) rs) = map cd_node rs" by simp
  then show "distinct (map cd_node rs) \<Longrightarrow> distinct (map cd_node (upsert_cascade r rs))"
    unfolding upsert_cascade_def by (simp del: map_map add: list_ex_iff) (auto simp del: map_map)
qed

lemma cascade_entry_fold:
  "cascade_entry (fold (\<lambda>n. upsert_cascade (cascade_stamp e rt b (node_id n))) ns rs) i
     = (if i \<in> node_id ` set ns then Some (cascade_stamp e rt b i) else cascade_entry rs i)"
  by (induction ns arbitrary: rs) (auto simp: cascade_entry_upsert cascade_stamp_def)

lemma fold_upsert_keys:
  "distinct (map cd_node rs) \<Longrightarrow>
   distinct (map cd_node (fold (\<lambda>n. upsert_cascade (cascade_stamp e rt b (node_id n))) ns rs))"
  by (induction ns arbitrary: rs) (auto simp: upsert_keys)

lemma trusted_root_entry:
  assumes "distinct (map cd_node rs)"
  shows "trusted_root rs n = (case cascade_entry rs (node_id n) of None \<Rightarrow> None
     | Some r \<Rightarrow> if trusts r n then Some (cd_root r) else None)"
proof (cases "cascade_entry rs (node_id n)")
  case None
  then have "find (\<lambda>r. trusts r n) rs = None" by (auto simp: cascade_entry_def find_none_iff trusts_def)
  with None show ?thesis by (simp add: trusted_root_def)
next
  case (Some r)
  then have r: "r \<in> set rs" "cd_node r = node_id n" by (auto simp: cascade_entry_def find_Some_iff)
  have "(\<lambda>q. trusts q n) = (\<lambda>q. cd_node q = cd_node r \<and> trusts q n)" using r(2) by (auto simp: trusts_def)
  then have "find (\<lambda>q. trusts q n) rs = (if trusts r n then Some r else None)"
    using find_unique_guard[OF assms r(1), of "\<lambda>q. trusts q n"] by simp
  with Some show ?thesis by (simp add: trusted_root_def)
qed

section \<open>What a delete does\<close>

definition deletes :: "bool \<Rightarrow> string \<Rightarrow> node \<Rightarrow> bool" where
  "deletes cascade i n \<longleftrightarrow> live n \<and> (node_id n = i \<or> cascade \<and> descendant_of i (node_id n))"

lemma deleted_row_fields:
  "node_id (deleted_row e b n) = node_id n" "live (deleted_row e b n) = False"
  "parent_id (deleted_row e b n) = parent_id n" "node_id (restored_row e n) = node_id n"
  "live (restored_row e n)" "status (deleted_row e b n) = status n" "status (restored_row e n) = status n"
  "parent_id (restored_row e n) = parent_id n"
  by (simp_all add: deleted_row_def restored_row_def live_def)

lemma delete_rows:
  assumes core: "core_ok d" and run: "delete_node_tx e i opts d = Inr d'"
  shows "\<exists>n. find_live i d = Some n
     \<and> (\<forall>j. map_option (\<lambda>m. m\<lparr>progress := 0\<rparr>) (find_node j d')
          = map_option (\<lambda>m. (if deletes (do_cascade opts) i m then deleted_row e (do_by opts) m else m)\<lparr>progress := 0\<rparr>)
              (find_node j d))
     \<and> (\<forall>j. cascade_entry (cascades d') j =
          (if \<exists>m. find_node j d = Some m \<and> deletes (do_cascade opts) i m
           then Some (cascade_stamp e (if j = i then do_root opts else i) (do_by opts) j)
           else cascade_entry (cascades d) j))
     \<and> (cascade_keys d \<longrightarrow> cascade_keys d')
     \<and> (\<exists>ev. events d' = events d @ [ev] \<and> ev_op ev = OpDelete \<and> ev_node ev = i)
     \<and> (\<forall>a. parent_id n \<noteq> [] \<and> walks_to d (parent_id n) a \<longrightarrow> rolled_up d' a)"
  using run
proof (cases rule: delete_stages)
  case (1 n d2 d3 d4)
  let ?by = "do_by opts" and ?c = "do_cascade opts"
  note d2 = 1(3) and d3 = 1(4)
  have s2: "step_ok d d2"
    unfolding d2 by (rule step_ok_trans[OF _ step_ok_cascades]) (simp add: update_live_def step_ok_plain)
  have s3: "step_ok d2 d3"
    unfolding d3 cascade_delete_def by (auto intro: step_ok_trans[OF step_ok_cascades step_ok_plain])
  have core3: "core_ok d3" using step_ok_trans[OF s2 s3] core by (rule step_ok_core)
  have core4: "core_ok d4" using step_ok_emit_for[OF 1(5)] core3 by (rule step_ok_core)
  note em = emit_event_log[OF 1(5)[unfolded emit_for_def] core_ok_facts(3)[OF core3]]
  note up = recalculate_parent_rows[OF 1(6) core_ok_facts(1)[OF core4]]
  have n: "n \<in> set (nodes d)" "node_id n = i" "live n" using find_live_Some[OF 1(1)] by auto
  have row2: "find_node j d2 = map_option (\<lambda>m. if deletes False i m then deleted_row e ?by m else m) (find_node j d)" for j
  proof -
    have "find_node j d2 = find_node j (update_live i (deleted_row e ?by) d)"
      using arg_cong[OF d2, of nodes] by (simp add: find_node_def)
    then show ?thesis by (simp add: node_updates row_simps deletes_def conj_commute)
  qed
  have row3: "find_node j d3 = map_option (\<lambda>m. if deletes ?c i m then deleted_row e ?by m else m) (find_node j d)" for j
  proof (cases ?c)
    case True
    have "find_node j d3 = map_option (\<lambda>m. if live_descendant i m then deleted_row e ?by m else m) (find_node j d2)"
      using True unfolding d3 cascade_delete_def by (simp add: row_simps) (simp add: find_node_def)
    then show ?thesis using True row2[of j]
      by (cases "find_node j d") (auto simp: deletes_def live_descendant_def deleted_row_fields dest: descendant_longer)
  qed (use row2 in \<open>simp add: d3\<close>)
  have nodes4: "nodes d4 = nodes d3" "cascades d4 = cascades d3" using em by (auto simp: same_content_def)
  have rows: "map_option (\<lambda>m. m\<lparr>progress := 0\<rparr>) (find_node j d')
      = map_option (\<lambda>m. (if deletes ?c i m then deleted_row e ?by m else m)\<lparr>progress := 0\<rparr>) (find_node j d)" for j
    using same_but_progress_node[OF up(1), of j] row3[of j] nodes4(1) by (simp add: find_node_def option.map_comp comp_def)
  have keys: "key_columns d4 = key_columns d"
    using nodes4(1) by (simp add: key_columns_def d3 d2 cascade_delete_def node_updates row_simps)
      (auto simp: deleted_row_fields)
  have entry2: "cascade_entry (cascades d2) j = (if j = i then Some (cascade_stamp e (do_root opts) ?by i)
      else cascade_entry (cascades d) j)" for j
    by (simp add: d2 cascade_entry_upsert cascade_stamp_def)
  have uniq: "find_node (node_id m) d = Some m" if "m \<in> set (nodes d)" for m
    by (rule find_node_unique[OF core_ok_facts(2)[OF core] that])
  have below: "j \<in> node_id ` set (filter (live_descendant i) (nodes d2))
      \<longleftrightarrow> j \<noteq> i \<and> (\<exists>m. find_node j d = Some m \<and> deletes True i m)" for j
  proof -
    have "set (filter (live_descendant i) (nodes d2)) = set (filter (live_descendant i) (nodes d))"
      by (auto simp: d2 node_updates row_simps live_descendant_def deleted_row_fields split: if_splits
          dest: descendant_longer)
    then show ?thesis
      using uniq find_node_Some[of j d] by (auto simp: live_descendant_def deletes_def dest: descendant_longer)
  qed
  have "cascade_entry (cascades d3) j = (if \<exists>m. find_node j d = Some m \<and> deletes ?c i m
           then Some (cascade_stamp e (if j = i then do_root opts else i) ?by j)
           else cascade_entry (cascades d) j)" for j
  proof (cases "j = i")
    case True
    have "deletes ?c i n" "find_node i d = Some n" using n uniq[OF n(1)] by (auto simp: deletes_def)
    then show ?thesis
      using entry2[of j] below[of j] True by (auto simp: d3 cascade_delete_def row_simps cascade_entry_fold)
  next
    case False
    then have "\<not> (\<exists>m. find_node j d = Some m \<and> deletes False i m)"
      using find_node_Some[of j d] by (auto simp: deletes_def)
    then show ?thesis
      using entry2[of j] below[of j] False by (cases ?c) (auto simp: d3 cascade_delete_def row_simps cascade_entry_fold)
  qed
  then have entries: "cascade_entry (cascades d') j = (if \<exists>m. find_node j d = Some m \<and> deletes ?c i m
           then Some (cascade_stamp e (if j = i then do_root opts else i) ?by j)
           else cascade_entry (cascades d) j)" for j
    using nodes4(2) same_but_progress_fields(3)[OF up(1)] by simp
  have "cascade_keys d \<Longrightarrow> cascade_keys d'"
    unfolding cascade_keys_def same_but_progress_fields(3)[OF up(1)] nodes4(2) d3 d2 cascade_delete_def
    by (auto simp: row_simps intro!: fold_upsert_keys upsert_keys)
  moreover have "\<exists>ev. events d' = events d @ [ev] \<and> ev_op ev = OpDelete \<and> ev_node ev = i"
  proof -
    have "events d3 = events d" by (simp add: d3 d2 cascade_delete_def node_updates row_simps)
    then show ?thesis using em same_but_progress_fields(4)[OF up(1)] by auto
  qed
  ultimately show ?thesis
    using 1(1) rows entries up(2) walks_to_cong[OF keys] by (intro exI[of _ n]) auto
qed

section \<open>What a restore does\<close>

definition restores :: "db \<Rightarrow> node \<Rightarrow> node \<Rightarrow> bool" where
  "restores d n m \<longleftrightarrow> node_id m = node_id n
     \<or> descendant_of (node_id n) (node_id m) \<and> \<not> live m
       \<and> (case trusted_root (cascades d) n of
            Some rt \<Rightarrow> trusted_root (cascades d) m = Some rt
          | None \<Rightarrow> trusted_root (cascades d) m = None \<and> deleted_at m = deleted_at n \<and> deleted_by m = deleted_by n)"

lemma restored_again: "restored_row e (restored_row e m) = restored_row e m"
  by (simp add: restored_row_def)

lemma restore_nodes_rows:
  "find_node j (restore_nodes e rs d) =
     map_option (\<lambda>m. if j \<in> fst ` set rs then restored_row e m else m) (find_node j d)"
  "cascades (restore_nodes e rs d) = filter (\<lambda>r. cd_node r \<notin> fst ` set rs) (cascades d)"
  "key_columns (restore_nodes e rs d) = key_columns d" "events (restore_nodes e rs d) = events d"
proof -
  have one: "find_node j (restore_node e i d) = map_option (\<lambda>m. if j = i then restored_row e m else m) (find_node j d)"
    "cascades (restore_node e i d) = filter (\<lambda>r. cd_node r \<noteq> i) (cascades d)"
    "key_columns (restore_node e i d) = key_columns d" "events (restore_node e i d) = events d"
    for i and d :: db
  proof -
    have "find_node j (d\<lparr>cascades := cs\<rparr>) = find_node j d" for cs by (simp add: find_node_def)
    then show "find_node j (restore_node e i d) = map_option (\<lambda>m. if j = i then restored_row e m else m) (find_node j d)"
      using find_node_Some[of j d] by (cases "find_node j d") (auto simp: restore_node_def node_updates row_simps)
    show "cascades (restore_node e i d) = filter (\<lambda>r. cd_node r \<noteq> i) (cascades d)"
      "key_columns (restore_node e i d) = key_columns d" "events (restore_node e i d) = events d"
      by (simp_all add: restore_node_def node_updates row_simps) (simp add: key_columns_def)
  qed
  show "find_node j (restore_nodes e rs d) =
     map_option (\<lambda>m. if j \<in> fst ` set rs then restored_row e m else m) (find_node j d)"
    unfolding restore_nodes_def
    by (induction rs arbitrary: d) (auto simp: one option.map_comp comp_def restored_again option.map_ident
        intro!: arg_cong2[of _ _ _ _ map_option])
  show "cascades (restore_nodes e rs d) = filter (\<lambda>r. cd_node r \<notin> fst ` set rs) (cascades d)"
    unfolding restore_nodes_def
    by (induction rs arbitrary: d) (auto simp: one intro!: filter_cong)
  show "key_columns (restore_nodes e rs d) = key_columns d" "events (restore_nodes e rs d) = events d"
    unfolding restore_nodes_def by (induction rs arbitrary: d) (auto simp: one)
qed

text \<open>A walk that does not pass an id leaves its rollup right.\<close>

lemma recalculate_keeps_rolled:
  assumes "recalculate_progress p d = Inr d'" "tree_ok d" "p \<noteq> []" "\<not> walks_to d p a" "rolled_up d a"
  shows "rolled_up d' a"
proof -
  note up = recalculate_progress_rolls_up[OF assms(1-3)]
  have same: "same_but_progress d d'" by (rule recalculate_progress_content[OF assms(1)])
  have "find_node a d' = find_node a d" using assms(4) by (rule up(2))
  moreover have "counted_children a d' = counted_children a d" if "a \<noteq> []"
  proof (rule counted_children_cong)
    show "unique_ids d" "unique_ids d'" "key_columns d' = key_columns d"
      using assms(2) same_but_progress_keys[OF same] same_but_progress_tree[OF same]
      by (auto intro: tree_ok_unique)
    fix c assume c: "c \<in> set (nodes d)" "parent_id c = a"
    then have "(node_id c, a) \<in> set (key_columns d)" by (auto simp: key_columns_def)
    then have "\<not> walks_to d p (node_id c)" using assms(4) that by (blast intro: walks_to.parent)
    then show "find_node (node_id c) d' = Some c"
      using up(2) find_node_unique[OF tree_ok_unique[OF assms(2)] c(1)] by simp
  qed
  moreover have "find_node [] d = None"
    using tree_ok_node[OF assms(2)] by (auto simp: find_node_def find_none_iff)
  ultimately show ?thesis using assms(5) by (cases "a = []") (auto simp: rolled_up_def)
qed

lemma restored_parents_rows:
  "recalculate_restored_parents seen rs d = Inr d' \<Longrightarrow> tree_ok d \<Longrightarrow>
   \<forall>p \<in> set seen. \<forall>a. walks_to d p a \<longrightarrow> rolled_up d a \<Longrightarrow>
   same_but_progress d d' \<and> (\<forall>p \<in> set seen \<union> snd ` set rs. p \<noteq> [] \<longrightarrow> (\<forall>a. walks_to d p a \<longrightarrow> rolled_up d' a))"
proof (induction seen rs d rule: recalculate_restored_parents.induct)
  case (2 seen r rs d)
  show ?case
  proof (cases "snd r = [] \<or> snd r \<in> set seen")
    case True
    with 2 show ?thesis by auto
  next
    case False
    then obtain d1 where d1: "recalculate_progress (snd r) d = Inr d1"
      and rest: "recalculate_restored_parents (snd r # seen) rs d1 = Inr d'"
      using "2.prems"(1) by (auto simp: bind_result_Inr)
    have ne: "snd r \<noteq> []" using False by simp
    have same: "same_but_progress d d1" by (rule recalculate_progress_content[OF d1])
    note keys = walks_to_cong[OF same_but_progress_keys[OF same]]
    have ok1: "tree_ok d1" using "2.prems"(2) same_but_progress_tree[OF same] by simp
    have inv: "\<forall>p \<in> set (snd r # seen). \<forall>a. walks_to d1 p a \<longrightarrow> rolled_up d1 a"
      using recalculate_keeps_rolled[OF d1 "2.prems"(2) ne] recalculate_progress_rolls_up(1)[OF d1 "2.prems"(2) ne]
        "2.prems"(3) by (fastforce simp: keys)
    from "2.IH"(2)[OF False rest ok1 inv] show ?thesis
      using same_but_progress_trans[OF same] by (auto simp: keys)
  qed
qed auto

lemma undelete_rows:
  assumes core: "core_ok d" and run: "undelete_node_tx e i d = Inr d'"
  shows "\<exists>n. find_node i d = Some n \<and> \<not> live n
     \<and> (\<forall>j. map_option (\<lambda>m. m\<lparr>progress := 0\<rparr>) (find_node j d')
          = map_option (\<lambda>m. (if restores d n m then restored_row e m else m)\<lparr>progress := 0\<rparr>) (find_node j d))
     \<and> cascades d' = filter (\<lambda>r. \<forall>m. find_node (cd_node r) d = Some m \<longrightarrow> \<not> restores d n m) (cascades d)
     \<and> events d' = events d
     \<and> (\<forall>m a. m \<in> set (nodes d) \<and> restores d n m \<and> parent_id m \<noteq> [] \<and> walks_to d (parent_id m) a \<longrightarrow> rolled_up d' a)"
proof -
  from run obtain t where t: "load_undelete_target i d = Inr t"
    and rec: "recalculate_restored_parents [] ((case ut_root t of
                 Some rt \<Rightarrow> select_recorded_cascade i rt d
               | None \<Rightarrow> select_unrecorded_cascade t d) @ [(i, ut_parent t)])
         (restore_nodes e ((case ut_root t of
                 Some rt \<Rightarrow> select_recorded_cascade i rt d
               | None \<Rightarrow> select_unrecorded_cascade t d) @ [(i, ut_parent t)]) d) = Inr d'"
    by (auto simp: undelete_node_tx_def Let_def bind_result_Inr)
  from t obtain n where found: "find (\<lambda>n. node_id n = i \<and> \<not> live n) (nodes d) = Some n"
    and t': "t = \<lparr>ut_id = i, ut_parent = parent_id n, ut_deleted_at = deleted_at n,
                  ut_deleted_by = deleted_by n, ut_root = trusted_root (cascades d) n\<rparr>"
    by (auto simp: load_undelete_target_def split: option.splits)
  have n: "n \<in> set (nodes d)" "node_id n = i" "\<not> live n" using found by (auto simp: find_Some_iff)
  have uniq: "find_node (node_id m) d = Some m" if "m \<in> set (nodes d)" for m
    by (rule find_node_unique[OF core_ok_facts(2)[OF core] that])
  define rs where "rs = (case ut_root t of Some rt \<Rightarrow> select_recorded_cascade i rt d
               | None \<Rightarrow> select_unrecorded_cascade t d) @ [(i, ut_parent t)]"
  have dead: "deleted_at m = deleted_at n \<Longrightarrow> \<not> live m" for m using n(3) by (simp add: live_def)
  have rs: "set rs = (\<lambda>m. (node_id m, parent_id m)) ` {m \<in> set (nodes d). restores d n m}"
  proof -
    have self: "m = n" if "m \<in> set (nodes d)" "node_id m = i" for m
      using uniq[OF that(1)] uniq[OF n(1)] that(2) n(2) by simp
    let ?f = "\<lambda>m. (node_id m, parent_id m)" and ?T = "trusted_root (cascades d)"
    define Q where "Q m \<longleftrightarrow> descendant_of i (node_id m) \<and> \<not> live m
        \<and> (case ?T n of Some rt \<Rightarrow> ?T m = Some rt
           | None \<Rightarrow> ?T m = None \<and> deleted_at m = deleted_at n \<and> deleted_by m = deleted_by n)" for m
    have restores: "restores d n m \<longleftrightarrow> node_id m = i \<or> Q m" for m
      by (simp add: restores_def n(2) Q_def)
    have "set rs = insert (i, parent_id n) (?f ` {m \<in> set (nodes d). Q m})"
    proof (cases "?T n")
      case None
      then have "(descendant_of i (node_id m) \<and> deleted_at m = deleted_at n \<and> deleted_by m = deleted_by n \<and> ?T m = None)
          = Q m" for m
        using dead[of m] by (simp add: Q_def) blast
      with None show ?thesis by (simp add: rs_def t' select_unrecorded_cascade_def)
    qed (simp add: rs_def t' select_recorded_cascade_def Q_def)
    also have "\<dots> = ?f ` (insert n {m \<in> set (nodes d). Q m})" using n(2) by simp
    also have "insert n {m \<in> set (nodes d). Q m} = {m \<in> set (nodes d). restores d n m}"
      using n(1,2) self unfolding restores by blast
    finally show ?thesis .
  qed
  have sel: "j \<in> fst ` set rs \<longleftrightarrow> restores d n m" if "find_node j d = Some m" for j m
  proof -
    have m: "m \<in> set (nodes d)" "node_id m = j" using find_node_Some[OF that] by auto
    have "m' = m" if "m' \<in> set (nodes d)" "node_id m' = j" for m'
      using uniq[OF that(1)] uniq[OF m(1)] that(2) m(2) by simp
    note only = this
    have ids: "fst ` set rs = node_id ` {m \<in> set (nodes d). restores d n m}" by (simp add: rs image_image)
    show ?thesis unfolding ids
    proof
      assume "j \<in> node_id ` {m \<in> set (nodes d). restores d n m}"
      then obtain m' where m': "m' \<in> set (nodes d)" "restores d n m'" "node_id m' = j" by blast
      from only[OF m'(1,3)] m'(2) show "restores d n m" by simp
    next
      assume "restores d n m"
      with m show "j \<in> node_id ` {m \<in> set (nodes d). restores d n m}" by (intro image_eqI[of _ _ m]) simp_all
    qed
  qed
  let ?d1 = "restore_nodes e rs d"
  note r = restore_nodes_rows[where e = e and rs = rs and d = d]
  have "core_ok ?d1" using step_ok_restore_nodes core by (rule step_ok_core)
  then have ok1: "tree_ok ?d1" by (rule core_ok_facts(1))
  have rec': "recalculate_restored_parents [] rs ?d1 = Inr d'" using rec by (simp add: rs_def)
  note up = restored_parents_rows[OF rec' ok1, simplified]
  have same: "same_but_progress ?d1 d'" using up by blast
  have rows: "map_option (\<lambda>m. m\<lparr>progress := 0\<rparr>) (find_node j d')
      = map_option (\<lambda>m. (if restores d n m then restored_row e m else m)\<lparr>progress := 0\<rparr>) (find_node j d)" for j
    using same_but_progress_node[OF same, of j] r(1)[of j] sel[of j] by (cases "find_node j d") auto
  have casc: "cascades d' = filter (\<lambda>r. \<forall>m. find_node (cd_node r) d = Some m \<longrightarrow> \<not> restores d n m) (cascades d)"
  proof -
    have "j \<notin> fst ` set rs \<longleftrightarrow> (\<forall>m. find_node j d = Some m \<longrightarrow> \<not> restores d n m)" for j
    proof (cases "find_node j d")
      case None
      then have "\<forall>m \<in> set (nodes d). node_id m \<noteq> j" using uniq by fastforce
      then have "j \<notin> fst ` set rs" by (auto simp: rs)
      with None show ?thesis by simp
    next
      case (Some m)
      with sel[OF Some] show ?thesis by simp
    qed
    then show ?thesis using same_but_progress_fields(3)[OF same] r(2) by simp
  qed
  have "rolled_up d' a" if m: "m \<in> set (nodes d)" "restores d n m" "parent_id m \<noteq> []" "walks_to d (parent_id m) a" for m a
  proof -
    have "snd ` set rs = parent_id ` {m \<in> set (nodes d). restores d n m}" by (simp add: rs image_image)
    then have "parent_id m \<in> snd ` set rs" using m(1,2) by blast
    then show ?thesis using up m(3,4) walks_to_cong[OF r(3)] by auto
  qed
  then show ?thesis
    using n uniq[OF n(1)] rows casc same_but_progress_fields(4)[OF same] r(4) by (intro exI[of _ n]) auto
qed

lemma same_tables_cascade_keys: "same_tables d d' \<Longrightarrow> cascade_keys d' = cascade_keys d"
  by (simp add: cascade_keys_def same_tables_views)

lemma delete_opts_rows:
  assumes core: "core_ok d" and run: "delete_node_opts e i opts d = Inr d'"
  shows "\<exists>n. find_live i d = Some n
     \<and> (\<forall>j. map_option (\<lambda>m. m\<lparr>progress := 0\<rparr>) (find_node j d')
          = map_option (\<lambda>m. (if deletes (do_cascade opts) i m then deleted_row e (do_by opts) m else m)\<lparr>progress := 0\<rparr>)
              (find_node j d))
     \<and> (\<forall>j. cascade_entry (cascades d') j =
          (if \<exists>m. find_node j d = Some m \<and> deletes (do_cascade opts) i m
           then Some (cascade_stamp e (if j = i then do_root opts else i) (do_by opts) j)
           else cascade_entry (cascades d) j))
     \<and> (cascade_keys d \<longrightarrow> cascade_keys d')
     \<and> (\<exists>ev. events d' = events d @ [ev] \<and> ev_op ev = OpDelete \<and> ev_node ev = i)
     \<and> (\<forall>a. parent_id n \<noteq> [] \<and> walks_to d (parent_id n) a \<longrightarrow> rolled_up d' a)"
  using run[unfolded delete_node_opts_def]
proof (rule with_history_ok)
  fix d0 d1 assume same: "same_tables d d0" and body: "delete_node_tx e i opts d0 = Inr d1"
    and last: "same_tables d1 d'"
  note views = same_tables_views[OF same] same_tables_views[OF last] same_tables_cascade_keys[OF same]
    same_tables_cascade_keys[OF last]
  have "core_ok d0" using step_ok_tables[OF same] core by (rule step_ok_core)
  note rows = delete_rows[OF this body, unfolded views]
  show ?thesis unfolding views by (rule rows)
qed

text \<open>
  C25. A delete removes what it says. It succeeds only on a live node; the node, and with cascade every
  live descendant, gets the deletion stamp, and no other column and no other row changes but
  for progress: in particular no status changes, so a task that a deleted task blocks stays
  blocked. One delete event is recorded whatever the cascade removed, and every ancestor's
  progress is its rollup again.
\<close>
theorem delete_node_correct:
  assumes "core_ok d" and "delete_node e i cascade b d = Inr d'"
  shows "\<exists>n. find_live i d = Some n
     \<and> (\<forall>j. map_option (\<lambda>m. m\<lparr>progress := 0\<rparr>) (find_node j d')
          = map_option (\<lambda>m. (if live m \<and> (j = i \<or> cascade \<and> descendant_of i j)
                              then deleted_row e b m else m)\<lparr>progress := 0\<rparr>) (find_node j d))
     \<and> (\<forall>j. map_option status (find_node j d') = map_option status (find_node j d))
     \<and> (\<exists>ev. events d' = events d @ [ev] \<and> ev_op ev = OpDelete \<and> ev_node ev = i)
     \<and> (\<forall>a. parent_id n \<noteq> [] \<and> walks_to d (parent_id n) a \<longrightarrow> rolled_up d' a)"
proof -
  from delete_opts_rows[OF assms(1) assms(2)[unfolded delete_node_def], unfolded delete_options.select_convs]
  obtain n where n: "find_live i d = Some n"
    and rows: "\<And>j. map_option (\<lambda>m. m\<lparr>progress := 0\<rparr>) (find_node j d')
          = map_option (\<lambda>m. (if deletes cascade i m then deleted_row e b m else m)\<lparr>progress := 0\<rparr>) (find_node j d)"
    and rest: "(\<exists>ev. events d' = events d @ [ev] \<and> ev_op ev = OpDelete \<and> ev_node ev = i)
     \<and> (\<forall>a. parent_id n \<noteq> [] \<and> walks_to d (parent_id n) a \<longrightarrow> rolled_up d' a)"
    by metis
  have "map_option (\<lambda>m. m\<lparr>progress := 0\<rparr>) (find_node j d')
      = map_option (\<lambda>m. (if live m \<and> (j = i \<or> cascade \<and> descendant_of i j)
                          then deleted_row e b m else m)\<lparr>progress := 0\<rparr>) (find_node j d)" for j
    using rows[of j] find_node_Some[of j d] by (cases "find_node j d") (auto simp: deletes_def)
  moreover have "map_option status (find_node j d') = map_option status (find_node j d)" for j
  proof -
    have "map_option status (map_option (\<lambda>m. m\<lparr>progress := 0\<rparr>) x) = map_option status x" for x
      by (cases x) simp_all
    then have "map_option status (find_node j d')
        = map_option status (map_option (\<lambda>m. (if deletes cascade i m then deleted_row e b m else m)\<lparr>progress := 0\<rparr>)
            (find_node j d))"
      using rows[of j] by metis
    then show ?thesis by (cases "find_node j d") (auto simp: deleted_row_def split: if_splits)
  qed
  ultimately show ?thesis using n rest by blast
qed

lemma undelete_opts_rows:
  assumes "core_ok d" and "undelete_node e i d = Inr d'"
  shows "\<exists>n. find_node i d = Some n \<and> \<not> live n
     \<and> (\<forall>j. map_option (\<lambda>m. m\<lparr>progress := 0\<rparr>) (find_node j d')
          = map_option (\<lambda>m. (if restores d n m then restored_row e m else m)\<lparr>progress := 0\<rparr>) (find_node j d))
     \<and> events d' = events d
     \<and> (\<forall>m a. m \<in> set (nodes d) \<and> restores d n m \<and> parent_id m \<noteq> [] \<and> walks_to d (parent_id m) a
          \<longrightarrow> rolled_up d' a)"
  using assms(2)[unfolded undelete_node_def]
proof (rule with_history_ok)
  fix d0 d1 assume same: "same_tables d d0" and run: "undelete_node_tx e i d0 = Inr d1"
    and last: "same_tables d1 d'"
  note views = same_tables_views[OF same] same_tables_views[OF last]
  have core0: "core_ok d0" using step_ok_tables[OF same] assms(1) by (rule step_ok_core)
  have restores: "restores d0 = restores d" by (intro ext) (simp only: restores_def views)
  note rows = undelete_rows[OF core0 run, unfolded views restores]
  then show ?thesis unfolding views by blast
qed


definition task_view :: "node \<Rightarrow> node" where
  "task_view m = m\<lparr>progress := 0, updated_at := 0, deleted_by := None\<rparr>"

lemma task_view_progress: "m\<lparr>progress := 0\<rparr> = m'\<lparr>progress := 0\<rparr> \<Longrightarrow> task_view m = task_view m'"
proof -
  have "task_view x = (x\<lparr>progress := 0\<rparr>)\<lparr>updated_at := 0, deleted_by := None\<rparr>" for x
    by (simp add: task_view_def)
  then show "m\<lparr>progress := 0\<rparr> = m'\<lparr>progress := 0\<rparr> \<Longrightarrow> task_view m = task_view m'" by metis
qed

lemma task_view_restored: "live m \<Longrightarrow> task_view (restored_row e' (deleted_row e b m)) = task_view m"
  by (cases m) (simp add: task_view_def restored_row_def deleted_row_def live_def)

lemma same_but_progress_stamp:
  assumes "m\<lparr>progress := 0\<rparr> = m'\<lparr>progress := 0\<rparr>"
  shows "node_id m = node_id m'" "deleted_at m = deleted_at m'" "deleted_by m = deleted_by m'" "live m = live m'"
    "trusts r m = trusts r m'"
proof -
  show id: "node_id m = node_id m'" and at: "deleted_at m = deleted_at m'" and "by": "deleted_by m = deleted_by m'"
    using arg_cong[OF assms, of node_id] arg_cong[OF assms, of deleted_at] arg_cong[OF assms, of deleted_by]
    by simp_all
  then show "live m = live m'" "trusts r m = trusts r m'" by (simp_all add: live_def trusts_def)
qed

lemma restored_row_progress:
  "m\<lparr>progress := 0\<rparr> = m'\<lparr>progress := 0\<rparr> \<Longrightarrow> (restored_row e m)\<lparr>progress := 0\<rparr> = (restored_row e m')\<lparr>progress := 0\<rparr>"
proof -
  have "(restored_row e x)\<lparr>progress := 0\<rparr> = restored_row e (x\<lparr>progress := 0\<rparr>)" for x by (simp add: restored_row_def)
  then show "m\<lparr>progress := 0\<rparr> = m'\<lparr>progress := 0\<rparr> \<Longrightarrow> (restored_row e m)\<lparr>progress := 0\<rparr> = (restored_row e m')\<lparr>progress := 0\<rparr>"
    by simp
qed

text \<open>After a cascade from an id, the deletes a restore of the id undoes are exactly its own.\<close>

lemma restores_own_cascade:
  assumes "cascade_keys d" "cascade_keys d1" "find_live i d = Some n" "unique_ids d"
    and del: "\<And>j. map_option (\<lambda>m. m\<lparr>progress := 0\<rparr>) (find_node j d1)
          = map_option (\<lambda>m. (if deletes True i m then deleted_row e b m else m)\<lparr>progress := 0\<rparr>) (find_node j d)"
    and entry: "\<And>j. cascade_entry (cascades d1) j =
          (if \<exists>m. find_node j d = Some m \<and> deletes True i m then Some (cascade_stamp e i b j)
           else cascade_entry (cascades d) j)"
    and n1: "find_node i d1 = Some n1" and m: "find_node j d = Some m" "find_node j d1 = Some m1"
    and earlier: "descendant_of i j \<and> \<not> live m \<longrightarrow> trusted_root (cascades d) m \<noteq> Some i"
  shows "restores d1 n1 m1 \<longleftrightarrow> deletes True i m"
proof -
  have trusted: "trusted_root (cascades d1) k1 = Some i" "\<not> live k1" "node_id k1 = q"
    if "find_node q d = Some k" "find_node q d1 = Some k1" "deletes True i k" for q k k1
  proof -
    have "k1\<lparr>progress := 0\<rparr> = (deleted_row e b k)\<lparr>progress := 0\<rparr>" using del[of q] that by simp
    note same_but_progress_stamp[OF this]
    moreover have "cascade_entry (cascades d1) q = Some (cascade_stamp e i b q)" using entry[of q] that by auto
    moreover show id: "node_id k1 = q" using find_node_Some[OF that(2)] by simp
    ultimately show "trusted_root (cascades d1) k1 = Some i" "\<not> live k1"
      using assms(2) by (simp_all add: trusted_root_entry cascade_keys_def trusts_def cascade_stamp_def deleted_row_def live_def)
  qed
  have n: "find_node i d = Some n" "live n" "node_id n = i"
    using find_live_Some[OF assms(3)] find_live_find_node[OF assms(4), of i] assms(3)
    by (auto split: option.splits if_splits)
  then have "deletes True i n" by (simp add: deletes_def)
  note root = trusted[OF n(1) n1 this]
  have ids: "node_id m = j" "node_id m1 = j" using find_node_Some m by auto
  show ?thesis
  proof (cases "deletes True i m")
    case True
    from trusted[OF m True] root True show ?thesis by (auto simp: restores_def deletes_def ids)
  next
    case False
    then have "m1\<lparr>progress := 0\<rparr> = m\<lparr>progress := 0\<rparr>" using del[of j] m by simp
    note st = same_but_progress_stamp[OF this]
    have "j \<noteq> i" using False n m(1) by (auto simp: deletes_def)
    have "cascade_entry (cascades d1) j = cascade_entry (cascades d) j" using entry[of j] m False by auto
    then have "trusted_root (cascades d1) m1 = trusted_root (cascades d) m"
      using assms(1,2) st ids by (auto simp: trusted_root_entry cascade_keys_def split: option.splits)
    then show ?thesis using False root \<open>j \<noteq> i\<close> earlier st(4) by (auto simp: restores_def ids)
  qed
qed

text \<open>
  C7. Deleting a subtree and restoring its root is the identity on the tasks: every row is as it was
  before but for progress, the time of its last update and a stale deleting agent, provided no
  task that was already deleted is on record as removed by a delete of the same root. Tasks of
  the subtree that were deleted before stay deleted.
\<close>
theorem delete_undelete_roundtrip:
  assumes "core_ok d" and "cascade_keys d"
    and "\<forall>m \<in> set (nodes d). descendant_of i (node_id m) \<and> \<not> live m \<longrightarrow> trusted_root (cascades d) m \<noteq> Some i"
    and "delete_node e i True b d = Inr d1" and "undelete_node e' i d1 = Inr d2"
  shows "\<forall>j. map_option task_view (find_node j d2) = map_option task_view (find_node j d)"
proof
  fix j
  from delete_opts_rows[OF assms(1) assms(4)[unfolded delete_node_def], unfolded delete_options.select_convs]
  obtain n where n: "find_live i d = Some n"
    and del: "\<And>j. map_option (\<lambda>m. m\<lparr>progress := 0\<rparr>) (find_node j d1)
          = map_option (\<lambda>m. (if deletes True i m then deleted_row e b m else m)\<lparr>progress := 0\<rparr>) (find_node j d)"
    and entry: "\<And>j. cascade_entry (cascades d1) j =
          (if \<exists>m. find_node j d = Some m \<and> deletes True i m then Some (cascade_stamp e (if j = i then i else i) b j)
           else cascade_entry (cascades d) j)"
    and keys: "cascade_keys d1"
    using assms(2) by metis
  have core1: "core_ok d1" using step_ok_delete_node[OF assms(4)] assms(1) by (rule step_ok_core)
  from undelete_opts_rows[OF core1 assms(5)] obtain n1 where n1: "find_node i d1 = Some n1"
    and und: "\<forall>j. map_option (\<lambda>m. m\<lparr>progress := 0\<rparr>) (find_node j d2)
          = map_option (\<lambda>m. (if restores d1 n1 m then restored_row e' m else m)\<lparr>progress := 0\<rparr>) (find_node j d1)"
    by (elim exE conjE)
  show "map_option task_view (find_node j d2) = map_option task_view (find_node j d)"
  proof (cases "find_node j d")
    case None
    then show ?thesis using del[of j] und[rule_format, of j] by simp
  next
    case (Some m)
    then obtain m1 where m1: "find_node j d1 = Some m1"
      "m1\<lparr>progress := 0\<rparr> = (if deletes True i m then deleted_row e b m else m)\<lparr>progress := 0\<rparr>"
      using del[of j] by auto
    then obtain m2 where m2: "find_node j d2 = Some m2"
      "m2\<lparr>progress := 0\<rparr> = (if restores d1 n1 m1 then restored_row e' m1 else m1)\<lparr>progress := 0\<rparr>"
      using und[rule_format, of j] by auto
    have "descendant_of i j \<and> \<not> live m \<longrightarrow> trusted_root (cascades d) m \<noteq> Some i"
      using assms(3) find_node_Some[OF Some] by auto
    note own = restores_own_cascade[OF assms(2) keys n core_ok_facts(2)[OF assms(1)] del
        entry[unfolded if_cancel] n1 Some m1(1) this]
    have "task_view m2 = task_view m"
    proof (cases "deletes True i m")
      case True
      then have "m2\<lparr>progress := 0\<rparr> = (restored_row e' (deleted_row e b m))\<lparr>progress := 0\<rparr>"
        using m1(2) m2(2) own restored_row_progress[of m1 "deleted_row e b m" e'] by simp
      from task_view_progress[OF this] show ?thesis using True by (simp add: task_view_restored deletes_def)
    next
      case False
      then show ?thesis using m1(2) m2(2) own by (intro task_view_progress) simp
    qed
    then show ?thesis using Some m2(1) by simp
  qed
qed

section \<open>An example subtree\<close>

text \<open>A parent with one live child, and one child that was deleted on its own before.\<close>

definition deletion_example :: db where
  "deletion_example = empty_db\<lparr>nodes := [row ''P-1'' [] StatusOpen, row ''P-1.1'' ''P-1'' StatusInProgress,
       (row ''P-1.2'' ''P-1'' StatusOpen)\<lparr>deleted_at := Some 3, deleted_by := Some ''bob''\<rparr>],
     cascades := [\<lparr>cd_node = ''P-1.2'', cd_root = ''P-1.2'', cd_deleted_at = 3, cd_deleted_by = Some ''bob''\<rparr>]\<rparr>"

lemma deletion_example_ok: "core_ok deletion_example" "cascade_keys deletion_example"
  "\<forall>m \<in> set (nodes deletion_example). descendant_of ''P-1'' (node_id m) \<and> \<not> live m \<longrightarrow>
     trusted_root (cascades deletion_example) m \<noteq> Some ''P-1''"
  by (rule no_deps_core_ok) code_simp+

definition deleted_example :: db where
  "deleted_example = (case delete_node epoch_env ''P-1'' True ''ann'' deletion_example of Inl _ \<Rightarrow> empty_db | Inr d \<Rightarrow> d)"

lemma deleted_example: "delete_node epoch_env ''P-1'' True ''ann'' deletion_example = Inr deleted_example"
proof -
  have "\<not> isl (delete_node epoch_env ''P-1'' True ''ann'' deletion_example)" by code_simp
  then show ?thesis by (auto simp: deleted_example_def split: sum.splits)
qed

lemma deleted_example_restores:
  "\<exists>d2. undelete_node epoch_env ''P-1'' deleted_example = Inr d2"
proof -
  have "\<not> isl (undelete_node epoch_env ''P-1'' deleted_example)" by code_simp
  then show ?thesis by (rule result_cases)
qed

theorem delete_node_correct_witness:
  "map_option live (find_node ''P-1'' deleted_example) = Some False
   \<and> map_option status (find_node ''P-1.1'' deleted_example) = Some StatusInProgress"
proof -
  have d: "find_node ''P-1'' deletion_example = Some (row ''P-1'' [] StatusOpen)"
    "find_node ''P-1.1'' deletion_example = Some (row ''P-1.1'' ''P-1'' StatusInProgress)" by code_simp+
  from delete_node_correct[OF deletion_example_ok(1) deleted_example] have
    rows: "\<forall>j. map_option (\<lambda>m. m\<lparr>progress := 0\<rparr>) (find_node j deleted_example)
          = map_option (\<lambda>m. (if live m \<and> (j = ''P-1'' \<or> True \<and> descendant_of ''P-1'' j)
                              then deleted_row epoch_env ''ann'' m else m)\<lparr>progress := 0\<rparr>) (find_node j deletion_example)"
    and st: "\<forall>j. map_option status (find_node j deleted_example) = map_option status (find_node j deletion_example)"
    by blast+
  from rows[rule_format, of "''P-1''"] obtain m where m: "find_node ''P-1'' deleted_example = Some m"
    "m\<lparr>progress := 0\<rparr> = (deleted_row epoch_env ''ann'' (row ''P-1'' [] StatusOpen))\<lparr>progress := 0\<rparr>"
    by (auto simp: d live_def row_def)
  then have "\<not> live m" using same_but_progress_stamp(4)[OF m(2)] by (simp add: deleted_row_fields)
  then show ?thesis using m(1) st d(2) by (simp add: row_def)
qed


theorem delete_undelete_roundtrip_witness:
  "\<exists>d2. undelete_node epoch_env ''P-1'' deleted_example = Inr d2
      \<and> map_option live (find_node ''P-1.1'' d2) = Some True \<and> map_option live (find_node ''P-1.2'' d2) = Some False"
proof -
  obtain d2 where d2: "undelete_node epoch_env ''P-1'' deleted_example = Inr d2"
    using deleted_example_restores by blast
  have view: "map_option live x = map_option live (map_option task_view x)" for x
    by (cases x) (simp_all add: task_view_def live_def)
  have "map_option live (find_node j d2) = map_option live (find_node j deletion_example)" for j
    using delete_undelete_roundtrip[OF deletion_example_ok deleted_example d2]
      view[of "find_node j d2"] view[of "find_node j deletion_example"] by simp
  moreover have "map_option live (find_node ''P-1.1'' deletion_example) = Some True"
    "map_option live (find_node ''P-1.2'' deletion_example) = Some False" by code_simp+
  ultimately have "map_option live (find_node ''P-1.1'' d2) = Some True"
    "map_option live (find_node ''P-1.2'' d2) = Some False" by metis+
  with d2 show ?thesis by blast
qed

end
