(* ===== verification/Updates.thy ===== *)
theory Updates
  imports Transitions
begin

text \<open>
  Partial updates of a task (\<open>internal/store/sqlite/node_update.go\<close>, \<open>NodeUpdate\<close> of
  \<open>internal/store/store.go\<close> and \<open>UpdateNode\<close> of \<open>internal/service/node_service.go\<close>). The content
  hash, a column the model's node does not carry, is not modelled; the agent state is one of the
  source's constants. The lemmas give the exact effect of an update on the row and the events
  it records, and show that the status of an update does not go through the status machine.
\<close>

section \<open>The update\<close>

record node_update =
  up_issue_type :: "issue_type option"
  up_title :: "string option"
  up_description :: "string option"
  up_prompt :: "string option"
  up_acceptance :: "string option"
  up_status :: "status option"
  up_priority :: "int option"
  up_labels :: "string list option"
  up_assignee :: "string option"
  up_agent_state :: "agent_state option"

fun agent_state_text :: "agent_state \<Rightarrow> string" where
  "agent_state_text AgentStateIdle = ''idle''"
| "agent_state_text AgentStateWorking = ''working''"
| "agent_state_text AgentStateStuck = ''stuck''"
| "agent_state_text AgentStateDone = ''done''"
| "agent_state_text (AgentStateOther s) = s"

definition keep :: "'a option \<Rightarrow> 'a \<Rightarrow> 'a" where
  "keep new old = (case new of None \<Rightarrow> old | Some v \<Rightarrow> v)"

text \<open>The \<open>SET\<close> clauses of \<open>buildUpdateClauses\<close>; an assignee is stored as its text, also the empty one.\<close>

definition update_clauses :: "node_update \<Rightarrow> node \<Rightarrow> node" where
  "update_clauses u n =
     n\<lparr>issue_kind := keep (up_issue_type u) (issue_kind n), title := keep (up_title u) (title n),
       description := keep (up_description u) (description n), prompt := keep (up_prompt u) (prompt n),
       acceptance := keep (up_acceptance u) (acceptance n), status := keep (up_status u) (status n),
       priority := keep (up_priority u) (priority n), labels := keep (up_labels u) (labels n),
       assignee := keep (map_option Some (up_assignee u)) (assignee n),
       agent_state := keep (map_option Some (up_agent_state u)) (agent_state n)\<rparr>"

definition no_clauses :: "node_update \<Rightarrow> bool" where
  "no_clauses u \<longleftrightarrow> up_issue_type u = None \<and> up_title u = None \<and> up_description u = None
     \<and> up_prompt u = None \<and> up_acceptance u = None \<and> up_status u = None \<and> up_priority u = None
     \<and> up_labels u = None \<and> up_assignee u = None \<and> up_agent_state u = None"

definition field_event :: "string \<Rightarrow> ('a \<Rightarrow> field_value) \<Rightarrow> 'a option \<Rightarrow> (op_type \<times> payload) list" where
  "field_event name f v = (case v of None \<Rightarrow> [] | Some x \<Rightarrow> [(OpUpdateField, UpdateFieldPayload name (f x))])"

definition plain_update_fields :: "node_update \<Rightarrow> (op_type \<times> payload) list" where
  "plain_update_fields u =
     field_event ''issue_type'' (\<lambda>k. FieldText (issue_type_text k)) (up_issue_type u)
     @ field_event ''title'' FieldText (up_title u)
     @ field_event ''description'' FieldText (up_description u)
     @ field_event ''status'' (\<lambda>s. FieldText (status_text s)) (up_status u)
     @ field_event ''priority'' FieldInt (up_priority u)
     @ field_event ''labels'' FieldTexts (up_labels u)
     @ field_event ''assignee'' FieldText (up_assignee u)
     @ field_event ''agent_state'' (\<lambda>s. FieldText (agent_state_text s)) (up_agent_state u)"

definition update_events :: "node_update \<Rightarrow> (op_type \<times> payload) list" where
  "update_events u =
     (case up_acceptance u of None \<Rightarrow> [] | Some a \<Rightarrow> [(OpSetAcceptance, SetAcceptancePayload a)])
     @ (case up_prompt u of None \<Rightarrow> [] | Some p \<Rightarrow> [(OpSetPrompt, SetPromptPayload p)])
     @ plain_update_fields u"

definition emit_update_events :: "env \<Rightarrow> string \<Rightarrow> node_update \<Rightarrow> transaction" where
  "emit_update_events e i u = fold_result (\<lambda>(op, pl). emit_for e i op [] pl) (update_events u)"

definition execute_update :: "env \<Rightarrow> string \<Rightarrow> node_update \<Rightarrow> transaction" where
  "execute_update e i u d =
     (if find_live i d = None then Inl ErrNotFound
      else if no_clauses u then Inr d
      else emit_update_events e i u
             (update_live i (\<lambda>n. (update_clauses u n)\<lparr>updated_at := now_second e\<rparr>) d))"

definition update_node :: "env \<Rightarrow> string \<Rightarrow> node_update \<Rightarrow> transaction" where
  "update_node e i u = with_history e (local_scope i []) (execute_update e i u)"

text \<open>The service checks the assignee (\<open>validateAgentID\<close>, an argument), the issue type and the title.\<close>

definition service_update_node ::
  "env \<Rightarrow> (string \<Rightarrow> unit result) \<Rightarrow> string \<Rightarrow> node_update \<Rightarrow> transaction" where
  "service_update_node e validate_agent_id i u d =
     bind_result (case up_assignee u of None \<Rightarrow> Inr () | Some a \<Rightarrow> validate_agent_id a) (\<lambda>_.
     bind_result (case up_issue_type u of None \<Rightarrow> Inr () | Some k \<Rightarrow> validate_issue_type k) (\<lambda>_.
     bind_result (case up_title u of None \<Rightarrow> Inr ()
                  | Some t \<Rightarrow> if t = [] \<or> length t > max_title_length then Inl ErrInvalidInput else Inr ()) (\<lambda>_.
     update_node e i u d)))"

section \<open>What an update does\<close>

lemma emit_fold:
  "fold_result (\<lambda>(op, pl). emit_for e i op a pl) xs d = Inr d' \<Longrightarrow> log_ok d \<Longrightarrow>
   same_content d d' \<and> log_ok d'
   \<and> (\<exists>evs. events d' = events d @ evs \<and> map (\<lambda>ev. (ev_op ev, ev_payload ev)) evs = xs
        \<and> (\<forall>ev \<in> set evs. ev_node ev = i))"
proof (induction xs arbitrary: d)
  case (Cons x xs)
  obtain op pl where x: "x = (op, pl)" by (cases x)
  from Cons.prems(1) obtain d1 where one: "emit_for e i op a pl d = Inr d1"
    and rest: "fold_result (\<lambda>(op, pl). emit_for e i op a pl) xs d1 = Inr d'"
    by (auto simp: x bind_result_Inr)
  obtain ev where
    ev: "events d1 = events d @ [ev]" "same_content d d1" "log_ok d1" "ev_node ev = i" "ev_op ev = op" "ev_payload ev = pl"
    using emit_event_log[OF one[unfolded emit_for_def] Cons.prems(2), unfolded emit_params.select_convs] by blast
  from Cons.IH[OF rest ev(3)] obtain evs where "same_content d1 d'" "log_ok d'" "events d' = events d1 @ evs"
    "map (\<lambda>ev. (ev_op ev, ev_payload ev)) evs = xs" "\<forall>ev \<in> set evs. ev_node ev = i"
    by blast
  then show ?case
    using ev same_content_trans[OF ev(2)] by (intro conjI exI[of _ "ev # evs"]) (simp_all add: x)
qed simp

definition updated_row :: "env \<Rightarrow> node_update \<Rightarrow> node \<Rightarrow> node" where
  "updated_row e u n = (update_clauses u n)\<lparr>updated_at := now_second e\<rparr>"

lemma keeps_key_updated [simp, intro]: "keeps_key (updated_row e u)"
  by (simp add: keeps_key_def updated_row_def update_clauses_def)

lemma no_clauses_events: "no_clauses u \<Longrightarrow> update_events u = []"
  by (simp add: no_clauses_def update_events_def plain_update_fields_def field_event_def)

lemma execute_update_rows:
  assumes "execute_update e i u d = Inr d'" "log_ok d" "unique_ids d"
  shows "\<exists>n. find_live i d = Some n
     \<and> (\<forall>j. find_node j d' = (if j = i \<and> \<not> no_clauses u then Some (updated_row e u n) else find_node j d))
     \<and> (\<exists>evs. events d' = events d @ evs \<and> map (\<lambda>ev. (ev_op ev, ev_payload ev)) evs = update_events u
          \<and> (\<forall>ev \<in> set evs. ev_node ev = i))"
proof -
  obtain n where n: "find_live i d = Some n"
    using assms(1) by (cases "find_live i d") (auto simp: execute_update_def)
  then have row: "find_node i d = Some n" "live n" "node_id n = i"
    using find_live_Some[OF n] find_live_find_node[OF assms(3), of i] by (auto split: option.splits if_splits)
  show ?thesis
  proof (cases "no_clauses u")
    case True
    then show ?thesis using assms(1) n no_clauses_events[OF True] by (auto simp: execute_update_def)
  next
    case False
    let ?d1 = "update_live i (updated_row e u) d"
    have run: "fold_result (\<lambda>(op, pl). emit_for e i op [] pl) (update_events u) ?d1 = Inr d'"
      using assms(1) n False
      by (simp add: execute_update_def emit_update_events_def updated_row_def[abs_def])
    have "log_ok ?d1" using assms(2) by (simp add: update_live_def log_ok_update_where)
    note em = emit_fold[OF run this]
    have "find_node j d' = (if j = i then Some (updated_row e u n) else find_node j d)" for j
    proof -
      have "find_node j d' = find_node j ?d1" using em same_content_find(1) by blast
      also have "\<dots> = map_option (\<lambda>m. if node_id m = i \<and> live m then updated_row e u m else m) (find_node j d)"
        by (simp add: node_updates row_simps)
      also have "\<dots> = (if j = i then Some (updated_row e u n) else find_node j d)"
      proof (cases "j = i")
        case True
        then show ?thesis by (simp add: row)
      next
        case False
        then show ?thesis
        proof (cases "find_node j d")
          case (Some m)
          then have "node_id m = j" by (simp add: find_node_Some)
          with False Some show ?thesis by simp
        qed simp
      qed
      finally show ?thesis .
    qed
    moreover have "events ?d1 = events d" by (simp add: update_live_def row_simps)
    ultimately show ?thesis using em n False by auto
  qed
qed

lemma update_node_rows:
  assumes "core_ok d" and "update_node e i u d = Inr d'"
  shows "\<exists>n. find_live i d = Some n
     \<and> (\<forall>j. find_node j d' = (if j = i \<and> \<not> no_clauses u then Some (updated_row e u n) else find_node j d))
     \<and> (\<exists>evs. events d' = events d @ evs \<and> map (\<lambda>ev. (ev_op ev, ev_payload ev)) evs = update_events u
          \<and> (\<forall>ev \<in> set evs. ev_node ev = i))"
  using assms(2)[unfolded update_node_def]
proof (rule with_history_ok)
  fix d0 d1 assume same: "same_tables d d0" and run: "execute_update e i u d0 = Inr d1"
    and last: "same_tables d1 d'"
  note views = same_tables_views[OF same] same_tables_views[OF last]
  have core0: "core_ok d0" using step_ok_tables[OF same] assms(1) by (rule step_ok_core)
  note rows = execute_update_rows[OF run core_ok_facts(3)[OF core0] core_ok_facts(2)[OF core0], unfolded views]
  show ?thesis unfolding views by (rule rows)
qed

text \<open>An update without a status is a step like any other.\<close>

lemma step_ok_execute_update:
  assumes "execute_update e i u d = Inr d'" "up_status u = None"
  shows "step_ok d d'"
proof (cases "no_clauses u")
  case False
  let ?f = "\<lambda>n. (update_clauses u n)\<lparr>updated_at := now_second e\<rparr>"
  have "plain_update ?f"
    using assms(2) by (simp add: plain_update_def keeps_key_def update_clauses_def node_ok_def keep_def)
  then have "step_ok d (update_live i ?f d)" unfolding update_live_def by (rule step_ok_plain)
  moreover have "fold_result (\<lambda>(op, pl). emit_for e i op [] pl) (update_events u) (update_live i ?f d) = Inr d'"
    using assms(1) False by (simp add: execute_update_def emit_update_events_def split: if_splits)
  then have "step_ok (update_live i ?f d) d'"
    by (rule step_ok_fold) (auto intro: step_ok_emit_for)
  ultimately show ?thesis by (rule step_ok_trans)
qed (use assms(1) in \<open>auto simp: execute_update_def split: if_splits\<close>)

lemma step_ok_update_node: "update_node e i u d = Inr d' \<Longrightarrow> up_status u = None \<Longrightarrow> step_ok d d'"
  unfolding update_node_def by (erule step_ok_with_history) (rule step_ok_execute_update)


definition no_update :: node_update where
  "no_update = \<lparr>up_issue_type = None, up_title = None, up_description = None, up_prompt = None,
     up_acceptance = None, up_status = None, up_priority = None, up_labels = None,
     up_assignee = None, up_agent_state = None\<rparr>"


text \<open>
  The status of an update bypasses the status machine. Whatever status an update names, the live
  row takes it, with no check against its present status, while its completion time and its
  remembered status stay as they were; no transition event is recorded, and no dependent is
  released. So an accepted update can leave a finished task without a completion time.
\<close>
theorem update_status_unchecked:
  assumes "core_ok d" and "find_live i d = Some n" and "up_status u = Some s"
    and "update_node e i u d = Inr d'"
  shows "\<exists>n'. find_node i d' = Some n' \<and> status n' = s \<and> closed_at n' = closed_at n
       \<and> previous_status n' = previous_status n
       \<and> (\<forall>ev \<in> set (events d') - set (events d). ev_op ev \<noteq> OpTransitionStatus)
       \<and> (\<forall>j. j \<noteq> i \<longrightarrow> find_node j d' = find_node j d)
       \<and> (s \<in> {StatusDone, StatusCancelled} \<and> closed_at n = None \<longrightarrow> \<not> core_ok d')"
proof -
  have clauses: "\<not> no_clauses u" using assms(3) by (simp add: no_clauses_def)
  from update_node_rows[OF assms(1,4)] obtain evs where
    rows: "\<forall>j. find_node j d' = (if j = i then Some (updated_row e u n) else find_node j d)"
    and evs: "events d' = events d @ evs" "map (\<lambda>ev. (ev_op ev, ev_payload ev)) evs = update_events u"
    using assms(2) clauses by auto
  let ?n = "updated_row e u n"
  have row: "find_node i d' = Some ?n" "status ?n = s" "closed_at ?n = closed_at n"
    "previous_status ?n = previous_status n"
    using rows assms(3) by (simp_all add: updated_row_def update_clauses_def keep_def)
  have "op \<noteq> OpTransitionStatus" if "(op, pl) \<in> set (update_events u)" for op pl
    using that by (auto simp: update_events_def plain_update_fields_def field_event_def split: option.splits)
  note not_transition = this
  have "ev_op ev \<noteq> OpTransitionStatus" if "ev \<in> set evs" for ev
  proof -
    have "(ev_op ev, ev_payload ev) \<in> set (map (\<lambda>ev. (ev_op ev, ev_payload ev)) evs)" using that by simp
    then show ?thesis unfolding evs(2) by (rule not_transition)
  qed
  then have "\<forall>ev \<in> set (events d') - set (events d). ev_op ev \<noteq> OpTransitionStatus" by (auto simp: evs(1))
  moreover have "\<not> core_ok d'" if "s \<in> {StatusDone, StatusCancelled}" "closed_at n = None"
    using core_ok_facts(5)[of d' ?n] find_node_Some[OF row(1)] that row by (auto simp: node_ok_def)
  moreover have "\<forall>j. j \<noteq> i \<longrightarrow> find_node j d' = find_node j d" using rows by simp
  ultimately show ?thesis using row by (intro exI[of _ ?n] conjI impI) simp_all
qed

theorem update_status_unchecked_witness:
  "\<exists>d'. update_node epoch_env ''P-1'' (no_update\<lparr>up_status := Some StatusDone\<rparr>) store_example = Inr d' \<and> \<not> core_ok d'
      \<and> validate_transition StatusOpen StatusDone = Inl ErrInvalidTransition"
proof -
  let ?u = "no_update\<lparr>up_status := Some StatusDone\<rparr>"
  have "\<not> isl (update_node epoch_env ''P-1'' ?u store_example)" by code_simp
  then obtain d' where d': "update_node epoch_env ''P-1'' ?u store_example = Inr d'" using result_cases by blast
  have n: "find_live ''P-1'' store_example = Some (row ''P-1'' [] StatusOpen)" by code_simp
  have "up_status ?u = Some StatusDone" by (simp add: no_update_def)
  from update_status_unchecked[OF store_example_ok n this d'] have "\<not> core_ok d'" by (auto simp: row_def)
  moreover have "validate_transition StatusOpen StatusDone = Inl ErrInvalidTransition" by code_simp
  ultimately show ?thesis using d' by blast
qed

end
