(* ===== verification/Commands.thy ===== *)
theory Commands
  imports Cascades Deferral Creation Deletion Updates
begin

text \<open>
  The write operations of the store as one command type (the \<open>Store\<close> interface of
  \<open>internal/store/store.go\<close>), and a session as a sequence of commands, each in its own write
  transaction (\<open>WithTx\<close> of \<open>internal/store/sqlite/tx.go\<close>: a failed command leaves the database as
  it was). Two interfaces give what holds of whole sessions: a frame relation (\<open>write_frame\<close>)
  is anything the primitive writes respect and therefore every command does; a relation of
  single commands (\<open>command_relation\<close>) holds after any session. The status machine as an
  abstract board of statuses, and the store as its refinement, close the theory.
\<close>

section \<open>Commands\<close>

text \<open>
  What every command takes from outside: the uuid parser, the check of an agent id, whether the
  service claims for the parent's agent, and whether the hub is configured but unreachable.
\<close>

record services =
  uuid_parser :: "string \<Rightarrow> string option"
  agent_id_check :: "string \<Rightarrow> unit result"
  auto_claims :: bool
  hub_unreachable :: bool

datatype command =
    CreateCmd string create_request
  | CreateBatchCmd "string list" "node list" create_options
  | UpdateCmd string node_update
  | TransitionCmd string status string string
  | TransitionFromCmd string status status string string
  | RestoreCmd string string
  | ClaimCmd string string
  | UnclaimCmd string string string
  | ForceReclaimCmd string string int
  | CancelCmd string string string bool
  | DeferCmd string "int option" string string
  | WakeCmd string int
  | LinkCmd dependency
  | UnlinkCmd string string dep_type
  | RefreshCmd string
  | DeleteCmd string bool string
  | DeleteWithRootCmd string string string
  | UndeleteCmd string

fun run_command :: "services \<Rightarrow> env \<Rightarrow> command \<Rightarrow> transaction" where
  "run_command sv e (CreateCmd minted req) =
     service_create_node e (uuid_parser sv) (agent_id_check sv) (auto_claims sv) (hub_unreachable sv) minted req"
| "run_command sv e (CreateBatchCmd minted ns opts) = create_nodes_allocated e (uuid_parser sv) minted ns opts"
| "run_command sv e (UpdateCmd i u) = service_update_node e (agent_id_check sv) i u"
| "run_command sv e (TransitionCmd i dst reason author) = transition_status e i dst reason author"
| "run_command sv e (TransitionFromCmd i expected dst reason author) =
     transition_status_from e i expected dst reason author"
| "run_command sv e (RestoreCmd i author) = restore_invalidated e i author"
| "run_command sv e (ClaimCmd i a) = claim_node e i a"
| "run_command sv e (UnclaimCmd i reason author) = unclaim_node e i reason author"
| "run_command sv e (ForceReclaimCmd i a threshold) = force_reclaim_node e i a threshold"
| "run_command sv e (CancelCmd i reason author cascade) = cancel_node e i reason author cascade"
| "run_command sv e (DeferCmd i until reason author) = defer_node e i until reason author"
| "run_command sv e (WakeCmd i t) = wake_deferred_node e i t"
| "run_command sv e (LinkCmd dep) = add_dependency e dep"
| "run_command sv e (UnlinkCmd src dst ty) = remove_dependency e src dst ty"
| "run_command sv e (RefreshCmd i) = refresh_blocked e i"
| "run_command sv e (DeleteCmd i cascade b) = delete_node e i cascade b"
| "run_command sv e (DeleteWithRootCmd i rt b) = delete_node_with_root e i rt b"
| "run_command sv e (UndeleteCmd i) = undelete_node e i"

text \<open>\<open>WithTx\<close>: commit on success, roll back on an error.\<close>

definition with_tx :: "transaction \<Rightarrow> db \<Rightarrow> db" where
  "with_tx tx d = (case tx d of Inl _ \<Rightarrow> d | Inr d' \<Rightarrow> d')"

text \<open>A session: each command with the environment it ran in.\<close>

definition run_session :: "services \<Rightarrow> (env \<times> command) list \<Rightarrow> db \<Rightarrow> db" where
  "run_session sv cs d = fold (\<lambda>(e, c). with_tx (run_command sv e c)) cs d"

section \<open>Relations kept by sessions\<close>

text \<open>
  A reflexive and transitive relation that every admitted command keeps is kept by every session
  of admitted commands, whichever of them fail.
\<close>

locale command_relation =
  fixes S :: "db \<Rightarrow> db \<Rightarrow> bool" and admitted :: "command \<Rightarrow> bool"
  assumes session_refl: "S d d"
    and session_trans: "S a b \<Longrightarrow> S b c \<Longrightarrow> S a c"
    and command: "admitted cmd \<Longrightarrow> run_command sv e cmd d = Inr d' \<Longrightarrow> S d d'"
begin

lemma session: "\<forall>(e, c) \<in> set cs. admitted c \<Longrightarrow> S d (run_session sv cs d)"
  unfolding run_session_def
proof (induction cs arbitrary: d)
  case (Cons x cs)
  obtain e c where x: "x = (e, c)" by (cases x)
  have "S d (with_tx (run_command sv e c) d)"
    using Cons.prems by (auto simp: x with_tx_def session_refl command split: sum.splits)
  from session_trans[OF this Cons.IH] Cons.prems show ?case by (simp add: x)
qed (simp add: session_refl)

end

section \<open>Frame relations\<close>

text \<open>A reflexive and transitive relation that every primitive write of the store respects.\<close>

locale write_frame =
  fixes R :: "db \<Rightarrow> db \<Rightarrow> bool"
  assumes refl: "R d d"
    and trans: "R a b \<Longrightarrow> R b c \<Longrightarrow> R a c"
    and tables: "same_tables d d' \<Longrightarrow> R d d'"
    and emit: "emit_event e p d = Inr d' \<Longrightarrow> R d d'"
    and rows: "keeps_key f \<Longrightarrow> R d (update_where P f d)"
    and insert: "R d (d\<lparr>nodes := nodes d @ [n]\<rparr>)"
    and deps: "R d (d\<lparr>deps := ds\<rparr>)"
    and agents: "R d (d\<lparr>agents := gs\<rparr>)"
    and cascades: "R d (d\<lparr>cascades := cs\<rparr>)"
    and counters: "R d (d\<lparr>sequences := ss\<rparr>)"
begin

lemma live_rows: "keeps_key f \<Longrightarrow> R d (update_live i f d)"
  by (simp add: update_live_def rows)

lemma activity: "append_activity_entry i a d = Inr d' \<Longrightarrow> R d d'"
  by (auto simp: append_activity_entry_def update_node_row_def keeps_key_def split: option.splits intro!: rows)

lemma emit_for: "emit_for e i op a pl d = Inr d' \<Longrightarrow> R d d'"
  unfolding emit_for_def by (rule emit)

lemma touch: "R d (touch_history i d)"
  by (rule tables) simp

lemma recompute: "R d (recompute_node_progress i d)"
  by (simp add: recompute_node_progress_def live_rows)

lemma recomputes: "R d (fold recompute_node_progress is d)"
  by (induction "is" arbitrary: d) (auto intro: refl trans recompute)

lemma recalculate: "recalculate_progress i d = Inr d' \<Longrightarrow> R d d'"
proof -
  have "recalculate_progress_fuel k i d = Inr d' \<Longrightarrow> R d d'" for k
  proof (induction k arbitrary: i d)
    case (Suc k)
    then show ?case
      using recompute[of d i] by (auto simp: Let_def refl split: if_splits option.splits intro: trans[OF recompute])
  qed simp
  then show "recalculate_progress i d = Inr d' \<Longrightarrow> R d d'"
    unfolding recalculate_progress_def by blast
qed

lemma recalculate_up: "recalculate_parent p d = Inr d' \<Longrightarrow> R d d'"
  by (auto simp: recalculate_parent_def refl recalculate split: if_splits)

lemma folds:
  assumes "fold_result f xs d = Inr d'" "\<And>x a b. f x a = Inr b \<Longrightarrow> R a b"
  shows "R d d'"
  using assms(1)
proof (induction xs arbitrary: d)
  case (Cons x xs)
  then obtain d1 where "f x d = Inr d1" "R d1 d'" by (auto simp: bind_result_Inr)
  then show ?case using assms(2) trans by blast
qed (simp add: refl)

lemma history_body:
  assumes "with_history e sc body d = Inr d'" "\<And>a b. body a = Inr b \<Longrightarrow> R a b"
  shows "R d d'"
  using assms(1) by (rule with_history_ok) (use assms(2) tables trans in blast)

lemma block: "R d (auto_block_node e i d)"
  unfolding auto_block_node_def Let_def
  by (auto split: option.splits intro!: touch trans[OF touch live_rows] simp: keeps_key_def)

lemma unblock: "auto_unblock_node e i d = Inr d' \<Longrightarrow> R d d'"
proof -
  assume run: "auto_unblock_node e i d = Inr d'"
  have "restore_unblocked_node e i prev a = Inr b \<Longrightarrow> R a b" for prev a b
    unfolding restore_unblocked_node_def Let_def
    by (rule trans[OF live_rows emit_for]) (simp_all add: keeps_key_def)
  then show ?thesis
    using run touch[of d i] by (auto simp: auto_unblock_node_def Let_def split: option.splits if_splits intro: trans)
qed

lemma unblocks: "unblock_dependents e i d = Inr d' \<Longrightarrow> R d d'"
  unfolding unblock_dependents_def by (erule folds) (rule unblock)

lemma transition:
  assumes "execute_transition e i dst reason author d = Inr d'"
  shows "R d d'"
  using assms
proof (cases rule: execute_transition_stages)
  case (changed n d1 d2 d3)
  have "R d d1"
    using changed(4) unfolding apply_transition_update_def by (blast intro: trans live_rows activity)
  moreover have "R d3 d'" using changed(7) by (auto intro: unblocks refl split: if_splits)
  ultimately show ?thesis using changed(5,6) emit_for recalculate_up trans by metis
qed (simp add: refl)

lemma agent_syncs: "R d (ensure_and_sync_agent e a i d)" "R d (reset_old_agent e o' d)"
  by (simp_all add: ensure_and_sync_agent_def reset_old_agent_def Let_def agents refl)

lemma claim_body:
  assumes "claim_node_tx e i a d = Inr d'"
  shows "R d d'"
proof -
  let ?f = "\<lambda>n :: node. n\<lparr>status := StatusInProgress, assignee := Some a,
     agent_state := Some AgentStateWorking, updated_at := now_second e, defer_until := None\<rparr>"
  from assms obtain d3 where d3: "append_activity_entry i (activity_now e ActivityTypeClaim a (''Claimed by '' @ a) NoMeta)
       (ensure_and_sync_agent e a i (update_live i ?f d)) = Inr d3"
    and d': "emit_for e i OpClaim a (ClaimPayload a False) d3 = Inr d'"
    by (auto simp: claim_node_tx_def Let_def bind_result_Inr)
  have "R d (update_live i ?f d)" by (rule live_rows) (simp add: keeps_key_def)
  then show ?thesis by (rule trans[OF _ trans[OF agent_syncs(1) trans[OF activity[OF d3] emit_for[OF d']]]])
qed

lemma unclaim: "unclaim_node e i reason author d = Inr d' \<Longrightarrow> R d d'"
proof -
  assume run: "unclaim_node e i reason author d = Inr d'"
  let ?f = "\<lambda>n :: node. n\<lparr>status := StatusOpen, assignee := None, agent_state := None, updated_at := now_second e\<rparr>"
  have kept: "keeps_key ?f" by (simp add: keeps_key_def)
  have "R a b"
    if "append_activity_entry i act (reset_old_agent e o' (update_live i ?f a)) = Inr c"
      "emit_for e i OpUnclaim author UnclaimPayload c = Inr b" for a b c o' act
    by (rule trans[OF live_rows[OF kept] trans[OF agent_syncs(2) trans[OF activity[OF that(1)] emit_for[OF that(2)]]]])
  then show ?thesis
    using run by (auto simp: unclaim_node_def Let_def bind_result_Inr split: if_splits elim!: history_body)
qed

lemma reclaim: "force_reclaim_node e i a threshold d = Inr d' \<Longrightarrow> R d d'"
proof -
  assume run: "force_reclaim_node e i a threshold d = Inr d'"
  let ?f = "\<lambda>n :: node. n\<lparr>assignee := Some a, agent_state := Some AgentStateWorking, updated_at := now_second e\<rparr>"
  have kept: "keeps_key ?f" by (simp add: keeps_key_def)
  have "R x y"
    if "append_activity_entry i act (ensure_and_sync_agent e a i (reset_old_agent e o' (update_live i ?f x))) = Inr c"
      "emit_for e i OpClaim a (ClaimPayload a True) c = Inr y" for x y c o' act
    by (rule trans[OF live_rows[OF kept] trans[OF agent_syncs(2) trans[OF agent_syncs(1)
          trans[OF activity[OF that(1)] emit_for[OF that(2)]]]]])
  then show ?thesis
    using run unfolding force_reclaim_node_def
    by (elim history_body) (auto simp: Let_def bind_result_Inr)
qed

lemma cancel_body:
  assumes "execute_cancel e i reason author cascade d = Inr d'"
  shows "R d d'"
  using assms
proof (cases rule: execute_cancel_stages)
  case (1 n d1 d2 d4 d5)
  let ?f = "\<lambda>n :: node. n\<lparr>status := StatusCancelled, closed_at := Some (now_second e),
      updated_at := now_second e, defer_until := None\<rparr>"
  have kept: "keeps_key ?f" by (simp add: keeps_key_def)
  have "R d d1" by (rule trans[OF live_rows[OF kept] activity[OF 1(3)[unfolded apply_cancel_update_def]]])
  moreover have "R d2 d4"
    using 1(5)
  proof (cases cascade)
    case True
    then obtain cs d3 where cc: "cascade_cancel e i d2 = Inr (cs, d3)" and d4: "d4 = recompute_cascade_progress i cs d3"
      using 1(5) by (auto simp: bind_result_Inr)
    from cc have "fold_result (unblock_dependents e) (map fst cs) (snd (cancel_descendants e i d2)) = Inr d3"
      by (auto simp: cascade_cancel_def bind_result_Inr split: prod.splits)
    then have "R (snd (cancel_descendants e i d2)) d3" by (rule folds) (rule unblocks)
    moreover have "R d2 (snd (cancel_descendants e i d2))" by (simp add: cancel_descendants_def rows kept)
    moreover have "R d3 d4" by (simp add: d4 recompute_cascade_progress_def recomputes)
    ultimately show ?thesis by (blast intro: trans)
  qed (auto simp: refl)
  ultimately show ?thesis
    using trans[OF emit_for[OF 1(4)]] trans[OF recalculate_up[OF 1(6)] unblocks[OF 1(7)]] by (blast intro: trans)
qed

lemma redefers: "redefer e i until reason author d = Inr d' \<Longrightarrow> R d d'"
proof -
  have "keeps_key (\<lambda>n :: node. n\<lparr>defer_until := until, updated_at := now_second e\<rparr>)" by (simp add: keeps_key_def)
  then show "redefer e i until reason author d = Inr d' \<Longrightarrow> R d d'"
    by (auto simp: redefer_def refl split: option.splits if_splits intro: trans[OF live_rows activity])
qed

lemma defers: "defer_node e i until reason author d = Inr d' \<Longrightarrow> R d d'"
proof -
  assume run: "defer_node e i until reason author d = Inr d'"
  have "R a b" if body: "execute_defer e i u reason author a = Inr b" for u a b
  proof -
    have kept: "keeps_key (\<lambda>n :: node. n\<lparr>defer_until := u\<rparr>)" by (simp add: keeps_key_def)
    show ?thesis
      using body by (auto simp: execute_defer_def bind_result_Inr split: option.splits if_splits
          intro: redefers trans[OF transition live_rows[OF kept]])
  qed
  then show ?thesis
    using run by (auto simp: defer_node_def split: if_splits elim!: history_body)
qed

lemma removal: "record_dependency_removal e src dst ty d = Inr d' \<Longrightarrow> R d d'"
proof -
  assume "record_dependency_removal e src dst ty d = Inr d'"
  then obtain act d1 where d1: "append_activity_entry src act (touch_history src d) = Inr d1"
    and d': "d' = update_node_row src (\<lambda>n. n\<lparr>updated_at := now_second e\<rparr>) d1"
    unfolding record_dependency_removal_def bind_result_Inr by blast
  have "R d1 d'" unfolding d' update_node_row_def by (rule rows) (simp add: keeps_key_def)
  then show ?thesis by (rule trans[OF trans[OF touch activity[OF d1]]])
qed

lemma links: "add_dependency e dep d = Inr d' \<Longrightarrow> R d d'"
proof -
  assume run: "add_dependency e dep d = Inr d'"
  have "R a b" if "insert_dependency dep a = Inr c"
    "emit_for e (from_id dep) OpLinkDep (dep_created_by dep) (LinkDepPayload (to_id dep) (dep_kind dep))
       (if dep_kind dep = DepTypeBlocks then auto_block_node e (to_id dep) c else c) = Inr b" for a b c
  proof -
    have "R a c" using that(1) deps by (auto simp: insert_dependency_def split: if_splits)
    moreover have "R c (if dep_kind dep = DepTypeBlocks then auto_block_node e (to_id dep) c else c)"
      by (simp add: block refl)
    ultimately show ?thesis using emit_for[OF that(2)] by (blast intro: trans)
  qed
  then show ?thesis
    using run by (auto simp: add_dependency_def bind_result_Inr Let_def elim!: history_body)
qed

lemma unlinks: "remove_dependency e src dst ty d = Inr d' \<Longrightarrow> R d d'"
  unfolding remove_dependency_def
proof (elim history_body)
  fix a b :: db
  let ?a = "a\<lparr>deps := filter (\<lambda>x. \<not> same_edge src dst ty x) (deps a)\<rparr>"
  assume "(if \<not> list_ex (same_edge src dst ty) (deps a) then Inl ErrNotFound
       else bind_result (record_dependency_removal e src dst ty ?a) (\<lambda>d1.
            bind_result (if ty = DepTypeBlocks then auto_unblock_node e dst d1 else Inr d1) (\<lambda>d2.
            emit_for e src OpUnlinkDep [] (UnlinkDepPayload dst ty) d2))) = Inr b"
  then have "bind_result (record_dependency_removal e src dst ty ?a) (\<lambda>d1.
            bind_result (if ty = DepTypeBlocks then auto_unblock_node e dst d1 else Inr d1) (\<lambda>d2.
            emit_for e src OpUnlinkDep [] (UnlinkDepPayload dst ty) d2)) = Inr b"
    by (simp split: if_split_asm)
  then obtain c q where body: "record_dependency_removal e src dst ty ?a = Inr c"
    "(if ty = DepTypeBlocks then auto_unblock_node e dst c else Inr c) = Inr q"
    "emit_for e src OpUnlinkDep [] (UnlinkDepPayload dst ty) q = Inr b"
    unfolding bind_result_Inr by blast
  have "R c q" using body(2) by (auto simp: refl unblock split: if_splits)
  then show "R a b" by (rule trans[OF deps trans[OF removal[OF body(1)] trans[OF _ emit_for[OF body(3)]]]])
qed

lemma creates: "create_node_allocated_tx e uuid_parse n opts d = Inr d' \<Longrightarrow> R d d'"
proof -
  assume "create_node_allocated_tx e uuid_parse n opts d = Inr d'"
  then obtain n1 d1 d2 a where al: "allocate_node_id uuid_parse n (opt_provisional opts) d = Inr (n1, d1)"
    and cr: "insert_and_claim_node e n1 a d1 = Inr d2"
    and d': "d' = record_history e (local_scope (node_id n1) (creator n1)) empty_tracker d2"
    by (auto simp: create_node_allocated_tx_def create_node_tx_def bind_result_Inr Let_def split: prod.splits)
  from allocate_node_id_ok[OF al] next_sequence_counter obtain k v where "d1 = set_counter k v d" by blast
  then have "R d d1" by (simp add: set_counter_def counters)
  moreover have "R d1 d2"
    using cr
  proof (cases rule: insert_and_claim_stages)
    case (1 q1 q2 q3)
    have "R d1 q1" unfolding insert_node_ok(2)[OF 1(2)] by (rule insert)
    moreover have "R q3 d2" using 1(5) by (auto simp: refl claim_body split: if_splits)
    ultimately show ?thesis using emit[OF 1(3)] recalculate_up[OF 1(4)] by (blast intro: trans)
  qed
  moreover have "R d2 d'" unfolding d' by (rule tables) (rule record_history_tables)
  ultimately show ?thesis by (blast intro: trans)
qed

lemma deletes_rows: "delete_node_opts e i opts d = Inr d' \<Longrightarrow> R d d'"
proof -
  have "R a b" if "delete_node_tx e i opts a = Inr b" for a b
    using that
  proof (cases rule: delete_stages)
    case (1 n d2 d3 d4)
    have "R a d2" unfolding 1(3) by (rule trans[OF live_rows cascades]) simp
    moreover have "R d2 d3" unfolding 1(4) cascade_delete_def by (auto intro!: trans[OF cascades rows] refl)
    ultimately show ?thesis using emit_for[OF 1(5)] recalculate_up[OF 1(6)] by (blast intro: trans)
  qed
  then show "delete_node_opts e i opts d = Inr d' \<Longrightarrow> R d d'"
    unfolding delete_node_opts_def by (elim history_body)
qed

lemma restored_parents: "recalculate_restored_parents seen rs d = Inr d' \<Longrightarrow> R d d'"
  by (induction seen rs d rule: recalculate_restored_parents.induct)
    (auto simp: bind_result_Inr refl split: if_splits intro: trans[OF recalculate])

lemma restores_rows: "undelete_node e i d = Inr d' \<Longrightarrow> R d d'"
proof -
  have "R q (restore_nodes e rs q)" for rs q
  proof -
    have "R q (restore_node e j q)" for j q
      unfolding restore_node_def update_node_row_def by (rule trans[OF cascades rows]) simp
    then show ?thesis unfolding restore_nodes_def
      by (induction rs arbitrary: q) (auto simp: refl intro: trans)
  qed
  note restored = this
  have "R a b" if "undelete_node_tx e i a = Inr b" for a b
  proof -
    from that obtain rs where "recalculate_restored_parents [] rs (restore_nodes e rs a) = Inr b"
      by (auto simp: undelete_node_tx_def bind_result_Inr Let_def)
    then show ?thesis by (rule trans[OF restored restored_parents])
  qed
  then show "undelete_node e i d = Inr d' \<Longrightarrow> R d d'"
    unfolding undelete_node_def by (elim history_body)
qed

lemma updates: "update_node e i u d = Inr d' \<Longrightarrow> R d d'"
proof -
  have "keeps_key (\<lambda>n. (update_clauses u n)\<lparr>updated_at := now_second e\<rparr>)"
    by (simp add: keeps_key_def update_clauses_def)
  note change = live_rows[OF this]
  have "R a b" if "execute_update e i u a = Inr b" for a b
  proof (cases "no_clauses u")
    case True
    with that show ?thesis by (simp add: execute_update_def refl split: if_splits)
  next
    case False
    with that have "fold_result (\<lambda>(op, pl). emit_for e i op [] pl) (update_events u)
        (update_live i (\<lambda>n. (update_clauses u n)\<lparr>updated_at := now_second e\<rparr>) a) = Inr b"
      by (simp add: execute_update_def emit_update_events_def split: if_splits)
    then have "R (update_live i (\<lambda>n. (update_clauses u n)\<lparr>updated_at := now_second e\<rparr>) a) b"
      by (rule folds) (auto intro: emit_for)
    with change show ?thesis by (rule trans)
  qed
  then show "update_node e i u d = Inr d' \<Longrightarrow> R d d'"
    unfolding update_node_def by (elim history_body)
qed

theorem frame_command:
  assumes "run_command sv e c d = Inr d'"
  shows "R d d'"
proof (cases c)
  case (CreateCmd minted req)
  with assms show ?thesis
    by (auto simp: service_create_node_def create_node_allocated_def bind_result_Inr split: if_splits intro: creates)
next
  case (CreateBatchCmd minted ns opts)
  with assms show ?thesis
    by (auto simp: create_nodes_allocated_def bind_result_Inr split: if_splits elim!: folds intro: creates)
next
  case (UpdateCmd i u)
  with assms show ?thesis
    by (auto simp: service_update_node_def bind_result_Inr intro: updates)
next
  case (TransitionFromCmd i expected dst reason author)
  with assms show ?thesis
    by (auto simp: transition_status_from_def split: option.splits if_splits elim!: history_body intro: transition)
next
  case (RestoreCmd i author)
  with assms show ?thesis
    by (auto simp: restore_invalidated_def split: option.splits if_splits elim!: history_body intro: transition)
next
  case (CancelCmd i reason author cascade)
  with assms show ?thesis
    by (auto simp: cancel_node_def split: if_splits elim!: history_body intro: cancel_body)
next
  case (WakeCmd i t)
  with assms show ?thesis
    by (auto simp: wake_deferred_node_def refl split: if_splits elim!: history_body intro: transition)
next
  case (DeleteWithRootCmd i rt b)
  with assms show ?thesis by (auto simp: delete_node_with_root_def split: if_splits intro: deletes_rows)
qed (use assms in \<open>auto simp: transition_status_def claim_node_def refresh_blocked_def delete_node_def
      intro: unclaim reclaim defers links unlinks deletes_rows restores_rows transition claim_body unblock
      elim: history_body\<close>)

end

sublocale write_frame \<subseteq> sessions: command_relation R "\<lambda>_. True"
  by unfold_locales (rule refl, rule trans, assumption+, rule frame_command)

section \<open>What every command leaves alone\<close>

text \<open>The event log only grows, in the order of its clock; rows are never removed nor moved.\<close>

definition log_extends :: "db \<Rightarrow> db \<Rightarrow> bool" where
  "log_extends d d' \<longleftrightarrow> (log_ok d \<longrightarrow> log_ok d' \<and> meta_lamport d \<le> meta_lamport d'
     \<and> (\<exists>evs. events d' = events d @ evs \<and> sorted_wrt (<) (map ev_lamport evs)
          \<and> (\<forall>ev \<in> set evs. meta_lamport d < ev_lamport ev \<and> ev_lamport ev \<le> meta_lamport d'
                \<and> ev_status ev = SyncStatusPending \<and> validate_sync_event ev = Inr ())))"

definition rows_extend :: "db \<Rightarrow> db \<Rightarrow> bool" where
  "rows_extend d d' \<longleftrightarrow> (log_ok d \<longrightarrow> log_ok d' \<and> (\<exists>ks. key_columns d' = key_columns d @ ks))"

lemma log_extends_same:
  "log_ok d' = log_ok d \<Longrightarrow> events d' = events d \<Longrightarrow> meta_lamport d' = meta_lamport d \<Longrightarrow> log_extends d d'"
  by (simp add: log_extends_def)

lemma log_extends_trans: "log_extends a b \<Longrightarrow> log_extends b c \<Longrightarrow> log_extends a c"
proof -
  assume ab: "log_extends a b" and bc: "log_extends b c"
  show "log_extends a c"
    unfolding log_extends_def
  proof (intro impI conjI)
    assume a: "log_ok a"
    with ab obtain us where u: "log_ok b" "meta_lamport a \<le> meta_lamport b" "events b = events a @ us"
      "sorted_wrt (<) (map ev_lamport us)"
      "\<forall>ev \<in> set us. meta_lamport a < ev_lamport ev \<and> ev_lamport ev \<le> meta_lamport b
                \<and> ev_status ev = SyncStatusPending \<and> validate_sync_event ev = Inr ()"
      unfolding log_extends_def by blast
    with bc obtain vs where v: "log_ok c" "meta_lamport b \<le> meta_lamport c" "events c = events b @ vs"
      "sorted_wrt (<) (map ev_lamport vs)"
      "\<forall>ev \<in> set vs. meta_lamport b < ev_lamport ev \<and> ev_lamport ev \<le> meta_lamport c
                \<and> ev_status ev = SyncStatusPending \<and> validate_sync_event ev = Inr ()"
      unfolding log_extends_def by blast
    show "log_ok c" "meta_lamport a \<le> meta_lamport c" using u v by auto
    show "\<exists>evs. events c = events a @ evs \<and> sorted_wrt (<) (map ev_lamport evs)
          \<and> (\<forall>ev \<in> set evs. meta_lamport a < ev_lamport ev \<and> ev_lamport ev \<le> meta_lamport c
                \<and> ev_status ev = SyncStatusPending \<and> validate_sync_event ev = Inr ())"
      using u v by (intro exI[of _ "us @ vs"]) (fastforce simp: sorted_wrt_append)
  qed
qed

lemma log_extends_emit:
  assumes "emit_event e p d = Inr d'"
  shows "log_extends d d'"
  unfolding log_extends_def
proof
  assume "log_ok d"
  from emit_event_log[OF assms this] obtain ev where "events d' = events d @ [ev]" "log_ok d'"
    "ev_lamport ev = meta_lamport d + 1" "meta_lamport d' = meta_lamport d + 1"
    "ev_status ev = SyncStatusPending" "validate_sync_event ev = Inr ()" by blast
  then show "log_ok d' \<and> meta_lamport d \<le> meta_lamport d'
     \<and> (\<exists>evs. events d' = events d @ evs \<and> sorted_wrt (<) (map ev_lamport evs)
          \<and> (\<forall>ev \<in> set evs. meta_lamport d < ev_lamport ev \<and> ev_lamport ev \<le> meta_lamport d'
                \<and> ev_status ev = SyncStatusPending \<and> validate_sync_event ev = Inr ()))"
    by simp
qed

lemma log_ok_other_tables [simp]:
  "log_ok (d\<lparr>nodes := ns\<rparr>) = log_ok d" "log_ok (d\<lparr>deps := ds\<rparr>) = log_ok d"
  "log_ok (d\<lparr>agents := gs\<rparr>) = log_ok d" "log_ok (d\<lparr>cascades := cs\<rparr>) = log_ok d"
  "log_ok (d\<lparr>sequences := ss\<rparr>) = log_ok d"
  by (rule log_ok_cong; simp)+

interpretation event_log: write_frame log_extends
proof
  fix a b c :: db assume "log_extends a b" "log_extends b c"
  then show "log_extends a c" by (rule log_extends_trans)
next
  fix e p d d' assume "emit_event e p d = Inr d'"
  then show "log_extends d d'" by (rule log_extends_emit)
next
  fix d d' assume same: "same_tables d d'"
  show "log_extends d d'"
    using same_tables_fields[OF same] same_tables_find(4)[OF same] by (intro log_extends_same) simp_all
qed (simp_all add: log_extends_same log_ok_update_where row_simps)

interpretation task_rows: write_frame rows_extend
proof
  fix a b c :: db assume "rows_extend a b" "rows_extend b c"
  then show "rows_extend a c" by (fastforce simp: rows_extend_def)
next
  fix e p d d' assume em: "emit_event e p d = Inr d'"
  show "rows_extend d d'"
    unfolding rows_extend_def using emit_event_log[OF em] by (auto simp: same_content_def key_columns_def)
next
  fix d d' assume same: "same_tables d d'"
  show "rows_extend d d'"
    using same_tables_fields(1)[OF same] same_tables_find(4)[OF same] by (simp add: rows_extend_def key_columns_def)
qed (auto simp: rows_extend_def log_ok_update_where row_simps, simp_all add: key_columns_def)

section \<open>The status machine as an invariant of sessions\<close>

text \<open>
  The commands that go by the rules: a partial update that names no status (an update with a
  status bypasses the machine), and a batch whose rows were built by the callers of the batch, with
  minted uids for all of them.
\<close>

fun by_the_rules :: "command \<Rightarrow> bool" where
  "by_the_rules (UpdateCmd i u) \<longleftrightarrow> up_status u = None"
| "by_the_rules (CreateBatchCmd minted ns opts) \<longleftrightarrow>
     length minted = length ns \<and> [] \<notin> set minted \<and> list_all (\<lambda>n. node_ok n \<and> live n) ns"
| "by_the_rules _ \<longleftrightarrow> True"

lemma step_ok_create_batch:
  assumes "create_nodes_allocated e uuid_parse minted ns opts d = Inr d'"
    and "length minted = length ns" "[] \<notin> set minted" "\<forall>n \<in> set ns. node_ok n \<and> live n"
  shows "step_ok d d'"
proof (rule step_okI)
  assume core: "core_ok d"
  let ?rows = "map (\<lambda>(n, u). ensure_create_node_uid u n) (zip ns minted)"
  from assms(1) have "fold_result (\<lambda>n. create_node_allocated_tx e uuid_parse n opts) ?rows d = Inr d'"
    by (auto simp: create_nodes_allocated_def bind_result_Inr split: if_splits)
  from create_batch_keys[OF this core] ensured_batch[OF assms(2-4)] show "step_ok d d'" by blast
qed

lemma step_ok_command:
  assumes "by_the_rules c" "run_command sv e c d = Inr d'"
  shows "step_ok d d'"
proof (cases c)
  case (CreateBatchCmd minted ns opts)
  with assms show ?thesis by (intro step_ok_create_batch) (auto simp: list_all_iff)
next
  case (UpdateCmd i u)
  with assms show ?thesis by (auto simp: service_update_node_def bind_result_Inr intro: step_ok_update_node)
next
  case (ForceReclaimCmd i a threshold)
  with assms show ?thesis by (auto intro: step_ok_force_reclaim_node)
qed (use assms in \<open>auto intro: step_ok_service_create_node step_ok_transition_status
      step_ok_transition_status_from step_ok_restore_invalidated step_ok_claim_node step_ok_unclaim_node
      step_ok_cancel_node step_ok_defer_node step_ok_wake_deferred_node step_ok_add_dependency
      step_ok_remove_dependency step_ok_refresh_blocked step_ok_delete_node step_ok_delete_with_root
      step_ok_undelete_node\<close>)

interpretation machine: command_relation step_ok by_the_rules
  by unfold_locales (rule step_ok_refl, rule step_ok_trans, assumption+, rule step_ok_command)

section \<open>The board of statuses\<close>

text \<open>
  The abstract view of the store: the status of every task id. A board changes by a new task,
  which is open, or by one status moving along the machine.
\<close>

definition board_of :: "db \<Rightarrow> string \<Rightarrow> status option" where
  "board_of d i = map_option status (find_node i d)"

inductive board_step :: "(string \<Rightarrow> status option) \<Rightarrow> (string \<Rightarrow> status option) \<Rightarrow> bool" where
  create: "b i = None \<Longrightarrow> board_step b (b(i \<mapsto> StatusOpen))"
| move: "b i = Some s \<Longrightarrow> status_step s t \<Longrightarrow> board_step b (b(i \<mapsto> t))"

lemma open_reaches_all:
  assumes "status_is_valid s"
  shows "status_step\<^sup>*\<^sup>* StatusOpen s"
proof -
  have one: "status_step StatusOpen t" if "t \<in> {StatusInProgress, StatusDeferred, StatusCancelled, StatusBlocked, StatusInvalidated}" for t
    using that by (auto simp: status_step_simps validate_transition_def)
  have "status_step StatusInProgress StatusDone" by (simp add: status_step_simps validate_transition_def)
  then have "status_step\<^sup>*\<^sup>* StatusOpen StatusDone"
    using one[of StatusInProgress] by (auto intro: converse_rtranclp_into_rtranclp)
  with one assms show ?thesis by (cases s) (auto intro: r_into_rtranclp)
qed

lemma board_moves:
  assumes "status_step\<^sup>*\<^sup>* s t" "b i = Some s"
  shows "board_step\<^sup>*\<^sup>* b (b(i \<mapsto> t))"
  using assms(1)
proof (induction rule: rtranclp_induct)
  case base
  then show ?case using assms(2) by (simp add: map_upd_triv)
next
  case (step t u)
  have "board_step (b(i \<mapsto> t)) ((b(i \<mapsto> t))(i \<mapsto> u))" by (rule board_step.move[of _ _ t]) (simp_all add: step)
  then have "board_step (b(i \<mapsto> t)) (b(i \<mapsto> u))" by (simp only: fun_upd_upd)
  then show ?case using step.IH by (meson rtranclp.rtrancl_into_rtrancl)
qed

lemma board_reaches:
  assumes "finite A" "\<And>i. i \<in> A \<Longrightarrow> \<exists>t. b' i = Some t \<and> (case b i of None \<Rightarrow> status_step\<^sup>*\<^sup>* StatusOpen t
      | Some s \<Rightarrow> status_step\<^sup>*\<^sup>* s t)"
  shows "board_step\<^sup>*\<^sup>* b (\<lambda>i. if i \<in> A then b' i else b i)"
  using assms
proof (induction A rule: finite_induct)
  case empty
  show ?case by simp
next
  case (insert i A)
  let ?m = "\<lambda>j. if j \<in> A then b' j else b j"
  from insert.prems obtain t where t: "b' i = Some t"
    "case b i of None \<Rightarrow> status_step\<^sup>*\<^sup>* StatusOpen t | Some s \<Rightarrow> status_step\<^sup>*\<^sup>* s t" by blast
  have mi: "?m i = b i" using insert.hyps(2) by simp
  have "board_step\<^sup>*\<^sup>* ?m (?m(i \<mapsto> t))"
  proof (cases "b i")
    case None
    then have "board_step ?m (?m(i \<mapsto> StatusOpen))" using mi by (intro board_step.create) simp
    moreover have "board_step\<^sup>*\<^sup>* (?m(i \<mapsto> StatusOpen)) ((?m(i \<mapsto> StatusOpen))(i \<mapsto> t))"
      using t(2) None by (intro board_moves[of StatusOpen]) simp_all
    ultimately show ?thesis by (simp add: converse_rtranclp_into_rtranclp)
  next
    case (Some s)
    then show ?thesis using t(2) mi by (intro board_moves[of s]) simp_all
  qed
  moreover have "?m(i \<mapsto> t) = (\<lambda>j. if j \<in> insert i A then b' j else b j)" using t(1) by auto
  moreover have "board_step\<^sup>*\<^sup>* b ?m" using insert.prems by (intro insert.IH) auto
  ultimately show ?case by simp
qed

lemma step_ok_board:
  assumes "step_ok d d'" "core_ok d"
  shows "board_step\<^sup>*\<^sup>* (board_of d) (board_of d')"
proof -
  let ?A = "node_id ` set (nodes d')"
  have moves: "node_moves d d'" and core: "core_ok d'" using assms by (auto simp: step_ok_def)
  have dom: "find_node i d' = None" if "i \<notin> ?A" for i
    using that by (auto simp: find_node_def find_none_iff)
  have point: "\<exists>t. board_of d' i = Some t \<and> (case board_of d i of None \<Rightarrow> status_step\<^sup>*\<^sup>* StatusOpen t
      | Some s \<Rightarrow> status_step\<^sup>*\<^sup>* s t)" if "i \<in> ?A" for i
  proof -
    obtain m where "m \<in> set (nodes d')" "node_id m = i" using \<open>i \<in> ?A\<close> by blast
    then have n: "find_node i d' = Some m" using find_node_unique[OF core_ok_facts(2)[OF core]] by blast
    have "node_ok m" using find_node_Some[OF n] core_ok_facts(5)[OF core] by blast
    then have "status_step\<^sup>*\<^sup>* StatusOpen (status m)" by (intro open_reaches_all) (simp add: node_ok_def)
    moreover have "status_step\<^sup>*\<^sup>* (status k) (status m)" if "find_node i d = Some k" for k
      using moves n that unfolding node_moves_def by fastforce
    ultimately show ?thesis using n by (auto simp: board_of_def split: option.splits)
  qed
  have "(\<lambda>i. if i \<in> ?A then board_of d' i else board_of d i) = board_of d'"
  proof
    fix i
    show "(if i \<in> ?A then board_of d' i else board_of d i) = board_of d' i"
    proof (cases "i \<in> ?A")
      case False
      then have none: "find_node i d' = None" by (rule dom)
      then have "find_node i d = None" using moves unfolding node_moves_def by (metis option.exhaust option.distinct(1))
      with none False show ?thesis by (simp add: board_of_def)
    qed simp
  qed
  with board_reaches[of ?A "board_of d'" "board_of d"] point show ?thesis by simp
qed

section \<open>Sessions\<close>

text \<open>A claim, a completion, a cancellation that fails (the task is gone) and a new dependency.\<close>

definition session_example :: "(env \<times> command) list" where
  "session_example =
     [(epoch_env, ClaimCmd ''P-1'' ''a''), (epoch_env, TransitionCmd ''P-1.1'' StatusDone [] ''a''),
      (epoch_env, CancelCmd ''P-9'' [] [] False), (epoch_env, DeleteCmd ''P-1.1'' False ''a'')]"

definition example_services :: services where
  "example_services = \<lparr>uuid_parser = (\<lambda>_. None), agent_id_check = (\<lambda>_. Inr ()), auto_claims = False,
     hub_unreachable = False\<rparr>"





text \<open>
  C10. The event log is append-only. After any session, of any commands, the log is the old log
  followed by new pending events whose Lamport times increase strictly from the old clock to the
  new one, each of which passes the validator of sync events; nothing recorded is ever rewritten.
\<close>
theorem session_log_append_only:
  assumes "log_ok d"
  shows "\<exists>evs. events (run_session sv cs d) = events d @ evs
       \<and> sorted_wrt (<) (map ev_lamport evs)
       \<and> (\<forall>ev \<in> set evs. meta_lamport d < ev_lamport ev
             \<and> ev_lamport ev \<le> meta_lamport (run_session sv cs d)
             \<and> ev_status ev = SyncStatusPending \<and> validate_sync_event ev = Inr ())"
  using event_log.sessions.session[of cs d sv] assms by (auto simp: log_extends_def)

theorem session_log_append_only_witness:
  "\<exists>evs. events (run_session example_services session_example store_example) = events store_example @ evs
      \<and> map ev_op evs = [OpClaim, OpTransitionStatus, OpDelete]"
proof -
  have log: "log_ok store_example" by (rule core_ok_facts(3)[OF store_example_ok])
  from session_log_append_only[OF log, of example_services session_example] obtain evs where
    evs: "events (run_session example_services session_example store_example) = events store_example @ evs" by blast
  have "events store_example = []" by (simp add: store_example_def empty_db_def)
  moreover have "map ev_op (events (run_session example_services session_example store_example))
      = [OpClaim, OpTransitionStatus, OpDelete]" by code_simp
  ultimately show ?thesis using evs by simp
qed



end
