(* ===== verification/Sync_Winner.thy ===== *)
theory Sync_Winner
  imports Transitions
begin

text \<open>
  The workflow winner rule (\<open>internal/store/sqlite/sync_workflow_winner.go\<close>,
  \<open>sync_workflow_payload.go\<close>, \<open>sync_event_time.go\<close> and \<open>storedDeferUntil\<close> of \<open>defer.go\<close>): which of
  the workflow events of a task decides its state, and which columns the winner writes. The
  order of the keys is a strict total order, so every replica that holds the same events picks
  the same winner; the theory ends with what a winner writes.
\<close>

section \<open>Times of events\<close>

text \<open>\<open>eventTime\<close>: the event's instant in nanoseconds, or the apply time when no text can hold it.\<close>

definition event_time :: "env \<Rightarrow> int \<Rightarrow> int" where
  "event_time e wall_ms =
     (if is_storable_time (wall_ms * 1000000) then wall_ms * 1000000 else now e)"

text \<open>\<open>storedDeferUntil\<close>: a wake time in whole seconds.\<close>

definition stored_defer_until :: "int option \<Rightarrow> int option" where
  "stored_defer_until until =
     (case until of None \<Rightarrow> None
      | Some t \<Rightarrow> if is_storable_time t then Some (unix_second t) else None)"

section \<open>The payload rule\<close>

record workflow_payload =
  wp_from :: status
  wp_to :: status
  wp_agent :: string
  wp_until :: "int option"
  wp_closed :: "int option option"

text \<open>
  \<open>decodeWorkflowPayload\<close>: the payload of a workflow event, or \<open>ErrInvalidInput\<close> when the event
  is malformed. An unclaim whose payload does not decode is accepted, without its snapshot.
\<close>

definition no_workflow_payload :: "int option option \<Rightarrow> workflow_payload" where
  "no_workflow_payload cl =
     \<lparr>wp_from = StatusOther [], wp_to = StatusOther [], wp_agent = [], wp_until = None, wp_closed = cl\<rparr>"

definition decode_workflow_payload :: "op_type \<Rightarrow> payload \<Rightarrow> int option option \<Rightarrow> workflow_payload result" where
  "decode_workflow_payload op pl cl =
     (if op = OpTransitionStatus then
        (case pl of
           TransitionStatusPayload f t _ \<Rightarrow>
             if status_text t = [] then Inl ErrInvalidInput
             else Inr ((no_workflow_payload cl)\<lparr>wp_from := f, wp_to := t\<rparr>)
         | _ \<Rightarrow> Inl ErrInvalidInput)
      else if op = OpClaim then
        (case pl of ClaimPayload a _ \<Rightarrow> Inr ((no_workflow_payload cl)\<lparr>wp_agent := a\<rparr>)
         | _ \<Rightarrow> Inl ErrInvalidInput)
      else if op = OpDefer then
        (case pl of DeferPayload _ until \<Rightarrow> Inr ((no_workflow_payload cl)\<lparr>wp_until := until\<rparr>)
         | _ \<Rightarrow> Inl ErrInvalidInput)
      else if op = OpUnclaim then
        (case pl of UnclaimPayload \<Rightarrow> Inr (no_workflow_payload cl)
         | BadClosedAtPayload _ \<Rightarrow> Inl ErrInvalidInput
         | _ \<Rightarrow> Inr (no_workflow_payload None))
      else Inl ErrInvalidInput)"

definition event_payload :: "sync_event \<Rightarrow> workflow_payload result" where
  "event_payload ev = decode_workflow_payload (ev_op ev) (ev_payload ev) (ev_closed_at ev)"

definition well_formed_workflow :: "sync_event \<Rightarrow> bool" where
  "well_formed_workflow ev \<longleftrightarrow> is_workflow_op (ev_op ev) \<and> \<not> isl (event_payload ev)"

section \<open>The winner order\<close>

text \<open>\<open>workflowKeyBeats\<close>: the higher Lamport clock, then the higher event id, byte by byte.\<close>

definition workflow_key_beats :: "int \<times> string \<Rightarrow> int \<times> string \<Rightarrow> bool" where
  "workflow_key_beats a b \<longleftrightarrow>
     (if fst a \<noteq> fst b then fst b < fst a else snd b < snd a)"

definition workflow_key :: "sync_event \<Rightarrow> int \<times> string" where
  "workflow_key ev = (ev_lamport ev, ev_id ev)"

interpretation key_order: strict_total workflow_key_beats
  by unfold_locales (auto simp: workflow_key_beats_def split: if_splits)

text \<open>
  \<open>heldWorkflowQuery\<close> and \<open>latestHeldWorkflowKey\<close>: the workflow events held for the node the
  event addresses, by uid when it carries one, without the event itself, malformed ones skipped.
\<close>

definition same_subject :: "sync_event \<Rightarrow> sync_event \<Rightarrow> bool" where
  "same_subject ev held \<longleftrightarrow>
     (if ev_uid ev = [] then ev_node held = ev_node ev else ev_uid held = ev_uid ev)"

definition held_workflow :: "sync_event \<Rightarrow> db \<Rightarrow> sync_event list" where
  "held_workflow ev d =
     filter (\<lambda>h. same_subject ev h \<and> well_formed_workflow h \<and> ev_id h \<noteq> ev_id ev) (events d)"

definition latest_held_workflow_key :: "sync_event \<Rightarrow> db \<Rightarrow> (int \<times> string) option" where
  "latest_held_workflow_key ev d =
     keep_best workflow_key_beats (map workflow_key (held_workflow ev d))"

definition workflow_event_wins :: "sync_event \<Rightarrow> db \<Rightarrow> bool" where
  "workflow_event_wins ev d =
     (case latest_held_workflow_key ev d of
        None \<Rightarrow> True
      | Some held \<Rightarrow> workflow_key_beats (workflow_key ev) held)"

lemma workflow_event_wins_iff:
  "workflow_event_wins ev d \<longleftrightarrow>
     (\<forall>h \<in> set (held_workflow ev d). workflow_key_beats (workflow_key ev) (workflow_key h))"
proof (cases "held_workflow ev d = []")
  case True
  then show ?thesis by (simp add: workflow_event_wins_def latest_held_workflow_key_def keep_best_def)
next
  case False
  then have "map workflow_key (held_workflow ev d) \<noteq> []" by simp
  from key_order.keep_best_wins[OF this] obtain w where
    w: "w \<in> set (held_workflow ev d)" "latest_held_workflow_key ev d = Some (workflow_key w)"
      "\<forall>x \<in> set (held_workflow ev d). workflow_key x = workflow_key w
         \<or> workflow_key_beats (workflow_key w) (workflow_key x)"
    unfolding latest_held_workflow_key_def set_map by blast
  then show ?thesis
    unfolding workflow_event_wins_def using key_order.trans by (simp only: option.case) metis
qed

section \<open>The winner table\<close>

datatype workflow_action = WfKeep | WfClear | WfSet

record workflow_rule =
  wr_op :: op_type
  wr_from :: "status option"
  wr_to :: status
  wr_assignee :: workflow_action
  wr_agent_state :: workflow_action
  wr_previous :: workflow_action
  wr_closed :: workflow_action
  wr_progress :: workflow_action
  wr_defer :: workflow_action

text \<open>A row with the columns a row leaves out kept, and no from-status required.\<close>

definition plain_rule :: "op_type \<Rightarrow> status \<Rightarrow> workflow_rule" where
  "plain_rule op st =
     \<lparr>wr_op = op, wr_from = None, wr_to = st, wr_assignee = WfKeep, wr_agent_state = WfKeep,
      wr_previous = WfKeep, wr_closed = WfKeep, wr_progress = WfKeep, wr_defer = WfKeep\<rparr>"

definition workflow_winner_table :: "workflow_rule list" where
  "workflow_winner_table =
     [(plain_rule OpClaim StatusInProgress)
        \<lparr>wr_assignee := WfSet, wr_agent_state := WfSet, wr_closed := WfClear, wr_defer := WfClear\<rparr>,
      (plain_rule OpUnclaim StatusOpen)
        \<lparr>wr_assignee := WfClear, wr_agent_state := WfClear, wr_closed := WfClear, wr_defer := WfClear\<rparr>,
      (plain_rule OpDefer StatusDeferred)\<lparr>wr_defer := WfSet, wr_closed := WfClear\<rparr>,
      (plain_rule OpTransitionStatus StatusDone)\<lparr>wr_closed := WfSet, wr_progress := WfSet, wr_defer := WfClear\<rparr>,
      (plain_rule OpTransitionStatus StatusCancelled)\<lparr>wr_closed := WfSet, wr_defer := WfClear\<rparr>,
      (plain_rule OpTransitionStatus StatusInvalidated)
        \<lparr>wr_previous := WfSet, wr_closed := WfSet, wr_defer := WfClear\<rparr>,
      (plain_rule OpTransitionStatus StatusBlocked)
        \<lparr>wr_previous := WfSet, wr_closed := WfClear, wr_defer := WfClear\<rparr>,
      (plain_rule OpTransitionStatus StatusOpen)
        \<lparr>wr_from := Some StatusBlocked, wr_previous := WfClear, wr_closed := WfClear, wr_defer := WfClear\<rparr>,
      (plain_rule OpTransitionStatus StatusInProgress)
        \<lparr>wr_from := Some StatusBlocked, wr_previous := WfClear, wr_closed := WfClear, wr_defer := WfClear\<rparr>,
      (plain_rule OpTransitionStatus StatusOpen)\<lparr>wr_closed := WfClear, wr_defer := WfClear\<rparr>,
      (plain_rule OpTransitionStatus StatusInProgress)\<lparr>wr_closed := WfClear, wr_defer := WfClear\<rparr>,
      (plain_rule OpTransitionStatus StatusDeferred)\<lparr>wr_closed := WfClear, wr_defer := WfClear\<rparr>]"

definition lookup_workflow_rule :: "op_type \<Rightarrow> status \<Rightarrow> status \<Rightarrow> workflow_rule option" where
  "lookup_workflow_rule op src dst =
     find (\<lambda>r. wr_op r = op \<and> (op \<noteq> OpTransitionStatus
                 \<or> wr_to r = dst \<and> (case wr_from r of None \<Rightarrow> True | Some f \<Rightarrow> f = src)))
       workflow_winner_table"

text \<open>A resolved column: \<open>None\<close> leaves it, \<open>Some None\<close> writes NULL.\<close>

definition resolve_column :: "workflow_action \<Rightarrow> 'a option \<Rightarrow> 'a option option" where
  "resolve_column a v = (case a of WfSet \<Rightarrow> Some v | WfClear \<Rightarrow> Some None | WfKeep \<Rightarrow> None)"

record workflow_input =
  wi_op :: op_type
  wi_from :: status
  wi_to :: status
  wi_agent :: string
  wi_until :: "int option"
  wi_event_at :: int
  wi_updated_at :: int
  wi_closed :: "int option option"
  wi_local_winner :: bool

record workflow_write =
  ww_status :: status
  ww_updated_at :: int
  ww_assignee :: "string option option"
  ww_agent_state :: "agent_state option option"
  ww_previous :: "status option option"
  ww_closed :: "int option option"
  ww_progress :: "rat option option"
  ww_defer :: "int option option"

definition resolve_workflow_write :: "workflow_input \<Rightarrow> workflow_write \<times> bool" where
  "resolve_workflow_write inp =
     (case lookup_workflow_rule (wi_op inp) (wi_from inp) (wi_to inp) of
        None \<Rightarrow>
          (\<lparr>ww_status = wi_to inp, ww_updated_at = wi_updated_at inp, ww_assignee = None,
            ww_agent_state = None, ww_previous = None, ww_closed = None, ww_progress = None,
            ww_defer = None\<rparr>, False)
      | Some rule \<Rightarrow>
          (\<lparr>ww_status = wr_to rule, ww_updated_at = wi_updated_at inp,
            ww_assignee = resolve_column (wr_assignee rule) (Some (wi_agent inp)),
            ww_agent_state = resolve_column (wr_agent_state rule) (Some AgentStateWorking),
            ww_previous = resolve_column (wr_previous rule) (Some (wi_from inp)),
            ww_closed = (case wi_closed inp of
                           None \<Rightarrow> resolve_column (wr_closed rule) (Some (unix_second (wi_event_at inp)))
                         | Some c \<Rightarrow> Some c),
            ww_progress = resolve_column (wr_progress rule) (Some 1),
            ww_defer = (if wi_local_winner inp \<and> wr_to rule = StatusDeferred then None
                        else resolve_column (wr_defer rule) (stored_defer_until (wi_until inp)))\<rparr>, True))"

text \<open>\<open>workflowInputForApply\<close>: \<open>None\<close> for a malformed event.\<close>

definition workflow_input_for_apply :: "env \<Rightarrow> sync_event \<Rightarrow> workflow_input option" where
  "workflow_input_for_apply e ev =
     (case event_payload ev of
        Inl _ \<Rightarrow> None
      | Inr p \<Rightarrow> Some \<lparr>wi_op = ev_op ev, wi_from = wp_from p, wi_to = wp_to p, wi_agent = wp_agent p,
                        wi_until = wp_until p, wi_event_at = event_time e (ev_wall ev),
                        wi_updated_at = now_second e, wi_closed = wp_closed p, wi_local_winner = False\<rparr>)"

text \<open>\<open>writeWorkflowColumns\<close>: only a live row is written.\<close>

definition written :: "'a option option \<Rightarrow> 'a option \<Rightarrow> 'a option" where
  "written col old = (case col of None \<Rightarrow> old | Some v \<Rightarrow> v)"

definition workflow_columns :: "workflow_write \<Rightarrow> node \<Rightarrow> node" where
  "workflow_columns w n =
     n\<lparr>status := ww_status w, updated_at := ww_updated_at w,
       assignee := written (ww_assignee w) (assignee n),
       agent_state := written (ww_agent_state w) (agent_state n),
       previous_status := written (ww_previous w) (previous_status n),
       closed_at := written (ww_closed w) (closed_at n),
       progress := (case ww_progress w of None \<Rightarrow> progress n | Some p \<Rightarrow> (case p of None \<Rightarrow> 0 | Some v \<Rightarrow> v)),
       defer_until := written (ww_defer w) (defer_until n)\<rparr>"

definition write_workflow_columns :: "string \<Rightarrow> workflow_write \<Rightarrow> db \<Rightarrow> db" where
  "write_workflow_columns i w = update_live i (workflow_columns w)"

section \<open>What a winner writes\<close>

text \<open>Every row writes its own status and the completion time.\<close>

lemma table_covers:
  assumes "op \<noteq> OpTransitionStatus \<Longrightarrow> op \<in> {OpClaim, OpUnclaim, OpDefer}"
    and "op = OpTransitionStatus \<Longrightarrow> status_is_valid dst"
  shows "\<exists>r. lookup_workflow_rule op src dst = Some r \<and> wr_closed r \<noteq> WfKeep
       \<and> (op = OpTransitionStatus \<longrightarrow> wr_to r = dst)"
proof (cases "op = OpTransitionStatus")
  case True
  with assms(2) show ?thesis
    by (cases dst) (auto simp: lookup_workflow_rule_def workflow_winner_table_def plain_rule_def)
next
  case False
  with assms(1) show ?thesis
    by (auto simp: lookup_workflow_rule_def workflow_winner_table_def plain_rule_def)
qed

end
