(* ===== verification/Sync_Apply.thy ===== *)
theory Sync_Apply
  imports Sync_Winner Creation
begin

text \<open>
  Applying the events a pull brings in (\<open>internal/store/sqlite/sync_apply.go\<close>,
  \<open>sync_apply_lww.go\<close>, \<open>sync_apply_ops.go\<close>, \<open>sync_apply_ops_more.go\<close>, \<open>sync_apply_own_event.go\<close>,
  \<open>sync_apply_pending_create.go\<close>, \<open>sync_apply_uid_held.go\<close>, \<open>sync_workflow_write.go\<close>,
  \<open>annotation_payload.go\<close> and the sequence of an applied create): one event in one transaction,
  deduplicated by its id, acknowledged when this replica already holds it, and otherwise
  mirrored into the log and dispatched to the handler of its operation, under the
  last-writer-wins rule of its field or the winner rule of workflow events. The content hash is
  not modelled; what its recomputation checks (that the labels decode) is.
\<close>

section \<open>The node an event acts on\<close>

text \<open>\<open>nodeLineOf\<close>: a number and the numbers above it, nearest first.\<close>

lemma parse_id_parent_shorter: "i \<noteq> [] \<Longrightarrow> length (parse_id_parent i) < length i"
  by (auto simp: parse_id_parent_def split: option.splits dest: last_index_Some)

function node_line_of :: "string \<Rightarrow> string list" where
  "node_line_of i = (if i = [] then [] else i # node_line_of (parse_id_parent i))"
  by auto
termination by (relation "measure length") (auto intro: parse_id_parent_shorter)

declare node_line_of.simps [simp del]

text \<open>\<open>pendingCreationIDs\<close>: a task whose own create event is still pending here.\<close>

definition creation_pending :: "db \<Rightarrow> string \<Rightarrow> bool" where
  "creation_pending d i \<longleftrightarrow>
     list_ex (\<lambda>n. node_id n = i \<and> uid n \<noteq> []
        \<and> list_ex (\<lambda>c. (ev_id c = uid n \<or> ev_uid c = uid n) \<and> ev_op c = OpCreateNode
                       \<and> ev_status c = SyncStatusPending) (events d)) (nodes d)"

definition refuse_pending_number :: "string \<Rightarrow> db \<Rightarrow> unit result" where
  "refuse_pending_number ref d =
     (if list_ex (creation_pending d) (node_line_of ref) then Inl ErrNumberHeldByPendingCreate
      else Inr ())"

definition find_live_uid :: "string \<Rightarrow> db \<Rightarrow> node option" where
  "find_live_uid u d = find (\<lambda>n. uid n = u \<and> uid n \<noteq> [] \<and> live n) (nodes d)"

definition resolve_node_ref :: "sync_event \<Rightarrow> db \<Rightarrow> string result" where
  "resolve_node_ref ev d =
     (if ev_uid ev \<noteq> [] then
        (case find_live_uid (ev_uid ev) d of None \<Rightarrow> Inl ErrNotFound | Some n \<Rightarrow> Inr (node_id n))
      else case find_live (ev_node ev) d of
             None \<Rightarrow> Inl ErrNotFound
           | Some n \<Rightarrow> bind_result (refuse_pending_number (node_id n) d) (\<lambda>_. Inr (node_id n)))"

definition from_id_for_dep_edge :: "sync_event \<Rightarrow> db \<Rightarrow> string result" where
  "from_id_for_dep_edge ev d =
     (case resolve_node_ref ev d of
        Inr i \<Rightarrow> Inr i
      | Inl err \<Rightarrow>
          if err = ErrNumberHeldByPendingCreate then Inl err
          else bind_result (refuse_pending_number (ev_node ev) d) (\<lambda>_. Inr (ev_node ev)))"

section \<open>Creates\<close>

definition compute_depth :: "string \<Rightarrow> int" where
  "compute_depth p = (if p = [] then 0 else 1 + int (count_byte CHR ''.'' p))"

text \<open>
  \<open>deriveSeq\<close>: the number after the last dot or dash; \<open>strconv.Atoi\<close> gives 0 for text that is no
  number and the largest int for one that is too large.
\<close>

definition atoi_or_zero :: "string \<Rightarrow> int" where
  "atoi_or_zero s =
     (let ds = (case s of c # cs \<Rightarrow> if c = CHR ''+'' then cs else s | [] \<Rightarrow> [])
      in if ds \<noteq> [] \<and> all_digits ds then min (int (digits_val ds)) (2 ^ 63 - 1) else 0)"

definition derive_seq :: "string \<Rightarrow> int" where
  "derive_seq i =
     (let seg = rev (takeWhile (\<lambda>c. c \<noteq> CHR ''.'' \<and> c \<noteq> CHR ''-'') (rev i))
      in if length seg = length i \<or> seg = [] then 0 else atoi_or_zero seg)"

definition refuse_uid_held_by_other_node :: "sync_event \<Rightarrow> string \<Rightarrow> db \<Rightarrow> unit result" where
  "refuse_uid_held_by_other_node ev u d =
     (if list_ex (\<lambda>n. uid n = u \<and> uid n \<noteq> [] \<and> node_id n \<noteq> ev_node ev) (nodes d) then Inl ErrConflict
      else Inr ())"

definition refuse_held_number :: "sync_event \<Rightarrow> string \<Rightarrow> db \<Rightarrow> unit result" where
  "refuse_held_number ev u d =
     (case find_node (ev_node ev) d of
        None \<Rightarrow> Inl ErrStorage
      | Some n \<Rightarrow> if uid n = u then Inr () else refuse_pending_number (ev_node ev) d)"

definition applied_row :: "env \<Rightarrow> sync_event \<Rightarrow> create_payload \<Rightarrow> string \<Rightarrow> node" where
  "applied_row e ev p u =
     \<lparr>node_id = ev_node ev, parent_id = cp_parent_id p, project = ev_project ev,
      depth = compute_depth (cp_parent_id p), seq = derive_seq (ev_node ev), uid = u,
      title = cp_title p, description = cp_description p, prompt = cp_prompt p,
      acceptance = cp_acceptance p, node_kind = node_type_for_depth (compute_depth (cp_parent_id p)),
      issue_kind = cp_issue_type p, priority = cp_priority p, labels = cp_labels p,
      status = StatusOpen, progress = 0, previous_status = None,
      assignee = (if cp_assignee p = Some [] then None else cp_assignee p), creator = cp_creator p,
      agent_state = None, created_at = now_second e, updated_at = now_second e, closed_at = None,
      defer_until = None, weight = 1, activity = [], annotations = [], deleted_at = None,
      deleted_by = None\<rparr>"

text \<open>
  \<open>insertAppliedCreate\<close>: \<open>ON CONFLICT (id) DO NOTHING\<close>; the parent of a row that is inserted must
  exist (a foreign key), live or deleted.
\<close>

definition insert_applied_create :: "env \<Rightarrow> sync_event \<Rightarrow> create_payload \<Rightarrow> string \<Rightarrow> transaction" where
  "insert_applied_create e ev p u d =
     (if find_node (ev_node ev) d \<noteq> None then
        bind_result (refuse_held_number ev u d) (\<lambda>_. Inr d)
      else if cp_parent_id p \<noteq> [] \<and> cp_parent_id p \<noteq> ev_node ev \<and> find_node (cp_parent_id p) d = None
        then Inl ErrStorage
      else Inr (d\<lparr>nodes := nodes d @ [applied_row e ev p u]\<rparr>))"

definition advance_sequence :: "string \<Rightarrow> string \<Rightarrow> int \<Rightarrow> db \<Rightarrow> db" where
  "advance_sequence proj p s d =
     (let key = sequence_key proj p
      in set_counter key (case map_of (sequences d) key of None \<Rightarrow> s | Some v \<Rightarrow> max v s) d)"

definition advance_applied_sequence :: "sync_event \<Rightarrow> string \<Rightarrow> db \<Rightarrow> db" where
  "advance_applied_sequence ev p d =
     (if derive_seq (ev_node ev) > max_sequence then d
      else advance_sequence (ev_project ev) p (derive_seq (ev_node ev)) d)"

definition apply_create_node :: "env \<Rightarrow> sync_event \<Rightarrow> transaction" where
  "apply_create_node e ev d =
     (case ev_payload ev of
        CreateNodePayload p \<Rightarrow>
          bind_result (refuse_pending_number (cp_parent_id p) d) (\<lambda>_.
          let u = (if ev_uid ev = [] then ev_id ev else ev_uid ev)
          in bind_result (refuse_uid_held_by_other_node ev u d) (\<lambda>_.
             bind_result (insert_applied_create e ev p u d) (\<lambda>d1.
             bind_result (recalculate_parent (cp_parent_id p) d1) (\<lambda>d2.
             Inr (advance_applied_sequence ev (cp_parent_id p) d2)))))
      | _ \<Rightarrow> Inl ErrStorage)"

section \<open>Field updates\<close>

definition allowed_update_fields :: "string list" where
  "allowed_update_fields =
     [''title'', ''description'', ''prompt'', ''acceptance'', ''status'', ''priority'',
      ''labels'', ''assignee'', ''agent_state'', ''issue_type'']"

definition parse_agent_state :: "string \<Rightarrow> agent_state" where
  "parse_agent_state s =
     (if s = ''idle'' then AgentStateIdle else if s = ''working'' then AgentStateWorking
      else if s = ''stuck'' then AgentStateStuck else if s = ''done'' then AgentStateDone
      else AgentStateOther s)"

text \<open>
  \<open>decodeNewValueForColumn\<close> and the write of the column: the update of the row, or an error. A
  missing value writes NULL (a violation for the title, which is NOT NULL); a \<open>labels\<close> text that
  is no list of texts is stored by the code and then refused by the content hash, in the same
  transaction.
\<close>

definition text_value :: "field_value \<Rightarrow> string option result" where
  "text_value v =
     (case v of FieldText s \<Rightarrow> Inr (Some s) | FieldNull \<Rightarrow> Inr (Some []) | FieldAbsent \<Rightarrow> Inr None
      | _ \<Rightarrow> Inl ErrStorage)"

definition text_or_empty :: "string option \<Rightarrow> string" where
  "text_or_empty t = (case t of None \<Rightarrow> [] | Some s \<Rightarrow> s)"

definition field_update :: "string \<Rightarrow> field_value \<Rightarrow> (node \<Rightarrow> node) result" where
  "field_update field v =
     (if field = ''issue_type'' then
        (case v of
           FieldText s \<Rightarrow> bind_result (validate_issue_type (parse_issue_type s))
                            (\<lambda>_. Inr (\<lambda>n. n\<lparr>issue_kind := parse_issue_type s\<rparr>))
         | _ \<Rightarrow> Inl ErrInvalidInput)
      else if field = ''priority'' then
        (case v of
           FieldInt p \<Rightarrow> Inr (\<lambda>n. n\<lparr>priority := p\<rparr>)
         | FieldNull \<Rightarrow> Inr (\<lambda>n. n\<lparr>priority := 0\<rparr>)
         | FieldAbsent \<Rightarrow> Inr (\<lambda>n. n\<lparr>priority := 0\<rparr>)
         | _ \<Rightarrow> Inl ErrStorage)
      else if field = ''labels'' then
        (case v of
           FieldTexts ls \<Rightarrow> Inr (\<lambda>n. n\<lparr>labels := ls\<rparr>)
         | FieldNull \<Rightarrow> Inr (\<lambda>n. n\<lparr>labels := []\<rparr>)
         | FieldAbsent \<Rightarrow> Inr (\<lambda>n. n\<lparr>labels := []\<rparr>)
         | _ \<Rightarrow> Inl ErrStorage)
      else bind_result (text_value v) (\<lambda>t.
        if field = ''title'' then
          (case t of None \<Rightarrow> Inl ErrStorage | Some s \<Rightarrow> Inr (\<lambda>n. n\<lparr>title := s\<rparr>))
        else if field = ''description'' then Inr (\<lambda>n. n\<lparr>description := text_or_empty t\<rparr>)
        else if field = ''prompt'' then Inr (\<lambda>n. n\<lparr>prompt := text_or_empty t\<rparr>)
        else if field = ''acceptance'' then Inr (\<lambda>n. n\<lparr>acceptance := text_or_empty t\<rparr>)
        else if field = ''status'' then Inr (\<lambda>n. n\<lparr>status := parse_status (text_or_empty t)\<rparr>)
        else if field = ''assignee'' then Inr (\<lambda>n. n\<lparr>assignee := t\<rparr>)
        else Inr (\<lambda>n. n\<lparr>agent_state := map_option parse_agent_state t\<rparr>)))"

definition apply_update_field :: "env \<Rightarrow> sync_event \<Rightarrow> transaction" where
  "apply_update_field e ev d =
     (case ev_payload ev of
        UpdateFieldPayload field v \<Rightarrow>
          if field \<notin> set allowed_update_fields then Inl ErrInvalidInput
          else bind_result (resolve_node_ref ev d) (\<lambda>i.
               bind_result (field_update field v) (\<lambda>f.
               Inr (update_live i (\<lambda>n. (f n)\<lparr>updated_at := now_second e\<rparr>) d)))
      | _ \<Rightarrow> Inl ErrStorage)"

definition apply_set_acceptance :: "env \<Rightarrow> sync_event \<Rightarrow> transaction" where
  "apply_set_acceptance e ev d =
     (case ev_payload ev of
        SetAcceptancePayload t \<Rightarrow> bind_result (resolve_node_ref ev d) (\<lambda>i.
          Inr (update_live i (\<lambda>n. n\<lparr>acceptance := t, updated_at := now_second e\<rparr>) d))
      | _ \<Rightarrow> Inl ErrStorage)"

definition apply_set_prompt :: "env \<Rightarrow> sync_event \<Rightarrow> transaction" where
  "apply_set_prompt e ev d =
     (case ev_payload ev of
        SetPromptPayload t \<Rightarrow> bind_result (resolve_node_ref ev d) (\<lambda>i.
          Inr (update_live i (\<lambda>n. n\<lparr>prompt := t, updated_at := now_second e\<rparr>) d))
      | _ \<Rightarrow> Inl ErrStorage)"

section \<open>Workflow events\<close>

definition apply_workflow_winner :: "env \<Rightarrow> sync_event \<Rightarrow> workflow_input \<Rightarrow> db \<Rightarrow> (string \<times> db) result" where
  "apply_workflow_winner e ev inp d =
     bind_result (resolve_node_ref ev d) (\<lambda>i.
     Inr (i, write_workflow_columns i (fst (resolve_workflow_write inp)) d))"

definition apply_transition_status :: "env \<Rightarrow> sync_event \<Rightarrow> transaction" where
  "apply_transition_status e ev d =
     (case workflow_input_for_apply e ev of
        None \<Rightarrow> Inr d
      | Some inp \<Rightarrow>
          bind_result (apply_workflow_winner e ev inp d) (\<lambda>(i, d1).
          bind_result (recalculate_parent (parse_id_parent i) d1) (\<lambda>d2.
          if resolving_status (wi_to inp) then unblock_dependents e i d2 else Inr d2)))"

text \<open>\<open>applyClaim\<close>, \<open>applyUnclaim\<close> and \<open>applyDefer\<close> have one body.\<close>

definition apply_workflow_plain :: "env \<Rightarrow> sync_event \<Rightarrow> transaction" where
  "apply_workflow_plain e ev d =
     (case workflow_input_for_apply e ev of
        None \<Rightarrow> Inr d
      | Some inp \<Rightarrow> bind_result (apply_workflow_winner e ev inp d) (\<lambda>(i, d1). Inr d1))"

section \<open>Comments\<close>

text \<open>\<open>appendLegacyAnnotation\<close>: a comment without a snapshot has its event's id.\<close>

definition append_legacy_annotation ::
  "env \<Rightarrow> sync_event \<Rightarrow> string \<Rightarrow> string \<Rightarrow> string \<Rightarrow> annotation list \<Rightarrow> annotation list" where
  "append_legacy_annotation e ev author body addressee current =
     (if list_ex (\<lambda>a. an_id a = ev_id ev) current then current
      else current @ [\<lparr>an_id = ev_id ev, an_author = author, an_text = body,
                       an_created_at = event_time e (ev_wall ev), an_resolved = False,
                       an_addressee = addressee\<rparr>])"

text \<open>\<open>annotationSnapshotWinner\<close>: the highest key among the comment events of the annotation.\<close>

definition annotates :: "sync_event \<Rightarrow> string \<Rightarrow> sync_event \<Rightarrow> bool" where
  "annotates ev a h \<longleftrightarrow> ev_op h = OpComment
     \<and> (if ev_uid ev = [] then ev_node h = ev_node ev
        else ev_uid h = ev_uid ev \<or> ev_uid h = [] \<and> ev_node h = ev_node ev)
     \<and> (case ev_payload h of CommentPayload _ _ _ (Some s) \<Rightarrow> as_id s = a | _ \<Rightarrow> False)"

definition annotation_snapshot_winner :: "sync_event \<Rightarrow> string \<Rightarrow> db \<Rightarrow> (int \<times> string) option" where
  "annotation_snapshot_winner ev a d =
     keep_best workflow_key_beats (map workflow_key (filter (annotates ev a) (events d)))"

fun upsert_annotation :: "annotation \<Rightarrow> annotation list \<Rightarrow> annotation list" where
  "upsert_annotation a [] = [a]"
| "upsert_annotation a (x # xs) = (if an_id x = an_id a then a # xs else x # upsert_annotation a xs)"

definition apply_annotation_snapshot ::
  "sync_event \<Rightarrow> string \<Rightarrow> string \<Rightarrow> annotation_state \<Rightarrow> db \<Rightarrow> annotation list \<Rightarrow> annotation list result" where
  "apply_annotation_snapshot ev author body s d current =
     (if as_id s = [] then Inl ErrInvalidInput
      else case annotation_snapshot_winner ev (as_id s) d of
             None \<Rightarrow> Inl ErrStorage
           | Some w \<Rightarrow>
               if snd w \<noteq> ev_id ev then Inr current
               else Inr (upsert_annotation
                      \<lparr>an_id = as_id s, an_author = author, an_text = body,
                       an_created_at = as_created_at s, an_resolved = as_resolved s,
                       an_addressee = as_addressee s\<rparr> current))"

definition comment_annotations ::
  "env \<Rightarrow> sync_event \<Rightarrow> db \<Rightarrow> annotation list \<Rightarrow> annotation list result" where
  "comment_annotations e ev d current =
     (case ev_payload ev of
        CommentPayload author body addressee (Some s) \<Rightarrow> apply_annotation_snapshot ev author body s d current
      | CommentPayload author body addressee None \<Rightarrow>
          Inr (append_legacy_annotation e ev author body addressee current)
      | _ \<Rightarrow> Inl ErrStorage)"

definition apply_comment :: "env \<Rightarrow> sync_event \<Rightarrow> transaction" where
  "apply_comment e ev d =
     (if (case ev_payload ev of CommentPayload _ _ _ _ \<Rightarrow> False | _ \<Rightarrow> True) then Inl ErrStorage
      else bind_result (resolve_node_ref ev d) (\<lambda>i.
        case find_live i d of
          None \<Rightarrow> Inl ErrStorage
        | Some n \<Rightarrow>
            bind_result (comment_annotations e ev d (annotations n)) (\<lambda>as.
            Inr (update_live i (\<lambda>m. m\<lparr>annotations := sort_annotations as,
                                     updated_at := unix_second (event_time e (ev_wall ev))\<rparr>) d))))"

section \<open>Dependencies and deletes\<close>

text \<open>\<open>INSERT OR IGNORE\<close> ignores a taken key, not a missing node.\<close>

definition insert_or_ignore_dependency :: "dependency \<Rightarrow> transaction" where
  "insert_or_ignore_dependency x d =
     (if list_ex (same_edge (from_id x) (to_id x) (dep_kind x)) (deps d) then Inr d
      else if find_node (from_id x) d = None \<or> find_node (to_id x) d = None then Inl ErrStorage
      else Inr (d\<lparr>deps := deps d @ [x]\<rparr>))"

definition apply_link_dep :: "env \<Rightarrow> sync_event \<Rightarrow> transaction" where
  "apply_link_dep e ev d =
     (case ev_payload ev of
        LinkDepPayload target ty \<Rightarrow>
          bind_result (from_id_for_dep_edge ev d) (\<lambda>src.
          bind_result (refuse_pending_number target d) (\<lambda>_.
          bind_result (insert_or_ignore_dependency
             \<lparr>from_id = src, to_id = target, dep_kind = ty, dep_created_by = ev_author ev\<rparr> d) (\<lambda>d1.
          Inr (if ty = DepTypeBlocks then auto_block_node e target d1 else d1))))
      | _ \<Rightarrow> Inl ErrStorage)"

definition apply_unlink_dep :: "env \<Rightarrow> sync_event \<Rightarrow> transaction" where
  "apply_unlink_dep e ev d =
     (case ev_payload ev of
        UnlinkDepPayload target given \<Rightarrow>
          let ty = (if dep_type_text given = [] then DepTypeBlocks else given)
          in bind_result (from_id_for_dep_edge ev d) (\<lambda>src.
             bind_result (refuse_pending_number target d) (\<lambda>_.
             let d1 = d\<lparr>deps := filter (\<lambda>x. \<not> same_edge src target ty x) (deps d)\<rparr>
             in if ty = DepTypeBlocks then auto_unblock_node e target d1 else Inr d1))
      | _ \<Rightarrow> Inl ErrStorage)"

definition apply_delete :: "env \<Rightarrow> sync_event \<Rightarrow> transaction" where
  "apply_delete e ev d =
     (case resolve_node_ref ev d of
        Inl err \<Rightarrow> if err = ErrNotFound then Inr d else Inl err
      | Inr i \<Rightarrow>
          recalculate_parent (parse_id_parent i)
            (update_live i (\<lambda>n. n\<lparr>deleted_at := Some (now_second e), deleted_by := Some (ev_author ev),
                                 updated_at := now_second e\<rparr>) d))"

section \<open>Dispatch\<close>

definition dispatch_apply :: "env \<Rightarrow> sync_event \<Rightarrow> transaction" where
  "dispatch_apply e ev =
     (case ev_op ev of
        OpCreateNode \<Rightarrow> apply_create_node e ev
      | OpUpdateField \<Rightarrow> apply_update_field e ev
      | OpTransitionStatus \<Rightarrow> apply_transition_status e ev
      | OpClaim \<Rightarrow> apply_workflow_plain e ev
      | OpUnclaim \<Rightarrow> apply_workflow_plain e ev
      | OpDefer \<Rightarrow> apply_workflow_plain e ev
      | OpComment \<Rightarrow> apply_comment e ev
      | OpLinkDep \<Rightarrow> apply_link_dep e ev
      | OpUnlinkDep \<Rightarrow> apply_unlink_dep e ev
      | OpDelete \<Rightarrow> apply_delete e ev
      | OpSetAcceptance \<Rightarrow> apply_set_acceptance e ev
      | OpSetPrompt \<Rightarrow> apply_set_prompt e ev
      | OpOther s \<Rightarrow> (\<lambda>d. Inl ErrInvalidInput))"

section \<open>Last writer wins on a field\<close>

text \<open>\<open>fieldKeyForLWW\<close>: the field an event writes, when the rule covers it.\<close>

definition field_key_for_lww :: "sync_event \<Rightarrow> string option" where
  "field_key_for_lww ev =
     (case ev_op ev of
        OpUpdateField \<Rightarrow> (case ev_payload ev of UpdateFieldPayload f _ \<Rightarrow> Some f | _ \<Rightarrow> None)
      | OpSetAcceptance \<Rightarrow> Some ''acceptance''
      | OpSetPrompt \<Rightarrow> Some ''prompt''
      | _ \<Rightarrow> None)"

text \<open>\<open>lwwPriorQuery\<close>: the earlier events of the same node, operation and field.\<close>

definition lww_prior_events :: "sync_event \<Rightarrow> string \<Rightarrow> db \<Rightarrow> sync_event list" where
  "lww_prior_events ev field d =
     filter (\<lambda>h. same_subject ev h \<and> ev_op h = ev_op ev \<and> ev_id h \<noteq> ev_id ev
               \<and> (ev_op ev = OpUpdateField \<longrightarrow>
                    (case ev_payload h of UpdateFieldPayload f _ \<Rightarrow> f = field | _ \<Rightarrow> False))) (events d)"

type_synonym lww_key = "int \<times> int \<times> string"

definition lww_key :: "sync_event \<Rightarrow> lww_key" where
  "lww_key ev = (ev_lamport ev, ev_wall ev, ev_machine ev)"

text \<open>\<open>incomingBeats\<close>: the later Lamport time, the later wall clock, the smaller machine hash.\<close>

definition incoming_beats :: "lww_key \<Rightarrow> lww_key \<Rightarrow> bool" where
  "incoming_beats a b \<longleftrightarrow>
     (if fst a \<noteq> fst b then fst b < fst a
      else if fst (snd a) \<noteq> fst (snd b) then fst (snd b) < fst (snd a)
      else snd (snd a) < snd (snd b))"

record lww_outcome =
  lo_prior :: "sync_event option"
  lo_wins :: bool
  lo_field :: string

text \<open>
  The prior event is the best of the earlier ones; the source's \<open>LIMIT 1\<close> leaves open which of
  several with the same key it is, the model takes the first.
\<close>

definition best_prior :: "sync_event list \<Rightarrow> sync_event option" where
  "best_prior = keep_best (\<lambda>a b. incoming_beats (lww_key a) (lww_key b))"

definition detect_lww_outcome :: "sync_event \<Rightarrow> db \<Rightarrow> lww_outcome result" where
  "detect_lww_outcome ev d =
     (case field_key_for_lww ev of
        None \<Rightarrow> Inr \<lparr>lo_prior = None, lo_wins = False, lo_field = []\<rparr>
      | Some field \<Rightarrow>
          if ev_op ev = OpUpdateField \<and> field \<notin> set allowed_update_fields then Inl ErrInvalidInput
          else case best_prior (lww_prior_events ev field d) of
                 None \<Rightarrow> Inr \<lparr>lo_prior = None, lo_wins = False, lo_field = field\<rparr>
               | Some h \<Rightarrow> Inr \<lparr>lo_prior = Some h, lo_wins = incoming_beats (lww_key ev) (lww_key h),
                                lo_field = field\<rparr>)"

definition record_local_conflict :: "string \<Rightarrow> string \<Rightarrow> string \<Rightarrow> string \<Rightarrow> db \<Rightarrow> db" where
  "record_local_conflict winner loser i field d =
     d\<lparr>sync_conflicts := sync_conflicts d @
         [\<lparr>cf_winner = winner, cf_loser = loser, cf_node = i, cf_field = field\<rparr>]\<rparr>"

definition suppress_workflow_hook :: "string \<Rightarrow> db \<Rightarrow> db" where
  "suppress_workflow_hook event_id d = d\<lparr>suppressed_hooks := suppressed_hooks d @ [event_id]\<rparr>"

definition dispatch_with_lww :: "env \<Rightarrow> sync_event \<Rightarrow> transaction" where
  "dispatch_with_lww e ev d =
     (if is_workflow_op (ev_op ev) then
        (if workflow_event_wins ev d then dispatch_apply e ev d
         else Inr (suppress_workflow_hook (ev_id ev) d))
      else bind_result (detect_lww_outcome ev d) (\<lambda>o'.
        case lo_prior o' of
          None \<Rightarrow> dispatch_apply e ev d
        | Some h \<Rightarrow>
            if \<not> lo_wins o' then
              Inr (record_local_conflict (ev_id h) (ev_id ev) (ev_node ev) (lo_field o') d)
            else bind_result (dispatch_apply e ev d) (\<lambda>d1.
              Inr (record_local_conflict (ev_id ev) (ev_id h) (ev_node ev) (lo_field o') d1))))"

section \<open>The clocks and the log\<close>

definition advance_lamport :: "int \<Rightarrow> db \<Rightarrow> db" where
  "advance_lamport observed d =
     (if observed \<le> meta_lamport d then d else d\<lparr>meta_lamport := observed\<rparr>)"

definition merge_vector_clock :: "env \<Rightarrow> string \<Rightarrow> vector_clock \<Rightarrow> db \<Rightarrow> db" where
  "merge_vector_clock e author observed d =
     (let merged = vc_merge (meta_vclock d) observed;
          entered = (if map_of merged author = None then AList.update author 0 merged else merged);
          keep = author # load_emitting_authors e d @ [sanitize_author_id (resolve_emit_author e d [])];
          (vc, pruned) = vc_prune keep entered
      in (note_prune pruned author d)\<lparr>meta_vclock := vc\<rparr>)"

definition record_applied :: "string \<Rightarrow> int \<Rightarrow> db \<Rightarrow> db" where
  "record_applied event_id lamport d =
     (if event_id \<in> fst ` set (applied_events d) then d
      else d\<lparr>applied_events := applied_events d @ [(event_id, lamport)]\<rparr>)"

definition settle_clocks :: "env \<Rightarrow> sync_event \<Rightarrow> db \<Rightarrow> db" where
  "settle_clocks e ev d =
     record_applied (ev_id ev) (ev_lamport ev)
       (merge_vector_clock e (ev_author ev) (ev_vc ev) (advance_lamport (ev_lamport ev) d))"

text \<open>
  \<open>readHeldEvent\<close>: an event of the log, except mail an import restored, which is no replicated
  event yet.
\<close>

definition read_held_event :: "string \<Rightarrow> db \<Rightarrow> sync_event option" where
  "read_held_event event_id d =
     (if event_id \<in> set (inbox_restored d) then None
      else find (\<lambda>h. ev_id h = event_id) (events d))"

text \<open>
  \<open>mirrorIncomingEvent\<close> with \<open>upgradeRestoredInboxEvent\<close>: restored mail takes the envelope of the
  pulled event when author and content agree.
\<close>

definition mirror_incoming_event :: "env \<Rightarrow> sync_event \<Rightarrow> transaction" where
  "mirror_incoming_event e ev d =
     (case (if ev_id ev \<in> set (inbox_restored d) then find (\<lambda>h. ev_id h = ev_id ev) (events d) else None) of
        Some h \<Rightarrow>
          if ev_op ev \<noteq> OpComment \<or> ev_author h \<noteq> ev_author ev \<or> ev_payload h \<noteq> ev_payload ev
          then Inl ErrConflict
          else Inr (d\<lparr>events := map (\<lambda>q. if ev_id q = ev_id ev
                        then q\<lparr>ev_project := ev_project ev, ev_node := ev_node ev, ev_uid := ev_uid ev,
                               ev_payload := ev_payload ev, ev_wall := ev_wall ev,
                               ev_lamport := ev_lamport ev, ev_vc := ev_vc ev,
                               ev_machine := ev_machine ev, ev_status := SyncStatusApplied\<rparr>
                        else q) (events d),
                      inbox_restored := filter (\<lambda>i. i \<noteq> ev_id ev) (inbox_restored d)\<rparr>)
      | None \<Rightarrow>
          Inr (if ev_id ev \<in> ev_id ` set (events d) then d
               else d\<lparr>events := events d @ [ev\<lparr>ev_status := SyncStatusApplied, ev_created := now e\<rparr>]\<rparr>))"

text \<open>
  \<open>setForeignHubMark\<close>: the first foreign event sets the mark for good; the epoch is a hash of
  that event's id.
\<close>

definition set_foreign_hub_mark :: "string \<Rightarrow> db \<Rightarrow> db" where
  "set_foreign_hub_mark event_id d =
     (case hub_mark d of None \<Rightarrow> d\<lparr>hub_mark := Some event_id\<rparr> | Some _ \<Rightarrow> d)"

definition is_applied_event :: "string \<Rightarrow> db \<Rightarrow> bool" where
  "is_applied_event event_id d \<longleftrightarrow> event_id \<in> fst ` set (applied_events d)"

definition apply_event :: "env \<Rightarrow> sync_event \<Rightarrow> transaction" where
  "apply_event e ev d =
     bind_result (validate_sync_event ev) (\<lambda>_.
     if is_applied_event (ev_id ev) d then Inr d
     else case read_held_event (ev_id ev) d of
            Some h \<Rightarrow> Inr (settle_clocks e h d)
          | None \<Rightarrow>
              bind_result (mirror_incoming_event e ev d) (\<lambda>d1.
              bind_result (dispatch_with_lww e ev (set_foreign_hub_mark (ev_id ev) d1)) (\<lambda>d2.
              Inr (settle_clocks e ev d2))))"

definition replay_target :: "sync_event \<Rightarrow> db \<Rightarrow> string" where
  "replay_target ev d = (case resolve_node_ref ev d of Inr i \<Rightarrow> i | Inl _ \<Rightarrow> ev_node ev)"

definition replay_scope :: "sync_event \<Rightarrow> db \<Rightarrow> history_scope" where
  "replay_scope ev d =
     \<lparr>hs_id = replay_target ev d, hs_cascade = False, hs_actor = ev_author ev,
      hs_origin = Some HistoryOriginHub, hs_event = ev_id ev\<rparr>"

definition idempotent_apply :: "env \<Rightarrow> sync_event \<Rightarrow> transaction" where
  "idempotent_apply e ev d = with_history e (replay_scope ev d) (apply_event e ev) d"

section \<open>What the bookkeeping of an apply leaves alone\<close>

text \<open>The identity columns of the rows, which no workflow event changes.\<close>

definition ident :: "db \<Rightarrow> (string \<times> string \<times> int option) list" where
  "ident d = map (\<lambda>n. (node_id n, uid n, deleted_at n)) (nodes d)"

text \<open>
  A change that leaves task \<open>i\<close> alone but for its progress, and records only events of this
  replica about tasks other than the one with uid \<open>u\<close>.
\<close>

definition quiet :: "env \<Rightarrow> string \<Rightarrow> string \<Rightarrow> db \<Rightarrow> db \<Rightarrow> bool" where
  "quiet e i u d d' \<longleftrightarrow>
     map_option (\<lambda>n. n\<lparr>progress := 0\<rparr>) (find_node i d') = map_option (\<lambda>n. n\<lparr>progress := 0\<rparr>) (find_node i d)
     \<and> ident d' = ident d \<and> deps d' = deps d
     \<and> applied_events d' = applied_events d \<and> inbox_restored d' = inbox_restored d
     \<and> (\<exists>evs. events d' = events d @ evs
           \<and> (\<forall>h \<in> set evs. ev_uid h \<noteq> u \<and> ev_id h \<in> range (new_event_id e)))"

lemma quiet_same:
  assumes "map_option (\<lambda>n. n\<lparr>progress := 0\<rparr>) (find_node i d') = map_option (\<lambda>n. n\<lparr>progress := 0\<rparr>) (find_node i d)"
    and "ident d' = ident d" "deps d' = deps d" "applied_events d' = applied_events d"
    "inbox_restored d' = inbox_restored d" "events d' = events d"
  shows "quiet e i u d d'"
  using assms by (simp add: quiet_def)

lemma quiet_refl [simp]: "quiet e i u d d"
  by (simp add: quiet_same)

lemma quiet_trans:
  assumes "quiet e i u a b" "quiet e i u b c"
  shows "quiet e i u a c"
proof -
  from assms obtain us vs where
    "events b = events a @ us" "\<forall>h \<in> set us. ev_uid h \<noteq> u \<and> ev_id h \<in> range (new_event_id e)"
    "events c = events b @ vs" "\<forall>h \<in> set vs. ev_uid h \<noteq> u \<and> ev_id h \<in> range (new_event_id e)"
    unfolding quiet_def by blast
  then have "events c = events a @ us @ vs"
    "\<forall>h \<in> set (us @ vs). ev_uid h \<noteq> u \<and> ev_id h \<in> range (new_event_id e)" by auto
  then show ?thesis using assms unfolding quiet_def by (intro conjI exI[of _ "us @ vs"]) simp_all
qed

lemma same_tables_sync:
  assumes "same_tables d d'"
  shows "applied_events d' = applied_events d" "inbox_restored d' = inbox_restored d"
    "sync_conflicts d' = sync_conflicts d" "suppressed_hooks d' = suppressed_hooks d" "hub_mark d' = hub_mark d"
  using arg_cong[OF assms[unfolded same_tables_def], of applied_events]
    arg_cong[OF assms[unfolded same_tables_def], of inbox_restored]
    arg_cong[OF assms[unfolded same_tables_def], of sync_conflicts]
    arg_cong[OF assms[unfolded same_tables_def], of suppressed_hooks]
    arg_cong[OF assms[unfolded same_tables_def], of hub_mark] by simp_all

lemma quiet_tables: "same_tables d d' \<Longrightarrow> quiet e i u d d'"
  by (rule quiet_same) (simp_all add: ident_def same_tables_find same_tables_fields same_tables_sync)

lemma ident_progress:
  assumes "map (\<lambda>n. n\<lparr>progress := 0\<rparr>) ns' = map (\<lambda>n :: node. n\<lparr>progress := 0\<rparr>) ns"
  shows "map (\<lambda>n. (node_id n, uid n, deleted_at n)) ns' = map (\<lambda>n. (node_id n, uid n, deleted_at n)) ns"
  using arg_cong[OF assms, of "map (\<lambda>n. (node_id n, uid n, deleted_at n))"] by (simp add: comp_def)

lemma quiet_progress:
  assumes "same_but_progress d d'"
  shows "quiet e i u d d'"
proof (rule quiet_same)
  show "map_option (\<lambda>n. n\<lparr>progress := 0\<rparr>) (find_node i d') = map_option (\<lambda>n. n\<lparr>progress := 0\<rparr>) (find_node i d)"
    by (rule same_but_progress_node[OF assms])
  show "ident d' = ident d"
    unfolding ident_def using assms by (intro ident_progress) (simp only: same_but_progress_def)
  have same: "d'\<lparr>nodes := nodes d\<rparr> = d" using assms by (simp only: same_but_progress_def)
  show "deps d' = deps d" "applied_events d' = applied_events d" "inbox_restored d' = inbox_restored d"
    "events d' = events d"
    using arg_cong[OF same, of deps] arg_cong[OF same, of applied_events]
      arg_cong[OF same, of inbox_restored] arg_cong[OF same, of events] by simp_all
qed

lemma quiet_recalculate: "recalculate_parent p d = Inr d' \<Longrightarrow> quiet e i u d d'"
  by (auto simp: recalculate_parent_def split: if_splits intro: quiet_progress recalculate_progress_content)

lemma quiet_update_other:
  assumes "j \<noteq> i" "\<And>n. node_id (f n) = node_id n \<and> uid (f n) = uid n \<and> deleted_at (f n) = deleted_at n \<and> parent_id (f n) = parent_id n"
  shows "quiet e i u d (update_live j f d)"
proof (rule quiet_same)
  have key: "keeps_key f" using assms(2) by (simp add: keeps_key_def)
  have "(if node_id n = j \<and> live n then f n else n) = n" if "find_node i d = Some n" for n
    using find_node_Some[OF that] assms(1) by auto
  then show "map_option (\<lambda>n. n\<lparr>progress := 0\<rparr>) (find_node i (update_live j f d)) = map_option (\<lambda>n. n\<lparr>progress := 0\<rparr>) (find_node i d)"
    using key by (cases "find_node i d") (simp_all add: update_live_def row_simps)
  show "ident (update_live j f d) = ident d"
    using assms(2) by (simp add: ident_def update_live_def row_simps)
qed (simp_all add: update_live_def update_where_def)

lemma emit_for_log:
  assumes "emit_for e j op a pl d = Inr d'" "op \<noteq> OpCreateNode"
  shows "nodes d' = nodes d \<and> deps d' = deps d \<and> applied_events d' = applied_events d
       \<and> inbox_restored d' = inbox_restored d
       \<and> (\<exists>ev. events d' = events d @ [ev] \<and> ev_uid ev = resolve_emit_uid j d \<and> ev_id ev \<in> range (new_event_id e))"
proof -
  define p where "p = \<lparr>ep_node = j, ep_project = project_prefix_from_node_id j, ep_op = op,
    ep_author = a, ep_payload = pl, ep_event_id = []\<rparr>"
  define author where "author = sanitize_author_id (resolve_emit_author e d a)"
  from assms(1) obtain snap hash lamport vc d1 d2 where
    clocks: "emit_clocks e author d = Inr (hash, lamport, vc, d1)"
    and ins: "insert_event (emitted_event e p snap author hash lamport vc d1) d1 = Inr d2"
    and d': "d' = maybe_record_hook_origin e (ev_id (emitted_event e p snap author hash lamport vc d1)) d2"
    by (auto simp: emit_for_def emit_event_def Let_def bind_result_Inr author_def p_def)
  have d1: "nodes d1 = nodes d" "deps d1 = deps d" "applied_events d1 = applied_events d"
    "inbox_restored d1 = inbox_restored d" "events d1 = events d"
    using clocks
    by (auto simp: emit_clocks_def bump_lamport_def read_or_compute_machine_hash_def Let_def bind_result_Inr
        bump_and_persist_vector_clock_def store_emitting_authors_def note_prune_def split: prod.splits if_splits)
  have "resolve_emit_uid j d1 = resolve_emit_uid j d" by (simp add: resolve_emit_uid_def find_node_def d1)
  then show ?thesis
    using ins d' d1 assms(2)
    by (auto simp: insert_event_def maybe_record_hook_origin_def emitted_event_def emit_uid_for_def p_def
        split: if_splits)
qed

text \<open>\<open>i\<close> is the one row with uid \<open>u\<close>, and it is live.\<close>

definition subject_row :: "string \<Rightarrow> string \<Rightarrow> db \<Rightarrow> bool" where
  "subject_row i u d \<longleftrightarrow> unique_ids d \<and> (i, u, None) \<in> set (ident d)
     \<and> (\<forall>(j, v, _) \<in> set (ident d). v = u \<longrightarrow> j = i)"

lemma subject_row_ident: "ident d' = ident d \<Longrightarrow> subject_row i u d' = subject_row i u d"
proof -
  assume same: "ident d' = ident d"
  have "map node_id (nodes d) = map fst (ident d)" "map node_id (nodes d') = map fst (ident d')"
    by (simp_all add: ident_def)
  with same show ?thesis by (simp add: subject_row_def unique_ids_def)
qed

lemma quiet_subject: "quiet e i u d d' \<Longrightarrow> subject_row i u d' = subject_row i u d"
  by (rule subject_row_ident) (simp add: quiet_def)

lemma subject_row_find:
  assumes "subject_row i u d" "u \<noteq> []"
  obtains n where "find_node i d = Some n" "find_live i d = Some n" "find_live_uid u d = Some n"
    "node_id n = i" "uid n = u" "live n"
proof -
  from assms obtain n where n: "n \<in> set (nodes d)" "node_id n = i" "uid n = u" "live n"
    by (auto simp: subject_row_def ident_def live_def)
  have dist: "unique_ids d" using assms(1) by (simp add: subject_row_def)
  have only: "m = n" if "m \<in> set (nodes d)" "uid m = u" for m
  proof -
    have "node_id m = i" using assms(1) that by (auto simp: subject_row_def ident_def)
    then show ?thesis using dist n that(1) by (auto simp: unique_ids_def distinct_map inj_on_def)
  qed
  have "find_live_uid u d = Some n"
  proof (cases "find_live_uid u d")
    case None
    then show ?thesis using n assms(2) by (auto simp: find_live_uid_def find_none_iff)
  next
    case (Some m)
    then have "m \<in> set (nodes d)" "uid m = u" by (auto simp: find_live_uid_def find_Some_iff)
    with only Some show ?thesis by simp
  qed
  with n find_node_unique[OF dist n(1)] find_live_unique[OF dist n(1)] show ?thesis by (intro that[of n]) simp_all
qed

lemma subject_other_uid:
  assumes "subject_row i u d" "u \<noteq> []" "j \<noteq> i"
  shows "resolve_emit_uid j d \<noteq> u"
proof (cases "find_node j d")
  case None
  with assms(2) show ?thesis by (simp add: resolve_emit_uid_def)
next
  case (Some m)
  then have "m \<in> set (nodes d)" "node_id m = j" by (simp_all add: find_node_Some)
  with assms(1,3) have "uid m \<noteq> u" by (auto simp: subject_row_def ident_def)
  with Some show ?thesis by (simp add: resolve_emit_uid_def)
qed

lemma quiet_emit:
  assumes "emit_for e j op a pl d = Inr d'" "op \<noteq> OpCreateNode" "subject_row i u d" "u \<noteq> []" "j \<noteq> i"
  shows "quiet e i u d d'"
proof -
  note log = emit_for_log[OF assms(1,2)]
  then obtain ev where ev: "events d' = events d @ [ev]" "ev_uid ev = resolve_emit_uid j d"
    "ev_id ev \<in> range (new_event_id e)" by blast
  have "find_node i d' = find_node i d" "ident d' = ident d" using log by (simp_all add: find_node_def ident_def)
  with log ev subject_other_uid[OF assms(3-5)] show ?thesis
    unfolding quiet_def by (intro conjI exI[of _ "[ev]"]) simp_all
qed

lemma quiet_unblock:
  assumes "auto_unblock_node e j d = Inr d'" "subject_row i u d" "u \<noteq> []" "j \<noteq> i"
  shows "quiet e i u d d'"
proof -
  let ?d1 = "touch_history j d"
  have q1: "quiet e i u d ?d1" by (rule quiet_tables) simp
  have sub1: "subject_row i u ?d1" using assms(2) q1 by (simp add: quiet_subject)
  have "quiet e i u ?d1 q" if run: "restore_unblocked_node e j prev ?d1 = Inr q" for prev q
  proof -
    let ?f = "\<lambda>m. m\<lparr>status := restore_target prev, previous_status := None, updated_at := now_second e\<rparr>"
    have q2: "quiet e i u ?d1 (update_live j ?f ?d1)" by (rule quiet_update_other[OF assms(4)]) simp
    have em: "emit_for e j OpTransitionStatus [] (TransitionStatusPayload StatusBlocked (restore_target prev) [])
        (update_live j ?f ?d1) = Inr q"
      using run by (simp add: restore_unblocked_node_def Let_def)
    have "subject_row i u (update_live j ?f ?d1)" using sub1 q2 by (simp add: quiet_subject)
    from quiet_emit[OF em _ this assms(3,4)] q2 show ?thesis by (auto intro: quiet_trans)
  qed
  then show ?thesis
    using assms(1) q1 by (auto simp: auto_unblock_node_def Let_def split: option.splits if_splits intro: quiet_trans)
qed

lemma quiet_unblocks:
  assumes "unblock_dependents e i d = Inr d'" "subject_row i u d" "u \<noteq> []" "(i, i) \<notin> blocks_edges (deps d)"
  shows "quiet e i u d d'"
proof -
  have "fold_result (auto_unblock_node e) js d = Inr q \<Longrightarrow> i \<notin> set js \<Longrightarrow> subject_row i u d \<Longrightarrow> quiet e i u d q" for js q d
  proof (induction js arbitrary: d)
    case (Cons j js)
    then obtain d1 where d1: "auto_unblock_node e j d = Inr d1" "fold_result (auto_unblock_node e) js d1 = Inr q"
      by (auto simp: bind_result_Inr)
    have q1: "quiet e i u d d1" using quiet_unblock[OF d1(1) Cons.prems(3) assms(3)] Cons.prems(2) by auto
    then have "subject_row i u d1" using Cons.prems(3) by (simp add: quiet_subject)
    with Cons.IH[OF d1(2)] Cons.prems(2) q1 show ?case by (auto intro: quiet_trans)
  qed simp
  moreover have "i \<notin> set (cycle_neighbors (deps d) i)" using assms(4) by (simp add: cycle_neighbors_edges)
  ultimately show ?thesis using assms(1,2) unfolding unblock_dependents_def by blast
qed

end
