(* ===== verification/Convergence.thy ===== *)
theory Convergence
  imports Sync_Apply
begin

text \<open>
  What replicas that apply the same events agree on. A task's status and completion time are
  decided by the winning workflow event alone: in whatever order the events arrive, as often as
  they arrive, whatever other work the replica does for the tasks this one blocked. A second
  delivery of an event changes nothing, and an event this replica already holds is only
  acknowledged.
\<close>

section \<open>What a workflow event decides\<close>

text \<open>
  The status and the completion time an event stands for, read off its payload and its wall clock:
  the abstract register of a task's workflow state.
\<close>

definition decided :: "sync_event \<Rightarrow> status \<times> int option" where
  "decided ev =
     (case event_payload ev of
        Inl _ \<Rightarrow> (StatusOther [], None)
      | Inr p \<Rightarrow>
          let st = (if ev_op ev = OpClaim then StatusInProgress
                    else if ev_op ev = OpUnclaim then StatusOpen
                    else if ev_op ev = OpDefer then StatusDeferred else wp_to p)
          in (st, case wp_closed p of Some c \<Rightarrow> c
                  | None \<Rightarrow> if status_is_terminal st then Some (ev_wall ev div 1000) else None))"

text \<open>
  The events the winner rule decides completely: well formed, to a status this build knows, with
  a wall clock the store can hold.
\<close>

definition decisive :: "sync_event \<Rightarrow> bool" where
  "decisive ev \<longleftrightarrow> well_formed_workflow ev \<and> is_storable_time (ev_wall ev * 1000000)
     \<and> (case event_payload ev of Inl _ \<Rightarrow> False
          | Inr p \<Rightarrow> ev_op ev = OpTransitionStatus \<longrightarrow> status_is_valid (wp_to p))"

text \<open>The table implements the register.\<close>

lemma winner_writes_decided:
  assumes "decisive ev"
  obtains inp where "workflow_input_for_apply e ev = Some inp"
    "ww_status (fst (resolve_workflow_write inp)) = fst (decided ev)"
    "ww_closed (fst (resolve_workflow_write inp)) = Some (snd (decided ev))"
proof -
  from assms obtain p where p: "event_payload ev = Inr p"
    by (auto simp: decisive_def split: sum.splits)
  have second: "unix_second (event_time e (ev_wall ev)) = ev_wall ev div 1000"
    using assms by (simp add: event_time_def decisive_def unix_second_def div_mult2_eq[of _ 1000000 1000, symmetric])
  let ?inp = "\<lparr>wi_op = ev_op ev, wi_from = wp_from p, wi_to = wp_to p, wi_agent = wp_agent p,
     wi_until = wp_until p, wi_event_at = event_time e (ev_wall ev), wi_updated_at = now_second e,
     wi_closed = wp_closed p, wi_local_winner = False\<rparr>"
  have inp: "workflow_input_for_apply e ev = Some ?inp" by (simp add: workflow_input_for_apply_def p)
  have op: "ev_op ev \<in> {OpClaim, OpUnclaim, OpTransitionStatus, OpDefer}"
    using assms by (simp add: decisive_def well_formed_workflow_def is_workflow_op_def)
  have "ww_status (fst (resolve_workflow_write ?inp)) = fst (decided ev)
      \<and> ww_closed (fst (resolve_workflow_write ?inp)) = Some (snd (decided ev))"
  proof (cases "ev_op ev = OpTransitionStatus")
    case True
    then have "status_is_valid (wp_to p)" using assms p by (auto simp: decisive_def)
    then show ?thesis
      using True second
      by (cases "wp_to p") (auto simp: resolve_workflow_write_def lookup_workflow_rule_def workflow_winner_table_def
          plain_rule_def decided_def p resolve_column_def split: option.splits)
  next
    case False
    then show ?thesis
      using op by (auto simp: resolve_workflow_write_def lookup_workflow_rule_def workflow_winner_table_def
          plain_rule_def decided_def p resolve_column_def split: option.splits)
  qed
  with inp show ?thesis by (intro that) blast+
qed

section \<open>One event\<close>

text \<open>The winner event of a task writes its status and completion time; the rest is quiet.\<close>

lemma write_columns_row:
  assumes "find_node i d = Some n" "live n" "node_id n = i"
  shows "find_node i (write_workflow_columns i w d) = Some (workflow_columns w n)"
    "ident (write_workflow_columns i w d) = ident d" "deps (write_workflow_columns i w d) = deps d"
    "applied_events (write_workflow_columns i w d) = applied_events d"
    "inbox_restored (write_workflow_columns i w d) = inbox_restored d"
    "events (write_workflow_columns i w d) = events d"
proof -
  have "keeps_key (workflow_columns w)" by (simp add: keeps_key_def workflow_columns_def)
  then show "find_node i (write_workflow_columns i w d) = Some (workflow_columns w n)"
    using assms by (simp add: write_workflow_columns_def update_live_def row_simps)
  show "ident (write_workflow_columns i w d) = ident d"
    by (simp add: write_workflow_columns_def update_live_def row_simps ident_def workflow_columns_def)
qed (simp_all add: write_workflow_columns_def update_live_def update_where_def)

lemma dispatch_winner:
  assumes "dispatch_apply e ev d = Inr d'" "decisive ev" "ev_uid ev = u" "u \<noteq> []"
    and "subject_row i u d" "(i, i) \<notin> blocks_edges (deps d)"
  shows "\<exists>w. ww_status w = fst (decided ev) \<and> ww_closed w = Some (snd (decided ev))
           \<and> quiet e i u (write_workflow_columns i w d) d'"
proof -
  obtain inp where inp: "workflow_input_for_apply e ev = Some inp"
    "ww_status (fst (resolve_workflow_write inp)) = fst (decided ev)"
    "ww_closed (fst (resolve_workflow_write inp)) = Some (snd (decided ev))"
    using winner_writes_decided[OF assms(2)] by blast
  let ?w = "fst (resolve_workflow_write inp)" and ?d1 = "write_workflow_columns i (fst (resolve_workflow_write inp)) d"
  obtain n where n: "find_node i d = Some n" "find_live_uid u d = Some n" "node_id n = i" "live n"
    using subject_row_find[OF assms(5,4)] by blast
  have win: "apply_workflow_winner e ev inp d = Inr (i, ?d1)"
    using n assms(3,4) by (simp add: apply_workflow_winner_def resolve_node_ref_def)
  have op: "ev_op ev \<in> {OpClaim, OpUnclaim, OpTransitionStatus, OpDefer}"
    using assms(2) by (simp add: decisive_def well_formed_workflow_def is_workflow_op_def)
  have "quiet e i u ?d1 d'"
  proof (cases "ev_op ev = OpTransitionStatus")
    case False
    then have "d' = ?d1"
      using assms(1) op inp(1) win by (auto simp: dispatch_apply_def apply_workflow_plain_def)
    then show ?thesis by simp
  next
    case True
    then obtain d2 where d2: "recalculate_parent (parse_id_parent i) ?d1 = Inr d2"
      and rest: "(if resolving_status (wi_to inp) then unblock_dependents e i d2 else Inr d2) = Inr d'"
      using assms(1) inp(1) win by (auto simp: dispatch_apply_def apply_transition_status_def bind_result_Inr)
    note cols = write_columns_row[OF n(1,4,3), of ?w]
    have q2: "quiet e i u ?d1 d2" using d2 by (rule quiet_recalculate)
    have sub2: "subject_row i u d2"
      using assms(5) subject_row_ident[OF cols(2)] q2 by (simp add: quiet_subject)
    have "(i, i) \<notin> blocks_edges (deps d2)" using q2 cols(3) assms(6) by (simp add: quiet_def)
    then have "quiet e i u d2 d'"
      using rest quiet_unblocks[OF _ sub2 assms(4)] by (auto split: if_splits)
    with q2 show ?thesis by (rule quiet_trans)
  qed
  with inp show ?thesis by blast
qed

section \<open>A run of events\<close>

text \<open>
  After the events \<open>E\<close> of the task with number \<open>i\<close> and uid \<open>u\<close>: they are what the log holds of its
  workflow, each is recorded as applied, and the task is in the state its winner decided.
\<close>

definition workflow_of :: "string \<Rightarrow> db \<Rightarrow> (int \<times> string) set" where
  "workflow_of u d = workflow_key ` {h \<in> set (events d). ev_uid h = u \<and> well_formed_workflow h}"

definition wins_among :: "sync_event \<Rightarrow> sync_event set \<Rightarrow> bool" where
  "wins_among w E \<longleftrightarrow> w \<in> E \<and> (\<forall>x \<in> E. x = w \<or> workflow_key_beats (workflow_key w) (workflow_key x))"

definition state_of :: "string \<Rightarrow> db \<Rightarrow> (status \<times> int option) option" where
  "state_of i d = map_option (\<lambda>n. (status n, closed_at n)) (find_node i d)"

definition agrees :: "string \<Rightarrow> string \<Rightarrow> sync_event set \<Rightarrow> db \<Rightarrow> bool" where
  "agrees i u E d \<longleftrightarrow> subject_row i u d \<and> (i, i) \<notin> blocks_edges (deps d)
     \<and> workflow_of u d = workflow_key ` E \<and> (\<forall>x \<in> E. is_applied_event (ev_id x) d)
     \<and> (E \<noteq> {} \<longrightarrow> (\<exists>w. wins_among w E \<and> state_of i d = Some (decided w)))"

definition unseen :: "sync_event set \<Rightarrow> db \<Rightarrow> bool" where
  "unseen R d \<longleftrightarrow> (\<forall>x \<in> R. ev_id x \<notin> ev_id ` set (events d) \<and> \<not> is_applied_event (ev_id x) d
     \<and> ev_id x \<notin> set (inbox_restored d))"

lemma state_of_progress:
  assumes "map_option (\<lambda>n. n\<lparr>progress := 0\<rparr>) (find_node i d') = map_option (\<lambda>n. n\<lparr>progress := 0\<rparr>) (find_node i d)"
  shows "state_of i d' = state_of i d"
proof -
  have "state_of i q = map_option (\<lambda>n. (status n, closed_at n)) (map_option (\<lambda>n. n\<lparr>progress := 0\<rparr>) (find_node i q))" for q
    by (simp add: state_of_def option.map_comp comp_def)
  with assms show ?thesis by simp
qed

lemma quiet_agrees:
  assumes "quiet e i u d d'"
  shows "workflow_of u d' = workflow_of u d" "state_of i d' = state_of i d"
    "is_applied_event k d' = is_applied_event k d"
proof -
  from assms obtain evs where "events d' = events d @ evs" "\<forall>h \<in> set evs. ev_uid h \<noteq> u"
    unfolding quiet_def by blast
  then show "workflow_of u d' = workflow_of u d" by (auto simp: workflow_of_def)
  show "state_of i d' = state_of i d" using assms by (intro state_of_progress) (simp add: quiet_def)
  show "is_applied_event k d' = is_applied_event k d" using assms by (simp add: quiet_def is_applied_event_def)
qed

lemma agrees_quiet:
  assumes "quiet e i u d d'"
  shows "agrees i u E d' = agrees i u E d"
proof -
  have "deps d' = deps d" using assms by (simp add: quiet_def)
  then show ?thesis
    by (simp only: agrees_def quiet_subject[OF assms] quiet_agrees[OF assms])
qed

lemma unseen_quiet:
  assumes "quiet e i u d d'" "unseen R d" "range (new_event_id e) \<inter> ev_id ` R = {}"
  shows "unseen R d'"
proof -
  from assms(1) obtain evs where evs: "events d' = events d @ evs" "\<forall>h \<in> set evs. ev_id h \<in> range (new_event_id e)"
    unfolding quiet_def by blast
  have "ev_id x \<notin> ev_id ` set evs" if "x \<in> R" for x
  proof
    assume "ev_id x \<in> ev_id ` set evs"
    then have "ev_id x \<in> range (new_event_id e)" using evs(2) by auto
    then show False using assms(3) that by blast
  qed
  then show ?thesis
    using assms(1,2) evs(1) by (auto simp: unseen_def quiet_def is_applied_event_def)
qed

lemma merge_clock_fields [simp]:
  "nodes (merge_vector_clock e a vc d) = nodes d" "deps (merge_vector_clock e a vc d) = deps d"
  "events (merge_vector_clock e a vc d) = events d"
  "inbox_restored (merge_vector_clock e a vc d) = inbox_restored d"
  "applied_events (merge_vector_clock e a vc d) = applied_events d"
  by (simp_all add: merge_vector_clock_def Let_def note_prune_def case_prod_beta)

lemma settle_fields:
  "nodes (settle_clocks e ev d) = nodes d" "deps (settle_clocks e ev d) = deps d"
  "events (settle_clocks e ev d) = events d" "inbox_restored (settle_clocks e ev d) = inbox_restored d"
  "is_applied_event k (settle_clocks e ev d) \<longleftrightarrow> k = ev_id ev \<or> is_applied_event k d"
  by (auto simp: settle_clocks_def record_applied_def advance_lamport_def is_applied_event_def)

text \<open>The record of an applied event, on top of a state that already agrees but for the record.\<close>

lemma agrees_settle:
  assumes "subject_row i u d" "(i, i) \<notin> blocks_edges (deps d)" "workflow_of u d = workflow_key ` insert ev E"
    and "\<forall>x \<in> E. is_applied_event (ev_id x) d"
    and "wins_among w (insert ev E)" "state_of i d = Some (decided w)"
  shows "agrees i u (insert ev E) (settle_clocks e ev d)"
proof -
  have "ident (settle_clocks e ev d) = ident d" by (simp add: ident_def settle_fields)
  from subject_row_ident[OF this] have "subject_row i u (settle_clocks e ev d)" using assms(1) by simp
  moreover have "workflow_of u (settle_clocks e ev d) = workflow_of u d" by (simp add: workflow_of_def settle_fields)
  moreover have "state_of i (settle_clocks e ev d) = state_of i d"
    by (simp add: state_of_def find_node_def settle_fields)
  moreover have "\<forall>x \<in> insert ev E. is_applied_event (ev_id x) (settle_clocks e ev d)"
    using assms(4) by (simp add: settle_fields)
  ultimately show ?thesis
    unfolding agrees_def settle_fields(2) by (intro conjI impI exI[of _ w]) (simp_all add: assms)
qed

text \<open>Mirroring a new event and setting the mark.\<close>

lemma mirrored_fields:
  assumes "ev_id ev \<notin> ev_id ` set (events d)" "ev_id ev \<notin> set (inbox_restored d)"
    and "mirror_incoming_event e ev d = Inr d1"
  shows "set_foreign_hub_mark k d1 = (set_foreign_hub_mark k d)\<lparr>events := events d @ [ev\<lparr>ev_status := SyncStatusApplied, ev_created := now e\<rparr>]\<rparr>"
  using assms by (auto simp: mirror_incoming_event_def set_foreign_hub_mark_def split: option.splits)

lemma hub_mark_fields [simp]:
  "nodes (set_foreign_hub_mark k d) = nodes d" "deps (set_foreign_hub_mark k d) = deps d"
  "applied_events (set_foreign_hub_mark k d) = applied_events d"
  "inbox_restored (set_foreign_hub_mark k d) = inbox_restored d"
  "events (set_foreign_hub_mark k d) = events d"
  by (simp_all add: set_foreign_hub_mark_def split: option.splits)

lemma key_of_mirror [simp]:
  "workflow_key (ev\<lparr>ev_status := s, ev_created := t\<rparr>) = workflow_key ev"
  "well_formed_workflow (ev\<lparr>ev_status := s, ev_created := t\<rparr>) = well_formed_workflow ev"
  by (simp_all add: workflow_key_def well_formed_workflow_def event_payload_def)

lemma wins_among_insert:
  assumes "wins_among w E" "\<forall>x \<in> E. ev_id x \<noteq> ev_id ev" "x \<in> E"
    "\<not> workflow_key_beats (workflow_key ev) (workflow_key x)"
  shows "wins_among w (insert ev E)"
proof -
  have "workflow_key x \<noteq> workflow_key ev" using assms(2,3) by (auto simp: workflow_key_def)
  then have "workflow_key_beats (workflow_key x) (workflow_key ev)" using key_order.total assms(4) by blast
  moreover have "x = w \<or> workflow_key_beats (workflow_key w) (workflow_key x)"
    using assms(1,3) by (simp add: wins_among_def)
  ultimately have "workflow_key_beats (workflow_key w) (workflow_key ev)"
    using key_order.trans by blast
  with assms(1) show ?thesis by (auto simp: wins_among_def)
qed

lemma held_of_subject:
  assumes "ev_uid ev = u" "u \<noteq> []" "\<forall>x \<in> E. ev_id x \<noteq> ev_id ev"
    and "workflow_of u d = workflow_key ` E" "events d' = events d @ [ev\<lparr>ev_status := s, ev_created := t\<rparr>]"
  shows "workflow_event_wins ev d' \<longleftrightarrow> (\<forall>x \<in> E. workflow_key_beats (workflow_key ev) (workflow_key x))"
proof -
  have "workflow_key ` set (held_workflow ev d') = workflow_of u d - {k. snd k = ev_id ev}"
    using assms(1,2,5) by (auto simp: held_workflow_def same_subject_def workflow_of_def workflow_key_def)
  also have "\<dots> = workflow_key ` E" using assms(3,4) by (auto simp: workflow_key_def)
  finally have "(\<forall>k \<in> workflow_key ` set (held_workflow ev d'). workflow_key_beats (workflow_key ev) k)
      \<longleftrightarrow> (\<forall>k \<in> workflow_key ` E. workflow_key_beats (workflow_key ev) k)" by simp
  then show ?thesis by (simp add: workflow_event_wins_iff)
qed

text \<open>A new event of the task: it takes the register when it wins, and leaves it otherwise.\<close>

lemma apply_new_event:
  assumes "apply_event e ev d = Inr d'" "agrees i u E d" "unseen {ev} d"
    and "decisive ev" "ev_uid ev = u" "u \<noteq> []" "\<forall>x \<in> E. ev_id x \<noteq> ev_id ev"
  shows "agrees i u (insert ev E) d' \<and> (\<forall>R. unseen R d \<and> (\<forall>x \<in> R. ev_id x \<noteq> ev_id ev)
           \<and> range (new_event_id e) \<inter> ev_id ` R = {} \<longrightarrow> unseen R d')"
proof -
  have new: "ev_id ev \<notin> ev_id ` set (events d)" "\<not> is_applied_event (ev_id ev) d" "ev_id ev \<notin> set (inbox_restored d)"
    using assms(3) by (simp_all add: unseen_def)
  have "\<forall>h \<in> set (events d). ev_id h \<noteq> ev_id ev" using new(1) by (metis image_eqI)
  then have "read_held_event (ev_id ev) d = None" by (simp add: read_held_event_def find_none_iff)
  then obtain d1 d3 where mir: "mirror_incoming_event e ev d = Inr d1"
    and disp: "dispatch_with_lww e ev (set_foreign_hub_mark (ev_id ev) d1) = Inr d3"
    and d': "d' = settle_clocks e ev d3"
    using assms(1) new(2) by (auto simp: apply_event_def bind_result_Inr)
  define m where "m = ev\<lparr>ev_status := SyncStatusApplied, ev_created := now e\<rparr>"
  define d2 where "d2 = set_foreign_hub_mark (ev_id ev) d1"
  have d2: "events d2 = events d @ [m]" "nodes d2 = nodes d" "deps d2 = deps d"
    "applied_events d2 = applied_events d" "inbox_restored d2 = inbox_restored d"
    unfolding d2_def m_def mirrored_fields[OF new(1,3) mir] by simp_all
  have ag: "subject_row i u d" "(i, i) \<notin> blocks_edges (deps d)" "workflow_of u d = workflow_key ` E"
    "\<forall>x \<in> E. is_applied_event (ev_id x) d"
    using assms(2) by (simp_all add: agrees_def)
  have "ident d2 = ident d" by (simp add: ident_def d2)
  from subject_row_ident[OF this] ag(1) have sub2: "subject_row i u d2" by simp
  have wf: "well_formed_workflow ev" using assms(4) by (simp add: decisive_def)
  have of2: "workflow_of u d2 = workflow_key ` insert ev E"
  proof -
    have "{h \<in> set (events d2). ev_uid h = u \<and> well_formed_workflow h}
        = insert m {h \<in> set (events d). ev_uid h = u \<and> well_formed_workflow h}"
      using assms(5) wf by (auto simp: d2 m_def)
    then show ?thesis using ag(3) by (simp add: workflow_of_def m_def)
  qed
  have wins: "workflow_event_wins ev d2 \<longleftrightarrow> (\<forall>x \<in> E. workflow_key_beats (workflow_key ev) (workflow_key x))"
    by (rule held_of_subject[OF assms(5,6,7) ag(3) d2(1)[unfolded m_def]])
  have op: "is_workflow_op (ev_op ev)" using wf by (simp add: well_formed_workflow_def)
  have new_state: "\<exists>w q. wins_among w (insert ev E) \<and> state_of i d3 = Some (decided w) \<and> quiet e i u q d3
      \<and> events q = events d2 \<and> ident q = ident d2 \<and> deps q = deps d2 \<and> applied_events q = applied_events d2
      \<and> inbox_restored q = inbox_restored d2"
  proof (cases "workflow_event_wins ev d2")
    case True
    then have "dispatch_apply e ev d2 = Inr d3" using disp op by (simp add: dispatch_with_lww_def d2_def)
    from dispatch_winner[OF this assms(4,5,6) sub2] ag(2) d2(3) obtain w where
      w: "ww_status w = fst (decided ev)" "ww_closed w = Some (snd (decided ev))"
        "quiet e i u (write_workflow_columns i w d2) d3" by auto
    obtain n where n: "find_node i d2 = Some n" "live n" "node_id n = i"
      using subject_row_find[OF sub2 assms(6)] by blast
    note cols = write_columns_row[OF n, of w]
    have "state_of i (write_workflow_columns i w d2) = Some (decided ev)"
      by (simp add: state_of_def cols(1) workflow_columns_def w written_def)
    moreover have "wins_among ev (insert ev E)" using True wins by (simp add: wins_among_def)
    ultimately show ?thesis using w(3) cols quiet_agrees(2)[OF w(3)] by (intro exI[of _ ev] exI[of _ "write_workflow_columns i w d2"]) simp
  next
    case False
    then have d3: "d3 = suppress_workflow_hook (ev_id ev) d2" using disp op by (simp add: dispatch_with_lww_def d2_def)
    have same: "find_node i d3 = find_node i d2" "events d3 = events d2" "ident d3 = ident d2" "deps d3 = deps d2"
      "applied_events d3 = applied_events d2" "inbox_restored d3 = inbox_restored d2"
      by (simp_all add: d3 suppress_workflow_hook_def find_node_def ident_def)
    obtain x where x: "x \<in> E" "\<not> workflow_key_beats (workflow_key ev) (workflow_key x)" using False wins by blast
    then obtain w where w: "wins_among w E" "state_of i d = Some (decided w)" using assms(2) by (auto simp: agrees_def)
    have "state_of i d3 = state_of i d" by (simp add: state_of_def find_node_def d3 suppress_workflow_hook_def d2)
    with w wins_among_insert[OF w(1) assms(7) x] same show ?thesis
      by (intro exI[of _ w] exI[of _ d3]) simp
  qed
  then obtain w q where w: "wins_among w (insert ev E)" "state_of i d3 = Some (decided w)" and q: "quiet e i u q d3"
    "events q = events d2" "ident q = ident d2" "deps q = deps d2" "applied_events q = applied_events d2"
    "inbox_restored q = inbox_restored d2" by blast
  have sub3: "subject_row i u d3" using sub2 subject_row_ident[OF q(3)] quiet_subject[OF q(1)] by simp
  have edge3: "(i, i) \<notin> blocks_edges (deps d3)" using q(1,4) d2(3) ag(2) by (simp add: quiet_def)
  have "workflow_of u q = workflow_of u d2" by (simp add: workflow_of_def q(2))
  then have of3: "workflow_of u d3 = workflow_key ` insert ev E" using quiet_agrees(1)[OF q(1)] of2 by simp
  have app3: "\<forall>x \<in> E. is_applied_event (ev_id x) d3"
    using ag(4) q(1,5) d2(4) by (simp add: is_applied_event_def quiet_def)
  have "agrees i u (insert ev E) d'"
    unfolding d' by (rule agrees_settle[OF sub3 edge3 of3 app3 w])
  moreover have "unseen R d'" if R: "unseen R d" "\<forall>x \<in> R. ev_id x \<noteq> ev_id ev" "range (new_event_id e) \<inter> ev_id ` R = {}" for R
  proof -
    have "unseen R q"
      using R(1,2) q(2,5,6) d2 by (auto simp: unseen_def is_applied_event_def m_def)
    from unseen_quiet[OF q(1) this R(3)] R(2) show ?thesis
      by (simp add: unseen_def d' settle_fields)
  qed
  ultimately show ?thesis by blast
qed

lemma apply_seen_event:
  assumes "apply_event e ev d = Inr d'" "is_applied_event (ev_id ev) d"
  shows "d' = d"
  using assms by (auto simp: apply_event_def bind_result_Inr)

lemma apply_one:
  assumes "idempotent_apply e ev d = Inr d'" "agrees i u E d" "unseen (A - E) d"
    and "ev \<in> A" "\<forall>x \<in> A. decisive x \<and> ev_uid x = u" "u \<noteq> []" "inj_on ev_id A" "E \<subseteq> A"
    and "range (new_event_id e) \<inter> ev_id ` A = {}"
  shows "agrees i u (insert ev E) d' \<and> unseen (A - insert ev E) d'"
  using assms(1)[unfolded idempotent_apply_def]
proof (rule with_history_ok)
  fix d0 d1 assume same: "same_tables d d0" and run: "apply_event e ev d0 = Inr d1" and last: "same_tables d1 d'"
  have q: "quiet e i u d d0" "quiet e i u d1 d'" using same last by (simp_all add: quiet_tables)
  have ag: "agrees i u E d0" using assms(2) agrees_quiet[OF q(1)] by simp
  have un: "unseen (A - E) d0"
    using unseen_quiet[OF q(1) assms(3)] assms(9) by (auto simp: disjoint_iff)
  have "agrees i u (insert ev E) d1 \<and> unseen (A - insert ev E) d1"
  proof (cases "ev \<in> E")
    case True
    then have "is_applied_event (ev_id ev) d0" using ag by (simp add: agrees_def)
    from apply_seen_event[OF run this] show ?thesis using ag un True by (simp add: insert_absorb)
  next
    case False
    have "unseen {ev} d0" using un False assms(4) by (simp add: unseen_def)
    moreover have "\<forall>x \<in> E. ev_id x \<noteq> ev_id ev"
      using False assms(4,7,8) by (metis inj_onD subsetD)
    moreover have "decisive ev" "ev_uid ev = u" using assms(4,5) by auto
    ultimately have "agrees i u (insert ev E) d1 \<and> (\<forall>R. unseen R d0 \<and> (\<forall>x \<in> R. ev_id x \<noteq> ev_id ev)
        \<and> range (new_event_id e) \<inter> ev_id ` R = {} \<longrightarrow> unseen R d1)"
      using apply_new_event[OF run ag] assms(6) by blast
    moreover have "unseen (A - insert ev E) d0" using un by (auto simp: unseen_def)
    moreover have "\<forall>x \<in> A - insert ev E. ev_id x \<noteq> ev_id ev" using assms(4,7) by (auto dest: inj_onD)
    moreover have "range (new_event_id e) \<inter> ev_id ` (A - insert ev E) = {}" using assms(9) by blast
    ultimately show ?thesis by blast
  qed
  then show ?thesis
    using agrees_quiet[OF q(2)] unseen_quiet[OF q(2), of "A - insert ev E"] assms(9) by (auto simp: disjoint_iff)
qed

text \<open>A pull: the events in the order they come, each with its own environment.\<close>

definition apply_all :: "(env \<times> sync_event) list \<Rightarrow> transaction" where
  "apply_all = fold_result (\<lambda>(e, ev). idempotent_apply e ev)"

lemma apply_all_agrees:
  assumes "apply_all xs d = Inr d'" "agrees i u E d" "unseen (A - E) d" "snd ` set xs \<subseteq> A"
    and "\<forall>x \<in> A. decisive x \<and> ev_uid x = u" "u \<noteq> []" "inj_on ev_id A" "E \<subseteq> A"
    and "\<forall>(e, _) \<in> set xs. range (new_event_id e) \<inter> ev_id ` A = {}"
  shows "agrees i u (E \<union> snd ` set xs) d'"
  using assms
proof (induction xs arbitrary: d E)
  case (Cons x xs)
  obtain e ev where x: "x = (e, ev)" by (cases x)
  from Cons.prems(1) obtain d1 where one: "idempotent_apply e ev d = Inr d1" and rest: "apply_all xs d1 = Inr d'"
    by (auto simp: apply_all_def x bind_result_Inr)
  have mem: "ev \<in> A" "range (new_event_id e) \<inter> ev_id ` A = {}" using Cons.prems(4,9) by (auto simp: x)
  from apply_one[OF one Cons.prems(2,3) mem(1) Cons.prems(5-8) mem(2)]
  have "agrees i u (insert ev E) d1" "unseen (A - insert ev E) d1" by simp_all
  then have "agrees i u (insert ev E \<union> snd ` set xs) d'"
    using Cons.prems mem by (intro Cons.IH[OF rest]) auto
  then show ?case by (simp add: x insert_is_Un[symmetric] Un_assoc)
qed (simp add: apply_all_def)

text \<open>
  C29. Replicas converge on a task's workflow state. Take two replicas that hold the same task (same
  uid, possibly different numbers and whatever other contents) and no workflow event of it, and
  let each apply the same set of well-formed workflow events of that task, in any order, with any
  repetitions and at any times. Then both end with the same status and the same completion
  time, those the winning event stands for: the one with the highest Lamport clock and, on a
  tie, the highest event id.
\<close>
theorem workflow_state_converges:
  assumes "set (map snd xs) = A" "set (map snd ys) = A" "A \<noteq> {}"
    and "\<forall>x \<in> A. decisive x \<and> ev_uid x = u" "u \<noteq> []" "inj_on ev_id A"
    and "\<forall>(e, _) \<in> set xs \<union> set ys. range (new_event_id e) \<inter> ev_id ` A = {}"
    and "subject_row i u d1" "(i, i) \<notin> blocks_edges (deps d1)" "workflow_of u d1 = {}" "unseen A d1"
    and "subject_row j u d2" "(j, j) \<notin> blocks_edges (deps d2)" "workflow_of u d2 = {}" "unseen A d2"
    and "apply_all xs d1 = Inr d1'" "apply_all ys d2 = Inr d2'"
  shows "\<exists>w n m. wins_among w A \<and> find_node i d1' = Some n \<and> find_node j d2' = Some m
           \<and> (status n, closed_at n) = decided w \<and> (status m, closed_at m) = decided w"
proof -
  have start: "agrees i u {} d1" "agrees j u {} d2" using assms(8-10,12-14) by (simp_all add: agrees_def)
  have sets: "snd ` set xs = A" "snd ` set ys = A" using assms(1,2) by simp_all
  have "agrees i u ({} \<union> snd ` set xs) d1'"
    by (rule apply_all_agrees[OF assms(16) start(1) _ _ assms(4-6)]) (use assms(7,11) sets in auto)
  moreover have "agrees j u ({} \<union> snd ` set ys) d2'"
    by (rule apply_all_agrees[OF assms(17) start(2) _ _ assms(4-6)]) (use assms(7,15) sets in auto)
  ultimately have "agrees i u A d1'" "agrees j u A d2'" using sets by simp_all
  then obtain w v where w: "wins_among w A" "state_of i d1' = Some (decided w)"
    and v: "wins_among v A" "state_of j d2' = Some (decided v)"
    using assms(3) by (auto simp: agrees_def)
  have "v = w" using w(1) v(1) key_order.asym unfolding wins_among_def by metis
  with w v show ?thesis by (auto simp: state_of_def)
qed

definition sync_example :: db where
  "sync_example = empty_db\<lparr>nodes := [(row ''P-1'' [] StatusOpen)\<lparr>uid := ''u1''\<rparr>]\<rparr>"

definition remote_event :: "string \<Rightarrow> int \<Rightarrow> op_type \<Rightarrow> payload \<Rightarrow> sync_event" where
  "remote_event i lamport op pl =
     \<lparr>ev_id = i, ev_project = ''P'', ev_node = ''P-1'', ev_uid = ''u1'', ev_op = op, ev_payload = pl,
      ev_closed_at = None, ev_wall = 5000, ev_lamport = lamport, ev_vc = [], ev_author = ''bob'',
      ev_machine = ''0123456789abcdef'', ev_status = SyncStatusPushed, ev_created = 0\<rparr>"

definition remote_claim :: sync_event where
  "remote_claim = remote_event ''w1'' 5 OpClaim (ClaimPayload ''bob'' False)"

definition remote_done :: sync_event where
  "remote_done = remote_event ''w2'' 6 OpTransitionStatus (TransitionStatusPayload StatusInProgress StatusDone [])"

lemmas remote_defs = remote_claim_def remote_done_def remote_event_def

lemma sync_example_start:
  "subject_row ''P-1'' ''u1'' sync_example" "blocks_edges (deps sync_example) = {}"
  "workflow_of ''u1'' sync_example = {}" "unseen A sync_example"
  by (simp_all add: sync_example_def empty_db_def subject_row_def unique_ids_def ident_def row_def
      blocks_edges_def workflow_of_def unseen_def is_applied_event_def)

lemma remote_fresh: "range (new_event_id epoch_env) \<inter> ev_id ` {remote_claim, remote_done} = {}"
  by (auto simp: epoch_env_def example_env_def remote_defs)

theorem workflow_state_converges_witness:
  "\<exists>d1 d2. apply_all [(epoch_env, remote_claim), (epoch_env, remote_done)] sync_example = Inr d1
      \<and> apply_all [(epoch_env, remote_done), (epoch_env, remote_claim), (epoch_env, remote_done)] sync_example = Inr d2
      \<and> state_of ''P-1'' d1 = Some (StatusDone, Some 5) \<and> state_of ''P-1'' d2 = Some (StatusDone, Some 5)"
proof -
  let ?xs = "[(epoch_env, remote_claim), (epoch_env, remote_done)]"
  let ?ys = "[(epoch_env, remote_done), (epoch_env, remote_claim), (epoch_env, remote_done)]"
  let ?A = "{remote_claim, remote_done}"
  have "\<not> isl (apply_all ?xs sync_example)" "\<not> isl (apply_all ?ys sync_example)" by code_simp+
  then obtain d1 d2 where run: "apply_all ?xs sync_example = Inr d1" "apply_all ?ys sync_example = Inr d2"
    using result_cases by blast
  have ok: "decisive remote_claim" "decisive remote_done" by code_simp+
  have dec: "decided remote_done = (StatusDone, Some 5)" by code_simp
  have fresh: "\<forall>(e, _) \<in> set ?xs \<union> set ?ys. range (new_event_id e) \<inter> ev_id ` ?A = {}"
    using remote_fresh by auto
  have "\<exists>w n m. wins_among w ?A \<and> find_node ''P-1'' d1 = Some n \<and> find_node ''P-1'' d2 = Some m
      \<and> (status n, closed_at n) = decided w \<and> (status m, closed_at m) = decided w"
    by (rule workflow_state_converges[OF _ _ _ _ _ _ fresh sync_example_start(1) _ sync_example_start(3,4)
        sync_example_start(1) _ sync_example_start(3,4) run])
      (use ok in \<open>auto simp: sync_example_start remote_defs\<close>)
  then obtain w n m where w: "wins_among w ?A" "find_node ''P-1'' d1 = Some n" "find_node ''P-1'' d2 = Some m"
    "(status n, closed_at n) = decided w" "(status m, closed_at m) = decided w" by blast
  have "w = remote_done" using w(1) by (auto simp: wins_among_def workflow_key_beats_def workflow_key_def remote_defs)
  with w dec run show ?thesis by (simp add: state_of_def)
qed

section \<open>Delivering an event again\<close>

lemma diff_snapshots_self: "diff_snapshots (Some s) s = []"
  by (simp add: diff_snapshots_def diff_entry_def value_before_def same_history_value_def)

lemma record_history_same:
  assumes "tr_before tr = snapshot_tasks sc d" "tr_seen tr = hs_id sc # map fst (snapshot_tasks sc d)" "tr_moves tr = []"
  shows "record_history e sc tr d = d"
proof -
  have "read_touched (snapshot_tasks sc d) tr d = snapshot_tasks sc d"
    using assms by (auto simp: read_touched_def snapshot_tasks_def read_snapshot_def filter_empty_conv image_iff)
  moreover have "pairing_before tr i s = Some s" if "map_of (snapshot_tasks sc d) i = Some s" for i s
    using that assms(1,3) by (simp add: pairing_before_def old_of_def Let_def)
  ultimately have "history_entries e sc tr d = []"
    using assms(3) by (auto simp: history_entries_def read_moved_def Let_def diff_snapshots_self split: option.splits)
  then show ?thesis by (simp add: record_history_def trim_history_def sort_by_def)
qed

lemma with_history_unchanged:
  assumes "tx_tracker d = None" "\<And>t. body (d\<lparr>tx_tracker := t\<rparr>) = Inr (d\<lparr>tx_tracker := t\<rparr>)"
  shows "with_history e sc body d = Inr d"
proof -
  have snap: "snapshot_tasks sc (d\<lparr>tx_tracker := t\<rparr>) = snapshot_tasks sc d" for t
    by (simp add: snapshot_tasks_def)
  have reset: "d\<lparr>tx_tracker := None\<rparr> = d" using assms(1) by simp
  show ?thesis
    using assms by (simp add: with_history_def Let_def record_history_same snap reset)
qed

lemma with_history_fails:
  "(\<And>d0. same_tables d d0 \<Longrightarrow> body d0 = Inl err) \<Longrightarrow> with_history e sc body d = Inl err"
  by (simp add: with_history_def Let_def split: option.split)

lemma applied_after:
  assumes "apply_event e ev d = Inr d'"
  shows "is_applied_event (ev_id ev) d'"
proof (cases "is_applied_event (ev_id ev) d")
  case True
  with apply_seen_event[OF assms True] show ?thesis by simp
next
  case False
  have "ev_id h = ev_id ev" if "read_held_event (ev_id ev) d = Some h" for h
    using that by (auto simp: read_held_event_def find_Some_iff split: if_splits)
  note held = this
  show ?thesis
  proof (cases "read_held_event (ev_id ev) d")
    case None
    with assms False obtain d3 where "d' = settle_clocks e ev d3"
      by (auto simp: apply_event_def bind_result_Inr)
    then show ?thesis by (simp add: settle_fields)
  next
    case (Some h)
    with assms False have "d' = settle_clocks e h d" by (auto simp: apply_event_def bind_result_Inr)
    then show ?thesis using held[OF Some] by (simp add: settle_fields)
  qed
qed

text \<open>
  C31. Applying an event is idempotent. Once an event has been applied, applying it again, whenever,
  succeeds and leaves the database exactly as it is: no row, no clock, no log entry and no
  history changes, so a pull may deliver an event any number of times.
\<close>
theorem apply_is_idempotent:
  assumes "tx_tracker d = None" and "idempotent_apply e ev d = Inr d'"
  shows "idempotent_apply e' ev d' = Inr d'"
  using assms(2)[unfolded idempotent_apply_def]
proof (rule with_history_ok)
  fix d0 d1 assume run: "apply_event e ev d0 = Inr d1" and last: "same_tables d1 d'"
  have valid: "validate_sync_event ev = Inr ()" using run by (auto simp: apply_event_def bind_result_Inr)
  have "is_applied_event (ev_id ev) d'"
    using applied_after[OF run] same_tables_sync(1)[OF last] by (simp add: is_applied_event_def)
  then have "apply_event e' ev (d'\<lparr>tx_tracker := t\<rparr>) = Inr (d'\<lparr>tx_tracker := t\<rparr>)" for t
    by (simp add: apply_event_def valid is_applied_event_def)
  moreover have "tx_tracker d' = None"
    using assms by (auto simp: idempotent_apply_def with_history_def Let_def bind_result_Inr)
  ultimately show ?thesis unfolding idempotent_apply_def by (intro with_history_unchanged)
qed

theorem apply_is_idempotent_witness:
  "\<exists>d'. idempotent_apply epoch_env remote_claim sync_example = Inr d'
      \<and> idempotent_apply example_env remote_claim d' = Inr d'"
proof -
  have "\<not> isl (idempotent_apply epoch_env remote_claim sync_example)" by code_simp
  then obtain d' where d': "idempotent_apply epoch_env remote_claim sync_example = Inr d'"
    using result_cases by blast
  have "tx_tracker sync_example = None" by (simp add: sync_example_def empty_db_def)
  from apply_is_idempotent[OF this d'] d' show ?thesis by blast
qed

section \<open>A dependency received through sync\<close>

text \<open>
  C32. A received dependency is not checked for cycles. Where the blocks edges already lead from the
  target back to the source, a local request for the edge is refused with a cycle error, but a
  teammate's event for the same edge is applied: the graph of the replica then has a cycle, and
  the tasks on it block each other.
\<close>
theorem synced_edge_may_close_cycle:
  assumes "ev_op ev = OpLinkDep" "ev_payload ev = LinkDepPayload target DepTypeBlocks"
    and "resolve_node_ref ev d = Inr src" "refuse_pending_number target d = Inr ()"
    and "src \<noteq> []" "target \<noteq> []" "src \<noteq> target"
    and "find_node src d \<noteq> None" "find_node target d \<noteq> None"
    and "(target, src) \<in> (blocks_edges (deps d))\<^sup>*"
    and "\<not> list_ex (same_edge src target DepTypeBlocks) (deps d)"
  shows "add_dependency e \<lparr>from_id = src, to_id = target, dep_kind = DepTypeBlocks, dep_created_by = a\<rparr> d
           = Inl ErrCycleDetected
       \<and> (\<exists>d'. dispatch_apply e ev d = Inr d' \<and> \<not> acyclic (blocks_edges (deps d')))"
proof -
  let ?x = "\<lparr>from_id = src, to_id = target, dep_kind = DepTypeBlocks, dep_created_by = a\<rparr>"
  have "detect_cycle src target d0 = Inl ErrCycleDetected" if "same_tables d d0" for d0
  proof -
    have "detect_cycle src target d0 \<noteq> Inr ()"
      using assms(10) same_tables_fields(2)[OF that] by (simp add: detect_cycle_iff)
    then show ?thesis using detect_cycle_error by (cases "detect_cycle src target d0") auto
  qed
  then have "add_dependency e ?x d = Inl ErrCycleDetected"
    using assms(5-7) unfolding add_dependency_def
    by (simp add: validate_dependency_def dep_type_is_valid_def all_dep_types_def with_history_fails)
  moreover have "\<exists>d'. dispatch_apply e ev d = Inr d' \<and> \<not> acyclic (blocks_edges (deps d'))"
  proof -
    let ?y = "\<lparr>from_id = src, to_id = target, dep_kind = DepTypeBlocks, dep_created_by = ev_author ev\<rparr>"
    let ?d' = "auto_block_node e target (d\<lparr>deps := deps d @ [?y]\<rparr>)"
    have run: "dispatch_apply e ev d = Inr ?d'"
      using assms by (simp add: dispatch_apply_def apply_link_dep_def from_id_for_dep_edge_def insert_or_ignore_dependency_def)
    moreover have "blocks_edges (deps d @ [?y]) = insert (src, target) (blocks_edges (deps d))"
      by (auto simp: blocks_edges_def intro: exI[of _ ?y])
    then have edges: "blocks_edges (deps ?d') = insert (src, target) (blocks_edges (deps d))"
      by (simp add: auto_block_deps)
    moreover have "(src, src) \<in> (blocks_edges (deps ?d'))\<^sup>+"
      using assms(10) unfolding edges
      by (meson insertI1 rtrancl_mono subset_insertI subsetD rtrancl_into_trancl2)
    ultimately have "\<not> acyclic (blocks_edges (deps ?d'))" by (auto simp: acyclic_def)
    with run show ?thesis by blast
  qed
  ultimately show ?thesis by blast
qed

definition remote_link :: sync_event where
  "remote_link = (remote_event ''w3'' 7 OpLinkDep (LinkDepPayload ''P-2'' DepTypeBlocks))\<lparr>ev_uid := []\<rparr>"

definition cycle_example :: db where
  "cycle_example = empty_db\<lparr>nodes := [row ''P-1'' [] StatusOpen, row ''P-2'' [] StatusOpen],
     deps := [\<lparr>from_id = ''P-2'', to_id = ''P-1'', dep_kind = DepTypeBlocks, dep_created_by = []\<rparr>]\<rparr>"

theorem synced_edge_may_close_cycle_witness:
  "\<exists>d'. dispatch_apply epoch_env remote_link cycle_example = Inr d' \<and> \<not> acyclic (blocks_edges (deps d'))"
proof -
  have ref: "resolve_node_ref remote_link cycle_example = Inr ''P-1''"
    "refuse_pending_number ''P-2'' cycle_example = Inr ()" by code_simp+
  have nodes: "find_node ''P-1'' cycle_example \<noteq> None" "find_node ''P-2'' cycle_example \<noteq> None" by code_simp+
  have edge: "(''P-2'', ''P-1'') \<in> (blocks_edges (deps cycle_example))\<^sup>*"
    by (rule r_into_rtrancl) (simp add: cycle_example_def blocks_edges_def)
  have new: "\<not> list_ex (same_edge ''P-1'' ''P-2'' DepTypeBlocks) (deps cycle_example)" by code_simp
  show ?thesis
    using synced_edge_may_close_cycle[OF _ _ ref _ _ _ nodes edge new, of epoch_env "[]"]
    by (simp add: remote_link_def remote_event_def)
qed

end
