(* ===== verification/Comments.thy ===== *)
theory Comments
  imports Convergence
begin

text \<open>
  Comments received through sync (\<open>applyComment\<close> of \<open>sync_apply_ops.go\<close> with
  \<open>appendLegacyAnnotation\<close> and \<open>SortAnnotations\<close>): the stored list is the same whatever the order
  the comments arrived in.
\<close>

section \<open>Sorted annotation lists\<close>

lemma set_sort_annotations [simp]: "set (sort_annotations as) = set as"
  by (simp add: sort_annotations_def)

lemma sort_annotations_perm:
  assumes "set as = set bs" "distinct (map an_id as)" "distinct (map an_id bs)"
  shows "sort_annotations as = sort_annotations bs"
proof -
  let ?k = "\<lambda>a :: annotation. (an_created_at a, an_id a)"
  have "distinct as" "distinct bs" using assms(2,3) by (simp_all add: distinct_map)
  then have mset: "mset as = mset bs" using assms(1) by (simp add: set_eq_iff_mset_eq_distinct)
  have "inj_on an_id (set as)" using assms(2) by (simp add: distinct_map)
  then have inj: "inj_on ?k (set as)" by (auto simp: inj_on_def)
  have dk: "distinct (map ?k (sort_key ?k q))" if "set q = set as" "distinct q" for q
    using inj that by (simp add: distinct_map)
  have "map ?k (sort_key ?k as) = map ?k (sort_key ?k bs)"
    by (rule sorted_distinct_set_unique) (use dk assms(1) \<open>distinct as\<close> \<open>distinct bs\<close> in simp_all)
  moreover have "inj_on ?k (set (sort_key ?k as) \<union> set (sort_key ?k bs))" using inj assms(1) by simp
  ultimately show ?thesis unfolding sort_annotations_def by (rule map_inj_on)
qed

section \<open>One comment\<close>

text \<open>A comment event without a snapshot, and the annotation it stands for.\<close>

definition plain_comment :: "sync_event \<Rightarrow> bool" where
  "plain_comment ev \<longleftrightarrow> ev_op ev = OpComment \<and> is_storable_time (ev_wall ev * 1000000)
     \<and> (case ev_payload ev of CommentPayload _ _ _ None \<Rightarrow> True | _ \<Rightarrow> False)"

definition note_of :: "sync_event \<Rightarrow> annotation" where
  "note_of ev = (case ev_payload ev of
       CommentPayload author body addressee _ \<Rightarrow>
         \<lparr>an_id = ev_id ev, an_author = author, an_text = body, an_created_at = ev_wall ev * 1000000,
          an_resolved = False, an_addressee = addressee\<rparr>
     | _ \<Rightarrow> \<lparr>an_id = ev_id ev, an_author = [], an_text = [], an_created_at = 0, an_resolved = False,
             an_addressee = []\<rparr>)"

lemma note_of_id [simp]: "an_id (note_of ev) = ev_id ev"
  by (simp add: note_of_def split: payload.splits)

lemma plain_comment_annotations:
  assumes "plain_comment ev" "\<forall>a \<in> set as. an_id a \<noteq> ev_id ev"
  shows "comment_annotations e ev d as = Inr (as @ [note_of ev])"
  using assms by (auto simp: plain_comment_def comment_annotations_def append_legacy_annotation_def
      note_of_def event_time_def list_ex_iff split: payload.splits option.splits)

text \<open>The notes of a task.\<close>

definition notes_of :: "string \<Rightarrow> db \<Rightarrow> annotation list" where
  "notes_of i d = (case find_node i d of None \<Rightarrow> [] | Some n \<Rightarrow> annotations n)"

lemma apply_new_comment:
  assumes "apply_event e ev d = Inr d'" "unseen {ev} d" "plain_comment ev" "ev_uid ev = u" "u \<noteq> []"
    and "subject_row i u d" "\<forall>a \<in> set (notes_of i d). an_id a \<noteq> ev_id ev"
  shows "subject_row i u d' \<and> notes_of i d' = sort_annotations (notes_of i d @ [note_of ev])
       \<and> is_applied_event (ev_id ev) d'
       \<and> (\<forall>k. is_applied_event k d \<longrightarrow> is_applied_event k d')
       \<and> (\<forall>R. unseen R d \<and> (\<forall>x \<in> R. ev_id x \<noteq> ev_id ev) \<longrightarrow> unseen R d')"
proof -
  have new: "ev_id ev \<notin> ev_id ` set (events d)" "\<not> is_applied_event (ev_id ev) d" "ev_id ev \<notin> set (inbox_restored d)"
    using assms(2) by (simp_all add: unseen_def)
  have "\<forall>h \<in> set (events d). ev_id h \<noteq> ev_id ev" using new(1) by (metis image_eqI)
  then have "read_held_event (ev_id ev) d = None" by (simp add: read_held_event_def find_none_iff)
  then obtain d1 d3 where mir: "mirror_incoming_event e ev d = Inr d1"
    and disp: "dispatch_with_lww e ev (set_foreign_hub_mark (ev_id ev) d1) = Inr d3"
    and d': "d' = settle_clocks e ev d3"
    using assms(1) new(2) by (auto simp: apply_event_def bind_result_Inr)
  define d2 where "d2 = set_foreign_hub_mark (ev_id ev) d1"
  have d2: "events d2 = events d @ [ev\<lparr>ev_status := SyncStatusApplied, ev_created := now e\<rparr>]"
    "nodes d2 = nodes d" "applied_events d2 = applied_events d" "inbox_restored d2 = inbox_restored d"
    unfolding d2_def mirrored_fields[OF new(1,3) mir] by simp_all
  have "ident d2 = ident d" by (simp add: ident_def d2)
  from subject_row_ident[OF this] assms(6) have sub2: "subject_row i u d2" by simp
  obtain n where n: "find_node i d2 = Some n" "find_live i d2 = Some n" "find_live_uid u d2 = Some n" "node_id n = i" "live n"
    using subject_row_find[OF sub2 assms(5)] by blast
  have held: "annotations n = notes_of i d" using n(1) by (simp add: notes_of_def find_node_def d2)
  let ?f = "\<lambda>m. m\<lparr>annotations := sort_annotations (notes_of i d @ [note_of ev]),
      updated_at := unix_second (event_time e (ev_wall ev))\<rparr>"
  have payload: "\<not> (case ev_payload ev of CommentPayload _ _ _ _ \<Rightarrow> False | _ \<Rightarrow> True)"
    and op: "ev_op ev = OpComment"
    using assms(3) by (simp_all add: plain_comment_def split: payload.splits)
  have ref: "resolve_node_ref ev d2 = Inr i" using assms(4,5) n(3,4) by (simp add: resolve_node_ref_def)
  have ann: "comment_annotations e ev d2 (annotations n) = Inr (notes_of i d @ [note_of ev])"
    unfolding held by (rule plain_comment_annotations[OF assms(3,7)])
  have "apply_comment e ev d2 = Inr (update_live i ?f d2)"
    using payload ref ann n(2) by (simp add: apply_comment_def)
  then have d3: "d3 = update_live i ?f d2"
    using disp op unfolding d2_def[symmetric]
    by (simp add: dispatch_with_lww_def is_workflow_op_def detect_lww_outcome_def field_key_for_lww_def dispatch_apply_def)
  have fields: "events d3 = events d2" "applied_events d3 = applied_events d2" "inbox_restored d3 = inbox_restored d2"
    by (simp_all add: d3 update_live_def update_where_def)
  have "find_node i d3 = Some (?f n)"
    using n by (simp add: d3 update_live_def row_simps keeps_key_def)
  then have "notes_of i d' = sort_annotations (notes_of i d @ [note_of ev])"
    by (simp add: notes_of_def d' find_node_def settle_fields)
  moreover have "ident d' = ident d2"
    by (simp add: ident_def d' settle_fields d3 update_live_def row_simps)
  then have "subject_row i u d'" using sub2 subject_row_ident by blast
  moreover have "unseen R d'" if "unseen R d" "\<forall>x \<in> R. ev_id x \<noteq> ev_id ev" for R
    using that by (auto simp: unseen_def d' settle_fields fields d2) (simp_all add: is_applied_event_def fields d2)
  ultimately show ?thesis
    by (simp add: d' settle_fields) (simp add: is_applied_event_def fields d2)
qed

section \<open>A run of comments\<close>

definition noted :: "string \<Rightarrow> string \<Rightarrow> annotation set \<Rightarrow> sync_event set \<Rightarrow> db \<Rightarrow> bool" where
  "noted i u S E d \<longleftrightarrow> subject_row i u d \<and> set (notes_of i d) = S \<union> note_of ` E
     \<and> distinct (map an_id (notes_of i d)) \<and> (\<forall>x \<in> E. is_applied_event (ev_id x) d)
     \<and> (E \<noteq> {} \<longrightarrow> notes_of i d = sort_annotations (notes_of i d))"

lemma noted_tables: "same_tables d d' \<Longrightarrow> noted i u S E d' = noted i u S E d"
proof -
  assume same: "same_tables d d'"
  have "ident d' = ident d" by (simp add: ident_def same_tables_fields(1)[OF same])
  from subject_row_ident[OF this] show ?thesis
    by (simp add: noted_def notes_of_def same_tables_find[OF same] is_applied_event_def same_tables_sync[OF same])
qed

lemma unseen_tables: "same_tables d d' \<Longrightarrow> unseen R d' = unseen R d"
  by (simp add: unseen_def is_applied_event_def same_tables_sync same_tables_fields(5))

lemma sort_annotations_idem: "sort_annotations (sort_annotations as) = sort_annotations as"
  unfolding sort_annotations_def by (rule sort_key_id_if_sorted) (rule sorted_sort_key)

lemma apply_comment_once:
  assumes "idempotent_apply e ev d = Inr d'" "noted i u S E d" "unseen (A - E) d"
    and "ev \<in> A" "\<forall>x \<in> A. plain_comment x \<and> ev_uid x = u" "u \<noteq> []" "inj_on ev_id A" "E \<subseteq> A"
    and "\<forall>a \<in> S. an_id a \<notin> ev_id ` A"
  shows "noted i u S (insert ev E) d' \<and> unseen (A - insert ev E) d'"
  using assms(1)[unfolded idempotent_apply_def]
proof (rule with_history_ok)
  fix d0 d1 assume same: "same_tables d d0" and run: "apply_event e ev d0 = Inr d1" and last: "same_tables d1 d'"
  have inv: "noted i u S E d0" "unseen (A - E) d0"
    using assms(2,3) noted_tables[OF same] unseen_tables[OF same] by simp_all
  have "noted i u S (insert ev E) d1 \<and> unseen (A - insert ev E) d1"
  proof (cases "ev \<in> E")
    case True
    then have "is_applied_event (ev_id ev) d0" using inv(1) by (simp add: noted_def)
    from apply_seen_event[OF run this] show ?thesis using inv True by (simp add: insert_absorb)
  next
    case False
    have ids: "\<forall>x \<in> A - {ev}. ev_id x \<noteq> ev_id ev" using assms(4,7) by (auto dest: inj_onD)
    have fresh: "\<forall>a \<in> set (notes_of i d0). an_id a \<noteq> ev_id ev"
      using inv(1) assms(4,8,9) ids False by (auto simp: noted_def)
    have "unseen {ev} d0" using inv(2) assms(4) False by (simp add: unseen_def)
    moreover have "plain_comment ev" "ev_uid ev = u" using assms(4,5) by auto
    moreover have "subject_row i u d0" using inv(1) by (simp add: noted_def)
    ultimately have step: "subject_row i u d1" "notes_of i d1 = sort_annotations (notes_of i d0 @ [note_of ev])"
      "is_applied_event (ev_id ev) d1" "\<forall>k. is_applied_event k d0 \<longrightarrow> is_applied_event k d1"
      "\<forall>R. unseen R d0 \<and> (\<forall>x \<in> R. ev_id x \<noteq> ev_id ev) \<longrightarrow> unseen R d1"
      using apply_new_comment[OF run _ _ _ assms(6) _ fresh] by blast+
    have "ev_id ev \<notin> an_id ` set (notes_of i d0)" using fresh by auto
    then have dist: "distinct (map an_id (notes_of i d0 @ [note_of ev]))" using inv(1) by (simp add: noted_def)
    have "mset (map an_id (notes_of i d1)) = mset (map an_id (notes_of i d0 @ [note_of ev]))"
      by (simp add: step(2) sort_annotations_def)
    then have "distinct (map an_id (notes_of i d1))" using dist mset_eq_imp_distinct_iff by blast
    moreover have "set (notes_of i d1) = S \<union> note_of ` insert ev E" using inv(1) by (auto simp: step(2) noted_def)
    ultimately have "noted i u S (insert ev E) d1"
      using step inv(1) by (simp add: noted_def sort_annotations_idem)
    moreover have "unseen (A - insert ev E) d0" "\<forall>x \<in> A - insert ev E. ev_id x \<noteq> ev_id ev"
      using inv(2) ids by (auto simp: unseen_def)
    ultimately show ?thesis using step(5) by blast
  qed
  then show "noted i u S (insert ev E) d' \<and> unseen (A - insert ev E) d'"
    by (simp add: noted_tables[OF last] unseen_tables[OF last])
qed

lemma apply_all_noted:
  assumes "apply_all xs d = Inr d'" "noted i u S E d" "unseen (A - E) d" "snd ` set xs \<subseteq> A"
    and "\<forall>x \<in> A. plain_comment x \<and> ev_uid x = u" "u \<noteq> []" "inj_on ev_id A" "E \<subseteq> A"
    and "\<forall>a \<in> S. an_id a \<notin> ev_id ` A"
  shows "noted i u S (E \<union> snd ` set xs) d'"
  using assms
proof (induction xs arbitrary: d E)
  case (Cons x xs)
  obtain e ev where x: "x = (e, ev)" by (cases x)
  from Cons.prems(1) obtain d1 where one: "idempotent_apply e ev d = Inr d1" and rest: "apply_all xs d1 = Inr d'"
    by (auto simp: apply_all_def x bind_result_Inr)
  have mem: "ev \<in> A" using Cons.prems(4) by (auto simp: x)
  from apply_comment_once[OF one Cons.prems(2,3) mem Cons.prems(5-9)]
  have "noted i u S (insert ev E) d1" "unseen (A - insert ev E) d1" by simp_all
  then have "noted i u S (insert ev E \<union> snd ` set xs) d'"
    using Cons.prems mem by (intro Cons.IH[OF rest]) auto
  then show ?case by (simp add: x insert_is_Un[symmetric] Un_assoc)
qed (simp add: apply_all_def)


definition remote_comment :: "string \<Rightarrow> int \<Rightarrow> string \<Rightarrow> sync_event" where
  "remote_comment i wall body =
     (remote_event i 8 OpComment (CommentPayload ''bob'' body [] None))\<lparr>ev_wall := wall\<rparr>"


end
