(* ===== verification/Relay_Checksums.thy ===== *)
theory Relay_Checksums
  imports Prelude "HOL-Library.Word"
begin

text \<open>
  The byte-level functions the relay frame is built from: big-endian integers
  (\<open>encoding/binary\<close>), CRC32C (\<open>hash/crc32\<close> with the Castagnoli table) and HMAC-SHA256
  (\<open>crypto/hmac\<close>, \<open>crypto/sha256\<close>), each the function of its standard on byte lists. The proofs
  about frames use only their lengths; the definitions are complete so that a frame can be
  computed byte for byte.
\<close>

unbundle bit_operations_syntax

type_synonym bytes = string

named_theorems be_simps \<open>laws of big-endian integers and of slices\<close>

section \<open>Slices\<close>

text \<open>\<open>b[i:j]\<close> within bounds.\<close>

definition slice :: "nat \<Rightarrow> nat \<Rightarrow> bytes \<Rightarrow> bytes" where
  "slice i j b = take (j - i) (drop i b)"

abbreviation nul :: char where "nul \<equiv> CHR 0x00"

text \<open>\<open>copy\<close> of a string into a zeroed field of fixed width.\<close>

definition nul_padded :: "nat \<Rightarrow> string \<Rightarrow> bytes" where
  "nul_padded n s = take n s @ replicate (n - length s) nul"

lemma length_nul_padded [simp]: "length (nul_padded n s) = n"
  by (simp add: nul_padded_def)

lemma length_slice [simp]: "j \<le> length b \<Longrightarrow> length (slice i j b) = j - i"
  by (simp add: slice_def)

lemma slice_append_left [be_simps]: "j \<le> length a \<Longrightarrow> slice i j (a @ b) = slice i j a"
  by (simp add: slice_def)

lemma slice_append_right [be_simps]:
  "length a \<le> i \<Longrightarrow> slice i j (a @ b) = slice (i - length a) (j - length a) b"
  by (simp add: slice_def)

lemma slice_full [be_simps]: "slice 0 (length b) b = b"
  by (simp add: slice_def)

lemma slice_full': "n = length b \<Longrightarrow> slice 0 n b = b"
  by (simp add: slice_def)

lemma slice_slice: "j \<le> length b \<Longrightarrow> i \<le> j \<Longrightarrow> slice 0 i b @ slice i j b = slice 0 j b"
  by (metis add_diff_inverse_nat diff_zero drop0 slice_def take_add not_less)

lemma slice_take: "j \<le> n \<Longrightarrow> slice i j (take n b) = slice i j b"
  by (simp add: slice_def drop_take min_def)

section \<open>Big-endian integers\<close>

fun put_be :: "nat \<Rightarrow> int \<Rightarrow> bytes" where
  "put_be 0 v = []"
| "put_be (Suc n) v = put_be n (v div 256) @ [char_of (v mod 256)]"

definition get_be :: "bytes \<Rightarrow> int" where
  "get_be bs = foldl (\<lambda>v c. 256 * v + of_char c) 0 bs"

lemma length_put_be [simp]: "length (put_be n v) = n"
  by (induction n arbitrary: v) auto

lemma get_be_snoc: "get_be (bs @ [c]) = 256 * get_be bs + of_char c"
  by (simp add: get_be_def)

lemma of_char_range: "0 \<le> (of_char c :: int)" "(of_char c :: int) < 256"
proof -
  have "(of_char c :: int) = int (of_char c)" by (simp add: of_nat_of_char)
  moreover have "(of_char c :: nat) < 256" by simp
  ultimately show "0 \<le> (of_char c :: int)" "(of_char c :: int) < 256" by linarith+
qed

lemma get_put_be [be_simps]: "get_be (put_be n v) = v mod 256 ^ n"
proof (induction n arbitrary: v)
  case 0
  then show ?case by (simp add: get_be_def)
next
  case (Suc n)
  have "v mod 256 ^ Suc n = v mod (256 * 256 ^ n)" by simp
  also have "\<dots> = 256 * (v div 256 mod 256 ^ n) + v mod 256" by (rule zmod_zmult2_eq) simp
  finally show ?case using Suc by (simp add: get_be_snoc)
qed

lemma put_get_be: "put_be (length bs) (get_be bs) = bs"
proof (induction bs rule: rev_induct)
  case (snoc c bs)
  define q where "q = 256 * get_be bs + (of_char c :: int)"
  have "q div 256 = get_be bs" "q mod 256 = of_char c"
    unfolding q_def using of_char_range[of c] by (simp_all add: mult.commute)
  then have "put_be (Suc (length bs)) q = bs @ [c]" using snoc by simp
  then show ?case by (simp only: get_be_snoc q_def length_append_singleton)
qed simp

lemma get_be_range: "0 \<le> get_be bs" "get_be bs < 256 ^ length bs"
proof -
  have "get_be bs = get_be (put_be (length bs) (get_be bs))" by (simp add: put_get_be)
  also have "\<dots> = get_be bs mod 256 ^ length bs" by (rule get_put_be)
  finally have eq: "get_be bs = get_be bs mod 256 ^ length bs" .
  show "0 \<le> get_be bs" by (subst eq) simp
  show "get_be bs < 256 ^ length bs" by (subst eq) simp
qed

text \<open>\<open>PutUint16/32/64\<close> and \<open>Uint16/32/64\<close> on words.\<close>

definition put_u16 :: "16 word \<Rightarrow> bytes" where "put_u16 w = put_be 2 (uint w)"
definition put_u32 :: "32 word \<Rightarrow> bytes" where "put_u32 w = put_be 4 (uint w)"
definition put_u64 :: "64 word \<Rightarrow> bytes" where "put_u64 w = put_be 8 (uint w)"
definition get_u16 :: "bytes \<Rightarrow> 16 word" where "get_u16 b = word_of_int (get_be b)"
definition get_u32 :: "bytes \<Rightarrow> 32 word" where "get_u32 b = word_of_int (get_be b)"
definition get_u64 :: "bytes \<Rightarrow> 64 word" where "get_u64 b = word_of_int (get_be b)"

lemma length_put_word [simp]:
  "length (put_u16 v) = 2" "length (put_u32 w) = 4" "length (put_u64 x) = 8"
  by (simp_all add: put_u16_def put_u32_def put_u64_def)

lemma uint_mod_bytes:
  "uint (v :: 16 word) mod 256 ^ 2 = uint v" "uint (w :: 32 word) mod 256 ^ 4 = uint w"
  "uint (x :: 64 word) mod 256 ^ 8 = uint x"
  using uint_lt2p[of v] uint_lt2p[of w] uint_lt2p[of x] by simp_all

lemma get_put_word [be_simps]:
  "get_u16 (put_u16 v) = v" "get_u32 (put_u32 w) = w" "get_u64 (put_u64 x) = x"
  using uint_mod_bytes(1)[of v] uint_mod_bytes(2)[of w] uint_mod_bytes(3)[of x]
  by (simp_all add: get_u16_def put_u16_def get_u32_def put_u32_def get_u64_def put_u64_def get_put_be)

lemma put_get_word:
  "length a = 2 \<Longrightarrow> put_u16 (get_u16 a) = a" "length b = 4 \<Longrightarrow> put_u32 (get_u32 b) = b"
  "length c = 8 \<Longrightarrow> put_u64 (get_u64 c) = c"
proof -
  show "length a = 2 \<Longrightarrow> put_u16 (get_u16 a) = a"
    using get_be_range[of a] put_get_be[of a] by (simp add: put_u16_def get_u16_def uint_word_of_int_eq take_bit_int_eq_self)
  show "length b = 4 \<Longrightarrow> put_u32 (get_u32 b) = b"
    using get_be_range[of b] put_get_be[of b] by (simp add: put_u32_def get_u32_def uint_word_of_int_eq take_bit_int_eq_self)
  show "length c = 8 \<Longrightarrow> put_u64 (get_u64 c) = c"
    using get_be_range[of c] put_get_be[of c] by (simp add: put_u64_def get_u64_def uint_word_of_int_eq take_bit_int_eq_self)
qed

section \<open>CRC32C\<close>

definition crc32c_bit :: "32 word \<Rightarrow> 32 word" where
  "crc32c_bit c = (if c AND 1 = 1 then drop_bit 1 c XOR 0x82F63B78 else drop_bit 1 c)"

definition crc32c_byte :: "32 word \<Rightarrow> char \<Rightarrow> 32 word" where
  "crc32c_byte c b = (crc32c_bit ^^ 8) (c XOR word_of_int (of_char b))"

definition crc32c :: "bytes \<Rightarrow> 32 word" where
  "crc32c payload = NOT (foldl crc32c_byte (NOT 0) payload)"

section \<open>SHA-256 and HMAC\<close>

type_synonym sha_state =
  "32 word \<times> 32 word \<times> 32 word \<times> 32 word \<times> 32 word \<times> 32 word \<times> 32 word \<times> 32 word"

text \<open>The round constants, eight words to a literal.\<close>

definition eight_words :: "int \<Rightarrow> 32 word list" where
  "eight_words n = map (\<lambda>i. word_of_int (drop_bit (32 * (7 - i)) n)) [0 ..< 8]"

definition sha256_k :: "32 word list" where
  "sha256_k = concat (map eight_words [
     0x428a2f9871374491b5c0fbcfe9b5dba53956c25b59f111f1923f82a4ab1c5ed5,
     0xd807aa9812835b01243185be550c7dc372be5d7480deb1fe9bdc06a7c19bf174,
     0xe49b69c1efbe47860fc19dc6240ca1cc2de92c6f4a7484aa5cb0a9dc76f988da,
     0x983e5152a831c66db00327c8bf597fc7c6e00bf3d5a7914706ca635114292967,
     0x27b70a852e1b21384d2c6dfc53380d13650a7354766a0abb81c2c92e92722c85,
     0xa2bfe8a1a81a664bc24b8b70c76c51a3d192e819d6990624f40e3585106aa070,
     0x19a4c1161e376c082748774c34b0bcb5391c0cb34ed8aa4a5b9cca4f682e6ff3,
     0x748f82ee78a5636f84c878148cc7020890befffaa4506cebbef9a3f7c67178f2])"

definition sha256_init :: sha_state where
  "sha256_init = (0x6a09e667, 0xbb67ae85, 0x3c6ef372, 0xa54ff53a,
                  0x510e527f, 0x9b05688c, 0x1f83d9ab, 0x5be0cd19)"

text \<open>One more word of the message schedule, the newest first.\<close>

definition schedule_word :: "32 word list \<Rightarrow> 32 word list" where
  "schedule_word ws =
     (let v1 = ws ! 1; v2 = ws ! 14;
          s1 = word_rotr 17 v1 XOR word_rotr 19 v1 XOR drop_bit 10 v1;
          s0 = word_rotr 7 v2 XOR word_rotr 18 v2 XOR drop_bit 3 v2
      in (s1 + ws ! 6 + s0 + ws ! 15) # ws)"

fun words_of :: "nat \<Rightarrow> bytes \<Rightarrow> 32 word list" where
  "words_of 0 b = []"
| "words_of (Suc n) b = get_u32 (take 4 b) # words_of n (drop 4 b)"

definition sha256_round :: "32 word \<times> 32 word \<Rightarrow> sha_state \<Rightarrow> sha_state" where
  "sha256_round kw st =
     (case kw of (k, w) \<Rightarrow> case st of (a, b, c, d, e, f, g, h) \<Rightarrow>
      let t1 = h + (word_rotr 6 e XOR word_rotr 11 e XOR word_rotr 25 e)
               + ((e AND f) XOR (NOT e AND g)) + k + w;
          t2 = (word_rotr 2 a XOR word_rotr 13 a XOR word_rotr 22 a)
               + ((a AND b) XOR (a AND c) XOR (b AND c))
      in (t1 + t2, a, b, c, d + t1, e, f, g))"

definition sha256_block :: "bytes \<Rightarrow> sha_state \<Rightarrow> sha_state" where
  "sha256_block blk st =
     (let ws = rev ((schedule_word ^^ 48) (rev (words_of 16 blk)))
      in case (st, fold sha256_round (zip sha256_k ws) st) of
           ((a, b, c, d, e, f, g, h), (a', b', c', d', e', f', g', h')) \<Rightarrow>
             (a + a', b + b', c + c', d + d', e + e', f + f', g + g', h + h'))"

fun sha256_blocks :: "nat \<Rightarrow> bytes \<Rightarrow> sha_state \<Rightarrow> sha_state" where
  "sha256_blocks 0 b st = st"
| "sha256_blocks (Suc n) b st = sha256_blocks n (drop 64 b) (sha256_block (take 64 b) st)"

definition sha256_padded :: "bytes \<Rightarrow> bytes" where
  "sha256_padded m = m @ [CHR 0x80] @ replicate (nat ((55 - int (length m)) mod 64)) nul
     @ put_be 8 (8 * int (length m))"

definition sha256 :: "bytes \<Rightarrow> bytes" where
  "sha256 m = (let p = sha256_padded m in
     case sha256_blocks (length p div 64) p sha256_init of (a, b, c, d, e, f, g, h) \<Rightarrow>
       put_u32 a @ put_u32 b @ put_u32 c @ put_u32 d @ put_u32 e @ put_u32 f @ put_u32 g @ put_u32 h)"

definition xor_byte :: "int \<Rightarrow> char \<Rightarrow> char" where
  "xor_byte p c = char_of (of_char c XOR p)"

definition hmac_sha256 :: "bytes \<Rightarrow> bytes \<Rightarrow> bytes" where
  "hmac_sha256 key m =
     (let k = nul_padded 64 (if 64 < length key then sha256 key else key)
      in sha256 (map (xor_byte 0x5c) k @ sha256 (map (xor_byte 0x36) k @ m)))"

lemma length_sha256 [simp]: "length (sha256 m) = 32"
  by (simp add: sha256_def Let_def split: prod.splits)

lemma length_hmac [simp]: "length (hmac_sha256 key m) = 32"
  by (simp add: hmac_sha256_def Let_def)

end
