(* ===== verification/Relay_Format.thy ===== *)
theory Relay_Format
  imports Node_Ids Relay_Checksums
begin

text \<open>
  The segment format of the file relay (\<open>internal/relay/segment/format.go\<close>, \<open>naming.go\<close>,
  \<open>errors.go\<close>, \<open>lifecycle.go\<close>): the 92-byte segment header, the record frame with its length, CRC
  and MAC, the file names, and the lifecycle of a segment. Parsing what was framed gives the
  header and the record back, and whatever parses is the frame of what was parsed.
\<close>

unbundle bit_operations_syntax

section \<open>errors.go\<close>

text \<open>
  The sentinels of the package; \<open>ErrMedium\<close> is an error of the file system, of a closed writer or
  of the configuration. \<open>ErrInvalidTransition\<close> of this package is \<open>ErrSegmentTransition\<close> here.
\<close>

datatype relay_error =
    ErrSymlink | ErrForeignEntry | ErrSegmentCorrupt | ErrGap | ErrPeerIDConflict
  | ErrBadMagic | ErrPayloadTooLarge | ErrCRCMismatch | ErrMACMismatch | ErrBadFormatVersion
  | ErrBadPeerIDField | ErrIncomplete | ErrSegmentTransition | ErrUnauthenticatedKey | ErrMedium

type_synonym 'a relay_result = "relay_error + 'a"

text \<open>\<open>errors.Is(err, ErrSegmentCorrupt)\<close>: the frame-level causes wrap it.\<close>

definition wraps_corrupt :: "relay_error \<Rightarrow> bool" where
  "wraps_corrupt e \<longleftrightarrow> e \<in> {ErrSegmentCorrupt, ErrBadMagic, ErrPayloadTooLarge, ErrCRCMismatch,
     ErrMACMismatch, ErrBadFormatVersion, ErrBadPeerIDField, ErrUnauthenticatedKey}"

definition code_of :: "relay_error option \<Rightarrow> string" where
  "code_of err = (case err of
     None \<Rightarrow> []
   | Some e \<Rightarrow>
       if e = ErrSymlink then ''RELAY_SYMLINK''
       else if e = ErrForeignEntry then ''RELAY_FOREIGN_ENTRY''
       else if e = ErrGap then ''RELAY_GAP''
       else if e = ErrPeerIDConflict then ''RELAY_PEER_ID_CONFLICT''
       else if wraps_corrupt e then ''RELAY_SEGMENT_CORRUPT''
       else [])"

definition is_incomplete :: "relay_error option \<Rightarrow> bool" where
  "is_incomplete err \<longleftrightarrow> err = Some ErrIncomplete"

section \<open>naming.go\<close>

definition is_label_char :: "char \<Rightarrow> bool" where
  "is_label_char c \<longleftrightarrow> is_lower c \<or> is_digit c \<or> c = CHR ''_'' \<or> c = CHR ''-''"

text \<open>\<open>peerIDPattern\<close>: 16 lower hex digits, then optionally a dash and a label of 1 to 32 bytes.\<close>

definition peer_id_pattern :: "string \<Rightarrow> bool" where
  "peer_id_pattern s \<longleftrightarrow>
     16 \<le> length s \<and> list_all is_lower_hex (take 16 s)
     \<and> (case drop 16 s of
          [] \<Rightarrow> True
        | c # label \<Rightarrow> c = CHR ''-'' \<and> label \<noteq> [] \<and> length label \<le> 32 \<and> list_all is_label_char label)"

definition validate_peer_id :: "string \<Rightarrow> unit relay_result" where
  "validate_peer_id i = (if peer_id_pattern i then Inr () else Inl ErrForeignEntry)"

definition file_digits :: nat where "file_digits = 8"

definition file_name :: "64 word \<Rightarrow> string" where
  "file_name no = (let ds = dec_nat (unat no)
     in ''seg-'' @ replicate (file_digits - length ds) CHR ''0'' @ ds @ ''.mrseg'')"

text \<open>\<open>segFilePattern\<close>: the digits of a segment file name.\<close>

definition seg_file_digits :: "string \<Rightarrow> string option" where
  "seg_file_digits name =
     (let ds = take (length name - 10) (drop 4 name)
      in if take 4 name = ''seg-'' \<and> drop (4 + length ds) name = ''.mrseg''
            \<and> list_all is_digit ds \<and> file_digits \<le> length ds
         then Some ds else None)"

definition parse_file_name :: "string \<Rightarrow> (64 word) relay_result" where
  "parse_file_name name =
     (case seg_file_digits name of
        None \<Rightarrow> Inl ErrForeignEntry
      | Some ds \<Rightarrow>
          if 2 ^ 64 \<le> digits_val ds then Inl ErrForeignEntry
          else if digits_val ds = 0 then Inl ErrForeignEntry
          else Inr (of_nat (digits_val ds)))"

section \<open>The segment header\<close>

definition magic_segment :: bytes where "magic_segment = ''MRSG''"
definition magic_record :: bytes where "magic_record = ''MREC''"
definition header_size :: nat where "header_size = 92"
definition record_header_size :: nat where "record_header_size = 52"
definition mac_size :: nat where "mac_size = 32"
definition peer_id_field_size :: nat where "peer_id_field_size = 64"
definition max_record_payload :: int where "max_record_payload = 128 * 1024"
definition default_max_segment_bytes :: int where "default_max_segment_bytes = 4 * 1024 * 1024"
definition current_format :: "16 word" where "current_format = 0x0100"
definition flag_authenticated :: "16 word" where "flag_authenticated = 1"

definition format_major :: "16 word \<Rightarrow> 8 word" where
  "format_major v = ucast (drop_bit 8 v)"

record segment_header =
  sh_version :: "16 word"
  sh_flags :: "16 word"
  sh_peer :: string
  sh_segment :: "64 word"
  sh_first_rs :: "64 word"
  sh_key_epoch :: "16 word"
  sh_pub_epoch :: "16 word"

definition authenticated :: "segment_header \<Rightarrow> bool" where
  "authenticated h \<longleftrightarrow> sh_flags h AND flag_authenticated \<noteq> 0"

definition validate_header :: "segment_header \<Rightarrow> unit relay_result" where
  "validate_header h =
     (if format_major (sh_version h) \<noteq> format_major current_format then Inl ErrBadFormatVersion
      else case validate_peer_id (sh_peer h) of
        Inl _ \<Rightarrow> Inl ErrBadPeerIDField
      | Inr _ \<Rightarrow>
          if sh_segment h = 0 then Inl ErrSegmentCorrupt
          else if sh_first_rs h = 0 then Inl ErrSegmentCorrupt
          else Inr ())"

text \<open>\<open>MarshalBinary\<close>: the bytes of a header, refused when it is not valid.\<close>

definition header_bytes :: "segment_header \<Rightarrow> bytes" where
  "header_bytes h = magic_segment @ put_u16 (sh_version h) @ put_u16 (sh_flags h)
     @ nul_padded peer_id_field_size (sh_peer h)
     @ put_u64 (sh_segment h) @ put_u64 (sh_first_rs h)
     @ put_u16 (sh_key_epoch h) @ put_u16 (sh_pub_epoch h)"

definition marshal_header :: "segment_header \<Rightarrow> bytes relay_result" where
  "marshal_header h = bind_result (validate_header h) (\<lambda>_. Inr (header_bytes h))"

text \<open>\<open>decodePeerIDField\<close>: the bytes up to the first NUL, with nothing but NUL after it.\<close>

definition decode_peer_id_field :: "bytes \<Rightarrow> string relay_result" where
  "decode_peer_id_field field =
     (let fin = (case index_of nul field of None \<Rightarrow> length field | Some i \<Rightarrow> i);
          pid = take fin field
      in if \<not> list_all (\<lambda>c. c = nul) (drop fin field) then Inl ErrBadPeerIDField
         else case validate_peer_id pid of Inl _ \<Rightarrow> Inl ErrBadPeerIDField | Inr _ \<Rightarrow> Inr pid)"

definition parse_header :: "bytes \<Rightarrow> segment_header relay_result" where
  "parse_header b =
     (if length b < header_size then Inl ErrIncomplete
      else if slice 0 4 b \<noteq> magic_segment then Inl ErrBadMagic
      else bind_result (decode_peer_id_field (slice 8 72 b)) (\<lambda>pid.
        let h = \<lparr>sh_version = get_u16 (slice 4 6 b), sh_flags = get_u16 (slice 6 8 b),
                 sh_peer = pid, sh_segment = get_u64 (slice 72 80 b),
                 sh_first_rs = get_u64 (slice 80 88 b), sh_key_epoch = get_u16 (slice 88 90 b),
                 sh_pub_epoch = get_u16 (slice 90 92 b)\<rparr>
        in bind_result (validate_header h) (\<lambda>_. Inr h)))"

section \<open>The record frame\<close>

record relay_record =
  rec_rs :: "64 word"
  rec_crc :: "32 word"
  rec_mac :: bytes
  rec_body :: bytes

definition compute_mac :: "segment_header \<Rightarrow> 64 word \<Rightarrow> 32 word \<Rightarrow> bytes \<Rightarrow> bytes \<Rightarrow> bytes" where
  "compute_mac h rs crc payload key =
     (if \<not> authenticated h then replicate mac_size nul
      else hmac_sha256 key
        (put_u16 (sh_version h) @ put_u16 (sh_flags h) @ nul_padded peer_id_field_size (sh_peer h)
         @ put_u64 (sh_segment h) @ put_u16 (sh_key_epoch h) @ put_u16 (sh_pub_epoch h)
         @ put_u64 rs @ put_u32 crc @ payload))"

definition check_auth_mode :: "segment_header \<Rightarrow> bytes \<Rightarrow> unit relay_result" where
  "check_auth_mode h key =
     (if authenticated h \<and> key = [] then Inl ErrUnauthenticatedKey
      else if \<not> authenticated h \<and> key \<noteq> [] then Inl ErrUnauthenticatedKey
      else Inr ())"

text \<open>\<open>AppendRecord\<close>: one frame, appended in one piece.\<close>

definition frame_bytes :: "segment_header \<Rightarrow> 64 word \<Rightarrow> bytes \<Rightarrow> bytes \<Rightarrow> bytes" where
  "frame_bytes h rs payload key =
     (let crc = crc32c payload
      in magic_record @ put_u32 (word_of_int (int (length payload))) @ put_u64 rs @ put_u32 crc
         @ compute_mac h rs crc payload key @ payload)"

definition append_record ::
  "bytes \<Rightarrow> segment_header \<Rightarrow> 64 word \<Rightarrow> bytes \<Rightarrow> bytes \<Rightarrow> bytes relay_result" where
  "append_record dst h rs payload key =
     bind_result (validate_header h) (\<lambda>_. bind_result (check_auth_mode h key) (\<lambda>_.
       if max_record_payload < int (length payload) then Inl ErrPayloadTooLarge
       else Inr (dst @ frame_bytes h rs payload key)))"

definition frame_payload_len :: "bytes \<Rightarrow> nat relay_result" where
  "frame_payload_len fixed =
     (if slice 0 4 fixed \<noteq> magic_record then Inl ErrBadMagic
      else let n = uint (get_u32 (slice 4 8 fixed))
           in if max_record_payload < n then Inl ErrPayloadTooLarge else Inr (nat n))"

definition parse_record ::
  "bytes \<Rightarrow> segment_header \<Rightarrow> bytes \<Rightarrow> (relay_record \<times> nat) relay_result" where
  "parse_record b h key =
     bind_result (check_auth_mode h key) (\<lambda>_.
       if length b < record_header_size then Inl ErrIncomplete
       else bind_result (frame_payload_len (slice 0 record_header_size b)) (\<lambda>n.
         let total = record_header_size + n
         in if length b < total then Inl ErrIncomplete
            else let rec = \<lparr>rec_rs = get_u64 (slice 8 16 b), rec_crc = get_u32 (slice 16 20 b),
                            rec_mac = slice 20 52 b, rec_body = slice record_header_size total b\<rparr>
              in if crc32c (rec_body rec) \<noteq> rec_crc rec then Inl ErrCRCMismatch
                 else if compute_mac h (rec_rs rec) (rec_crc rec) (rec_body rec) key \<noteq> rec_mac rec
                   then Inl ErrMACMismatch
                 else Inr (rec, total)))"

section \<open>lifecycle.go\<close>

datatype segment_state = StateActive | StateSealed | StatePruned | StateCorrupt | StateOther nat

definition segment_state_string :: "segment_state \<Rightarrow> string" where
  "segment_state_string s = (case s of StateActive \<Rightarrow> ''active'' | StateSealed \<Rightarrow> ''sealed''
     | StatePruned \<Rightarrow> ''pruned'' | StateCorrupt \<Rightarrow> ''corrupt'' | StateOther _ \<Rightarrow> ''unknown'')"

definition segment_state_valid :: "segment_state \<Rightarrow> bool" where
  "segment_state_valid s = (case s of StateOther _ \<Rightarrow> False | _ \<Rightarrow> True)"

definition segment_state_terminal :: "segment_state \<Rightarrow> bool" where
  "segment_state_terminal s = (case s of StatePruned \<Rightarrow> True | StateCorrupt \<Rightarrow> True | _ \<Rightarrow> False)"

definition can_transition_to :: "segment_state \<Rightarrow> segment_state \<Rightarrow> bool" where
  "can_transition_to s t =
     (if \<not> segment_state_valid t then False
      else case s of
        StateActive \<Rightarrow> t = StateSealed \<or> t = StateCorrupt
      | StateSealed \<Rightarrow> t = StatePruned \<or> t = StateCorrupt
      | _ \<Rightarrow> False)"

definition segment_transition :: "segment_state \<Rightarrow> segment_state \<Rightarrow> segment_state relay_result" where
  "segment_transition s t = (if \<not> can_transition_to s t then Inl ErrSegmentTransition else Inr t)"

section \<open>Laws of the codec\<close>

lemma length_magic [simp]: "length magic_segment = 4" "length magic_record = 4"
  by (simp_all add: magic_segment_def magic_record_def)

lemmas sizes = header_size_def record_header_size_def mac_size_def peer_id_field_size_def

lemma length_header_bytes [simp]: "length (header_bytes h) = header_size"
  by (simp add: header_bytes_def sizes)

lemma length_compute_mac [simp]: "length (compute_mac h rs crc p key) = 32"
  by (simp add: compute_mac_def sizes)

lemma length_frame_bytes [simp]: "length (frame_bytes h rs p key) = record_header_size + length p"
  by (simp add: frame_bytes_def Let_def sizes)

lemma validate_header_ok [go_result]:
  "validate_header h = Inr () \<longleftrightarrow> format_major (sh_version h) = format_major current_format
     \<and> peer_id_pattern (sh_peer h) \<and> sh_segment h \<noteq> 0 \<and> sh_first_rs h \<noteq> 0"
  by (simp add: validate_header_def validate_peer_id_def)

lemma check_auth_mode_ok [go_result]:
  "check_auth_mode h key = Inr () \<longleftrightarrow> (authenticated h \<longleftrightarrow> key \<noteq> [])"
  by (auto simp: check_auth_mode_def)

lemma peer_id_length: "peer_id_pattern s \<Longrightarrow> length s \<le> 49"
proof -
  assume "peer_id_pattern s"
  then have "length (drop 16 s) \<le> 33"
    by (cases "drop 16 s") (simp_all add: peer_id_pattern_def del: length_drop)
  then show ?thesis by simp
qed

lemma peer_id_no_nul: "peer_id_pattern s \<Longrightarrow> nul \<notin> set s"
proof
  assume peer: "peer_id_pattern s" and "nul \<in> set s"
  then have "nul \<in> set (take 16 s) \<or> nul \<in> set (drop 16 s)"
    by (metis append_take_drop_id Un_iff set_append)
  with peer show False
    by (auto simp: peer_id_pattern_def list_all_iff is_lower_hex_def is_label_char_def is_digit_def
        is_lower_def byte_def split: list.splits)
qed

lemma index_of_nul_padded:
  "nul \<notin> set s \<Longrightarrow> index_of nul (s @ replicate k nul) = (if k = 0 then None else Some (length s))"
  by (induction s) (auto, cases k, auto)

lemma index_of_less: "index_of c s = Some i \<Longrightarrow> i < length s"
  by (induction s arbitrary: i) (auto split: if_splits)

lemma decode_nul_padded:
  assumes "peer_id_pattern s"
  shows "decode_peer_id_field (nul_padded peer_id_field_size s) = Inr s"
  using assms peer_id_length[OF assms] peer_id_no_nul[OF assms]
  by (simp add: decode_peer_id_field_def nul_padded_def index_of_nul_padded validate_peer_id_def sizes
      list_all_iff)

lemma decode_peer_id_field_Inr:
  assumes "decode_peer_id_field f = Inr s" "length f = peer_id_field_size"
  shows "peer_id_pattern s" "nul_padded peer_id_field_size s = f"
proof -
  define k where "k = (case index_of nul f of None \<Rightarrow> length f | Some i \<Rightarrow> i)"
  from assms(1) have s: "s = take k f" and pad: "list_all (\<lambda>c. c = nul) (drop k f)" and ok: "peer_id_pattern s"
    by (auto simp: decode_peer_id_field_def Let_def k_def validate_peer_id_def split: if_splits sum.splits)
  show "peer_id_pattern s" by (rule ok)
  from pad have "drop k f = replicate (length f - k) nul"
    by (intro replicate_eqI) (simp_all add: list_all_iff)
  moreover have "k \<le> length f"
    by (cases "index_of nul f") (auto simp: k_def intro: less_imp_le index_of_less)
  ultimately have "take peer_id_field_size s = take k f" "replicate (peer_id_field_size - length s) nul = drop k f"
    using assms(2) unfolding s by simp_all
  then show "nul_padded peer_id_field_size s = f" by (simp only: nul_padded_def append_take_drop_id)
qed

lemma parse_header_bytes:
  assumes "validate_header h = Inr ()"
  shows "parse_header (header_bytes h @ rest) = Inr h"
proof -
  have "peer_id_pattern (sh_peer h)" using assms by (simp add: validate_header_ok)
  then show ?thesis
    using assms by (cases h) (simp add: parse_header_def header_bytes_def sizes be_simps slice_full' Let_def
        decode_nul_padded[unfolded sizes])
qed

lemma slice_chain: "i \<le> j \<Longrightarrow> j \<le> length b \<Longrightarrow> take j b = take i b @ slice i j b"
  using slice_slice[of j b i] by (simp add: slice_def)

lemma parse_header_Inr:
  assumes "parse_header b = Inr h"
  shows "validate_header h = Inr ()" "take header_size b = header_bytes h" "header_size \<le> length b"
proof -
  from assms have len: "92 \<le> length b" and magic: "slice 0 4 b = magic_segment"
    by (auto simp: parse_header_def sizes split: if_splits)
  from assms obtain p where p: "decode_peer_id_field (slice 8 72 b) = Inr p"
    and h: "h = \<lparr>sh_version = get_u16 (slice 4 6 b), sh_flags = get_u16 (slice 6 8 b), sh_peer = p,
      sh_segment = get_u64 (slice 72 80 b), sh_first_rs = get_u64 (slice 80 88 b),
      sh_key_epoch = get_u16 (slice 88 90 b), sh_pub_epoch = get_u16 (slice 90 92 b)\<rparr>"
    and ok: "validate_header h = Inr ()"
    by (auto simp: parse_header_def Let_def bind_result_Inr split: if_splits)
  show "validate_header h = Inr ()" by (rule ok)
  show "header_size \<le> length b" using len by (simp add: sizes)
  have pad: "nul_padded peer_id_field_size p = slice 8 72 b"
    using len by (intro decode_peer_id_field_Inr(2)[OF p]) (simp add: sizes)
  have "take 92 b = slice 0 4 b @ slice 4 6 b @ slice 6 8 b @ slice 8 72 b @ slice 72 80 b @ slice 80 88 b
      @ slice 88 90 b @ slice 90 92 b"
    using len slice_chain[of 90 92 b] slice_chain[of 88 90 b] slice_chain[of 80 88 b] slice_chain[of 72 80 b]
      slice_chain[of 8 72 b] slice_chain[of 6 8 b] slice_chain[of 4 6 b] slice_chain[of 0 4 b] by simp
  then show "take header_size b = header_bytes h"
    using len magic pad by (simp add: header_bytes_def h put_get_word sizes)
qed

text \<open>The payload length of a frame that is within the cap survives its 32 bits.\<close>

lemma frame_length_word:
  assumes "int (length p) \<le> max_record_payload"
  shows "uint (word_of_int (int (length p)) :: 32 word) = int (length p)"
proof -
  have "0 \<le> int (length p)" "int (length p) < 2 ^ LENGTH(32)"
    using assms by (simp_all add: max_record_payload_def)
  then show ?thesis by (simp only: uint_word_of_int_eq take_bit_int_eq_self)
qed

lemma frame_payload_len_bytes:
  assumes "int (length p) \<le> max_record_payload"
  shows "frame_payload_len (take record_header_size (frame_bytes h rs p key @ rest)) = Inr (length p)"
proof -
  have "frame_bytes h rs p key @ rest = magic_record @ put_u32 (word_of_int (int (length p)))
      @ (put_u64 rs @ put_u32 (crc32c p) @ compute_mac h rs (crc32c p) p key @ p @ rest)"
    by (simp add: frame_bytes_def Let_def)
  then show ?thesis
    using assms frame_length_word[OF assms]
    by (simp add: frame_payload_len_def slice_take sizes be_simps slice_full' Let_def)
qed

lemma parse_record_bytes:
  assumes "check_auth_mode h key = Inr ()" "int (length p) \<le> max_record_payload"
  shows "parse_record (frame_bytes h rs p key @ rest) h key =
    Inr (\<lparr>rec_rs = rs, rec_crc = crc32c p, rec_mac = compute_mac h rs (crc32c p) p key, rec_body = p\<rparr>,
         record_header_size + length p)"
proof -
  have len: "frame_payload_len (slice 0 record_header_size (frame_bytes h rs p key @ rest)) = Inr (length p)"
    using frame_payload_len_bytes[OF assms(2)] by (simp add: slice_def)
  have "slice 8 16 (frame_bytes h rs p key @ rest) = put_u64 rs"
    "slice 16 20 (frame_bytes h rs p key @ rest) = put_u32 (crc32c p)"
    "slice 20 52 (frame_bytes h rs p key @ rest) = compute_mac h rs (crc32c p) p key"
    "slice 52 (52 + length p) (frame_bytes h rs p key @ rest) = p"
    by (simp_all add: frame_bytes_def Let_def be_simps slice_full')
  with assms(1) len show ?thesis
    by (simp add: parse_record_def Let_def sizes be_simps)
qed

lemma frame_payload_len_Inr:
  assumes "frame_payload_len f = Inr n" "8 \<le> length f"
  shows "slice 0 4 f = magic_record" "put_u32 (word_of_int (int n)) = slice 4 8 f" "int n \<le> max_record_payload"
proof -
  from assms(1) show "slice 0 4 f = magic_record" "int n \<le> max_record_payload"
    by (auto simp: frame_payload_len_def Let_def split: if_splits)
  from assms(1) have "int n = uint (get_u32 (slice 4 8 f))"
    by (auto simp: frame_payload_len_def Let_def split: if_splits)
  then show "put_u32 (word_of_int (int n)) = slice 4 8 f" using assms(2) by (simp add: put_get_word)
qed

lemma parse_record_Inr:
  assumes "parse_record b h key = Inr (r, n)"
  shows "check_auth_mode h key = Inr ()" "int (length (rec_body r)) \<le> max_record_payload"
    "n = record_header_size + length (rec_body r)"
    "take n b = frame_bytes h (rec_rs r) (rec_body r) key" "n \<le> length b"
    "rec_crc r = crc32c (rec_body r)"
    "rec_mac r = compute_mac h (rec_rs r) (rec_crc r) (rec_body r) key"
proof -
  from assms show auth: "check_auth_mode h key = Inr ()" by (auto simp: parse_record_def bind_result_Inr)
  from assms obtain m where m: "frame_payload_len (slice 0 record_header_size b) = Inr m"
    and n: "n = record_header_size + m" and len: "n \<le> length b"
    and r: "rec_rs r = get_u64 (slice 8 16 b)" "rec_crc r = get_u32 (slice 16 20 b)"
      "rec_mac r = slice 20 52 b" "rec_body r = slice record_header_size n b"
    and crc: "crc32c (rec_body r) = rec_crc r"
    and mac: "compute_mac h (rec_rs r) (rec_crc r) (rec_body r) key = rec_mac r"
    by (auto simp: parse_record_def bind_result_Inr Let_def split: if_splits)
  show "rec_crc r = crc32c (rec_body r)" "rec_mac r = compute_mac h (rec_rs r) (rec_crc r) (rec_body r) key"
    "n \<le> length b" using crc mac len by simp_all
  have payload: "length (rec_body r) = m" using len n r(4) by simp
  have fixed: "length (slice 0 record_header_size b) = 52" using len n by (simp add: sizes)
  note fp = frame_payload_len_Inr[OF m]
  show "int (length (rec_body r)) \<le> max_record_payload" using fp(3) fixed payload by simp
  show "n = record_header_size + length (rec_body r)" using n payload by simp
  have head: "slice 0 4 b = magic_record" "put_u32 (word_of_int (int m)) = slice 4 8 b"
    using fp(1,2) fixed slice_take[of 4 52 0 b] slice_take[of 8 52 4 b] by (simp_all add: sizes slice_def)
  have "take n b = take 52 b @ slice 52 n b" by (rule slice_chain) (use len n in \<open>simp_all add: sizes\<close>)
  moreover have "take 52 b = take 20 b @ slice 20 52 b" by (rule slice_chain) (use len n in \<open>simp_all add: sizes\<close>)
  moreover have "take 20 b = take 16 b @ slice 16 20 b" by (rule slice_chain) (use len n in \<open>simp_all add: sizes\<close>)
  moreover have "take 16 b = take 8 b @ slice 8 16 b" by (rule slice_chain) (use len n in \<open>simp_all add: sizes\<close>)
  moreover have "take 8 b = take 4 b @ slice 4 8 b" by (rule slice_chain) (use len n in \<open>simp_all add: sizes\<close>)
  moreover have "take 4 b = slice 0 4 b" by (simp add: slice_def)
  ultimately have "take n b = slice 0 4 b @ slice 4 8 b @ slice 8 16 b @ slice 16 20 b @ slice 20 52 b @ slice 52 n b"
    by (simp only: append_assoc)
  then show "take n b = frame_bytes h (rec_rs r) (rec_body r) key"
    using len n head payload mac crc r by (simp add: frame_bytes_def Let_def sizes put_get_word)
qed

section \<open>File names\<close>

lemma digits_val_zeros: "digits_val (replicate k CHR ''0'' @ ds) = digits_val ds"
  by (induction k) (simp_all add: digits_val_def digit_val_def byte_def)

lemma seg_file_digits_name:
  assumes "list_all is_digit ds" "8 \<le> length ds"
  shows "seg_file_digits (''seg-'' @ ds @ ''.mrseg'') = Some ds"
proof -
  let ?name = "''seg-'' @ ds @ ''.mrseg''"
  have "length ?name - 10 = length ds" by simp
  then have "take (length ?name - 10) (drop 4 ?name) = ds" by simp
  moreover have "drop (4 + length ds) ?name = drop (length ds) (drop 4 ?name)" by (simp only: drop_drop add.commute)
  then have "drop (4 + length ds) ?name = ''.mrseg''" by simp
  ultimately show ?thesis using assms by (simp add: seg_file_digits_def Let_def file_digits_def)
qed

lemma parse_file_name_file_name:
  assumes "no \<noteq> 0"
  shows "parse_file_name (file_name no) = Inr no"
proof -
  define ds where "ds = replicate (file_digits - length (dec_nat (unat no))) CHR ''0'' @ dec_nat (unat no)"
  have digits: "list_all is_digit ds" "8 \<le> length ds"
    using dec_nat_digits[of "unat no"]
    by (auto simp: ds_def all_digits_def file_digits_def list_all_iff is_digit_def byte_def)
  have val: "digits_val ds = unat no" by (simp add: ds_def digits_val_zeros digits_val_dec_nat)
  have "file_name no = ''seg-'' @ ds @ ''.mrseg''" by (simp add: file_name_def Let_def ds_def)
  moreover have "unat no < 2 ^ 64" using unsigned_less[of no, where ?'a = nat] by simp
  moreover have "unat no \<noteq> 0" using assms by (simp add: unat_eq_0)
  ultimately show ?thesis
    using seg_file_digits_name[OF digits] val by (simp add: parse_file_name_def not_le)
qed

lemma file_name_inject: "a \<noteq> 0 \<Longrightarrow> b \<noteq> 0 \<Longrightarrow> file_name a = file_name b \<longleftrightarrow> a = b"
  by (metis parse_file_name_file_name sum.inject(2))

end
