(* ===== verification/Relay_Store.thy ===== *)
theory Relay_Store
  imports Relay_Format Sync_Apply
begin

text \<open>
  The relay's rows of the store (\<open>internal/store/sqlite/relay_cursor.go\<close>): the push cursor, the
  ingest cursors per peer, and the journal as the relay reads it. An unsigned field of a frame is
  stored in a signed column and read back with a range check. The rowid of an event is its
  position in the log, from 1: no modelled operation deletes an event.
\<close>

record push_position =
  pp_seq :: int
  pp_epoch :: "16 word"
  pp_next_rs :: "64 word"

record ingest_position =
  ip_segment :: "64 word"
  ip_rs :: "64 word"
  ip_epoch :: "16 word"

text \<open>
  The store a relay pass works on: the database and the relay's own tables (signed columns), the
  journal generation of the meta table and the hook scan floor.
\<close>

record push_row =
  pr_cursor :: int
  pr_epoch :: int
  pr_next_rs :: int

record ingest_row =
  ir_peer :: string
  ir_segment :: int
  ir_rs :: int
  ir_epoch :: int

record relay_store =
  rs_db :: db
  rs_push :: "push_row option"
  rs_ingest :: "ingest_row list"
  rs_generation :: int
  rs_scan_floor :: int

definition relay_epoch :: "int \<Rightarrow> (16 word) result" where
  "relay_epoch v = (if v < 0 \<or> 65535 < v then Inl ErrInvalidInput else Inr (word_of_int v))"

definition relay_unsigned :: "int \<Rightarrow> (64 word) result" where
  "relay_unsigned v = (if v < 0 then Inl ErrInvalidInput else Inr (word_of_int v))"

section \<open>The push cursor\<close>

definition relay_push_cursor :: "relay_store \<Rightarrow> push_position result" where
  "relay_push_cursor s =
     (case rs_push s of
        None \<Rightarrow> Inr \<lparr>pp_seq = 0, pp_epoch = 1, pp_next_rs = 1\<rparr>
      | Some r \<Rightarrow> bind_result (relay_epoch (pr_epoch r)) (\<lambda>ep.
          bind_result (relay_unsigned (pr_next_rs r)) (\<lambda>nx.
            Inr \<lparr>pp_seq = pr_cursor r, pp_epoch = ep, pp_next_rs = nx\<rparr>)))"

definition advance_relay_push_cursor :: "int \<Rightarrow> 64 word \<Rightarrow> relay_store \<Rightarrow> relay_store" where
  "advance_relay_push_cursor sq next_rs s =
     s\<lparr>rs_push := Some (case rs_push s of
        None \<Rightarrow> \<lparr>pr_cursor = sq, pr_epoch = 1, pr_next_rs = sint next_rs\<rparr>
      | Some r \<Rightarrow> r\<lparr>pr_cursor := max (pr_cursor r) sq,
                    pr_next_rs := (if pr_cursor r < sq then sint next_rs else pr_next_rs r)\<rparr>)\<rparr>"

definition reset_relay_publisher :: "int \<Rightarrow> 64 word \<Rightarrow> relay_store \<Rightarrow> relay_store result" where
  "reset_relay_publisher floor_seq base_rs s =
     (if base_rs = 0 then Inl ErrInvalidInput
      else if floor_seq < 0 then Inl ErrInvalidInput
      else Inr (s\<lparr>rs_push := Some (case rs_push s of
        None \<Rightarrow> \<lparr>pr_cursor = floor_seq, pr_epoch = 2, pr_next_rs = sint base_rs\<rparr>
      | Some r \<Rightarrow> \<lparr>pr_cursor = floor_seq, pr_epoch = pr_epoch r + 1, pr_next_rs = sint base_rs\<rparr>)\<rparr>))"

definition republish_relay_from :: "int \<Rightarrow> relay_store \<Rightarrow> relay_store result" where
  "republish_relay_from floor_seq s =
     (if floor_seq < 0 then Inl ErrInvalidInput
      else Inr (s\<lparr>rs_push := map_option (\<lambda>r. r\<lparr>pr_cursor := floor_seq\<rparr>) (rs_push s)\<rparr>))"

section \<open>The ingest cursors\<close>

definition find_ingest :: "string \<Rightarrow> relay_store \<Rightarrow> ingest_row option" where
  "find_ingest peer s = find (\<lambda>r. ir_peer r = peer) (rs_ingest s)"

definition relay_ingest_cursor :: "string \<Rightarrow> relay_store \<Rightarrow> ingest_position result" where
  "relay_ingest_cursor peer s =
     (if \<not> peer_id_pattern peer then Inl ErrInvalidInput
      else case find_ingest peer s of
        None \<Rightarrow> Inr \<lparr>ip_segment = 0, ip_rs = 0, ip_epoch = 0\<rparr>
      | Some r \<Rightarrow> bind_result (relay_unsigned (ir_segment r)) (\<lambda>sg.
          bind_result (relay_unsigned (ir_rs r)) (\<lambda>rs.
            bind_result (relay_epoch (ir_epoch r)) (\<lambda>ep.
              Inr \<lparr>ip_segment = sg, ip_rs = rs, ip_epoch = ep\<rparr>))))"

text \<open>The upsert: within an epoch the row moves only to a higher relay sequence.\<close>

definition advance_ingest_row :: "ingest_position \<Rightarrow> ingest_row \<Rightarrow> ingest_row" where
  "advance_ingest_row p r =
     (let ep = uint (ip_epoch p); rs = sint (ip_rs p);
          forward = (ir_epoch r < ep \<or> (ep = ir_epoch r \<and> ir_rs r < rs))
      in \<lparr>ir_peer = ir_peer r, ir_segment = (if forward then sint (ip_segment p) else ir_segment r),
          ir_rs = (if forward then rs else ir_rs r), ir_epoch = max (ir_epoch r) ep\<rparr>)"

definition new_ingest_row :: "string \<Rightarrow> ingest_position \<Rightarrow> ingest_row" where
  "new_ingest_row peer p = \<lparr>ir_peer = peer, ir_segment = sint (ip_segment p), ir_rs = sint (ip_rs p),
     ir_epoch = uint (ip_epoch p)\<rparr>"

definition advance_relay_ingest_cursor :: "string \<Rightarrow> ingest_position \<Rightarrow> relay_store \<Rightarrow> relay_store result" where
  "advance_relay_ingest_cursor peer p s =
     (if \<not> peer_id_pattern peer then Inl ErrInvalidInput
      else Inr (s\<lparr>rs_ingest :=
        (if find_ingest peer s = None then rs_ingest s @ [new_ingest_row peer p]
         else map (\<lambda>r. if ir_peer r = peer then advance_ingest_row p r else r) (rs_ingest s))\<rparr>))"

section \<open>The journal\<close>

definition journal_rows :: "db \<Rightarrow> (int \<times> sync_event) list" where
  "journal_rows d = zip (map int [1 ..< Suc (length (events d))]) (events d)"

definition journal_tail :: "relay_store \<Rightarrow> int" where
  "journal_tail s = int (length (events (rs_db s)))"

definition journal_generation :: "relay_store \<Rightarrow> int" where
  "journal_generation s = rs_generation s"

definition read_relay_journal_since :: "int \<Rightarrow> int \<Rightarrow> relay_store \<Rightarrow> (int \<times> sync_event) list" where
  "read_relay_journal_since sq limit s =
     take (nat (if limit \<le> 0 then 500 else limit))
       (filter (\<lambda>(i, e). sq < i \<and> ev_id e \<notin> set (inbox_restored (rs_db s))) (journal_rows (rs_db s)))"

definition lookup_relay_journal_seqs :: "string list \<Rightarrow> relay_store \<Rightarrow> string \<Rightarrow> int option" where
  "lookup_relay_journal_seqs ids s i =
     (if i \<in> set ids then map_of (map (\<lambda>(q, e). (ev_id e, q)) (journal_rows (rs_db s))) i else None)"

text \<open>\<open>ResolveDisplayPathByUID\<close>: the live node that holds a uid.\<close>

definition resolve_display_path_by_uid :: "string \<Rightarrow> db \<Rightarrow> string option" where
  "resolve_display_path_by_uid u d = (if u = [] then None else map_option node_id (find_live_uid u d))"

text \<open>\<open>InitHookScanFloorAtTail\<close>: the hook floor moves up to the tail and never back
  (the wake floors it seeds as well are not modelled).\<close>

definition init_hook_scan_floor_at_tail :: "relay_store \<Rightarrow> relay_store" where
  "init_hook_scan_floor_at_tail s = s\<lparr>rs_scan_floor := max (rs_scan_floor s) (journal_tail s)\<rparr>"

section \<open>Laws of the cursors\<close>

lemma relay_ingest_cursor_none:
  "peer_id_pattern peer \<Longrightarrow> find_ingest peer s = None \<Longrightarrow>
     relay_ingest_cursor peer s = Inr \<lparr>ip_segment = 0, ip_rs = 0, ip_epoch = 0\<rparr>"
  by (simp add: relay_ingest_cursor_def)

lemma find_ingest_advance:
  assumes "advance_relay_ingest_cursor peer p s = Inr s'"
  shows "find_ingest peer s' = Some (case find_ingest peer s of None \<Rightarrow> new_ingest_row peer p
           | Some r \<Rightarrow> advance_ingest_row p r)"
    and "q \<noteq> peer \<Longrightarrow> find_ingest q s' = find_ingest q s"
    and "rs_db s' = rs_db s" "rs_push s' = rs_push s" "rs_scan_floor s' = rs_scan_floor s" "rs_generation s' = rs_generation s"
proof -
  have find_map: "find (\<lambda>r. ir_peer r = q) (map (\<lambda>r. if ir_peer r = peer then advance_ingest_row p r else r) rs)
      = map_option (\<lambda>r. if ir_peer r = peer then advance_ingest_row p r else r) (find (\<lambda>r. ir_peer r = q) rs)" for q rs
    by (induction rs) (auto simp: advance_ingest_row_def Let_def)
  have other: "find (\<lambda>r. ir_peer r = q) rs = Some r \<Longrightarrow> ir_peer r = q" for q rs r
    by (induction rs) (auto split: if_splits)
  have append: "find P (xs @ ys) = (case find P xs of None \<Rightarrow> find P ys | Some x \<Rightarrow> Some x)" for P and xs ys :: "ingest_row list"
    by (induction xs) auto
  show "find_ingest peer s' = Some (case find_ingest peer s of None \<Rightarrow> new_ingest_row peer p
           | Some r \<Rightarrow> advance_ingest_row p r)"
    using assms by (auto simp: advance_relay_ingest_cursor_def find_ingest_def find_map append new_ingest_row_def
        split: if_splits option.splits dest: other)
  show "q \<noteq> peer \<Longrightarrow> find_ingest q s' = find_ingest q s"
    using assms by (cases "find (\<lambda>r. ir_peer r = q) (rs_ingest s)") (auto simp: advance_relay_ingest_cursor_def find_ingest_def find_map append new_ingest_row_def
        split: if_splits option.splits dest: other)
  show "rs_db s' = rs_db s" "rs_push s' = rs_push s" "rs_scan_floor s' = rs_scan_floor s" "rs_generation s' = rs_generation s"
    using assms by (auto simp: advance_relay_ingest_cursor_def split: if_splits)
qed

end
