(* ===== verification/Relay_Scan.thy ===== *)
theory Relay_Scan
  imports Relay_Format
begin

text \<open>
  Reading a segment (\<open>internal/relay/segment/reader.go\<close>): the scanner over a byte source with its
  tail rule, \<open>ScanAll\<close>, the continuity rules between segments, and the directory listing of
  \<open>walk.go\<close>. A reader is the bytes still to come and whether the medium fails after them.
\<close>

section \<open>The byte source\<close>

record reader =
  rd_pending :: bytes
  rd_fails :: bool

datatype read_outcome = ReadFull bytes reader | ReadEof | ReadUnexpectedEof | ReadFailed

text \<open>\<open>io.ReadFull(r, buf[:n])\<close> for a positive \<open>n\<close> (and for 0, which reads nothing).\<close>

definition read_full :: "nat \<Rightarrow> reader \<Rightarrow> read_outcome" where
  "read_full n r =
     (if n \<le> length (rd_pending r)
        then ReadFull (take n (rd_pending r)) (r\<lparr>rd_pending := drop n (rd_pending r)\<rparr>)
      else if rd_fails r then ReadFailed
      else if rd_pending r = [] then ReadEof
      else ReadUnexpectedEof)"

definition bytes_reader :: "bytes \<Rightarrow> reader" where
  "bytes_reader b = \<lparr>rd_pending = b, rd_fails = False\<rparr>"

section \<open>The scanner\<close>

record cursor =
  cur_segment :: "64 word"
  cur_rs :: "64 word"
  cur_epoch :: "16 word"

record scan_options =
  so_sealed :: bool
  so_key :: bytes
  so_tolerate :: bool
  so_expect_peer :: string

record scan_result =
  sr_header :: segment_header
  sr_records :: "relay_record list"
  sr_truncated :: bool
  sr_cursor :: cursor

record scanner =
  sc_reader :: reader
  sc_header :: segment_header
  sc_key :: bytes
  sc_sealed :: bool
  sc_tolerate :: bool
  sc_rec :: "relay_record option"
  sc_next :: "64 word"
  sc_delivered :: "64 word"
  sc_truncated :: bool
  sc_done :: bool
  sc_err :: "relay_error option"

definition new_scanner :: "reader \<Rightarrow> scan_options \<Rightarrow> scanner relay_result" where
  "new_scanner r opts =
     (case read_full header_size r of
        ReadFailed \<Rightarrow> Inl ErrMedium
      | ReadEof \<Rightarrow> Inl (if so_sealed opts then ErrSegmentCorrupt else ErrIncomplete)
      | ReadUnexpectedEof \<Rightarrow> Inl (if so_sealed opts then ErrSegmentCorrupt else ErrIncomplete)
      | ReadFull raw r' \<Rightarrow>
          bind_result (parse_header raw) (\<lambda>h.
            if so_expect_peer opts \<noteq> [] \<and> sh_peer h \<noteq> so_expect_peer opts then Inl ErrPeerIDConflict
            else bind_result (check_auth_mode h (so_key opts)) (\<lambda>_.
              Inr \<lparr>sc_reader = r', sc_header = h, sc_key = so_key opts, sc_sealed = so_sealed opts,
                   sc_tolerate = so_tolerate opts, sc_rec = None, sc_next = sh_first_rs h,
                   sc_delivered = sh_first_rs h - 1, sc_truncated = False, sc_done = False,
                   sc_err = None\<rparr>)))"

definition scan_stop :: "relay_error \<Rightarrow> scanner \<Rightarrow> bool \<times> scanner" where
  "scan_stop e s = (False, s\<lparr>sc_err := Some e, sc_done := True\<rparr>)"

definition stop_damaged :: "relay_error \<Rightarrow> scanner \<Rightarrow> bool \<times> scanner" where
  "stop_damaged e s =
     (if \<not> sc_sealed s \<or> sc_tolerate s then (False, s\<lparr>sc_truncated := True, sc_done := True\<rparr>)
      else scan_stop (if e = ErrIncomplete then ErrSegmentCorrupt else e) s)"

text \<open>\<open>stopShort\<close> for the error of the read: running out of bytes, or the medium failing.\<close>

definition stop_short :: "read_outcome \<Rightarrow> scanner \<Rightarrow> bool \<times> scanner" where
  "stop_short out s =
     (if out = ReadFailed then scan_stop ErrMedium s else stop_damaged ErrIncomplete s)"

text \<open>\<open>Scanner.Next\<close>: whether a record was delivered (it is \<open>sc_rec\<close>), and the scanner after it.\<close>

definition scan_next :: "scanner \<Rightarrow> bool \<times> scanner" where
  "scan_next s =
     (if sc_done s then (False, s)
      else case read_full record_header_size (sc_reader s) of
        ReadEof \<Rightarrow> (False, s\<lparr>sc_done := True\<rparr>)
      | ReadFull fixed r1 \<Rightarrow>
          (let s1 = s\<lparr>sc_reader := r1\<rparr>
           in case frame_payload_len fixed of
                Inl e \<Rightarrow> stop_damaged e s1
              | Inr n \<Rightarrow>
                  (case read_full n r1 of
                     ReadFull body r2 \<Rightarrow>
                       (let s2 = s1\<lparr>sc_reader := r2\<rparr>
                        in case parse_record (fixed @ body) (sc_header s) (sc_key s) of
                             Inl e \<Rightarrow> stop_damaged e s2
                           | Inr (rec, _) \<Rightarrow>
                               if rec_rs rec \<noteq> sc_next s then scan_stop ErrGap s2
                               else (True, s2\<lparr>sc_rec := Some rec, sc_delivered := rec_rs rec,
                                             sc_next := rec_rs rec + 1\<rparr>))
                   | out \<Rightarrow> stop_short out s1))
      | out \<Rightarrow> stop_short out s)"

definition scan_cursor :: "scanner \<Rightarrow> cursor" where
  "scan_cursor s = \<lparr>cur_segment = sh_segment (sc_header s), cur_rs = sc_delivered s,
     cur_epoch = sh_pub_epoch (sc_header s)\<rparr>"

text \<open>Every delivered record takes its bytes from the reader.\<close>

lemma read_full_progress:
  "read_full n r = ReadFull b r' \<Longrightarrow>
     n \<le> length (rd_pending r) \<and> b = take n (rd_pending r) \<and> r' = r\<lparr>rd_pending := drop n (rd_pending r)\<rparr>"
  by (auto simp: read_full_def split: if_splits)

lemma scan_next_progress:
  assumes "scan_next s = (True, s')"
  shows "length (rd_pending (sc_reader s')) < length (rd_pending (sc_reader s))"
proof (cases "read_full record_header_size (sc_reader s)")
  case (ReadFull fixed r1)
  note r1 = read_full_progress[OF ReadFull]
  with assms ReadFull show ?thesis
    by (auto simp: scan_next_def stop_damaged_def scan_stop_def stop_short_def Let_def record_header_size_def
        split: if_splits sum.splits read_outcome.splits dest!: read_full_progress)
qed (use assms in \<open>auto simp: scan_next_def stop_short_def stop_damaged_def scan_stop_def split: if_splits\<close>)

text \<open>The loop of \<open>ScanAll\<close>: the records in stream order, and the scanner that stopped.\<close>

function scan_loop :: "scanner \<Rightarrow> relay_record list \<times> scanner" where
  "scan_loop s =
     (case scan_next s of
        (False, s') \<Rightarrow> ([], s')
      | (True, s') \<Rightarrow>
          (case sc_rec s' of
             None \<Rightarrow> ([], s')
           | Some rec \<Rightarrow> (case scan_loop s' of (recs, s'') \<Rightarrow> (rec # recs, s''))))"
  by pat_completeness auto
termination
  by (relation "measure (\<lambda>s. length (rd_pending (sc_reader s)))") (auto simp: scan_next_progress)

declare scan_loop.simps [simp del]

definition scan_all :: "reader \<Rightarrow> scan_options \<Rightarrow> scan_result relay_result" where
  "scan_all r opts = bind_result (new_scanner r opts) (\<lambda>sc.
     case scan_loop sc of (recs, s) \<Rightarrow>
       (case sc_err s of
          Some e \<Rightarrow> Inl e
        | None \<Rightarrow> Inr \<lparr>sr_header = sc_header sc, sr_records = recs, sr_truncated = sc_truncated s,
                       sr_cursor = scan_cursor s\<rparr>))"

section \<open>Between segments\<close>

definition explains_torn_seal :: "scan_result \<Rightarrow> segment_header \<Rightarrow> bool" where
  "explains_torn_seal sealed successor =
     (if \<not> sr_truncated sealed then False
      else sh_peer successor = sh_peer (sr_header sealed)
         \<and> sh_pub_epoch successor = sh_pub_epoch (sr_header sealed)
         \<and> sh_segment successor = sh_segment (sr_header sealed) + 1
         \<and> sh_first_rs successor \<le> cur_rs (sr_cursor sealed) + 1)"

definition check_continuity :: "cursor \<Rightarrow> segment_header \<Rightarrow> unit relay_result" where
  "check_continuity prev h =
     (if cur_segment prev = 0 then
        (if sh_segment h \<noteq> 1 \<or> sh_first_rs h \<noteq> 1 then Inl ErrGap else Inr ())
      else if sh_pub_epoch h < cur_epoch prev then Inl ErrGap
      else if cur_epoch prev < sh_pub_epoch h then
        (if sh_segment h \<le> cur_segment prev then Inl ErrGap else Inr ())
      else if sh_segment h = cur_segment prev then
        (if cur_rs prev + 1 < sh_first_rs h then Inl ErrGap else Inr ())
      else if sh_segment h = cur_segment prev + 1 then
        (if sh_first_rs h \<noteq> cur_rs prev + 1 then Inl ErrGap else Inr ())
      else Inl ErrGap)"

section \<open>The medium\<close>

text \<open>
  A directory: its entries by name. \<open>os.Lstat\<close> and \<open>os.ReadDir\<close> tell symbolic links, regular files,
  directories and other objects apart; a regular file that cannot be opened or read is
  \<open>Unreadable\<close>, with the size its listing reports.
\<close>

datatype entry = RegularFile bytes | Unreadable int | Symlink | SubDirectory | SpecialFile

type_synonym directory = "(string \<times> entry) list"

text \<open>The path of a directory itself: missing, a link, not a directory, or its entries.\<close>

datatype dir_path = DirMissing | DirSymlink | DirNotDirectory | DirListing directory

definition lstat_dir :: "dir_path \<Rightarrow> unit relay_result" where
  "lstat_dir p = (case p of DirMissing \<Rightarrow> Inl ErrMedium | DirSymlink \<Rightarrow> Inl ErrSymlink
     | DirNotDirectory \<Rightarrow> Inl ErrForeignEntry | DirListing _ \<Rightarrow> Inr ())"

definition read_relay_dir :: "dir_path \<Rightarrow> directory relay_result" where
  "read_relay_dir p = bind_result (lstat_dir p) (\<lambda>_.
     case p of DirListing es \<Rightarrow>
       if list_ex (\<lambda>(_, e). e = Symlink) es then Inl ErrSymlink else Inr es
     | _ \<Rightarrow> Inl ErrMedium)"

record segment_file =
  sf_no :: "64 word"
  sf_name :: string
  sf_entry :: entry
  sf_size :: int

definition entry_size :: "entry \<Rightarrow> int" where
  "entry_size e = (case e of RegularFile b \<Rightarrow> int (length b) | Unreadable n \<Rightarrow> n | _ \<Rightarrow> 0)"

definition is_regular :: "entry \<Rightarrow> bool" where
  "is_regular e = (case e of RegularFile _ \<Rightarrow> True | Unreadable _ \<Rightarrow> True | _ \<Rightarrow> False)"

text \<open>The loop of \<open>ListSegments\<close>: the segment files and the foreign names, in directory order.\<close>

fun collect_segments :: "directory \<Rightarrow> (segment_file list \<times> string list) relay_result" where
  "collect_segments [] = Inr ([], [])"
| "collect_segments ((name, e) # es) =
     (case parse_file_name name of
        Inl _ \<Rightarrow> bind_result (collect_segments es) (\<lambda>(segs, foreign). Inr (segs, name # foreign))
      | Inr no \<Rightarrow>
          if \<not> is_regular e then Inl ErrForeignEntry
          else bind_result (collect_segments es) (\<lambda>(segs, foreign).
            Inr (\<lparr>sf_no = no, sf_name = name, sf_entry = e, sf_size = entry_size e\<rparr> # segs, foreign)))"

definition list_segments :: "dir_path \<Rightarrow> (segment_file list \<times> string list) relay_result" where
  "list_segments p = bind_result (read_relay_dir p) (\<lambda>es.
     bind_result (collect_segments es) (\<lambda>(segs, foreign).
       Inr (sort_by (\<lambda>a b. sf_no a < sf_no b) segs, foreign)))"

text \<open>\<open>ScanFile\<close> on an entry of the directory.\<close>

definition scan_file :: "entry \<Rightarrow> scan_options \<Rightarrow> scan_result relay_result" where
  "scan_file e opts = (case e of
     Symlink \<Rightarrow> Inl ErrSymlink
   | SubDirectory \<Rightarrow> Inl ErrForeignEntry
   | SpecialFile \<Rightarrow> Inl ErrForeignEntry
   | Unreadable _ \<Rightarrow> Inl ErrMedium
   | RegularFile b \<Rightarrow> scan_all (bytes_reader b) opts)"

end
