(* ===== verification/Relay_Stream.thy ===== *)
theory Relay_Stream
  imports Relay_Scan
begin

text \<open>
  What a segment means: the stream of payloads framed under a header. A scan of a segment
  delivers exactly the stream, whatever junk an append in flight has left behind it, and what
  a scan accepts is the encoding of what it delivers.
\<close>

fun frames :: "segment_header \<Rightarrow> bytes \<Rightarrow> 64 word \<Rightarrow> bytes list \<Rightarrow> bytes" where
  "frames h key rs [] = []"
| "frames h key rs (p # ps) = frame_bytes h rs p key @ frames h key (rs + 1) ps"

definition record_of :: "segment_header \<Rightarrow> bytes \<Rightarrow> 64 word \<Rightarrow> bytes \<Rightarrow> relay_record" where
  "record_of h key rs p = \<lparr>rec_rs = rs, rec_crc = crc32c p,
     rec_mac = compute_mac h rs (crc32c p) p key, rec_body = p\<rparr>"

fun records_of :: "segment_header \<Rightarrow> bytes \<Rightarrow> 64 word \<Rightarrow> bytes list \<Rightarrow> relay_record list" where
  "records_of h key rs [] = []"
| "records_of h key rs (p # ps) = record_of h key rs p # records_of h key (rs + 1) ps"

definition within_cap :: "bytes list \<Rightarrow> bool" where
  "within_cap ps \<longleftrightarrow> (\<forall>p \<in> set ps. int (length p) \<le> max_record_payload)"

definition segment_ok :: "segment_header \<Rightarrow> bytes \<Rightarrow> bool" where
  "segment_ok h key \<longleftrightarrow> validate_header h = Inr () \<and> check_auth_mode h key = Inr ()"

definition segment_bytes :: "segment_header \<Rightarrow> bytes \<Rightarrow> bytes list \<Rightarrow> bytes" where
  "segment_bytes h key ps = header_bytes h @ frames h key (sh_first_rs h) ps"

lemma within_cap_simps [simp]:
  "within_cap []" "within_cap (p # ps) \<longleftrightarrow> int (length p) \<le> max_record_payload \<and> within_cap ps"
  "within_cap (ps @ qs) \<longleftrightarrow> within_cap ps \<and> within_cap qs"
  by (auto simp: within_cap_def)

lemma frames_append:
  "frames h key rs (ps @ qs) = frames h key rs ps @ frames h key (rs + of_nat (length ps)) qs"
  by (induction ps arbitrary: rs) (simp_all add: algebra_simps)

lemma records_of_append:
  "records_of h key rs (ps @ qs) = records_of h key rs ps @ records_of h key (rs + of_nat (length ps)) qs"
  by (induction ps arbitrary: rs) (simp_all add: algebra_simps)

lemma payloads_records_of [simp]: "map rec_body (records_of h key rs ps) = ps"
  by (induction ps arbitrary: rs) (simp_all add: record_of_def)

lemma length_records_of [simp]: "length (records_of h key rs ps) = length ps"
  by (induction ps arbitrary: rs) simp_all

lemma records_of_nth: "i < length ps \<Longrightarrow> records_of h key rs ps ! i = record_of h key (rs + of_nat i) (ps ! i)"
  by (induction ps arbitrary: rs i) (auto simp: nth_Cons' algebra_simps split: nat.split)

text \<open>A frame that an append has not finished: a non-empty proper prefix of one.\<close>

definition torn_frame :: "segment_header \<Rightarrow> bytes \<Rightarrow> 64 word \<Rightarrow> bytes \<Rightarrow> bool" where
  "torn_frame h key rs junk \<longleftrightarrow> junk \<noteq> [] \<and> (\<exists>p k. int (length p) \<le> max_record_payload
     \<and> k < length (frame_bytes h rs p key) \<and> junk = take k (frame_bytes h rs p key))"

section \<open>One step of the scanner\<close>

definition scanning :: "scanner \<Rightarrow> bool" where
  "scanning s \<longleftrightarrow> \<not> sc_done s \<and> sc_err s = None \<and> \<not> sc_truncated s \<and> \<not> rd_fails (sc_reader s)
     \<and> sc_delivered s = sc_next s - 1"

text \<open>The scanner after a record of the stream.\<close>

definition deliver :: "bytes \<Rightarrow> bytes \<Rightarrow> scanner \<Rightarrow> scanner" where
  "deliver p rest s = s\<lparr>sc_reader := \<lparr>rd_pending = rest, rd_fails = False\<rparr>,
     sc_rec := Some (record_of (sc_header s) (sc_key s) (sc_next s) p),
     sc_delivered := sc_next s, sc_next := sc_next s + 1\<rparr>"

lemma scanning_deliver [simp]: "scanning s \<Longrightarrow> scanning (deliver p rest s)"
  by (simp add: scanning_def deliver_def)

lemma deliver_fields [simp]:
  "sc_header (deliver p rest s) = sc_header s" "sc_key (deliver p rest s) = sc_key s"
  "sc_sealed (deliver p rest s) = sc_sealed s" "sc_tolerate (deliver p rest s) = sc_tolerate s"
  "sc_next (deliver p rest s) = sc_next s + 1" "rd_pending (sc_reader (deliver p rest s)) = rest"
  "sc_rec (deliver p rest s) = Some (record_of (sc_header s) (sc_key s) (sc_next s) p)"
  by (simp_all add: deliver_def)

lemma scan_next_frame:
  assumes "scanning s" "check_auth_mode (sc_header s) (sc_key s) = Inr ()"
    and "int (length p) \<le> max_record_payload"
    and "rd_pending (sc_reader s) = frame_bytes (sc_header s) (sc_next s) p (sc_key s) @ rest"
  shows "scan_next s = (True, deliver p rest s)"
proof -
  let ?f = "frame_bytes (sc_header s) (sc_next s) p (sc_key s)"
  have fixed: "read_full record_header_size (sc_reader s)
      = ReadFull (take record_header_size ?f) ((sc_reader s)\<lparr>rd_pending := drop record_header_size ?f @ rest\<rparr>)"
    using assms(4) by (simp add: read_full_def)
  have len: "frame_payload_len (take record_header_size ?f) = Inr (length p)"
    using frame_payload_len_bytes[OF assms(3), of "sc_header s" "sc_next s" "sc_key s" "[]"] by simp
  have body: "read_full (length p) ((sc_reader s)\<lparr>rd_pending := drop record_header_size ?f @ rest\<rparr>)
      = ReadFull (drop record_header_size ?f) ((sc_reader s)\<lparr>rd_pending := rest\<rparr>)"
    by (simp add: read_full_def)
  have "parse_record ?f (sc_header s) (sc_key s) =
      Inr (record_of (sc_header s) (sc_key s) (sc_next s) p, record_header_size + length p)"
    using parse_record_bytes[OF assms(2,3), of "sc_next s" "[]"] by (simp add: record_of_def)
  moreover have "(sc_reader s)\<lparr>rd_pending := rest\<rparr> = \<lparr>rd_pending = rest, rd_fails = False\<rparr>"
    using assms(1) by (cases "sc_reader s") (simp add: scanning_def)
  ultimately show ?thesis
    using assms(1) fixed len body by (simp add: scan_next_def scanning_def deliver_def record_of_def Let_def)
qed

lemma scan_next_end:
  assumes "scanning s" "rd_pending (sc_reader s) = []"
  shows "scan_next s = (False, s\<lparr>sc_done := True\<rparr>)"
  using assms by (simp add: scan_next_def scanning_def read_full_def sizes)

text \<open>The verdict on an unfinished frame.\<close>

lemma scan_next_torn:
  assumes "scanning s" "torn_frame (sc_header s) (sc_key s) (sc_next s) (rd_pending (sc_reader s))"
  obtains s' where "scan_next s = stop_damaged ErrIncomplete s'" "\<not> sc_truncated s'" "sc_err s' = None"
    "sc_header s' = sc_header s" "sc_next s' = sc_next s" "sc_delivered s' = sc_delivered s"
    "sc_sealed s' = sc_sealed s" "sc_tolerate s' = sc_tolerate s"
proof -
  let ?f = "\<lambda>p. frame_bytes (sc_header s) (sc_next s) p (sc_key s)"
  let ?junk = "rd_pending (sc_reader s)"
  from assms(2) obtain p k where p: "int (length p) \<le> max_record_payload" "k < length (?f p)"
    and junk: "?junk = take k (?f p)" "?junk \<noteq> []" by (auto simp: torn_frame_def)
  show thesis
  proof (cases "k < record_header_size")
    case True
    moreover have "length ?junk = k" using p(2) junk(1) by simp
    ultimately have "read_full record_header_size (sc_reader s) = ReadUnexpectedEof"
      using assms(1) junk(2) by (simp add: read_full_def scanning_def)
    then show ?thesis using assms(1) by (intro that[of s]) (simp_all add: scan_next_def scanning_def stop_short_def)
  next
    case False
    let ?r1 = "(sc_reader s)\<lparr>rd_pending := drop record_header_size ?junk\<rparr>"
    have long: "length ?junk = k" using p junk by simp
    have "read_full record_header_size (sc_reader s) = ReadFull (take record_header_size ?junk) ?r1"
      using False long by (simp add: read_full_def)
    moreover have "take record_header_size ?junk = take record_header_size (?f p)"
      using False junk by (simp add: min_def)
    then have "frame_payload_len (take record_header_size ?junk) = Inr (length p)"
      using frame_payload_len_bytes[OF p(1), of "sc_header s" "sc_next s" "sc_key s" "[]"] by simp
    moreover have "read_full (length p) ?r1 \<in> {ReadEof, ReadUnexpectedEof}"
      using assms(1) long p(2) False by (auto simp: read_full_def scanning_def)
    ultimately show ?thesis
      using assms(1) by (intro that[of "s\<lparr>sc_reader := ?r1\<rparr>"]) (auto simp: scan_next_def scanning_def stop_short_def Let_def)
  qed
qed

section \<open>The whole scan\<close>

lemma scan_loop_frames:
  assumes "scanning s" "check_auth_mode (sc_header s) (sc_key s) = Inr ()" "within_cap ps"
    and "rd_pending (sc_reader s) = frames (sc_header s) (sc_key s) (sc_next s) ps @ rest"
  obtains s' where "scanning s'" "sc_header s' = sc_header s" "sc_key s' = sc_key s"
    "sc_sealed s' = sc_sealed s" "sc_tolerate s' = sc_tolerate s" "rd_pending (sc_reader s') = rest"
    "sc_next s' = sc_next s + of_nat (length ps)"
    "scan_loop s = (records_of (sc_header s) (sc_key s) (sc_next s) ps @ fst (scan_loop s'), snd (scan_loop s'))"
  using assms
proof (induction ps arbitrary: s thesis)
  case Nil
  then show ?case by (intro Nil.prems(1)[of s]) simp_all
next
  case (Cons p ps)
  let ?s1 = "deliver p (frames (sc_header s) (sc_key s) (sc_next s + 1) ps @ rest) s"
  have step: "scan_next s = (True, ?s1)"
    using Cons.prems by (intro scan_next_frame) simp_all
  obtain s' where s': "scanning s'" "sc_header s' = sc_header s" "sc_key s' = sc_key s"
      "sc_sealed s' = sc_sealed s" "sc_tolerate s' = sc_tolerate s" "rd_pending (sc_reader s') = rest"
      "sc_next s' = sc_next ?s1 + of_nat (length ps)"
      "scan_loop ?s1 = (records_of (sc_header s) (sc_key s) (sc_next ?s1) ps @ fst (scan_loop s'), snd (scan_loop s'))"
    by (rule Cons.IH[of ?s1]) (use Cons.prems in simp_all)
  show ?case
    by (rule Cons.prems(1)[of s']) (use s' step in \<open>simp_all add: scan_loop.simps[of s]\<close>)
qed

text \<open>The options and the header agree.\<close>

definition scan_accepts :: "scan_options \<Rightarrow> segment_header \<Rightarrow> bool" where
  "scan_accepts opts h \<longleftrightarrow> segment_ok h (so_key opts) \<and> (so_expect_peer opts = [] \<or> sh_peer h = so_expect_peer opts)"

definition delivered_result :: "scan_options \<Rightarrow> segment_header \<Rightarrow> bytes list \<Rightarrow> bool \<Rightarrow> scan_result" where
  "delivered_result opts h ps torn = \<lparr>sr_header = h,
     sr_records = records_of h (so_key opts) (sh_first_rs h) ps, sr_truncated = torn,
     sr_cursor = \<lparr>cur_segment = sh_segment h, cur_rs = sh_first_rs h + of_nat (length ps) - 1,
                  cur_epoch = sh_pub_epoch h\<rparr>\<rparr>"

lemma new_scanner_bytes:
  assumes "scan_accepts opts h"
  obtains s where "new_scanner (bytes_reader (header_bytes h @ rest)) opts = Inr s" "scanning s"
    "sc_header s = h" "sc_key s = so_key opts" "sc_sealed s = so_sealed opts"
    "sc_tolerate s = so_tolerate opts" "rd_pending (sc_reader s) = rest" "sc_next s = sh_first_rs h"
proof -
  have "parse_header (header_bytes h) = Inr h"
    using parse_header_bytes[of h "[]"] assms by (simp add: scan_accepts_def segment_ok_def)
  then show thesis
    using assms by (intro that[of "\<lparr>sc_reader = \<lparr>rd_pending = rest, rd_fails = False\<rparr>, sc_header = h,
      sc_key = so_key opts, sc_sealed = so_sealed opts, sc_tolerate = so_tolerate opts, sc_rec = None,
      sc_next = sh_first_rs h, sc_delivered = sh_first_rs h - 1, sc_truncated = False, sc_done = False,
      sc_err = None\<rparr>"]) (simp_all add: new_scanner_def read_full_def bytes_reader_def scan_accepts_def
        segment_ok_def scanning_def)
qed

lemma scan_loop_bytes:
  assumes "scan_accepts opts h" "within_cap ps"
    and "rest = [] \<or> torn_frame h (so_key opts) (sh_first_rs h + of_nat (length ps)) rest"
  obtains s t where "new_scanner (bytes_reader (segment_bytes h (so_key opts) ps @ rest)) opts = Inr s"
    "sc_header s = h" "scan_loop s = (records_of h (so_key opts) (sh_first_rs h) ps, t)"
    "sc_err t = (if rest \<noteq> [] \<and> so_sealed opts \<and> \<not> so_tolerate opts then Some ErrSegmentCorrupt else None)"
    "sc_truncated t \<longleftrightarrow> rest \<noteq> [] \<and> (\<not> so_sealed opts \<or> so_tolerate opts)"
    "scan_cursor t = sr_cursor (delivered_result opts h ps (rest \<noteq> []))"
proof -
  have auth: "check_auth_mode h (so_key opts) = Inr ()" using assms(1) by (simp add: scan_accepts_def segment_ok_def)
  obtain s where s: "new_scanner (bytes_reader (segment_bytes h (so_key opts) ps @ rest)) opts = Inr s" "scanning s"
    "sc_header s = h" "sc_key s = so_key opts" "sc_sealed s = so_sealed opts" "sc_tolerate s = so_tolerate opts"
    "rd_pending (sc_reader s) = frames h (so_key opts) (sh_first_rs h) ps @ rest" "sc_next s = sh_first_rs h"
    by (rule new_scanner_bytes[OF assms(1), of "frames h (so_key opts) (sh_first_rs h) ps @ rest"])
      (simp add: segment_bytes_def)
  obtain s' where s': "scanning s'" "sc_header s' = h" "sc_key s' = so_key opts" "sc_sealed s' = so_sealed opts"
    "sc_tolerate s' = so_tolerate opts" "rd_pending (sc_reader s') = rest"
    "sc_next s' = sh_first_rs h + of_nat (length ps)"
    "scan_loop s = (records_of h (so_key opts) (sh_first_rs h) ps @ fst (scan_loop s'), snd (scan_loop s'))"
    by (rule scan_loop_frames[of s ps rest]) (use s auth assms(2) in simp_all)
  have deliv: "sc_delivered s' = sh_first_rs h + of_nat (length ps) - 1" using s'(1,7) by (simp add: scanning_def)
  show thesis
  proof (cases "rest = []")
    case True
    with s'(1,6) have "scan_loop s' = ([], s'\<lparr>sc_done := True\<rparr>)"
      by (simp add: scan_loop.simps[of s'] scan_next_end)
    with True s s' deliv show ?thesis
      by (intro that[of s "s'\<lparr>sc_done := True\<rparr>"]) (simp_all add: scan_cursor_def delivered_result_def scanning_def)
  next
    case False
    with assms(3) s' have "torn_frame (sc_header s') (sc_key s') (sc_next s') (rd_pending (sc_reader s'))" by simp
    then obtain u where u: "scan_next s' = stop_damaged ErrIncomplete u" "\<not> sc_truncated u" "sc_err u = None"
      "sc_header u = h" "sc_delivered u = sc_delivered s'" "sc_sealed u = so_sealed opts" "sc_tolerate u = so_tolerate opts"
      using scan_next_torn[OF s'(1)] s' by metis
    have "scan_loop s' = ([], snd (stop_damaged ErrIncomplete u))"
      using u(1) by (simp add: scan_loop.simps[of s'] stop_damaged_def scan_stop_def)
    with False s s' u deliv show ?thesis
      by (intro that[of s "snd (stop_damaged ErrIncomplete u)"])
        (simp_all add: stop_damaged_def scan_stop_def scan_cursor_def delivered_result_def)
  qed
qed

lemma scan_all_bytes:
  assumes "scan_accepts opts h" "within_cap ps"
    and "rest = [] \<or> torn_frame h (so_key opts) (sh_first_rs h + of_nat (length ps)) rest"
  shows "scan_all (bytes_reader (segment_bytes h (so_key opts) ps @ rest)) opts =
     (if rest \<noteq> [] \<and> so_sealed opts \<and> \<not> so_tolerate opts then Inl ErrSegmentCorrupt
      else Inr (delivered_result opts h ps (rest \<noteq> [])))"
proof (rule scan_loop_bytes[OF assms])
  fix s t
  assume "new_scanner (bytes_reader (segment_bytes h (so_key opts) ps @ rest)) opts = Inr s"
    "sc_header s = h" "scan_loop s = (records_of h (so_key opts) (sh_first_rs h) ps, t)"
    "sc_err t = (if rest \<noteq> [] \<and> so_sealed opts \<and> \<not> so_tolerate opts then Some ErrSegmentCorrupt else None)"
    "sc_truncated t \<longleftrightarrow> rest \<noteq> [] \<and> (\<not> so_sealed opts \<or> so_tolerate opts)"
    "scan_cursor t = sr_cursor (delivered_result opts h ps (rest \<noteq> []))"
  then show ?thesis by (auto simp: scan_all_def delivered_result_def)
qed

section \<open>What a scan accepts\<close>

lemma frame_payload_len_prefix:
  "length f = record_header_size \<Longrightarrow> frame_payload_len (slice 0 record_header_size (f @ body)) = frame_payload_len f"
  by (simp add: slice_def)

lemma parse_record_total:
  assumes "parse_record (f @ body) h key = Inr (rec, consumed)" "length f = record_header_size"
    and "frame_payload_len f = Inr n"
  shows "consumed = record_header_size + n"
  using assms frame_payload_len_prefix[OF assms(2), of body]
  by (auto simp: parse_record_def Let_def bind_result_Inr split: if_splits)

lemma scan_next_True:
  assumes "scanning s" "scan_next s = (True, s')"
  obtains p rest where "int (length p) \<le> max_record_payload" "s' = deliver p rest s"
    "rd_pending (sc_reader s) = frame_bytes (sc_header s) (sc_next s) p (sc_key s) @ rest"
proof -
  let ?pend = "rd_pending (sc_reader s)"
  from assms(2) obtain f r1 n body r2 rec consumed where
    f: "read_full record_header_size (sc_reader s) = ReadFull f r1" and n: "frame_payload_len f = Inr n"
    and body: "read_full n r1 = ReadFull body r2"
    and rec: "parse_record (f @ body) (sc_header s) (sc_key s) = Inr (rec, consumed)" "rec_rs rec = sc_next s"
    and s': "s' = s\<lparr>sc_reader := r2, sc_rec := Some rec, sc_delivered := rec_rs rec, sc_next := rec_rs rec + 1\<rparr>"
    by (auto simp: scan_next_def stop_short_def stop_damaged_def scan_stop_def Let_def
        split: if_splits read_outcome.splits sum.splits)
  note fd = read_full_progress[OF f] and bd = read_full_progress[OF body]
  have len: "length f = record_header_size" using fd by simp
  have "length body = n" using bd by simp
  note sound = parse_record_Inr[OF rec(1)]
  have "consumed = length (f @ body)" using parse_record_total[OF rec(1) len n] len \<open>length body = n\<close> by simp
  with sound(4) have frame: "f @ body = frame_bytes (sc_header s) (sc_next s) (rec_body rec) (sc_key s)"
    using rec(2) by simp
  have "?pend = f @ rd_pending r1" using fd by simp
  moreover have "rd_pending r1 = take n (rd_pending r1) @ drop n (rd_pending r1)" by simp
  then have "rd_pending r1 = body @ rd_pending r2" using bd by simp
  ultimately have "?pend = (f @ body) @ rd_pending r2" by simp
  moreover have "rec = record_of (sc_header s) (sc_key s) (sc_next s) (rec_body rec)"
    using sound(6,7) rec(2) by (cases rec) (simp add: record_of_def)
  moreover have "r2 = \<lparr>rd_pending = rd_pending r2, rd_fails = False\<rparr>"
    using assms(1) fd bd by (simp add: scanning_def)
  ultimately show thesis
    using sound(2) frame rec(2) s' by (intro that[of "rec_body rec" "rd_pending r2"]) (simp_all add: deliver_def)
qed

text \<open>A scan that stops without a verdict stopped at the end, or at bytes that are not a frame.\<close>

lemma scan_next_False:
  assumes "scanning s" "scan_next s = (False, s')" "sc_err s' = None"
  shows "sc_header s' = sc_header s" "sc_delivered s' = sc_delivered s"
    "sc_truncated s' \<longleftrightarrow> rd_pending (sc_reader s) \<noteq> []"
    "rd_pending (sc_reader s) \<noteq> [] \<Longrightarrow> \<not> sc_sealed s \<or> sc_tolerate s"
proof -
  have empty: "read_full record_header_size (sc_reader s) = ReadEof \<longleftrightarrow> rd_pending (sc_reader s) = []"
    using assms(1) by (auto simp: read_full_def sizes scanning_def)
  show "sc_header s' = sc_header s" "sc_delivered s' = sc_delivered s"
    "sc_truncated s' \<longleftrightarrow> rd_pending (sc_reader s) \<noteq> []"
    "rd_pending (sc_reader s) \<noteq> [] \<Longrightarrow> \<not> sc_sealed s \<or> sc_tolerate s"
    using assms empty
    by (auto simp: scan_next_def stop_short_def stop_damaged_def scan_stop_def scanning_def Let_def
        split: if_splits read_outcome.splits sum.splits)
qed

lemma scan_loop_sound:
  assumes "scanning s" "scan_loop s = (recs, s')" "sc_err s' = None"
  shows "\<exists>ps rest. within_cap ps \<and> recs = records_of (sc_header s) (sc_key s) (sc_next s) ps
    \<and> rd_pending (sc_reader s) = frames (sc_header s) (sc_key s) (sc_next s) ps @ rest
    \<and> sc_header s' = sc_header s \<and> sc_delivered s' = sc_next s + of_nat (length ps) - 1
    \<and> (sc_truncated s' \<longleftrightarrow> rest \<noteq> []) \<and> (rest \<noteq> [] \<longrightarrow> \<not> sc_sealed s \<or> sc_tolerate s)"
  using assms
proof (induction s arbitrary: recs rule: scan_loop.induct)
  case (1 s)
  obtain b s1 where step: "scan_next s = (b, s1)" by fastforce
  show ?case
  proof (cases b)
    case False
    with 1 step have "recs = []" "s' = s1" by (simp_all add: scan_loop.simps[of s])
    with 1 step False scan_next_False[of s s1] show ?thesis
      by (intro exI[of _ "[]"] exI[of _ "rd_pending (sc_reader s)"]) (auto simp: scanning_def)
  next
    case True
    with 1 step obtain p rest where p: "int (length p) \<le> max_record_payload" "s1 = deliver p rest s"
      "rd_pending (sc_reader s) = frame_bytes (sc_header s) (sc_next s) p (sc_key s) @ rest"
      by (auto elim: scan_next_True)
    obtain recs' where recs': "scan_loop s1 = (recs', s')"
      "recs = record_of (sc_header s) (sc_key s) (sc_next s) p # recs'"
      using 1(3) step True p(2) by (cases "scan_loop s1") (auto simp: scan_loop.simps[of s])
    have "scanning s1" using 1(2) p(2) by simp
    from 1(1)[of b s1, OF step[symmetric] _ _ this recs'(1) 1(4)] True step p obtain ps rest' where
      "within_cap ps" "recs' = records_of (sc_header s) (sc_key s) (sc_next s + 1) ps"
      "rest = frames (sc_header s) (sc_key s) (sc_next s + 1) ps @ rest'" "sc_header s' = sc_header s"
      "sc_delivered s' = sc_next s + 1 + of_nat (length ps) - 1"
      "sc_truncated s' \<longleftrightarrow> rest' \<noteq> []" "rest' \<noteq> [] \<longrightarrow> \<not> sc_sealed s \<or> sc_tolerate s" by auto
    with p recs'(2) show ?thesis by (intro exI[of _ "p # ps"] exI[of _ rest']) (simp add: algebra_simps)
  qed
qed

lemma scan_all_sound:
  assumes "scan_all (bytes_reader b) opts = Inr res"
  obtains ps rest where "scan_accepts opts (sr_header res)" "within_cap ps"
    "b = segment_bytes (sr_header res) (so_key opts) ps @ rest"
    "res = delivered_result opts (sr_header res) ps (rest \<noteq> [])"
    "rest \<noteq> [] \<Longrightarrow> \<not> so_sealed opts \<or> so_tolerate opts"
proof -
  from assms obtain sc where sc: "new_scanner (bytes_reader b) opts = Inr sc"
    by (auto simp: scan_all_def bind_result_Inr)
  obtain recs s' where loop: "scan_loop sc = (recs, s')" by fastforce
  with assms sc have err: "sc_err s' = None"
    and res: "res = \<lparr>sr_header = sc_header sc, sr_records = recs, sr_truncated = sc_truncated s', sr_cursor = scan_cursor s'\<rparr>"
    by (auto simp: scan_all_def split: option.splits)
  from sc have long: "header_size \<le> length b" and parsed: "parse_header (take header_size b) = Inr (sc_header sc)"
    and auth: "check_auth_mode (sc_header sc) (so_key opts) = Inr ()"
    and peer: "so_expect_peer opts = [] \<or> sh_peer (sc_header sc) = so_expect_peer opts"
    and fields: "sc_reader sc = \<lparr>rd_pending = drop header_size b, rd_fails = False\<rparr>" "sc_key sc = so_key opts"
      "sc_sealed sc = so_sealed opts" "sc_tolerate sc = so_tolerate opts" "sc_next sc = sh_first_rs (sc_header sc)"
    and start: "scanning sc"
    by (auto simp: new_scanner_def read_full_def bytes_reader_def bind_result_Inr scanning_def
        split: if_splits read_outcome.splits)
  note head = parse_header_Inr[OF parsed]
  from scan_loop_sound[OF start loop err] obtain ps rest where ps: "within_cap ps"
    "recs = records_of (sc_header sc) (so_key opts) (sh_first_rs (sc_header sc)) ps"
    "drop header_size b = frames (sc_header sc) (so_key opts) (sh_first_rs (sc_header sc)) ps @ rest"
    "sc_header s' = sc_header sc" "sc_delivered s' = sh_first_rs (sc_header sc) + of_nat (length ps) - 1"
    "sc_truncated s' \<longleftrightarrow> rest \<noteq> []" "rest \<noteq> [] \<longrightarrow> \<not> so_sealed opts \<or> so_tolerate opts"
    by (auto simp: fields)
  have "b = take header_size b @ drop header_size b" by simp
  also have "\<dots> = segment_bytes (sc_header sc) (so_key opts) ps @ rest"
    using head(2) ps(3) by (simp add: segment_bytes_def)
  finally have "b = segment_bytes (sc_header sc) (so_key opts) ps @ rest" .
  moreover have "res = delivered_result opts (sc_header sc) ps (rest \<noteq> [])"
    using ps by (simp add: res delivered_result_def scan_cursor_def)
  moreover have "sr_header res = sc_header sc" by (simp add: res)
  ultimately show thesis
    using head(1) auth peer ps(1,7) by (intro that[of ps rest]) (simp_all add: scan_accepts_def segment_ok_def)
qed

section \<open>A segment seen while it grows\<close>

fun whole_frames :: "nat \<Rightarrow> bytes list \<Rightarrow> nat" where
  "whole_frames n [] = 0"
| "whole_frames n (p # ps) =
     (if record_header_size + length p \<le> n then Suc (whole_frames (n - (record_header_size + length p)) ps) else 0)"

lemma whole_frames_le: "whole_frames n ps \<le> length ps"
  by (induction ps arbitrary: n) auto

lemma take_frames:
  assumes "within_cap ps" "k \<le> length (frames h key rs ps)"
  obtains rest where "take k (frames h key rs ps) = frames h key rs (take (whole_frames k ps) ps) @ rest"
    "rest = [] \<or> torn_frame h key (rs + of_nat (whole_frames k ps)) rest"
  using assms
proof (induction ps arbitrary: k rs thesis)
  case Nil
  then show ?case by simp
next
  case (Cons p ps)
  show ?case
  proof (cases "record_header_size + length p \<le> k")
    case True
    obtain rest where "take (k - (record_header_size + length p)) (frames h key (rs + 1) ps)
        = frames h key (rs + 1) (take (whole_frames (k - (record_header_size + length p)) ps) ps) @ rest"
      "rest = [] \<or> torn_frame h key (rs + 1 + of_nat (whole_frames (k - (record_header_size + length p)) ps)) rest"
      by (rule Cons.IH[of "k - (record_header_size + length p)" "rs + 1"]) (use Cons.prems True in auto)
    with True show ?thesis by (intro Cons.prems(1)[of rest]) (simp_all add: algebra_simps)
  next
    case False
    with Cons.prems(2) show ?thesis
      by (intro Cons.prems(1)[of "take k (frame_bytes h rs p key)"])
        (auto simp: torn_frame_def sizes intro!: exI[of _ p] exI[of _ k])
  qed
qed

lemma active_scan_cut_helper:
  assumes "scan_accepts opts h" "\<not> so_sealed opts" "within_cap ps"
    and "k \<le> length (segment_bytes h (so_key opts) ps)"
  shows "scan_all (bytes_reader (take k (segment_bytes h (so_key opts) ps))) opts =
    (if k < header_size then Inl ErrIncomplete
     else Inr (delivered_result opts h (take (whole_frames (k - header_size) ps) ps)
       (length (segment_bytes h (so_key opts) (take (whole_frames (k - header_size) ps) ps)) < k)))"
proof (cases "k < header_size")
  case True
  have "length (take k (segment_bytes h (so_key opts) ps)) < header_size" using True by simp
  with True assms(2) show ?thesis
    by (auto simp: scan_all_def new_scanner_def bytes_reader_def read_full_def)
next
  case False
  let ?n = "whole_frames (k - header_size) ps"
  have "k - header_size \<le> length (frames h (so_key opts) (sh_first_rs h) ps)"
    using assms(4) by (simp add: segment_bytes_def)
  then obtain rest where rest: "take (k - header_size) (frames h (so_key opts) (sh_first_rs h) ps)
      = frames h (so_key opts) (sh_first_rs h) (take ?n ps) @ rest"
    "rest = [] \<or> torn_frame h (so_key opts) (sh_first_rs h + of_nat ?n) rest"
    using take_frames[OF assms(3)] by blast
  have whole: "take k (segment_bytes h (so_key opts) ps) = segment_bytes h (so_key opts) (take ?n ps) @ rest"
    using False rest(1) by (simp add: segment_bytes_def)
  have cap: "within_cap (take ?n ps)" using assms(3) by (auto simp: within_cap_def dest: in_set_takeD)
  have torn: "rest = [] \<or> torn_frame h (so_key opts) (sh_first_rs h + of_nat (length (take ?n ps))) rest"
    using rest(2) whole_frames_le[of "k - header_size" ps] by (simp add: min_def)
  have "length (take k (segment_bytes h (so_key opts) ps)) = k" using assms(4) by simp
  with whole have "rest \<noteq> [] \<longleftrightarrow> length (segment_bytes h (so_key opts) (take ?n ps)) < k"
    by (metis length_append length_greater_0_conv less_add_same_cancel1)
  with False assms(2) scan_all_bytes[OF assms(1) cap torn] whole show ?thesis by simp
qed

section \<open>The properties of a scan\<close>

definition example_header :: segment_header where
  "example_header = \<lparr>sh_version = current_format, sh_flags = 0, sh_peer = ''0123456789abcdef'', sh_segment = 1,
     sh_first_rs = 1, sh_key_epoch = 1, sh_pub_epoch = 1\<rparr>"

definition example_options :: "bool \<Rightarrow> scan_options" where
  "example_options sealed = \<lparr>so_sealed = sealed, so_key = [], so_tolerate = False, so_expect_peer = ''0123456789abcdef''\<rparr>"

lemma example_accepts: "scan_accepts (example_options sealed) example_header"
  by (simp add: scan_accepts_def segment_ok_def validate_header_ok check_auth_mode_ok authenticated_def
      example_header_def example_options_def current_format_def peer_id_pattern_def is_lower_hex_def
      is_digit_def byte_def)

text \<open>
  C13. A scan of a sealed segment accepts exactly the encodings of a valid header of the expected
  peer and of payloads within the cap, and delivers them: consecutive records from the header's
  first relay sequence, each with the checksum and the MAC of its payload in its position, and
  the cursor at the last of them. Any other bytes are refused.
\<close>

theorem sealed_scan_exact:
  assumes "so_sealed opts" "\<not> so_tolerate opts"
  shows "scan_all (bytes_reader b) opts = Inr res \<longleftrightarrow>
    (\<exists>h ps. scan_accepts opts h \<and> within_cap ps \<and> b = segment_bytes h (so_key opts) ps
       \<and> res = delivered_result opts h ps False)"
proof
  assume "scan_all (bytes_reader b) opts = Inr res"
  then show "\<exists>h ps. scan_accepts opts h \<and> within_cap ps \<and> b = segment_bytes h (so_key opts) ps
       \<and> res = delivered_result opts h ps False"
    using assms by (elim scan_all_sound) (metis append_Nil2)
next
  assume "\<exists>h ps. scan_accepts opts h \<and> within_cap ps \<and> b = segment_bytes h (so_key opts) ps
       \<and> res = delivered_result opts h ps False"
  then obtain h ps where hp: "scan_accepts opts h" "within_cap ps" "b = segment_bytes h (so_key opts) ps"
    "res = delivered_result opts h ps False" by blast
  with scan_all_bytes[OF hp(1,2), of "[]"] show "scan_all (bytes_reader b) opts = Inr res" by simp
qed

theorem sealed_scan_exact_witness:
  "scan_all (bytes_reader (segment_bytes example_header [] [''a'', ''bc''])) (example_options True)
     = Inr (delivered_result (example_options True) example_header [''a'', ''bc''] False)"
proof -
  have opts: "so_sealed (example_options True)" "\<not> so_tolerate (example_options True)"
    and key: "so_key (example_options True) = []" by (simp_all add: example_options_def)
  have "within_cap [''a'', ''bc'']" by (simp add: max_record_payload_def)
  then show ?thesis
    unfolding sealed_scan_exact[OF opts] key
    by (intro exI[of _ example_header] exI[of _ "[''a'', ''bc'']"] conjI refl example_accepts)
qed

text \<open>
  C14. The active segment may be cut at any byte while its writer appends: a scan delivers exactly
  the records whose frames are whole, reports the unfinished tail, and never a verdict; only a
  file whose header is not whole yet is reported as incomplete.
\<close>

theorem active_scan_cut:
  assumes "scan_accepts opts h" "\<not> so_sealed opts" "within_cap ps"
    and "k \<le> length (segment_bytes h (so_key opts) ps)"
  shows "scan_all (bytes_reader (take k (segment_bytes h (so_key opts) ps))) opts =
    (if k < header_size then Inl ErrIncomplete
     else Inr (delivered_result opts h (take (whole_frames (k - header_size) ps) ps)
       (length (segment_bytes h (so_key opts) (take (whole_frames (k - header_size) ps) ps)) < k)))"
  by (rule active_scan_cut_helper[OF assms])

theorem active_scan_cut_witness:
  "scan_all (bytes_reader (take 150 (segment_bytes example_header [] [''a'', ''bc'']))) (example_options False)
     = Inr (delivered_result (example_options False) example_header [''a''] True)"
proof -
  have "so_key (example_options False) = []" "\<not> so_sealed (example_options False)"
    "within_cap [''a'', ''bc'']" by (simp_all add: example_options_def max_record_payload_def)
  with active_scan_cut[OF example_accepts[of False], of "[''a'', ''bc'']" 150] show ?thesis
    by (simp add: segment_bytes_def sizes)
qed

end
