(* ===== verification/Sync_Validator.thy ===== *)
theory Sync_Validator
  imports Sync_Event
begin

text \<open>
  The envelope checks on received events (\<open>internal/sync/validator\<close>): the size, depth, clock and
  time limits, the node ids an event names, and the limits on a Lamport jump. The payload bytes
  of an event and their nesting depth are given by a codec (the JSON encoding is outside the
  model of events, whose payloads are decoded values).
\<close>

text \<open>
  \<open>encoding/json\<close> as the relay uses it: \<open>json.Marshal\<close> of an event, \<open>json.Unmarshal\<close> into one
  and into the struct that keeps only \<open>event_id\<close>, the raw payload bytes of an event and the
  nesting depth \<open>jsonDepth\<close> counts in them.
\<close>

record codec =
  cd_encode :: "sync_event \<Rightarrow> string option"
  cd_decode :: "string \<Rightarrow> sync_event option"
  cd_event_id :: "string \<Rightarrow> string option"
  cd_payload :: "sync_event \<Rightarrow> string"
  cd_depth :: "string \<Rightarrow> int"

datatype gate_error =
    ModelError go_error
  | ErrEventTooLarge | ErrPayloadTooNested | ErrTimestampFuture | ErrLamportOverflow
  | ErrInvalidBatch nat gate_error | ErrLamportJump | ErrMalformedEvent | ErrInvalidNodeID
  | ErrUidConflict | ErrUndecodable

type_synonym 'a gated = "gate_error + 'a"

record validator_result =
  vr_stale :: "string list"
  vr_future :: "string list"

definition max_payload_bytes :: int where "max_payload_bytes = 64 * 1024"
definition max_payload_nesting_depth :: int where "max_payload_nesting_depth = 10"
definition max_lamport_clock :: int where "max_lamport_clock = 2 ^ 53"
definition future_timestamp_grace :: int where "future_timestamp_grace = 24 * 3600 * 10 ^ 9"
definition past_timestamp_warn :: int where "past_timestamp_warn = 30 * 24 * 3600 * 10 ^ 9"
definition default_max_lamport_jump :: int where "default_max_lamport_jump = 2 ^ 32"

fun lift_model :: "'a result \<Rightarrow> 'a gated" where
  "lift_model (Inl e) = Inl (ModelError e)"
| "lift_model (Inr x) = Inr x"

definition validate_envelope :: "codec \<Rightarrow> sync_event \<Rightarrow> unit gated" where
  "validate_envelope c e =
     bind_result (lift_model (validate_sync_event e)) (\<lambda>_.
       if max_payload_bytes < int (length (cd_payload c e)) then Inl ErrEventTooLarge
       else if max_payload_nesting_depth < cd_depth c (cd_payload c e) then Inl ErrPayloadTooNested
       else if max_lamport_clock \<le> ev_lamport e then Inl ErrLamportOverflow
       else lift_model (vc_validate (ev_vc e)))"

text \<open>\<open>Validate\<close> at the time \<open>t\<close> (nanoseconds); the event's time is in milliseconds.\<close>

definition wall_ns :: "sync_event \<Rightarrow> int" where
  "wall_ns e = ev_wall e * 10 ^ 6"

definition note_stale :: "int \<Rightarrow> sync_event \<Rightarrow> validator_result option \<Rightarrow> validator_result option" where
  "note_stale t e res =
     (if wall_ns e < t - past_timestamp_warn
      then map_option (\<lambda>r. r\<lparr>vr_stale := vr_stale r @ [ev_id e]\<rparr>) res else res)"

definition validate_event :: "codec \<Rightarrow> int \<Rightarrow> sync_event \<Rightarrow> validator_result option \<Rightarrow> validator_result option gated" where
  "validate_event c t e res =
     bind_result (validate_envelope c e) (\<lambda>_.
       if t + future_timestamp_grace < wall_ns e then Inl ErrTimestampFuture
       else Inr (note_stale t e res))"

fun validate_batch_from ::
  "nat \<Rightarrow> codec \<Rightarrow> int \<Rightarrow> sync_event list \<Rightarrow> validator_result option \<Rightarrow> validator_result option gated" where
  "validate_batch_from i c t [] res = Inr res"
| "validate_batch_from i c t (e # es) res =
     (case validate_event c t e res of
        Inl err \<Rightarrow> Inl (ErrInvalidBatch i err)
      | Inr res' \<Rightarrow> validate_batch_from (Suc i) c t es res')"

definition validate_batch ::
  "codec \<Rightarrow> int \<Rightarrow> sync_event list \<Rightarrow> validator_result option \<Rightarrow> validator_result option gated" where
  "validate_batch c t es res = validate_batch_from 0 c t es res"

section \<open>Node ids\<close>

definition check_node_id :: "string \<Rightarrow> unit gated" where
  "check_node_id i = (case validate_sync_node_id i of Inl _ \<Rightarrow> Inl ErrInvalidNodeID | Inr _ \<Rightarrow> Inr ())"

text \<open>\<open>payloadNodeRef\<close>: the node a payload names, when it decodes as its op's type.\<close>

fun without_closed_at :: "payload \<Rightarrow> payload" where
  "without_closed_at (BadClosedAtPayload p) = without_closed_at p"
| "without_closed_at p = p"

definition payload_node_ref :: "op_type \<Rightarrow> payload \<Rightarrow> string option" where
  "payload_node_ref op pl =
     (case without_closed_at pl of
        CreateNodePayload p \<Rightarrow> if op = OpCreateNode then Some (cp_parent_id p) else None
      | LinkDepPayload i _ \<Rightarrow> if op = OpLinkDep then Some i else None
      | UnlinkDepPayload i _ \<Rightarrow> if op = OpUnlinkDep then Some i else None
      | _ \<Rightarrow> None)"

definition validate_event_node_ids :: "sync_event \<Rightarrow> unit gated" where
  "validate_event_node_ids e =
     bind_result (check_node_id (ev_node e)) (\<lambda>_.
       if ev_op e \<notin> {OpCreateNode, OpLinkDep, OpUnlinkDep} then Inr ()
       else case payload_node_ref (ev_op e) (ev_payload e) of
         None \<Rightarrow> Inl (ModelError ErrInvalidInput)
       | Some i \<Rightarrow> if ev_op e = OpCreateNode \<and> i = [] then Inr () else check_node_id i)"

section \<open>Ingest\<close>

text \<open>\<open>ValidateIngest\<close>: an event a pull hands over; \<open>malformed\<close> is the decode error the transport noted.\<close>

definition note_future :: "int \<Rightarrow> sync_event \<Rightarrow> validator_result option \<Rightarrow> validator_result option" where
  "note_future t e res =
     (if t + future_timestamp_grace < wall_ns e
      then map_option (\<lambda>r. r\<lparr>vr_future := vr_future r @ [ev_id e]\<rparr>) res else res)"

definition validate_ingest ::
  "codec \<Rightarrow> int \<Rightarrow> string \<Rightarrow> sync_event \<Rightarrow> validator_result option \<Rightarrow> validator_result option gated" where
  "validate_ingest c t malformed e res =
     (if malformed \<noteq> [] then Inl ErrMalformedEvent
      else bind_result (validate_envelope c e) (\<lambda>_.
        bind_result (validate_event_node_ids e) (\<lambda>_.
          Inr (note_stale t e (note_future t e res)))))"

definition check_lamport_jump :: "int \<Rightarrow> int \<Rightarrow> int \<Rightarrow> unit gated" where
  "check_lamport_jump lamport loc max_jump =
     (let loc' = (if loc < 0 then 0 else loc)
      in if lamport \<le> loc' then Inr ()
         else if max_jump \<le> 0 then Inl (ModelError ErrInvalidInput)
         else if max_jump < lamport - loc' then Inl ErrLamportJump
         else Inr ())"

definition check_ingest_clock :: "int \<Rightarrow> int \<Rightarrow> int \<Rightarrow> unit gated" where
  "check_ingest_clock lamport loc max_jump =
     (if max_lamport_clock \<le> lamport then Inl ErrLamportOverflow
      else check_lamport_jump lamport loc max_jump)"

section \<open>What the gates let through\<close>

lemma validate_envelope_ok [go_result]:
  "validate_envelope c e = Inr () \<longleftrightarrow>
     validate_sync_event e = Inr () \<and> int (length (cd_payload c e)) \<le> max_payload_bytes
     \<and> cd_depth c (cd_payload c e) \<le> max_payload_nesting_depth \<and> ev_lamport e < max_lamport_clock
     \<and> vc_validate (ev_vc e) = Inr ()"
  by (cases "validate_sync_event e"; cases "vc_validate (ev_vc e)")
    (auto simp: validate_envelope_def)

text \<open>A clock that advances only on events that pass the gate is bounded by the jumps taken.\<close>

lemma check_lamport_jump_bound:
  assumes "check_ingest_clock lamport loc max_jump = Inr ()" "0 \<le> loc"
  shows "lamport < max_lamport_clock \<and> max lamport loc \<le> loc + max 0 max_jump"
  using assms by (auto simp: check_ingest_clock_def check_lamport_jump_def Let_def split: if_splits)

end
