(* ===== verification/Relay_Ingest.thy ===== *)
theory Relay_Ingest
  imports Relay_Store Relay_Stream Sync_Validator
begin

text \<open>
  Reading the other peers' streams (\<open>internal/relay/ingest/ingestor.go\<close>, \<open>cursor.go\<close>): a poll lists
  the peers, opens the segments its cursor has not passed, hands each record past the cursor to
  the gate and the apply path, and moves the cursor by the rules of \<open>Next\<close>.
\<close>

section \<open>cursor.go\<close>

record outcome =
  oc_reached :: cursor
  oc_truncated :: bool
  oc_verdict :: "relay_error option"

text \<open>A failed read leaves the zero cursor and its verdict.\<close>

definition failed_outcome :: "relay_error \<Rightarrow> outcome" where
  "failed_outcome e = \<lparr>oc_reached = \<lparr>cur_segment = 0, cur_rs = 0, cur_epoch = 0\<rparr>, oc_truncated = False,
     oc_verdict = Some e\<rparr>"

definition advances :: "ingest_position \<Rightarrow> ingest_position \<Rightarrow> bool" where
  "advances prev new =
     (if ip_epoch prev < ip_epoch new then True
      else if ip_epoch new < ip_epoch prev then False
      else ip_rs prev < ip_rs new \<or> (ip_rs new = ip_rs prev \<and> ip_segment prev < ip_segment new))"

definition next_position :: "ingest_position \<Rightarrow> outcome \<Rightarrow> ingest_position \<times> bool" where
  "next_position prev out =
     (if oc_verdict out \<noteq> None then (prev, False)
      else let new = \<lparr>ip_segment = cur_segment (oc_reached out), ip_rs = cur_rs (oc_reached out),
                      ip_epoch = cur_epoch (oc_reached out)\<rparr>
           in if \<not> advances prev new then (prev, False) else (new, True))"

definition unread :: "segment_file list \<Rightarrow> ingest_position \<Rightarrow> segment_file list" where
  "unread segs prev = dropWhile (\<lambda>f. sf_no f < ip_segment prev) segs"

section \<open>The state of a poll\<close>

record quarantine =
  qu_peer :: string
  qu_segment :: "64 word"
  qu_rs :: "64 word"
  qu_event :: string
  qu_reason :: gate_error

record stall =
  sl_peer :: string
  sl_segment :: "64 word"
  sl_code :: string

record ingest_stats =
  is_applied :: int
  is_quarantined :: int
  is_auth_failures :: int
  is_quarantines :: "quarantine list"
  is_stalls :: "stall list"
  is_foreign :: "string list"
  is_floor_initialized :: bool

definition empty_stats :: ingest_stats where
  "empty_stats = \<lparr>is_applied = 0, is_quarantined = 0, is_auth_failures = 0, is_quarantines = [],
     is_stalls = [], is_foreign = [], is_floor_initialized = False\<rparr>"

record ingest_config =
  ic_self :: string
  ic_keys :: "(16 word \<Rightarrow> bytes option) option"
  ic_unauthenticated :: bool

text \<open>\<open>New\<close> refuses a configuration that could not poll.\<close>

definition valid_ingest_config :: "ingest_config \<Rightarrow> bool" where
  "valid_ingest_config cfg \<longleftrightarrow> peer_id_pattern (ic_self cfg) \<and> ic_unauthenticated cfg \<noteq> (ic_keys cfg \<noteq> None)"

definition note_stall :: "string \<Rightarrow> 64 word \<Rightarrow> string \<Rightarrow> ingest_stats \<Rightarrow> ingest_stats" where
  "note_stall peer sg code st =
     st\<lparr>is_stalls := is_stalls st @ [\<lparr>sl_peer = peer, sl_segment = sg, sl_code = code\<rparr>]\<rparr>"

section \<open>One record\<close>

definition check_uid :: "sync_event \<Rightarrow> db \<Rightarrow> unit gated" where
  "check_uid ev d =
     (if ev_uid ev = [] then Inr ()
      else case resolve_display_path_by_uid (ev_uid ev) d of
        None \<Rightarrow> Inr ()
      | Some path \<Rightarrow> if path \<noteq> ev_node ev then Inl ErrUidConflict else Inr ())"

text \<open>The policy for a refused record: a stop on an unauthenticated relay, a quarantine otherwise.\<close>

definition refuse_record ::
  "ingest_config \<Rightarrow> string \<Rightarrow> segment_header \<Rightarrow> relay_record \<Rightarrow> string \<Rightarrow> gate_error \<Rightarrow> ingest_stats \<Rightarrow> bool \<times> ingest_stats" where
  "refuse_record cfg peer h rec event_id cause st =
     (if ic_unauthenticated cfg then (True, note_stall peer (sh_segment h) [] st)
      else (False, st\<lparr>is_quarantined := is_quarantined st + 1,
        is_quarantines := is_quarantines st @ [\<lparr>qu_peer = peer, qu_segment = sh_segment h, qu_rs = rec_rs rec,
          qu_event = event_id, qu_reason = cause\<rparr>]\<rparr>))"

text \<open>The gate on a decoded event: the envelope, the node ids, the uid, and then the apply path.\<close>

definition gate_and_apply :: "codec \<Rightarrow> env \<Rightarrow> sync_event \<Rightarrow> db \<Rightarrow> db gated" where
  "gate_and_apply c e ev d =
     bind_result (validate_event c (now e) ev None) (\<lambda>_.
       bind_result (validate_event_node_ids ev) (\<lambda>_.
         bind_result (check_uid ev d) (\<lambda>_. lift_model (idempotent_apply e ev d))))"

definition apply_record ::
  "ingest_config \<Rightarrow> codec \<Rightarrow> env \<Rightarrow> string \<Rightarrow> segment_header \<Rightarrow> relay_record \<Rightarrow> ingest_stats \<times> db \<Rightarrow> bool \<times> ingest_stats \<times> db" where
  "apply_record cfg c e peer h rec st =
     (case st of (stats, d) \<Rightarrow>
        (case cd_decode c (rec_body rec) of
           None \<Rightarrow> (case refuse_record cfg peer h rec [] ErrUndecodable stats of (stop, stats') \<Rightarrow> (stop, stats', d))
         | Some ev \<Rightarrow>
             (case gate_and_apply c e ev d of
                Inl err \<Rightarrow> (case refuse_record cfg peer h rec (ev_id ev) err stats of (stop, stats') \<Rightarrow> (stop, stats', d))
              | Inr d' \<Rightarrow> (False, stats\<lparr>is_applied := is_applied stats + 1\<rparr>, d'))))"

section \<open>One segment\<close>

text \<open>The loop over the delivered records: what is at or below the position is skipped.\<close>

fun apply_records ::
  "ingest_config \<Rightarrow> codec \<Rightarrow> env \<Rightarrow> string \<Rightarrow> segment_header \<Rightarrow> relay_record list \<Rightarrow> 64 word \<Rightarrow> ingest_stats \<times> db
     \<Rightarrow> bool \<times> 64 word \<times> ingest_stats \<times> db" where
  "apply_records cfg c e peer h [] applied st = (False, applied, st)"
| "apply_records cfg c e peer h (rec # recs) applied st =
     (if rec_rs rec \<le> applied then apply_records cfg c e peer h recs applied st
      else case apply_record cfg c e peer h rec st of
        (True, st') \<Rightarrow> (True, applied, st')
      | (False, st') \<Rightarrow> apply_records cfg c e peer h recs (rec_rs rec) st')"

definition max_segment_read :: nat where "max_segment_read = 64 * 1024 * 1024"

definition read_segment :: "entry \<Rightarrow> bytes relay_result" where
  "read_segment e = (case e of
     Symlink \<Rightarrow> Inl ErrSymlink
   | SubDirectory \<Rightarrow> Inl ErrForeignEntry
   | SpecialFile \<Rightarrow> Inl ErrForeignEntry
   | Unreadable _ \<Rightarrow> Inl ErrMedium
   | RegularFile b \<Rightarrow> Inr (take max_segment_read b))"

definition key_for :: "ingest_config \<Rightarrow> segment_header \<Rightarrow> bytes relay_result" where
  "key_for cfg h =
     (if \<not> authenticated h then Inr []
      else case ic_keys cfg of
        None \<Rightarrow> Inl ErrUnauthenticatedKey
      | Some keys \<Rightarrow> (case keys (sh_key_epoch h) of None \<Rightarrow> Inl ErrMedium | Some k \<Rightarrow> Inr k))"

text \<open>Up to the scanner: the raw bytes, the header, its key and the scanner over the bytes.\<close>

definition open_segment :: "ingest_config \<Rightarrow> string \<Rightarrow> segment_file \<Rightarrow> bool \<Rightarrow> (segment_header \<times> scanner) relay_result" where
  "open_segment cfg peer f sealed =
     bind_result (read_segment (sf_entry f)) (\<lambda>raw.
       bind_result (parse_header raw) (\<lambda>h.
         bind_result (key_for cfg h) (\<lambda>key.
           bind_result (new_scanner (bytes_reader raw)
              \<lparr>so_sealed = sealed, so_key = key, so_tolerate = False, so_expect_peer = peer\<rparr>) (\<lambda>sc.
                Inr (h, sc)))))"

definition ingest_segment ::
  "ingest_config \<Rightarrow> codec \<Rightarrow> env \<Rightarrow> string \<Rightarrow> segment_file \<Rightarrow> bool \<Rightarrow> ingest_position \<Rightarrow> ingest_stats \<times> db
     \<Rightarrow> outcome \<times> bool \<times> ingest_stats \<times> db" where
  "ingest_segment cfg c e peer f sealed prev st =
     (case open_segment cfg peer f sealed of
        Inl err \<Rightarrow> (failed_outcome err, True, note_stall peer (sf_no f) (code_of (Some err)) (fst st), snd st)
      | Inr (h, sc) \<Rightarrow>
          (case scan_loop sc of (recs, s) \<Rightarrow>
            (let start = (if sh_pub_epoch h \<noteq> ip_epoch prev then sh_first_rs h - 1 else ip_rs prev)
             in case apply_records cfg c e peer h recs start st of (stop, applied, stats, d) \<Rightarrow>
               (let reached = \<lparr>cur_segment = sh_segment h, cur_rs = applied, cur_epoch = sh_pub_epoch h\<rparr>
                in if stop then (\<lparr>oc_reached = reached, oc_truncated = False, oc_verdict = None\<rparr>, True, stats, d)
                   else case sc_err s of
                     None \<Rightarrow> (\<lparr>oc_reached = reached, oc_truncated = sc_truncated s, oc_verdict = None\<rparr>, False, stats, d)
                   | Some err \<Rightarrow>
                       (\<lparr>oc_reached = reached, oc_truncated = sc_truncated s, oc_verdict = Some err\<rparr>, True,
                        note_stall peer (sf_no f) (code_of (Some err))
                          (if err = ErrMACMismatch then stats\<lparr>is_auth_failures := is_auth_failures stats + 1\<rparr> else stats), d)))))"

section \<open>One peer\<close>

text \<open>The loop over the unread segments; \<open>newest\<close> is the highest number listed.\<close>

fun ingest_segments ::
  "ingest_config \<Rightarrow> codec \<Rightarrow> env \<Rightarrow> string \<Rightarrow> 64 word \<Rightarrow> segment_file list \<Rightarrow> ingest_position
     \<Rightarrow> ingest_stats \<times> relay_store \<Rightarrow> unit result \<times> ingest_stats \<times> relay_store" where
  "ingest_segments cfg c e peer newest [] pos st = (Inr (), st)"
| "ingest_segments cfg c e peer newest (f # fs) pos st =
     (case ingest_segment cfg c e peer f (sf_no f < newest) pos (fst st, rs_db (snd st)) of
        (out, stop, stats, d) \<Rightarrow>
          (let store = (snd st)\<lparr>rs_db := d\<rparr>;
               (new, moved) = next_position pos out
           in if moved
              then (case advance_relay_ingest_cursor peer new store of
                      Inl err \<Rightarrow> (Inl err, stats, store)
                    | Inr store' \<Rightarrow> if stop then (Inr (), stats, store')
                                    else ingest_segments cfg c e peer newest fs new (stats, store'))
              else if stop then (Inr (), stats, store)
              else ingest_segments cfg c e peer newest fs pos (stats, store)))"

definition ingest_peer ::
  "ingest_config \<Rightarrow> codec \<Rightarrow> env \<Rightarrow> string \<Rightarrow> dir_path \<Rightarrow> ingest_stats \<times> relay_store \<Rightarrow> unit result \<times> ingest_stats \<times> relay_store" where
  "ingest_peer cfg c e peer path st =
     (case list_segments path of
        Inl err \<Rightarrow>
          if path = DirMissing then (Inr (), st)
          else (Inr (), note_stall peer 0 (code_of (Some err)) (fst st), snd st)
      | Inr (segs, _) \<Rightarrow>
          if segs = [] then (Inr (), st)
          else case relay_ingest_cursor peer (snd st) of
            Inl err \<Rightarrow> (Inl err, st)
          | Inr pos \<Rightarrow> ingest_segments cfg c e peer (sf_no (last segs)) (unread segs pos) pos st)"

section \<open>A poll\<close>

text \<open>
  The relay's \<open>peers/\<close> directory: under each name, a directory with its \<open>segments\<close> subdirectory,
  a link, or another object.
\<close>

datatype peer_entry = PeerDirectory dir_path | PeerSymlink | PeerOther

datatype peers_path = PeersMissing | PeersSymlink | PeersNotDirectory | PeersListing "(string \<times> peer_entry) list"

definition read_peers_dir :: "peers_path \<Rightarrow> (string \<times> peer_entry) list relay_result" where
  "read_peers_dir p = (case p of
     PeersMissing \<Rightarrow> Inl ErrMedium | PeersSymlink \<Rightarrow> Inl ErrSymlink | PeersNotDirectory \<Rightarrow> Inl ErrForeignEntry
   | PeersListing es \<Rightarrow> if list_ex (\<lambda>(_, e). e = PeerSymlink) es then Inl ErrSymlink else Inr es)"

fun collect_peers :: "(string \<times> peer_entry) list \<Rightarrow> ((string \<times> dir_path) list \<times> string list) relay_result" where
  "collect_peers [] = Inr ([], [])"
| "collect_peers ((name, e) # es) =
     (if \<not> peer_id_pattern name
      then bind_result (collect_peers es) (\<lambda>(peers, foreign). Inr (peers, name # foreign))
      else case e of
        PeerDirectory segs \<Rightarrow> bind_result (collect_peers es) (\<lambda>(peers, foreign). Inr ((name, segs) # peers, foreign))
      | _ \<Rightarrow> Inl ErrForeignEntry)"

definition list_peers :: "peers_path \<Rightarrow> ((string \<times> dir_path) list \<times> string list) relay_result" where
  "list_peers p = bind_result (read_peers_dir p) (\<lambda>es.
     bind_result (collect_peers es) (\<lambda>(peers, foreign). Inr (sort_by (\<lambda>a b. fst a < fst b) peers, foreign)))"

datatype poll_error = PollMedium relay_error | PollStore go_error

fun ingest_peers ::
  "ingest_config \<Rightarrow> codec \<Rightarrow> env \<Rightarrow> (string \<times> dir_path) list \<Rightarrow> ingest_stats \<times> relay_store
     \<Rightarrow> unit result \<times> ingest_stats \<times> relay_store" where
  "ingest_peers cfg c e [] st = (Inr (), st)"
| "ingest_peers cfg c e ((peer, path) # ps) st =
     (if peer = ic_self cfg then ingest_peers cfg c e ps st
      else case ingest_peer cfg c e peer path st of
        (Inl err, st') \<Rightarrow> (Inl err, st')
      | (Inr _, st') \<Rightarrow> ingest_peers cfg c e ps st')"

definition ingest_all ::
  "ingest_config \<Rightarrow> codec \<Rightarrow> env \<Rightarrow> peers_path \<Rightarrow> relay_store \<Rightarrow> (poll_error + unit) \<times> ingest_stats \<times> relay_store" where
  "ingest_all cfg c e peers s =
     (case list_peers peers of
        Inl err \<Rightarrow> (Inl (PollMedium err), empty_stats, s)
      | Inr (ps, foreign) \<Rightarrow>
          (case ingest_peers cfg c e ps (empty_stats\<lparr>is_foreign := foreign\<rparr>, s) of
             (Inl err, st) \<Rightarrow> (Inl (PollStore err), st)
           | (Inr _, stats, s') \<Rightarrow>
               if journal_tail s = 0 \<and> 0 < is_applied stats
               then (Inr (), stats\<lparr>is_floor_initialized := True\<rparr>, init_hook_scan_floor_at_tail s')
               else (Inr (), stats, s')))"

end
