(* ===== verification/Relay_Writer.thy ===== *)
theory Relay_Writer
  imports Relay_Stream
begin

text \<open>
  Writing a peer's own segments (\<open>internal/relay/segment/writer.go\<close>): opening and resuming the
  stream, appending frames, rotation, and the stop on the first failed write. The writer works on
  the peer's segment directory; every system call that can fail takes its outcome from a list, the
  medium's script, so that a write may be cut short anywhere.
\<close>

section \<open>The medium of a writer\<close>

datatype io_outcome = IoOk | IoFail nat

record medium =
  md_path :: dir_path
  md_script :: "io_outcome list"

text \<open>The outcome of the next system call; a script that has run out succeeds.\<close>

definition next_io :: "medium \<Rightarrow> io_outcome \<times> medium" where
  "next_io m = (case md_script m of [] \<Rightarrow> (IoOk, m) | out # outs \<Rightarrow> (out, m\<lparr>md_script := outs\<rparr>))"

definition md_entries :: "medium \<Rightarrow> directory" where
  "md_entries m = (case md_path m of DirListing es \<Rightarrow> es | _ \<Rightarrow> [])"

text \<open>\<open>os.OpenFile\<close> with \<open>O_CREATE|O_EXCL\<close>, and with \<open>O_WRONLY|O_APPEND\<close>.\<close>

definition create_file :: "string \<Rightarrow> medium \<Rightarrow> bool \<times> medium" where
  "create_file name m =
     (case next_io m of (out, m1) \<Rightarrow>
        if out \<noteq> IoOk \<or> map_of (md_entries m1) name \<noteq> None then (False, m1)
        else (True, m1\<lparr>md_path := DirListing (md_entries m1 @ [(name, RegularFile [])])\<rparr>))"

definition open_append :: "string \<Rightarrow> medium \<Rightarrow> bool \<times> medium" where
  "open_append name m = (case next_io m of (out, m1) \<Rightarrow> (out = IoOk, m1))"

definition append_entry :: "string \<Rightarrow> bytes \<Rightarrow> directory \<Rightarrow> directory" where
  "append_entry name b es =
     map (\<lambda>(n, e). if n = name then (n, case e of RegularFile c \<Rightarrow> RegularFile (c @ b) | _ \<Rightarrow> e) else (n, e)) es"

text \<open>\<open>f.Write(b)\<close>: how many bytes reached the file, and whether all did.\<close>

definition write_file :: "string \<Rightarrow> bytes \<Rightarrow> medium \<Rightarrow> nat \<times> bool \<times> medium" where
  "write_file name b m =
     (case next_io m of (out, m1) \<Rightarrow>
        (let n = (case out of IoOk \<Rightarrow> length b | IoFail k \<Rightarrow> min k (length b))
         in (n, out = IoOk, m1\<lparr>md_path := DirListing (append_entry name (take n b) (md_entries m1))\<rparr>)))"

definition close_file :: "medium \<Rightarrow> bool \<times> medium" where
  "close_file m = (case next_io m of (out, m1) \<Rightarrow> (out = IoOk, m1))"

section \<open>The writer\<close>

record writer_config =
  wc_peer :: string
  wc_key :: bytes
  wc_unauthenticated :: bool
  wc_key_epoch :: "16 word"
  wc_pub_epoch :: "16 word"
  wc_next_rs :: "64 word"
  wc_max_bytes :: int

record writer =
  w_header :: segment_header
  w_key :: bytes
  w_max_bytes :: int
  w_file :: "string option"
  w_size :: int
  w_next_rs :: "64 word"
  w_records :: int
  w_recovered :: bool
  w_failed :: "relay_error option"

type_synonym 'a writing = "writer \<times> medium \<Rightarrow> 'a relay_result \<times> writer \<times> medium"

text \<open>A writer step that may fail, then another: the state moves on even when the step fails.\<close>

definition bind_writing :: "'a writing \<Rightarrow> ('a \<Rightarrow> 'b writing) \<Rightarrow> 'b writing" where
  "bind_writing f g st = (case f st of (Inl e, st') \<Rightarrow> (Inl e, st') | (Inr x, st') \<Rightarrow> g x st')"

definition validate_writer_config :: "writer_config \<Rightarrow> medium \<Rightarrow> unit relay_result" where
  "validate_writer_config c m =
     bind_result (validate_peer_id (wc_peer c)) (\<lambda>_.
       if wc_unauthenticated c = (wc_key c \<noteq> []) then Inl ErrUnauthenticatedKey
       else if wc_max_bytes c < 0 then Inl ErrMedium
       else lstat_dir (md_path m))"

text \<open>What the medium says about the newest segment: continue it, or open a new one.\<close>

datatype tail_state =
    TailOpen segment_file segment_header int "64 word"
  | TailNew "64 word" "64 word"

definition fresh_stream :: "writer_config \<Rightarrow> tail_state" where
  "fresh_stream c = TailNew 1 (if wc_next_rs c = 0 then 1 else wc_next_rs c)"

definition check_declared_cursor :: "writer_config \<Rightarrow> segment_header \<Rightarrow> 64 word \<Rightarrow> unit relay_result" where
  "check_declared_cursor c h resume =
     (if wc_pub_epoch c \<noteq> sh_pub_epoch h then
        (if wc_next_rs c = 0 then Inl ErrMedium else Inr ())
      else if wc_next_rs c \<noteq> 0 \<and> wc_next_rs c \<noteq> resume then Inl ErrPeerIDConflict
      else Inr ())"

text \<open>\<open>inspectTail\<close>: the tail state and whether a torn tail is being sealed.\<close>

definition inspect_tail :: "writer_config \<Rightarrow> medium \<Rightarrow> (tail_state \<times> bool) relay_result" where
  "inspect_tail c m = bind_result (list_segments (md_path m)) (\<lambda>(segs, _).
     if segs = [] then Inr (fresh_stream c, False)
     else let newest = last segs
       in bind_result (scan_file (sf_entry newest)
            \<lparr>so_sealed = False, so_key = wc_key c, so_tolerate = False, so_expect_peer = wc_peer c\<rparr>) (\<lambda>res.
          let resume = cur_rs (sr_cursor res) + 1
          in bind_result (check_declared_cursor c (sr_header res) resume) (\<lambda>_.
            if wc_pub_epoch c \<noteq> sh_pub_epoch (sr_header res) then Inr (TailNew (sf_no newest + 1) (wc_next_rs c), False)
            else if sr_truncated res then Inr (TailNew (sf_no newest + 1) resume, True)
            else if wc_key_epoch c \<noteq> sh_key_epoch (sr_header res) then Inr (TailNew (sf_no newest + 1) resume, False)
            else Inr (TailOpen newest (sr_header res) (int (length (sr_records res))) resume, False))))"

definition reopen :: "segment_file \<Rightarrow> segment_header \<Rightarrow> int \<Rightarrow> 64 word \<Rightarrow> unit writing" where
  "reopen f h n rs = (\<lambda>(w, m).
     case open_append (sf_name f) m of
       (False, m1) \<Rightarrow> (Inl ErrMedium, w, m1)
     | (True, m1) \<Rightarrow> (Inr (), w\<lparr>w_file := Some (sf_name f), w_size := sf_size f, w_records := n,
                              w_header := h, w_next_rs := rs\<rparr>, m1))"

definition open_new :: "64 word \<Rightarrow> 64 word \<Rightarrow> unit writing" where
  "open_new no rs = (\<lambda>(w, m).
     let h = (w_header w)\<lparr>sh_segment := no, sh_first_rs := rs\<rparr>
     in case marshal_header h of
          Inl e \<Rightarrow> (Inl e, w, m)
        | Inr raw \<Rightarrow>
            (case create_file (file_name no) m of
               (False, m1) \<Rightarrow> (Inl ErrMedium, w, m1)
             | (True, m1) \<Rightarrow>
                 (case write_file (file_name no) raw m1 of
                    (_, False, m2) \<Rightarrow> (Inl ErrMedium, w, snd (close_file m2))
                  | (_, True, m2) \<Rightarrow>
                      (Inr (), w\<lparr>w_file := Some (file_name no), w_header := h, w_size := int (length raw),
                                 w_records := 0, w_next_rs := rs\<rparr>, m2))))"

definition new_writer :: "writer_config \<Rightarrow> medium \<Rightarrow> writer relay_result \<times> medium" where
  "new_writer c m =
     (case validate_writer_config c m of
        Inl e \<Rightarrow> (Inl e, m)
      | Inr _ \<Rightarrow>
          (case inspect_tail c m of
             Inl e \<Rightarrow> (Inl e, m)
           | Inr (tail, torn) \<Rightarrow>
               (let w0 = \<lparr>w_header = \<lparr>sh_version = current_format,
                      sh_flags = (if wc_unauthenticated c then 0 else flag_authenticated), sh_peer = wc_peer c,
                      sh_segment = 0, sh_first_rs = 0, sh_key_epoch = wc_key_epoch c, sh_pub_epoch = wc_pub_epoch c\<rparr>,
                    w_key = wc_key c,
                    w_max_bytes = (if wc_max_bytes c = 0 then default_max_segment_bytes else wc_max_bytes c),
                    w_file = None, w_size = 0, w_next_rs = 0, w_records = 0, w_recovered = torn, w_failed = None\<rparr>
                in case (case tail of TailOpen f h n rs \<Rightarrow> reopen f h n rs (w0, m)
                         | TailNew no rs \<Rightarrow> open_new no rs (w0, m)) of
                     (Inl e, _, m1) \<Rightarrow> (Inl e, m1)
                   | (Inr _, w, m1) \<Rightarrow> (Inr w, m1))))"

definition writer_usable :: "writer \<Rightarrow> unit relay_result" where
  "writer_usable w = (case w_failed w of Some e \<Rightarrow> Inl e
     | None \<Rightarrow> if w_file w = None then Inl ErrMedium else Inr ())"

text \<open>\<open>fail\<close>: the writer closes its file and keeps the reason for good.\<close>

definition writer_fail :: "relay_error \<Rightarrow> 'a writing" where
  "writer_fail e = (\<lambda>(w, m).
     (Inl e, w\<lparr>w_file := None, w_failed := Some e\<rparr>, if w_file w = None then m else snd (close_file m)))"

definition rotate_writer :: "unit writing" where
  "rotate_writer = (\<lambda>(w, m).
     case writer_usable w of
       Inl e \<Rightarrow> (Inl e, w, m)
     | Inr _ \<Rightarrow>
         (let w1 = w\<lparr>w_file := None\<rparr>
          in case close_file m of
               (False, m1) \<Rightarrow> writer_fail ErrMedium (w1, m1)
             | (True, m1) \<Rightarrow>
                 (case open_new (sh_segment (w_header w) + 1) (w_next_rs w) (w1, m1) of
                    (Inl e, st) \<Rightarrow> writer_fail e st
                  | (Inr _, st) \<Rightarrow> (Inr (), st))))"

text \<open>The write of one frame at the end of \<open>Append\<close>.\<close>

definition append_frame :: "bytes \<Rightarrow> (64 word) writing" where
  "append_frame payload = (\<lambda>(w, m).
     case append_record [] (w_header w) (w_next_rs w) payload (w_key w) of
       Inl e \<Rightarrow> (Inl e, w, m)
     | Inr frame \<Rightarrow>
         (case w_file w of
            None \<Rightarrow> (Inl ErrMedium, w, m)
          | Some name \<Rightarrow>
              (case write_file name frame m of
                 (n, ok, m1) \<Rightarrow>
                   (let w1 = w\<lparr>w_size := w_size w + int n\<rparr>
                    in if \<not> ok then writer_fail ErrMedium (w1, m1)
                       else (Inr (w_next_rs w), w1\<lparr>w_next_rs := w_next_rs w + 1, w_records := w_records w + 1\<rparr>, m1)))))"

definition append_payload :: "bytes \<Rightarrow> (64 word) writing" where
  "append_payload payload = (\<lambda>(w, m).
     case writer_usable w of
       Inl e \<Rightarrow> (Inl e, w, m)
     | Inr _ \<Rightarrow>
         if max_record_payload < int (length payload) then (Inl ErrPayloadTooLarge, w, m)
         else if 0 < w_records w \<and> w_max_bytes w < w_size w + int (record_header_size + length payload)
           then bind_writing rotate_writer (\<lambda>_. append_frame payload) (w, m)
         else append_frame payload (w, m))"

definition close_writer :: "unit writing" where
  "close_writer = (\<lambda>(w, m).
     if w_file w = None then (Inr (), w, m)
     else case close_file m of (ok, m1) \<Rightarrow> (if ok then Inr () else Inl ErrMedium, w\<lparr>w_file := None\<rparr>, m1))"

definition writer_cursor :: "writer \<Rightarrow> cursor" where
  "writer_cursor w = \<lparr>cur_segment = sh_segment (w_header w), cur_rs = w_next_rs w - 1,
     cur_epoch = sh_pub_epoch (w_header w)\<rparr>"

end
