(* ===== verification/Relay_Delivery.thy ===== *)
theory Relay_Delivery
  imports Relay_Ingest Relay_Writer
begin

text \<open>
  What travels over a relay: the segments a publisher writes and what a poll of them does to the
  reader's store. A poll processes exactly the records past its cursor, in order.
\<close>

section \<open>Listing a segment directory\<close>

definition dir_of :: "(64 word \<times> bytes) list \<Rightarrow> directory" where
  "dir_of xs = map (\<lambda>(no, b). (file_name no, RegularFile b)) xs"

definition file_of :: "64 word \<times> bytes \<Rightarrow> segment_file" where
  "file_of x = \<lparr>sf_no = fst x, sf_name = file_name (fst x), sf_entry = RegularFile (snd x), sf_size = int (length (snd x))\<rparr>"

definition ascending :: "(64 word \<times> 'a) list \<Rightarrow> bool" where
  "ascending xs \<longleftrightarrow> sorted_wrt (<) (map fst xs) \<and> (\<forall>x \<in> set xs. fst x \<noteq> 0)"

lemma sort_by_sorted: "sorted_wrt lt xs \<Longrightarrow> sort_by lt xs = xs"
proof (induction xs)
  case (Cons x xs)
  have "sort_by lt (x # xs) = insort_by lt x (sort_by lt xs)" by (simp add: sort_by_def)
  with Cons show ?case by (cases xs) simp_all
qed (simp add: sort_by_def)

lemma collect_segments_dir_of:
  "\<forall>x \<in> set xs. fst x \<noteq> 0 \<Longrightarrow> collect_segments (dir_of xs) = Inr (map file_of xs, [])"
proof (induction xs)
  case (Cons x xs)
  then have "collect_segments (map (\<lambda>(no, b). (file_name no, RegularFile b)) xs) = Inr (map file_of xs, [])"
    by (simp add: dir_of_def)
  with Cons show ?case
    by (cases x) (simp add: dir_of_def parse_file_name_file_name is_regular_def file_of_def entry_size_def)
qed (simp add: dir_of_def)

lemma list_segments_dir_of:
  assumes "ascending xs"
  shows "list_segments (DirListing (dir_of xs)) = Inr (map file_of xs, [])"
proof -
  have "\<not> list_ex (\<lambda>(_, e). e = Symlink) (dir_of xs)"
    by (auto simp: dir_of_def list_ex_iff)
  moreover have "sorted_wrt (\<lambda>a b. sf_no a < sf_no b) (map file_of xs)"
    using assms by (simp add: ascending_def sorted_wrt_map file_of_def)
  ultimately show ?thesis
    using assms collect_segments_dir_of[of xs]
    by (simp add: list_segments_def read_relay_dir_def lstat_dir_def ascending_def sort_by_sorted)
qed

section \<open>Processing records\<close>

definition process ::
  "ingest_config \<Rightarrow> codec \<Rightarrow> env \<Rightarrow> string \<Rightarrow> (segment_header \<times> relay_record) list \<Rightarrow> ingest_stats \<times> db \<Rightarrow> ingest_stats \<times> db" where
  "process cfg c e peer items st = fold (\<lambda>(h, r) st. snd (apply_record cfg c e peer h r st)) items st"

lemma process_append: "process cfg c e peer (xs @ ys) st = process cfg c e peer ys (process cfg c e peer xs st)"
  by (simp add: process_def)

text \<open>On an authenticated relay no record stops the stream.\<close>

lemma apply_record_continues:
  "\<not> ic_unauthenticated cfg \<Longrightarrow> fst (apply_record cfg c e peer h r st) = False"
  by (auto simp: apply_record_def refuse_record_def split: prod.splits option.splits sum.splits)

lemma apply_records_process:
  assumes "\<not> ic_unauthenticated cfg" "sorted_wrt (\<lambda>a b. rec_rs a < rec_rs b) recs"
  shows "apply_records cfg c e peer h recs applied st =
    (False, fold max (map rec_rs recs) applied, process cfg c e peer (map (Pair h) (filter (\<lambda>r. applied < rec_rs r) recs)) st)"
  using assms(2)
proof (induction recs arbitrary: applied st)
  case (Cons r recs)
  show ?case
  proof (cases "rec_rs r \<le> applied")
    case True
    with Cons show ?thesis by (simp add: max.absorb2 leD)
  next
    case False
    obtain st' where st': "apply_record cfg c e peer h r st = (False, st')"
      using apply_record_continues[OF assms(1), of c e peer h r st] by (metis prod.collapse)
    have above: "\<forall>q \<in> set recs. rec_rs r < rec_rs q" using Cons.prems by simp
    with False have "filter (\<lambda>q. applied < rec_rs q) recs = recs" "filter (\<lambda>q. rec_rs r < rec_rs q) recs = recs"
      by (auto simp: filter_id_conv)
    moreover have "(rec_rs r \<le> applied) = False" "(applied < rec_rs r) = True" "max (rec_rs r) applied = rec_rs r"
      using False by (simp_all add: max.absorb1)
    ultimately show ?thesis using Cons st' by (simp add: process_def)
  qed
qed (simp add: process_def)

section \<open>Positions without wrap-around\<close>

lemma unat_add_small:
  fixes b :: "64 word"
  assumes "unat b + n < 2 ^ 64"
  shows "unat (b + of_nat n) = unat b + n"
proof -
  have "unat (of_nat n :: 64 word) = n" using assms by (simp add: unat_of_nat take_bit_nat_eq_self)
  with assms show ?thesis by (subst unat_plus_simple[THEN iffD1]) (simp_all add: word_le_nat_alt unat_word_ariths)
qed

lemma records_of_rs: "r \<in> set (records_of h key b ps) \<Longrightarrow> unat b + length ps < 2 ^ 64 \<Longrightarrow>
    unat b \<le> unat (rec_rs r) \<and> unat (rec_rs r) < unat b + length ps"
proof (induction ps arbitrary: b)
  case (Cons p ps)
  have "unat (b + 1) = unat b + 1" using unat_add_small[of b 1] Cons.prems(2) by simp
  with Cons show ?case by (fastforce simp: record_of_def)
qed simp

lemma records_of_sorted:
  "unat b + length ps < 2 ^ 64 \<Longrightarrow> sorted_wrt (\<lambda>x y. rec_rs x < rec_rs y) (records_of h key b ps)"
proof (induction ps arbitrary: b)
  case (Cons p ps)
  have one: "unat (b + 1) = unat b + 1" using unat_add_small[of b 1] Cons.prems by simp
  with Cons have "sorted_wrt (\<lambda>x y. rec_rs x < rec_rs y) (records_of h key (b + 1) ps)" by simp
  moreover have "b < rec_rs r" if "r \<in> set (records_of h key (b + 1) ps)" for r
    using records_of_rs[OF that] one Cons.prems by (simp add: word_less_nat_alt)
  ultimately show ?case by (simp add: record_of_def)
qed simp

lemma fold_max_records:
  assumes "unat b + length ps < 2 ^ 64"
  shows "fold max (map rec_rs (records_of h key b ps)) s = (if ps = [] then s else max s (b + of_nat (length ps) - 1))"
  using assms
proof (induction ps arbitrary: b s)
  case (Cons p ps)
  have one: "unat (b + 1) = unat b + 1" using unat_add_small[of b 1] Cons.prems by simp
  have last: "unat (b + of_nat (length ps)) = unat b + length ps" using unat_add_small[of b "length ps"] Cons.prems by simp
  have "fold max (map rec_rs (records_of h key b (p # ps))) s
      = (if ps = [] then max b s else max (max b s) (b + 1 + of_nat (length ps) - 1))"
    using Cons one by (simp add: record_of_def)
  also have "\<dots> = max s (b + of_nat (length (p # ps)) - 1)"
    using last by (auto simp: max_def word_le_nat_alt word_unat_eq_iff algebra_simps)
  finally show ?case by simp
qed simp

section \<open>One segment of a poll\<close>

text \<open>The reader has the key of the segment, and the segment names the peer.\<close>

definition readable :: "ingest_config \<Rightarrow> string \<Rightarrow> bytes \<Rightarrow> segment_header \<Rightarrow> bool" where
  "readable cfg peer key h \<longleftrightarrow> segment_ok h key \<and> sh_peer h = peer \<and> key_for cfg h = Inr key"

text \<open>A segment on the medium: the stream of its payloads, and what an append in flight left.\<close>

definition holds_segment :: "segment_file \<Rightarrow> segment_header \<Rightarrow> bytes \<Rightarrow> bytes list \<Rightarrow> bytes \<Rightarrow> bool" where
  "holds_segment f h key ps rest \<longleftrightarrow> sf_no f = sh_segment h
     \<and> sf_entry f = RegularFile (segment_bytes h key ps @ rest)
     \<and> length (segment_bytes h key ps @ rest) \<le> max_segment_read \<and> within_cap ps
     \<and> unat (sh_first_rs h) + length ps < 2 ^ 64
     \<and> (rest = [] \<or> torn_frame h key (sh_first_rs h + of_nat (length ps)) rest)"

definition segment_items :: "segment_header \<Rightarrow> bytes \<Rightarrow> bytes list \<Rightarrow> (segment_header \<times> relay_record) list" where
  "segment_items h key ps = map (Pair h) (records_of h key (sh_first_rs h) ps)"

definition past :: "64 word \<Rightarrow> (segment_header \<times> relay_record) list \<Rightarrow> (segment_header \<times> relay_record) list" where
  "past s items = filter (\<lambda>(h, r). s < rec_rs r) items"

definition scan_start :: "segment_header \<Rightarrow> ingest_position \<Rightarrow> 64 word" where
  "scan_start h pos = (if sh_pub_epoch h \<noteq> ip_epoch pos then sh_first_rs h - 1 else ip_rs pos)"

definition reach :: "segment_header \<Rightarrow> bytes list \<Rightarrow> 64 word \<Rightarrow> 64 word" where
  "reach h ps s = (if ps = [] then s else max s (sh_first_rs h + of_nat (length ps) - 1))"

lemma open_held_segment:
  assumes "readable cfg peer key h" "holds_segment f h key ps rest" "peer \<noteq> []"
  obtains sc t where "open_segment cfg peer f sealed = Inr (h, sc)"
    "scan_loop sc = (records_of h key (sh_first_rs h) ps, t)"
    "sc_err t = (if rest \<noteq> [] \<and> sealed then Some ErrSegmentCorrupt else None)"
    "sc_truncated t \<longleftrightarrow> rest \<noteq> [] \<and> \<not> sealed"
proof -
  define opts where "opts = \<lparr>so_sealed = sealed, so_key = key, so_tolerate = False, so_expect_peer = peer\<rparr>"
  have opts: "so_key opts = key" "so_sealed opts = sealed" "\<not> so_tolerate opts" by (simp_all add: opts_def)
  have acc: "scan_accepts opts h" using assms(1) by (simp add: scan_accepts_def readable_def opts_def)
  let ?b = "segment_bytes h key ps @ rest"
  have ok: "within_cap ps" and entry: "sf_entry f = RegularFile ?b" and short: "length ?b \<le> max_segment_read"
    and rest: "rest = [] \<or> torn_frame h (so_key opts) (sh_first_rs h + of_nat (length ps)) rest"
    using assms(2) unfolding holds_segment_def opts by blast+
  have raw: "read_segment (sf_entry f) = Inr ?b"
    unfolding entry read_segment_def entry.case take_all[OF short] by simp
  have "parse_header ?b = Inr h"
    using assms(1) parse_header_bytes[of h] by (simp add: readable_def segment_ok_def segment_bytes_def)
  moreover obtain s t where "new_scanner (bytes_reader ?b) opts = Inr s"
    "scan_loop s = (records_of h key (sh_first_rs h) ps, t)"
    "sc_err t = (if rest \<noteq> [] \<and> sealed then Some ErrSegmentCorrupt else None)"
    "sc_truncated t \<longleftrightarrow> rest \<noteq> [] \<and> \<not> sealed"
    by (rule scan_loop_bytes[OF acc ok rest]) (simp add: opts)
  ultimately show thesis
    using assms(1) raw by (intro that[of s t]) (simp_all add: open_segment_def readable_def opts_def)
qed

lemma ingest_held_segment:
  assumes "readable cfg peer key h" "holds_segment f h key ps rest" "peer \<noteq> []" "\<not> ic_unauthenticated cfg"
    and "rest = [] \<or> \<not> sealed"
  shows "ingest_segment cfg c e peer f sealed pos st =
    (\<lparr>oc_reached = \<lparr>cur_segment = sh_segment h, cur_rs = reach h ps (scan_start h pos), cur_epoch = sh_pub_epoch h\<rparr>,
      oc_truncated = (rest \<noteq> []), oc_verdict = None\<rparr>,
     False, process cfg c e peer (past (scan_start h pos) (segment_items h key ps)) st)"
proof -
  obtain sc t where op: "open_segment cfg peer f sealed = Inr (h, sc)"
    "scan_loop sc = (records_of h key (sh_first_rs h) ps, t)" "sc_err t = None" "sc_truncated t \<longleftrightarrow> rest \<noteq> []"
    by (rule open_held_segment[OF assms(1-3), of sealed], rule that) (use assms(5) in \<open>auto split: if_splits\<close>)
  have small: "unat (sh_first_rs h) + length ps < 2 ^ 64" using assms(2) by (simp add: holds_segment_def)
  have "past s (segment_items h key ps) = map (Pair h) (filter (\<lambda>r. s < rec_rs r) (records_of h key (sh_first_rs h) ps))" for s
    by (simp add: past_def segment_items_def filter_map comp_def)
  with op apply_records_process[OF assms(4) records_of_sorted[OF small]] fold_max_records[OF small] show ?thesis
    by (simp add: ingest_segment_def scan_start_def reach_def Let_def)
qed

lemma ingest_torn_sealed:
  assumes "readable cfg peer key h" "holds_segment f h key ps rest" "peer \<noteq> []" "\<not> ic_unauthenticated cfg" "rest \<noteq> []"
  shows "\<exists>out stats d. ingest_segment cfg c e peer f True pos st = (out, True, stats, d)
    \<and> oc_verdict out = Some ErrSegmentCorrupt \<and> is_stalls stats \<noteq> []"
proof -
  obtain sc t where op: "open_segment cfg peer f True = Inr (h, sc)"
    "scan_loop sc = (records_of h key (sh_first_rs h) ps, t)" "sc_err t = Some ErrSegmentCorrupt"
    by (rule open_held_segment[OF assms(1-3), of True], rule that) (use assms(5) in simp_all)
  have small: "unat (sh_first_rs h) + length ps < 2 ^ 64" using assms(2) by (simp add: holds_segment_def)
  from op apply_records_process[OF assms(4) records_of_sorted[OF small]] show ?thesis
    by (simp add: ingest_segment_def Let_def note_stall_def split: prod.splits)
qed

section \<open>A poll over several segments\<close>

lemma sint_small: "unat (w :: 64 word) < 2 ^ 63 \<Longrightarrow> sint w = int (unat w)"
proof -
  assume small: "unat w < 2 ^ 63"
  have "sint w = signed_take_bit 63 (uint w)" by (simp add: sint_uint)
  also have "\<dots> = uint w"
  proof (rule signed_take_bit_int_eq_self)
    show "- (2 ^ 63) \<le> uint w" by (rule order_trans[of _ 0]) simp_all
    have "int (unat w) < int (2 ^ 63)" using small by (simp only: of_nat_less_iff)
    then show "uint w < 2 ^ 63" by simp
  qed
  finally show ?thesis by simp
qed

text \<open>The row of a peer: its epoch, relay sequence and segment.\<close>

definition row_at :: "string \<Rightarrow> relay_store \<Rightarrow> 16 word \<Rightarrow> 64 word \<Rightarrow> 64 word \<Rightarrow> bool" where
  "row_at peer s ep rs g \<longleftrightarrow>
     find_ingest peer s = Some \<lparr>ir_peer = peer, ir_segment = sint g, ir_rs = sint rs, ir_epoch = uint ep\<rparr>"

lemma advance_row_at:
  assumes "row_at peer s ep rs g" "advance_relay_ingest_cursor peer \<lparr>ip_segment = g', ip_rs = rs', ip_epoch = ep\<rparr> s = Inr s'"
    and "unat rs < 2 ^ 63" "unat rs' < 2 ^ 63" "rs \<le> rs'"
  shows "row_at peer s' ep rs' (if rs < rs' then g' else g)"
proof -
  have "sint rs < sint rs' \<longleftrightarrow> rs < rs'" using assms(3,4) by (simp add: sint_small word_less_def)
  moreover have "\<not> rs < rs' \<Longrightarrow> rs' = rs" using assms(5) by simp
  ultimately show ?thesis
    using assms(1) find_ingest_advance(1)[OF assms(2)] by (auto simp: row_at_def advance_ingest_row_def Let_def)
qed

lemma new_row_at:
  assumes "find_ingest peer s = None" "advance_relay_ingest_cursor peer \<lparr>ip_segment = g, ip_rs = rs, ip_epoch = ep\<rparr> s = Inr s'"
  shows "row_at peer s' ep rs g"
  using assms find_ingest_advance(1)[OF assms(2)] by (simp add: row_at_def new_ingest_row_def)

lemma advance_total:
  assumes "peer_id_pattern peer"
  obtains s' where "advance_relay_ingest_cursor peer p s = Inr s'"
  using assms by (simp add: advance_relay_ingest_cursor_def)

type_synonym held = "segment_header \<times> bytes list \<times> bytes"

definition held_items :: "bytes \<Rightarrow> held list \<Rightarrow> (segment_header \<times> relay_record) list" where
  "held_items key segs = concat (map (\<lambda>(h, ps, _). segment_items h key ps) segs)"

definition in_order :: "(segment_header \<times> relay_record) list \<Rightarrow> bool" where
  "in_order items \<longleftrightarrow> sorted_wrt (\<lambda>x y. rec_rs (snd x) < rec_rs (snd y)) items
     \<and> (\<forall>x \<in> set items. unat (rec_rs (snd x)) < 2 ^ 63)"

text \<open>
  The files of a poll hold readable segments of one epoch; only a segment that is not sealed may
  have an unfinished tail.
\<close>

definition pollable :: "ingest_config \<Rightarrow> string \<Rightarrow> bytes \<Rightarrow> 16 word \<Rightarrow> 64 word \<Rightarrow> segment_file list \<Rightarrow> held list \<Rightarrow> bool" where
  "pollable cfg peer key ep newest fs segs \<longleftrightarrow>
     list_all2 (\<lambda>f (h, ps, rest). holds_segment f h key ps rest \<and> readable cfg peer key h \<and> sh_pub_epoch h = ep
        \<and> (rest = [] \<or> \<not> sf_no f < newest)) fs segs
     \<and> in_order (held_items key segs)"

lemma in_order_append: "in_order (xs @ ys) \<Longrightarrow> in_order xs \<and> in_order ys"
  by (auto simp: in_order_def sorted_wrt_append)

lemma past_append: "past s (xs @ ys) = past s xs @ past s ys"
  by (simp add: past_def)

lemma past_all: "(\<forall>x \<in> set items. s < rec_rs (snd x)) \<Longrightarrow> past s items = items"
  by (auto simp: past_def filter_id_conv)

lemma segment_items_rs:
  assumes "holds_segment f h key ps rest" "ps \<noteq> []"
  shows "sh_first_rs h + of_nat (length ps) - 1 \<in> (\<lambda>x. rec_rs (snd x)) ` set (segment_items h key ps)"
proof -
  obtain qs q where ps: "ps = qs @ [q]" using assms(2) by (cases ps rule: rev_cases) auto
  have "rec_rs (record_of h key (sh_first_rs h + of_nat (length qs)) q) = sh_first_rs h + of_nat (length ps) - 1"
    by (simp add: ps record_of_def)
  moreover have "(h, record_of h key (sh_first_rs h + of_nat (length qs)) q) \<in> set (segment_items h key ps)"
    by (simp add: segment_items_def ps records_of_append)
  ultimately show ?thesis by (metis imageI snd_conv)
qed

text \<open>After its first segment a later one starts above what was reached.\<close>

lemma past_reach:
  assumes "holds_segment f h key ps rest" "in_order (segment_items h key ps @ items)"
  shows "past (reach h ps s) items = past s items"
proof (cases "ps = []")
  case False
  then obtain x where x: "x \<in> set (segment_items h key ps)" "rec_rs (snd x) = sh_first_rs h + of_nat (length ps) - 1"
    using segment_items_rs[OF assms(1)] by force
  have "\<forall>y \<in> set items. rec_rs (snd x) < rec_rs (snd y)"
    using assms(2) x(1) by (auto simp: in_order_def sorted_wrt_append)
  then have "\<forall>y \<in> set items. reach h ps s < rec_rs (snd y) \<longleftrightarrow> s < rec_rs (snd y)"
    using x(2) False by (auto simp: reach_def max_def)
  then show ?thesis unfolding past_def by (intro filter_cong) auto
qed (simp add: reach_def)

lemma reach_small:
  assumes "holds_segment f h key ps rest" "in_order (segment_items h key ps)" "unat s < 2 ^ 63"
  shows "unat (reach h ps s) < 2 ^ 63" "s \<le> reach h ps s"
proof -
  show "s \<le> reach h ps s" by (simp add: reach_def)
  show "unat (reach h ps s) < 2 ^ 63"
  proof (cases "ps = []")
    case False
    then obtain x where "x \<in> set (segment_items h key ps)" "rec_rs (snd x) = sh_first_rs h + of_nat (length ps) - 1"
      using segment_items_rs[OF assms(1)] by force
    with assms(2,3) show ?thesis by (auto simp: in_order_def reach_def max_def)
  qed (use assms(3) in \<open>simp add: reach_def\<close>)
qed

text \<open>The last relay sequence of a list of segments, from a position.\<close>

fun reach_all :: "held list \<Rightarrow> 64 word \<Rightarrow> 64 word" where
  "reach_all [] s = s"
| "reach_all ((h, ps, _) # segs) s = reach_all segs (reach h ps s)"

lemma reach_all_mono: "s \<le> reach_all segs s"
proof (induction segs arbitrary: s)
  case (Cons x segs)
  then have "reach (fst x) (fst (snd x)) s \<le> reach_all segs (reach (fst x) (fst (snd x)) s)" by blast
  moreover have "s \<le> reach (fst x) (fst (snd x)) s" by (simp add: reach_def)
  ultimately show ?case by (cases x) auto
qed simp

text \<open>A segment of the list whose last record is at or below a position.\<close>

definition delivered_in :: "held list \<Rightarrow> 64 word \<Rightarrow> 64 word \<Rightarrow> bool" where
  "delivered_in segs fin g \<longleftrightarrow> (\<exists>(h, ps, rest) \<in> set segs. g = sh_segment h \<and> ps \<noteq> []
     \<and> sh_first_rs h + of_nat (length ps) - 1 \<le> fin)"

lemma ingest_segments_held:
  assumes "pollable cfg peer key ep newest fs segs" "peer_id_pattern peer" "\<not> ic_unauthenticated cfg"
    and "ip_epoch pos = ep" "row_at peer (snd st) ep (ip_rs pos) g" "unat (ip_rs pos) < 2 ^ 63"
  shows "\<exists>stats' s' g' pos'. ingest_segments cfg c e peer newest (fs @ gs) pos st = ingest_segments cfg c e peer newest gs pos' (stats', s')
    \<and> ip_rs pos' = reach_all segs (ip_rs pos) \<and> ip_epoch pos' = ep
    \<and> (stats', rs_db s') = process cfg c e peer (past (ip_rs pos) (held_items key segs)) (fst st, rs_db (snd st))
    \<and> row_at peer s' ep (reach_all segs (ip_rs pos)) g'
    \<and> (g' = g \<or> delivered_in segs (reach_all segs (ip_rs pos)) g')
    \<and> unat (reach_all segs (ip_rs pos)) < 2 ^ 63"
  using assms(1,4-6)
proof (induction fs arbitrary: segs pos st g)
  case Nil
  then show ?case by (cases st) (auto simp: pollable_def held_items_def process_def past_def)
next
  case (Cons f fs)
  from Cons.prems(1) obtain h ps rest segs' where segs: "segs = (h, ps, rest) # segs'"
    and f: "holds_segment f h key ps rest" "readable cfg peer key h" "sh_pub_epoch h = ep" "rest = [] \<or> \<not> sf_no f < newest"
    and tail: "list_all2 (\<lambda>f (h, ps, rest). holds_segment f h key ps rest \<and> readable cfg peer key h \<and> sh_pub_epoch h = ep
        \<and> (rest = [] \<or> \<not> sf_no f < newest)) fs segs'"
    and order: "in_order (segment_items h key ps @ held_items key segs')"
    by (auto simp: pollable_def list_all2_Cons1 held_items_def)
  have peer: "peer \<noteq> []" using assms(2) by (auto simp: peer_id_pattern_def)
  let ?s = "ip_rs pos" let ?r = "reach h ps ?s"
  define st1 where "st1 = process cfg c e peer (past ?s (segment_items h key ps)) (fst st, rs_db (snd st))"
  have seg: "ingest_segment cfg c e peer f (sf_no f < newest) pos (fst st, rs_db (snd st)) =
     (\<lparr>oc_reached = \<lparr>cur_segment = sh_segment h, cur_rs = ?r, cur_epoch = ep\<rparr>, oc_truncated = (rest \<noteq> []),
        oc_verdict = None\<rparr>, False, st1)"
    using ingest_held_segment[OF f(2,1) peer assms(3) f(4)] f(3) Cons.prems(2) by (simp add: scan_start_def st1_def)
  let ?new = "\<lparr>ip_segment = sh_segment h, ip_rs = ?r, ip_epoch = ep\<rparr>"
  let ?store = "(snd st)\<lparr>rs_db := snd st1\<rparr>"
  have row: "row_at peer ?store ep ?s g" using Cons.prems(3) by (simp add: row_at_def find_ingest_def)
  note order' = in_order_append[OF order]
  note small = reach_small[OF f(1) conjunct1[OF order'] Cons.prems(4)]
  have poll': "pollable cfg peer key ep newest fs segs'" using tail order' by (simp add: pollable_def)
  obtain s1 where s1: "advance_relay_ingest_cursor peer ?new ?store = Inr s1" by (rule advance_total[OF assms(2)])
  have db1: "rs_db s1 = snd st1" using find_ingest_advance(3)[OF s1] by simp
  define pos1 s2 g1 where "pos1 = (if advances pos ?new then ?new else pos)"
    and "s2 = (if advances pos ?new then s1 else ?store)" and "g1 = (if ?s < ?r then sh_segment h else g)"
  have rs1: "ip_rs pos1 = ?r"
    using small(2) Cons.prems(2) by (auto simp: pos1_def advances_def not_less)
  have row1: "row_at peer s2 ep ?r g1"
  proof (cases "advances pos ?new")
    case True
    with advance_row_at[OF row s1 Cons.prems(4) small] show ?thesis by (simp add: s2_def g1_def)
  next
    case False
    with small(2) Cons.prems(2) have "?r = ?s" by (auto simp: advances_def not_less)
    with False row show ?thesis by (simp add: s2_def g1_def)
  qed
  have step: "ingest_segments cfg c e peer newest (f # fs @ gs) pos st = ingest_segments cfg c e peer newest (fs @ gs) pos1 (fst st1, s2)"
    using seg s1 by (cases st1) (simp add: next_position_def pos1_def s2_def Let_def)
  have db2: "rs_db s2 = snd st1" using db1 by (simp add: s2_def)
  have "ip_epoch pos1 = ep" using Cons.prems(2) by (simp add: pos1_def)
  then have "\<exists>stats' s' g' pos'. ingest_segments cfg c e peer newest (fs @ gs) pos1 (fst st1, s2)
        = ingest_segments cfg c e peer newest gs pos' (stats', s')
      \<and> ip_rs pos' = reach_all segs' ?r \<and> ip_epoch pos' = ep
      \<and> (stats', rs_db s') = process cfg c e peer (past ?r (held_items key segs')) st1
      \<and> row_at peer s' ep (reach_all segs' ?r) g'
      \<and> (g' = g1 \<or> delivered_in segs' (reach_all segs' ?r) g') \<and> unat (reach_all segs' ?r) < 2 ^ 63"
    using Cons.IH[OF poll', of pos1 "(fst st1, s2)" g1] row1 small(1) unfolding rs1 by (simp add: db2)
  then obtain stats' s' g' pos' where
    fin: "ingest_segments cfg c e peer newest (fs @ gs) pos1 (fst st1, s2) = ingest_segments cfg c e peer newest gs pos' (stats', s')"
      "(stats', rs_db s') = process cfg c e peer (past ?r (held_items key segs')) st1"
      "row_at peer s' ep (reach_all segs' ?r) g'" "unat (reach_all segs' ?r) < 2 ^ 63"
      "ip_rs pos' = reach_all segs' ?r" "ip_epoch pos' = ep"
    and g': "g' = g1 \<or> delivered_in segs' (reach_all segs' ?r) g'" by blast
  have "past ?r (held_items key segs') = past ?s (held_items key segs')" by (rule past_reach[OF f(1) order])
  then have "(stats', rs_db s') = process cfg c e peer (past ?s (held_items key segs)) (fst st, rs_db (snd st))"
    using fin(2) by (simp add: segs held_items_def past_append process_append st1_def)
  moreover have "g' = g \<or> delivered_in segs (reach_all segs ?s) g'"
  proof (cases "g' = g1 \<and> ?s < ?r")
    case True
    then have "ps \<noteq> []" "sh_first_rs h + of_nat (length ps) - 1 = ?r" by (auto simp: reach_def max_def split: if_splits)
    with True reach_all_mono[of ?r segs'] show ?thesis by (simp add: segs delivered_in_def g1_def)
  next
    case False
    with g' have "g' = g \<or> delivered_in segs' (reach_all segs' ?r) g'" by (auto simp: g1_def)
    then show ?thesis by (auto simp: segs delivered_in_def)
  qed
  ultimately show ?case
    using fin(1,3-6) step by (intro exI[of _ stats'] exI[of _ s'] exI[of _ g'] exI[of _ pos']) (simp add: segs)
qed

end
