(* ===== verification/Relay_Exchange.thy ===== *)
theory Relay_Exchange
  imports Relay_Delivery
begin

text \<open>
  One peer publishes, another polls. The segments of a publisher are a stream of payloads cut into
  segments; whatever prefix of the active segment a poll sees, the reader processes exactly the
  records it has not seen, in order, and its cursor follows.
\<close>

section \<open>The stream of a publisher\<close>

fun stream_segs :: "segment_header \<Rightarrow> 64 word \<Rightarrow> 64 word \<Rightarrow> bytes list list \<Rightarrow> (segment_header \<times> bytes list) list" where
  "stream_segs t no rs [] = []"
| "stream_segs t no rs (ps # pss) =
     (t\<lparr>sh_segment := no, sh_first_rs := rs\<rparr>, ps) # stream_segs t (no + 1) (rs + of_nat (length ps)) pss"

definition stream_files :: "bytes \<Rightarrow> (segment_header \<times> bytes list) list \<Rightarrow> (64 word \<times> bytes) list" where
  "stream_files key segs = map (\<lambda>(h, ps). (sh_segment h, segment_bytes h key ps)) segs"

text \<open>The header of the newest of some segments.\<close>

definition newest_header :: "segment_header \<Rightarrow> bytes list list \<Rightarrow> segment_header" where
  "newest_header t pss = t\<lparr>sh_segment := of_nat (length pss), sh_first_rs := of_nat (Suc (length (concat (butlast pss))))\<rparr>"

lemma stream_segs_append:
  "stream_segs t no rs (pss @ qss) =
     stream_segs t no rs pss @ stream_segs t (no + of_nat (length pss)) (rs + of_nat (length (concat pss))) qss"
  by (induction pss arbitrary: no rs) (simp_all add: algebra_simps)

lemma length_stream_segs [simp]: "length (stream_segs t no rs pss) = length pss"
  by (induction pss arbitrary: no rs) simp_all

lemma stream_segs_snoc:
  "stream_segs t 1 1 (pss @ [ps]) = stream_segs t 1 1 pss @ [(newest_header t (pss @ [ps]), ps)]"
  by (simp add: stream_segs_append newest_header_def algebra_simps)

lemma stream_segs_last:
  "pss \<noteq> [] \<Longrightarrow> stream_segs t 1 1 pss = stream_segs t 1 1 (butlast pss) @ [(newest_header t pss, last pss)]"
  using stream_segs_snoc[of t "butlast pss" "last pss"] by simp

lemma stream_segs_nth:
  "i < length pss \<Longrightarrow> stream_segs t no rs pss ! i =
     (t\<lparr>sh_segment := no + of_nat i, sh_first_rs := rs + of_nat (length (concat (take i pss)))\<rparr>, pss ! i)"
  by (induction pss arbitrary: no rs i) (auto simp: nth_Cons' algebra_simps take_Cons' split: nat.split)

lemma unat_of_nat_small: "n < 2 ^ 64 \<Longrightarrow> unat (of_nat n :: 64 word) = n"
  by (simp add: unat_of_nat take_bit_nat_eq_self)

lemma of_nat_nonzero: "0 < n \<Longrightarrow> n < 2 ^ 64 \<Longrightarrow> (of_nat n :: 64 word) \<noteq> 0"
  using unat_of_nat_small[of n] by auto

lemma of_nat_less_word: "m < 2 ^ 64 \<Longrightarrow> n < 2 ^ 64 \<Longrightarrow> (of_nat m :: 64 word) < of_nat n \<longleftrightarrow> m < n"
  using unat_of_nat_small[of m] unat_of_nat_small[of n] by (simp only: word_less_nat_alt)

lemma of_nat_le_word: "m < 2 ^ 64 \<Longrightarrow> n < 2 ^ 64 \<Longrightarrow> (of_nat m :: 64 word) \<le> of_nat n \<longleftrightarrow> m \<le> n"
  using unat_of_nat_small[of m] unat_of_nat_small[of n] by (simp only: word_le_nat_alt)

lemma map_fst_stream_files:
  "map fst (stream_files key (stream_segs t 1 1 pss)) = map (\<lambda>i. of_nat (Suc i)) [0 ..< length pss]"
  by (rule nth_equalityI) (simp_all add: stream_files_def stream_segs_nth)

lemma ascending_numbers:
  assumes "map fst xs = map (\<lambda>i. of_nat (Suc i)) [0 ..< n]" "n < 2 ^ 64 - 1"
  shows "ascending xs"
proof -
  have small: "Suc i < 2 ^ 64" if "i < n" for i using that assms(2) by simp
  have "sorted_wrt (<) (map (\<lambda>i. of_nat (Suc i) :: 64 word) [0 ..< n])"
    unfolding sorted_wrt_iff_nth_less using small of_nat_less_word by (auto simp del: of_nat_Suc)
  moreover have "fst x \<noteq> 0" if "x \<in> set xs" for x
  proof -
    from that have "fst x \<in> set (map fst xs)" by simp
    then obtain i where "i < n" "fst x = of_nat (Suc i)" unfolding assms(1) by auto
    with small[of i] show ?thesis using of_nat_nonzero[of "Suc i"] by (simp del: of_nat_Suc)
  qed
  ultimately show ?thesis unfolding ascending_def assms(1) by blast
qed

section \<open>The writer keeps the stream\<close>

text \<open>A template header is one that can be written with this key.\<close>

definition template_ok :: "segment_header \<Rightarrow> bytes \<Rightarrow> bool" where
  "template_ok t key \<longleftrightarrow> format_major (sh_version t) = format_major current_format \<and> peer_id_pattern (sh_peer t)
     \<and> check_auth_mode t key = Inr ()"

definition segment_len :: "bytes list \<Rightarrow> nat" where
  "segment_len ps = header_size + sum_list (map (\<lambda>p. record_header_size + length p) ps)"

definition small_stream :: "bytes list list \<Rightarrow> bool" where
  "small_stream pss \<longleftrightarrow> length pss < 2 ^ 63 - 1 \<and> length (concat pss) < 2 ^ 63 - 1 \<and> within_cap (concat pss)
     \<and> (\<forall>ps \<in> set pss. segment_len ps \<le> max_segment_read)"

definition writer_at :: "segment_header \<Rightarrow> bytes \<Rightarrow> bytes list list \<Rightarrow> writer \<times> medium \<Rightarrow> bool" where
  "writer_at t key pss wm \<longleftrightarrow> pss \<noteq> [] \<and> small_stream pss
     \<and> md_path (snd wm) = DirListing (dir_of (stream_files key (stream_segs t 1 1 pss)))
     \<and> md_script (snd wm) = []
     \<and> w_header (fst wm) = newest_header t pss \<and> w_key (fst wm) = key
     \<and> w_file (fst wm) = Some (file_name (of_nat (length pss)))
     \<and> w_size (fst wm) = int (length (segment_bytes (newest_header t pss) key (last pss)))
     \<and> w_next_rs (fst wm) = of_nat (Suc (length (concat pss)))
     \<and> w_records (fst wm) = int (length (last pss)) \<and> w_failed (fst wm) = None
     \<and> w_max_bytes (fst wm) \<le> int max_segment_read"

lemma check_auth_mode_cong: "sh_flags h = sh_flags h' \<Longrightarrow> check_auth_mode h key = check_auth_mode h' key"
  by (simp add: check_auth_mode_def authenticated_def)

lemma template_header:
  assumes "template_ok t key" "no \<noteq> 0" "rs \<noteq> 0"
  shows "segment_ok (t\<lparr>sh_segment := no, sh_first_rs := rs\<rparr>) key"
  using assms check_auth_mode_cong[of "t\<lparr>sh_segment := no, sh_first_rs := rs\<rparr>" t key]
  by (simp add: segment_ok_def template_ok_def validate_header_ok)

lemma newest_header_ok:
  assumes "template_ok t key" "small_stream pss" "pss \<noteq> []"
  shows "segment_ok (newest_header t pss) key"
proof -
  have "length (concat (butlast pss)) \<le> length (concat pss)"
    using assms(3) by (metis append_butlast_last_id concat_append length_append le_add1)
  then have "(of_nat (Suc (length (concat (butlast pss)))) :: 64 word) \<noteq> 0"
    using assms(2) by (intro of_nat_nonzero) (simp_all add: small_stream_def)
  moreover have "(of_nat (length pss) :: 64 word) \<noteq> 0"
    using assms(2,3) by (intro of_nat_nonzero) (simp_all add: small_stream_def)
  ultimately show ?thesis unfolding newest_header_def using template_header[OF assms(1)] by blast
qed

lemma file_names_fresh:
  assumes "ascending (xs @ [(no, c)])" "x \<in> set (dir_of xs)"
  shows "fst x \<noteq> file_name no"
proof -
  obtain n d where nd: "(n, d) \<in> set xs" "fst x = file_name n" using assms(2) by (auto simp: dir_of_def)
  then have "n < no" "n \<noteq> 0" "no \<noteq> 0" using assms(1) by (auto simp: ascending_def sorted_wrt_append)
  then show ?thesis using nd(2) file_name_inject[of n no] by auto
qed

lemma append_entry_last:
  assumes "ascending (xs @ [(no, c)])"
  shows "append_entry (file_name no) b (dir_of (xs @ [(no, c)])) = dir_of (xs @ [(no, c @ b)])"
proof -
  have "append_entry (file_name no) b (dir_of xs) = dir_of xs"
    unfolding append_entry_def using file_names_fresh[OF assms] by (intro map_idI) (fastforce split: prod.splits)
  then show ?thesis by (simp add: append_entry_def dir_of_def)
qed

lemma map_of_dir_of_new:
  assumes "ascending (xs @ [(no, c)])"
  shows "map_of (dir_of xs) (file_name no) = None"
  unfolding map_of_eq_None_iff using file_names_fresh[OF assms] by force

lemma length_frames: "length (frames h key rs ps) = sum_list (map (\<lambda>p. record_header_size + length p) ps)"
  by (induction ps arbitrary: rs) simp_all

lemma length_segment_bytes: "length (segment_bytes h key ps) = segment_len ps"
  by (simp add: segment_bytes_def segment_len_def length_frames)

lemma newest_header_snoc:
  "pss \<noteq> [] \<Longrightarrow> newest_header t (butlast pss @ [ps]) = newest_header t pss"
  by (cases pss rule: rev_cases) (simp_all add: newest_header_def)

lemma concat_last: "pss \<noteq> [] \<Longrightarrow> concat pss = concat (butlast pss) @ last pss"
  by (cases pss rule: rev_cases) simp_all

lemma segment_bytes_snoc:
  "segment_bytes h key (ps @ [p]) = segment_bytes h key ps @ frame_bytes h (sh_first_rs h + of_nat (length ps)) p key"
  by (simp add: segment_bytes_def frames_append)

lemma stream_files_last:
  "pss \<noteq> [] \<Longrightarrow> stream_files key (stream_segs t 1 1 pss) = stream_files key (stream_segs t 1 1 (butlast pss))
     @ [(of_nat (length pss), segment_bytes (newest_header t pss) key (last pss))]"
  by (subst stream_segs_last) (simp_all add: stream_files_def newest_header_def)

lemma stream_ascending: "length pss < 2 ^ 63 \<Longrightarrow> ascending (stream_files key (stream_segs t 1 1 pss))"
  by (rule ascending_numbers[OF map_fst_stream_files]) simp

lemma next_io_silent: "md_script m = [] \<Longrightarrow> next_io m = (IoOk, m)"
  by (simp add: next_io_def)

lemma append_frame_at:
  assumes "writer_at t key pss wm" "template_ok t key" "int (length p) \<le> max_record_payload"
    and "small_stream (butlast pss @ [last pss @ [p]])"
  shows "\<exists>wm'. append_frame p wm = (Inr (of_nat (Suc (length (concat pss)))), wm')
     \<and> writer_at t key (butlast pss @ [last pss @ [p]]) wm' \<and> w_max_bytes (fst wm') = w_max_bytes (fst wm)"
proof -
  obtain w m where wm: "wm = (w, m)" by (cases wm)
  let ?h = "newest_header t pss" let ?n = "of_nat (Suc (length (concat pss))) :: 64 word"
  let ?f = "frame_bytes ?h ?n p key"
  note at = assms(1)[unfolded wm writer_at_def, simplified]
  have ne: "pss \<noteq> []" and small: "small_stream pss" using at by simp_all
  have pss': "butlast pss @ [last pss @ [p]] \<noteq> []" "length (butlast pss @ [last pss @ [p]]) = length pss"
    using ne by (cases pss rule: rev_cases; simp)+
  have ok: "segment_ok ?h key" by (rule newest_header_ok[OF assms(2) small ne])
  have frame: "append_record [] ?h ?n p key = Inr ?f"
    using ok assms(3) by (simp add: append_record_def segment_ok_def)
  have rs: "sh_first_rs ?h + of_nat (length (last pss)) = ?n"
    using concat_last[OF ne] by (simp add: newest_header_def)
  have asc: "ascending (stream_files key (stream_segs t 1 1 (butlast pss))
      @ [(of_nat (length pss), segment_bytes ?h key (last pss))])"
    using stream_ascending[of pss key t] small unfolding stream_files_last[OF ne] by (simp add: small_stream_def)
  have files: "append_entry (file_name (of_nat (length pss))) ?f (dir_of (stream_files key (stream_segs t 1 1 pss)))
      = dir_of (stream_files key (stream_segs t 1 1 (butlast pss @ [last pss @ [p]])))"
    unfolding stream_files_last[OF ne] stream_files_last[OF pss'(1)] append_entry_last[OF asc]
    using pss'(2) ne newest_header_snoc[OF ne] by (simp add: segment_bytes_snoc rs)
  have len: "length (concat (butlast pss @ [last pss @ [p]])) = Suc (length (concat pss))"
    using concat_last[OF ne] by simp
  show ?thesis
    using at files frame assms(4) pss' newest_header_snoc[OF ne] len unfolding wm
    by (auto simp: append_frame_def write_file_def next_io_def md_entries_def Let_def writer_at_def
        segment_bytes_snoc length_segment_bytes segment_len_def simp del: length_concat concat_append)
qed

lemma open_new_dir:
  assumes "md_script m = []" "md_path m = DirListing (dir_of files)" "ascending (files @ [(no, [])])"
    and "(w_header w)\<lparr>sh_segment := no, sh_first_rs := rs\<rparr> = h" "segment_ok h key"
  shows "open_new no rs (w, m) = (Inr (), w\<lparr>w_file := Some (file_name no), w_header := h,
      w_size := int header_size, w_records := 0, w_next_rs := rs\<rparr>,
      m\<lparr>md_path := DirListing (dir_of (files @ [(no, header_bytes h)]))\<rparr>)"
proof -
  have raw: "marshal_header h = Inr (header_bytes h)" using assms(5) by (simp add: marshal_header_def segment_ok_def)
  have name: "map_of (dir_of files) (file_name no) = None" by (rule map_of_dir_of_new[OF assms(3)])
  have written: "append_entry (file_name no) (header_bytes h) (dir_of files @ [(file_name no, RegularFile [])])
      = dir_of (files @ [(no, header_bytes h)])"
    using append_entry_last[OF assms(3), of "header_bytes h"] by (simp add: dir_of_def)
  show ?thesis
    unfolding open_new_def prod.case assms(4) Let_def raw sum.case
    using assms(1,2) name written
    by (simp add: create_file_def next_io_def write_file_def md_entries_def)
qed

lemma ascending_contents: "map fst xs = map fst ys \<Longrightarrow> ascending xs \<longleftrightarrow> ascending ys"
proof -
  have zero: "(\<forall>x \<in> set zs. fst x \<noteq> 0) \<longleftrightarrow> 0 \<notin> set (map fst zs)" for zs :: "(64 word \<times> 'x) list" by force
  assume "map fst xs = map fst ys"
  then show ?thesis unfolding ascending_def zero by simp
qed

lemma open_new_at:
  assumes "template_ok t key" "small_stream (pss @ [[]])" "md_script m = []"
    and "md_path m = DirListing (dir_of (stream_files key (stream_segs t 1 1 pss)))"
    and "no = of_nat (Suc (length pss))" "rs = of_nat (Suc (length (concat pss)))"
    and "(w_header w)\<lparr>sh_segment := no, sh_first_rs := rs\<rparr> = newest_header t (pss @ [[]])"
  shows "open_new no rs (w, m) = (Inr (), w\<lparr>w_file := Some (file_name no), w_header := newest_header t (pss @ [[]]),
      w_size := int header_size, w_records := 0, w_next_rs := rs\<rparr>,
      m\<lparr>md_path := DirListing (dir_of (stream_files key (stream_segs t 1 1 (pss @ [[]]))))\<rparr>)"
proof -
  let ?h = "newest_header t (pss @ [[]])"
  have ok: "segment_ok ?h key" by (rule newest_header_ok[OF assms(1,2)]) simp
  let ?files = "stream_files key (stream_segs t 1 1 pss)"
  have files: "stream_files key (stream_segs t 1 1 (pss @ [[]])) = ?files @ [(no, header_bytes ?h)]"
    by (subst stream_files_last) (simp_all add: segment_bytes_def assms(5))
  have "ascending (?files @ [(no, [])])"
    using stream_ascending[of "pss @ [[]]" key t] assms(2) unfolding files
    by (simp add: small_stream_def ascending_def)
  from open_new_dir[OF assms(3,4) this assms(7) ok] show ?thesis unfolding files .
qed

lemma rotate_at:
  assumes "writer_at t key pss wm" "template_ok t key" "small_stream (pss @ [[]])"
  shows "\<exists>wm'. rotate_writer wm = (Inr (), wm') \<and> writer_at t key (pss @ [[]]) wm' \<and> w_max_bytes (fst wm') = w_max_bytes (fst wm)"
proof -
  obtain w m where wm: "wm = (w, m)" by (cases wm)
  note at = assms(1)[unfolded wm writer_at_def, simplified]
  let ?no = "sh_segment (w_header w) + 1"
  have no: "?no = of_nat (Suc (length pss))" using at by (simp add: newest_header_def)
  have "(w_header (w\<lparr>w_file := None\<rparr>))\<lparr>sh_segment := ?no, sh_first_rs := w_next_rs w\<rparr> = newest_header t (pss @ [[]])"
    using at by (simp add: newest_header_def)
  with at have opened: "open_new ?no (w_next_rs w) (w\<lparr>w_file := None\<rparr>, m) =
    (Inr (), w\<lparr>w_file := Some (file_name ?no), w_header := newest_header t (pss @ [[]]),
      w_size := int header_size, w_records := 0, w_next_rs := w_next_rs w\<rparr>,
      m\<lparr>md_path := DirListing (dir_of (stream_files key (stream_segs t 1 1 (pss @ [[]]))))\<rparr>)"
    by (subst open_new_at[OF assms(2,3) _ _ no]) simp_all
  have "rotate_writer wm = (Inr (), w\<lparr>w_file := Some (file_name ?no), w_header := newest_header t (pss @ [[]]),
      w_size := int header_size, w_records := 0, w_next_rs := w_next_rs w\<rparr>,
      m\<lparr>md_path := DirListing (dir_of (stream_files key (stream_segs t 1 1 (pss @ [[]]))))\<rparr>)"
  proof -
    have "writer_usable w = Inr ()" "close_file m = (True, m)"
      using at by (simp_all add: writer_usable_def close_file_def next_io_def)
    then show ?thesis unfolding wm rotate_writer_def prod.case Let_def by (simp only: opened sum.case prod.case bool.case)
  qed
  with at no assms(3) show ?thesis
    by (simp add: writer_at_def segment_bytes_def add.commute wm)
qed

text \<open>An append: the payload joins the newest segment, or opens the next one.\<close>

lemma append_payload_at:
  assumes "writer_at t key pss wm" "template_ok t key" "int (length p) \<le> max_record_payload"
    and "length (concat pss) < 2 ^ 63 - 2" "length pss < 2 ^ 63 - 2"
  shows "\<exists>pss' wm'. append_payload p wm = (Inr (of_nat (Suc (length (concat pss)))), wm')
     \<and> writer_at t key pss' wm' \<and> concat pss' = concat pss @ [p]
     \<and> (pss' = butlast pss @ [last pss @ [p]] \<or> last pss \<noteq> [] \<and> pss' = pss @ [[p]]) \<and> w_max_bytes (fst wm') = w_max_bytes (fst wm)"
proof -
  obtain w m where wm: "wm = (w, m)" by (cases wm)
  note at = assms(1)[unfolded wm writer_at_def, simplified]
  have ne: "pss \<noteq> []" and small: "small_stream pss" using at by simp_all
  have usable: "writer_usable w = Inr ()" using at by (simp add: writer_usable_def)
  have one: "segment_len [p] \<le> max_segment_read" "segment_len [] \<le> max_segment_read"
    using assms(3) by (simp_all add: segment_len_def sizes max_segment_read_def max_record_payload_def)
  show ?thesis
  proof (cases "0 < w_records w \<and> w_max_bytes w < w_size w + int (record_header_size + length p)")
    case True
    have small1: "small_stream (pss @ [[]])" using small assms(4,5) one by (simp add: small_stream_def)
    obtain wm1 where rot: "rotate_writer wm = (Inr (), wm1)" "writer_at t key (pss @ [[]]) wm1" "w_max_bytes (fst wm1) = w_max_bytes w"
      using rotate_at[OF assms(1,2) small1] wm by auto
    have "small_stream (butlast (pss @ [[]]) @ [last (pss @ [[]]) @ [p]])"
      using small assms(3-5) one by (simp add: small_stream_def)
    from append_frame_at[OF rot(2) assms(2,3) this] obtain wm2 where
      "append_frame p wm1 = (Inr (of_nat (Suc (length (concat pss)))), wm2)" "writer_at t key (pss @ [[p]]) wm2"
      "w_max_bytes (fst wm2) = w_max_bytes w" using rot(3) by auto
    moreover have "last pss \<noteq> []" using True at by auto
    ultimately show ?thesis using True rot usable assms(3) wm
      by (intro exI[of _ "pss @ [[p]]"] exI[of _ wm2]) (simp add: append_payload_def bind_writing_def)
  next
    case False
    have fits: "segment_len (last pss @ [p]) \<le> max_segment_read"
    proof (cases "last pss = []")
      case True then show ?thesis using one by simp
    next
      case ne: False
      then have "w_size w + int (record_header_size + length p) \<le> int max_segment_read"
        using False at by (simp add: length_greater_0_conv[symmetric] del: length_greater_0_conv)
      then show ?thesis using at by (simp add: length_segment_bytes segment_len_def)
    qed
    have "set (butlast pss) \<subseteq> set pss" by (meson in_set_butlastD subsetI)
    moreover have "length (butlast pss @ [last pss @ [p]]) = length pss"
      using ne by (cases pss rule: rev_cases) simp_all
    moreover have "concat (butlast pss @ [last pss @ [p]]) = concat pss @ [p]"
      using concat_last[OF ne] by simp
    ultimately have "small_stream (butlast pss @ [last pss @ [p]])"
      using small fits assms(3-5) unfolding small_stream_def by (simp only:) auto
    from append_frame_at[OF assms(1-3) this] obtain wm1 where
      "append_frame p wm = (Inr (of_nat (Suc (length (concat pss)))), wm1)"
      "writer_at t key (butlast pss @ [last pss @ [p]]) wm1" "w_max_bytes (fst wm1) = w_max_bytes (fst wm)" by blast
    with False usable assms(3) wm concat_last[OF ne] show ?thesis
      by (intro exI[of _ "butlast pss @ [last pss @ [p]]"] exI[of _ wm1]) (auto simp: append_payload_def)
  qed
qed

section \<open>Opening the writer on its own stream\<close>

text \<open>The directory of a stream whose newest segment ends in \<open>rest\<close>.\<close>

definition stream_dir :: "segment_header \<Rightarrow> bytes \<Rightarrow> bytes list list \<Rightarrow> bytes \<Rightarrow> (64 word \<times> bytes) list" where
  "stream_dir t key pss rest = stream_files key (stream_segs t 1 1 (butlast pss))
     @ [(of_nat (length pss), segment_bytes (newest_header t pss) key (last pss) @ rest)]"

lemma stream_dir_whole: "pss \<noteq> [] \<Longrightarrow> stream_files key (stream_segs t 1 1 pss) = stream_dir t key pss []"
  by (simp add: stream_dir_def stream_files_last)

lemma map_fst_stream_dir: "pss \<noteq> [] \<Longrightarrow> map fst (stream_dir t key pss rest) = map (\<lambda>i. of_nat (Suc i)) [0 ..< length pss]"
  using map_fst_stream_files[of key t pss] by (simp add: stream_dir_whole) (simp add: stream_dir_def)

lemma stream_dir_ascending: "pss \<noteq> [] \<Longrightarrow> length pss < 2 ^ 63 \<Longrightarrow> ascending (stream_dir t key pss rest)"
  by (rule ascending_numbers[OF map_fst_stream_dir]) simp_all

lemma list_stream_dir:
  assumes "pss \<noteq> []" "small_stream pss"
  shows "list_segments (DirListing (dir_of (stream_dir t key pss rest))) = Inr (map file_of (stream_dir t key pss rest), [])"
  by (rule list_segments_dir_of[OF stream_dir_ascending[OF assms(1)]]) (use assms(2) in \<open>simp add: small_stream_def\<close>)

definition own_options :: "string \<Rightarrow> bytes \<Rightarrow> scan_options" where
  "own_options peer key = \<lparr>so_sealed = False, so_key = key, so_tolerate = False, so_expect_peer = peer\<rparr>"

lemma within_cap_last: "small_stream pss \<Longrightarrow> pss \<noteq> [] \<Longrightarrow> within_cap (last pss)"
  by (simp add: small_stream_def concat_last)

lemma newest_rs: "pss \<noteq> [] \<Longrightarrow>
    sh_first_rs (newest_header t pss) + of_nat (length (last pss)) = of_nat (Suc (length (concat pss)))"
  using concat_last[of pss] by (simp add: newest_header_def)

text \<open>What the stream's next append leaves unfinished.\<close>

definition unfinished :: "segment_header \<Rightarrow> bytes \<Rightarrow> bytes list list \<Rightarrow> bytes \<Rightarrow> bool" where
  "unfinished t key pss rest \<longleftrightarrow> torn_frame (newest_header t pss) key (of_nat (Suc (length (concat pss)))) rest"

lemma scan_newest:
  assumes "template_ok t key" "small_stream pss" "pss \<noteq> []" "rest = [] \<or> unfinished t key pss rest"
  shows "scan_file (sf_entry (last (map file_of (stream_dir t key pss rest)))) (own_options (sh_peer t) key)
    = Inr (delivered_result (own_options (sh_peer t) key) (newest_header t pss) (last pss) (rest \<noteq> []))"
proof -
  have "scan_accepts (own_options (sh_peer t) key) (newest_header t pss)"
    using newest_header_ok[OF assms(1-3)] by (simp add: scan_accepts_def own_options_def) (simp add: newest_header_def)
  from scan_all_bytes[OF this within_cap_last[OF assms(2,3)], of rest] assms(4) show ?thesis
    by (simp add: stream_dir_def file_of_def scan_file_def own_options_def unfinished_def newest_rs[OF assms(3)])
qed

text \<open>The header a configuration writes.\<close>

definition writer_template :: "writer_config \<Rightarrow> segment_header" where
  "writer_template c = \<lparr>sh_version = current_format, sh_flags = (if wc_unauthenticated c then 0 else flag_authenticated),
     sh_peer = wc_peer c, sh_segment = 0, sh_first_rs = 0, sh_key_epoch = wc_key_epoch c, sh_pub_epoch = wc_pub_epoch c\<rparr>"

definition writer_config_ok :: "writer_config \<Rightarrow> bool" where
  "writer_config_ok c \<longleftrightarrow> peer_id_pattern (wc_peer c) \<and> wc_unauthenticated c \<noteq> (wc_key c \<noteq> [])
     \<and> 0 \<le> wc_max_bytes c \<and> wc_max_bytes c \<le> int max_segment_read"

lemma template_of_config: "writer_config_ok c \<Longrightarrow> template_ok (writer_template c) (wc_key c)"
  by (auto simp: writer_config_ok_def template_ok_def writer_template_def check_auth_mode_def authenticated_def
      flag_authenticated_def)

lemma validate_config_ok: "writer_config_ok c \<Longrightarrow> md_path m = DirListing es \<Longrightarrow> validate_writer_config c m = Inr ()"
  by (auto simp: writer_config_ok_def validate_writer_config_def validate_peer_id_def lstat_dir_def)

text \<open>\<open>inspectTail\<close> on the directory of a stream.\<close>

lemma inspect_stream:
  assumes "writer_config_ok c" "t = writer_template c" "small_stream pss" "pss \<noteq> []"
    and "md_path m = DirListing (dir_of (stream_dir t (wc_key c) pss rest))"
    and "rest = [] \<or> unfinished t (wc_key c) pss rest"
  shows "inspect_tail c m =
    (if wc_next_rs c \<noteq> 0 \<and> wc_next_rs c \<noteq> of_nat (Suc (length (concat pss))) then Inl ErrPeerIDConflict
     else if rest \<noteq> [] then Inr (TailNew (of_nat (length pss) + 1) (of_nat (Suc (length (concat pss)))), True)
     else Inr (TailOpen (file_of (last (stream_dir t (wc_key c) pss []))) (newest_header t pss)
                 (int (length (last pss))) (of_nat (Suc (length (concat pss)))), False))"
proof -
  have tok: "template_ok t (wc_key c)" using template_of_config[OF assms(1)] assms(2) by simp
  have peer: "sh_peer t = wc_peer c" using assms(2) by (simp add: writer_template_def)
  have ne: "map file_of (stream_dir t (wc_key c) pss rest) \<noteq> []" by (simp add: stream_dir_def)
  have no: "sf_no (last (map file_of (stream_dir t (wc_key c) pss rest))) = of_nat (length pss)"
    by (simp add: stream_dir_def file_of_def)
  have epochs: "sh_pub_epoch (newest_header t pss) = wc_pub_epoch c" "sh_key_epoch (newest_header t pss) = wc_key_epoch c"
    using assms(2) by (simp_all add: newest_header_def writer_template_def)
  have last: "last (map file_of xs) = file_of (last xs)" if "xs \<noteq> []" for xs using that by (rule last_map)
  have resume: "sh_first_rs (newest_header t pss) + of_nat (length (last pss)) - 1 + 1 = of_nat (Suc (length (concat pss)))"
    using newest_rs[OF assms(4)] by simp
  show ?thesis
    unfolding inspect_tail_def assms(5) list_stream_dir[OF assms(4,3)] bind_result.simps prod.case
    using ne scan_newest[OF tok assms(3,4,6)] no epochs resume last[of "stream_dir t (wc_key c) pss rest"]
    unfolding own_options_def peer
    by (simp add: delivered_result_def check_declared_cursor_def Let_def del: last_map of_nat_Suc)
qed

lemma new_writer_start:
  assumes "writer_config_ok c" "md_path m = DirListing es"
  shows "new_writer c m =
     (case inspect_tail c m of
        Inl e \<Rightarrow> (Inl e, m)
      | Inr (tail, torn) \<Rightarrow>
          (let w0 = \<lparr>w_header = writer_template c, w_key = wc_key c,
                 w_max_bytes = (if wc_max_bytes c = 0 then default_max_segment_bytes else wc_max_bytes c),
                 w_file = None, w_size = 0, w_next_rs = 0, w_records = 0, w_recovered = torn, w_failed = None\<rparr>
           in case (case tail of TailOpen f h n rs \<Rightarrow> reopen f h n rs (w0, m)
                    | TailNew no rs \<Rightarrow> open_new no rs (w0, m)) of
                (Inl e, _, m1) \<Rightarrow> (Inl e, m1)
              | (Inr _, w, m1) \<Rightarrow> (Inr w, m1)))"
proof -
  have "validate_writer_config c m = Inr ()" by (rule validate_config_ok[OF assms])
  then show ?thesis unfolding new_writer_def writer_template_def by simp
qed

lemma new_writer_fresh:
  assumes "writer_config_ok c" "t = writer_template c" "md_path m = DirListing []" "md_script m = []"
    and "wc_next_rs c = 0 \<or> wc_next_rs c = 1"
  shows "\<exists>w m'. new_writer c m = (Inr w, m') \<and> writer_at t (wc_key c) [[]] (w, m')"
proof -
  have "list_segments (DirListing []) = Inr ([], [])"
    by (simp add: list_segments_def read_relay_dir_def lstat_dir_def sort_by_def)
  then have tail: "inspect_tail c m = Inr (TailNew 1 1, False)"
    using assms(3,5) by (auto simp: inspect_tail_def fresh_stream_def)
  have small: "small_stream ([] @ [[]])" by (simp add: small_stream_def segment_len_def sizes max_segment_read_def)
  have cap: "default_max_segment_bytes \<le> int max_segment_read"
    by (simp add: default_max_segment_bytes_def max_segment_read_def)
  show ?thesis
    unfolding new_writer_start[OF assms(1,3)] tail sum.case prod.case Let_def tail_state.case
    using assms(1-4) small cap
    by (subst open_new_at[OF template_of_config[OF assms(1)] small assms(4)])
      (simp_all add: newest_header_def writer_template_def stream_files_def dir_of_def writer_at_def segment_bytes_def
        writer_config_ok_def)
qed

lemma new_writer_resume:
  assumes "writer_config_ok c" "t = writer_template c" "small_stream pss" "pss \<noteq> []" "md_script m = []"
    and "md_path m = DirListing (dir_of (stream_dir t (wc_key c) pss []))"
    and "wc_next_rs c = of_nat (Suc (length (concat pss)))"
  shows "\<exists>w. new_writer c m = (Inr w, m) \<and> writer_at t (wc_key c) pss (w, m)"
proof -
  have cap: "default_max_segment_bytes \<le> int max_segment_read"
    by (simp add: default_max_segment_bytes_def max_segment_read_def)
  have tail: "inspect_tail c m = Inr (TailOpen (file_of (last (stream_dir t (wc_key c) pss []))) (newest_header t pss)
                 (int (length (last pss))) (of_nat (Suc (length (concat pss)))), False)"
    using inspect_stream[OF assms(1-4,6)] assms(7) by (simp del: of_nat_Suc)
  show ?thesis
    unfolding new_writer_start[OF assms(1,6)] tail sum.case prod.case Let_def tail_state.case
    using assms cap
    by (simp add: reopen_def open_append_def next_io_def writer_at_def stream_dir_whole writer_config_ok_def)
      (simp add: stream_dir_def file_of_def)
qed

text \<open>A torn tail is sealed as it is, and the stream goes on in a new segment.\<close>

lemma new_writer_torn:
  assumes "writer_config_ok c" "t = writer_template c" "small_stream (pss @ [[]])" "pss \<noteq> []" "md_script m = []"
    and "md_path m = DirListing (dir_of (stream_dir t (wc_key c) pss rest))"
    and "rest \<noteq> []" "unfinished t (wc_key c) pss rest"
    and "wc_next_rs c = 0 \<or> wc_next_rs c = of_nat (Suc (length (concat pss)))"
  shows "\<exists>w m'. new_writer c m = (Inr w, m') \<and> w_recovered w
    \<and> w_next_rs w = of_nat (Suc (length (concat pss)))
    \<and> md_path m' = DirListing (dir_of (stream_dir t (wc_key c) pss rest
        @ [(of_nat (Suc (length pss)), header_bytes (newest_header t (pss @ [[]])))]))"
proof -
  let ?h = "newest_header t (pss @ [[]])"
  have small: "small_stream pss" using assms(3) by (simp add: small_stream_def)
  have tail: "inspect_tail c m = Inr (TailNew (of_nat (Suc (length pss))) (of_nat (Suc (length (concat pss)))), True)"
    using inspect_stream[OF assms(1,2) small assms(4,6)] assms(7-9) by (auto simp: add.commute)
  have ok: "segment_ok ?h (wc_key c)"
    by (rule newest_header_ok[OF _ assms(3)]) (use template_of_config[OF assms(1)] assms(2) in simp_all)
  have "ascending (stream_dir t (wc_key c) (pss @ [[]]) [])"
    by (rule stream_dir_ascending) (use assms(3) in \<open>simp_all add: small_stream_def\<close>)
  moreover have "map fst (stream_dir t (wc_key c) pss rest @ [(of_nat (Suc (length pss)), [] :: bytes)])
      = map fst (stream_dir t (wc_key c) (pss @ [[]]) [])"
    using assms(4) by (simp add: map_fst_stream_dir)
  ultimately have asc: "ascending (stream_dir t (wc_key c) pss rest @ [(of_nat (Suc (length pss)), [])])"
    using ascending_contents by blast
  show ?thesis
    unfolding new_writer_start[OF assms(1,6)] tail sum.case prod.case Let_def tail_state.case
    by (subst open_new_dir[OF assms(5,6) asc _ ok]) (simp_all add: newest_header_def assms(2))
qed

end
