(* ===== verification/Relay_Poll.thy ===== *)
theory Relay_Poll
  imports Relay_Exchange
begin

text \<open>
  A poll of a stream. Whatever part of the stream the reader sees -- some segments whole, the last one
  cut at any byte -- it processes exactly the records it has not had, in order, and its cursor stands at
  the last of them.
\<close>

section \<open>The records of a stream\<close>

definition seg_header :: "segment_header \<Rightarrow> bytes list list \<Rightarrow> nat \<Rightarrow> segment_header" where
  "seg_header t pss i = t\<lparr>sh_segment := of_nat (Suc i), sh_first_rs := of_nat (Suc (length (concat (take i pss))))\<rparr>"

definition stream_held :: "segment_header \<Rightarrow> bytes list list \<Rightarrow> bytes \<Rightarrow> held list" where
  "stream_held t pss rest = map (\<lambda>i. (seg_header t pss i, pss ! i, if Suc i = length pss then rest else [])) [0 ..< length pss]"

definition held_file :: "bytes \<Rightarrow> held \<Rightarrow> segment_file" where
  "held_file key = (\<lambda>(h, ps, rest). file_of (sh_segment h, segment_bytes h key ps @ rest))"

definition stream_items :: "segment_header \<Rightarrow> bytes \<Rightarrow> bytes list list \<Rightarrow> (segment_header \<times> relay_record) list" where
  "stream_items t key pss = concat (map (\<lambda>i. segment_items (seg_header t pss i) key (pss ! i)) [0 ..< length pss])"

lemma seg_header_fields [simp]:
  "sh_segment (seg_header t pss i) = of_nat (Suc i)" "sh_peer (seg_header t pss i) = sh_peer t"
  "sh_first_rs (seg_header t pss i) = of_nat (Suc (length (concat (take i pss))))"
  "sh_pub_epoch (seg_header t pss i) = sh_pub_epoch t" "sh_flags (seg_header t pss i) = sh_flags t"
  "sh_key_epoch (seg_header t pss i) = sh_key_epoch t"
  by (simp_all add: seg_header_def)

lemma seg_header_last: "pss \<noteq> [] \<Longrightarrow> seg_header t pss (length pss - 1) = newest_header t pss"
  by (simp add: seg_header_def newest_header_def butlast_conv_take)

lemma stream_dir_held:
  assumes "pss \<noteq> []"
  shows "map file_of (stream_dir t key pss rest) = map (held_file key) (stream_held t pss rest)"
proof (rule nth_equalityI)
  show "length (map file_of (stream_dir t key pss rest)) = length (map (held_file key) (stream_held t pss rest))"
    using assms by (cases pss rule: rev_cases) (simp_all add: stream_dir_def stream_held_def stream_files_def)
  fix i assume "i < length (map file_of (stream_dir t key pss rest))"
  then have i: "i < length pss" using assms
    by (cases pss rule: rev_cases) (simp_all add: stream_dir_def stream_files_def)
  show "map file_of (stream_dir t key pss rest) ! i = map (held_file key) (stream_held t pss rest) ! i"
  proof (cases "Suc i = length pss")
    case True
    obtain qs q where pss: "pss = qs @ [q]" using assms by (cases pss rule: rev_cases) auto
    with True have "i = length qs" by simp
    moreover have "newest_header t pss = seg_header t pss i" using seg_header_last[OF assms, of t] True by (metis diff_Suc_1)
    ultimately show ?thesis
      by (simp add: pss held_file_def stream_dir_def stream_files_def stream_held_def nth_append)
  next
    case False
    then have i': "i < length (butlast pss)" using i by simp
    have "take i (butlast pss) = take i pss" "butlast pss ! i = pss ! i"
      using i' by (simp_all add: butlast_conv_take nth_butlast)
    with i i' False show ?thesis
      by (simp add: stream_dir_def stream_files_def stream_held_def held_file_def nth_append stream_segs_nth seg_header_def
          add.commute)
  qed
qed

lemma held_items_stream: "held_items key (stream_held t pss rest) = stream_items t key pss"
  by (simp add: held_items_def stream_held_def stream_items_def comp_def)

lemma records_of_numbers: "map rec_rs (records_of h key b ps) = map (\<lambda>j. b + of_nat j) [0 ..< length ps]"
  by (rule nth_equalityI) (simp_all add: records_of_nth record_of_def)

text \<open>The records are numbered from 1.\<close>

lemma stream_items_upto:
  assumes "n \<le> length pss"
  shows "map (\<lambda>x. rec_rs (snd x)) (concat (map (\<lambda>i. segment_items (seg_header t pss i) key (pss ! i)) [0 ..< n]))
    = map (\<lambda>j. of_nat (Suc j)) [0 ..< length (concat (take n pss))]"
  using assms
proof (induction n)
  case (Suc n)
  have "take (Suc n) pss = take n pss @ [pss ! n]" using Suc.prems by (simp add: take_Suc_conv_app_nth)
  moreover have "map (\<lambda>x. rec_rs (snd x)) (segment_items (seg_header t pss n) key (pss ! n))
      = map (\<lambda>j. of_nat (Suc (length (concat (take n pss)) + j))) [0 ..< length (pss ! n)]"
    using records_of_numbers[of "seg_header t pss n" key "of_nat (Suc (length (concat (take n pss))))" "pss ! n"]
    by (simp add: segment_items_def comp_def add.assoc)
  moreover have "[0 ..< a + b] = [0 ..< a] @ map (\<lambda>j. a + j) [0 ..< b]" for a b
    by (induction b) (simp_all)
  ultimately show ?case using Suc by (simp add: comp_def del: length_concat of_nat_Suc)
qed simp

lemma stream_items_numbers:
  "map (\<lambda>x. rec_rs (snd x)) (stream_items t key pss) = map (\<lambda>j. of_nat (Suc j)) [0 ..< length (concat pss)]"
  using stream_items_upto[of "length pss" pss t key] by (simp add: stream_items_def)

lemma stream_items_payloads: "map (\<lambda>x. rec_body (snd x)) (stream_items t key pss) = concat pss"
proof -
  have "map (\<lambda>x. rec_body (snd x)) (segment_items h key ps) = ps" for h ps
    using payloads_records_of by (simp add: segment_items_def comp_def)
  then have "map (\<lambda>x. rec_body (snd x)) (stream_items t key pss) = concat (map (\<lambda>i. pss ! i) [0 ..< length pss])"
    by (simp add: stream_items_def map_concat comp_def)
  then show ?thesis by (simp add: map_nth)
qed

lemma length_stream_items [simp]: "length (stream_items t key pss) = length (concat pss)"
  using arg_cong[OF stream_items_payloads, of length] by (simp del: length_concat)

lemma stream_items_rs:
  "j < length (concat pss) \<Longrightarrow> rec_rs (snd (stream_items t key pss ! j)) = of_nat (Suc j)"
  using arg_cong[OF stream_items_numbers[of t key pss], of "\<lambda>xs. xs ! j"] by (simp del: length_concat of_nat_Suc)

lemma stream_in_order:
  assumes "length (concat pss) < 2 ^ 63 - 1"
  shows "in_order (stream_items t key pss)"
proof -
  have small: "Suc j < 2 ^ 63" if "j < length (concat pss)" for j using that assms by (simp del: length_concat)
  have "unat (rec_rs (snd x)) < 2 ^ 63" if "x \<in> set (stream_items t key pss)" for x
  proof -
    from that obtain j where "j < length (concat pss)" "x = stream_items t key pss ! j"
      by (auto simp: in_set_conv_nth simp del: length_concat)
    then show ?thesis using small[of j] stream_items_rs[of j pss t key] by (simp add: unat_of_nat_small del: length_concat of_nat_Suc)
  qed
  moreover have "rec_rs (snd (stream_items t key pss ! i)) < rec_rs (snd (stream_items t key pss ! j))"
    if "i < j" "j < length (concat pss)" for i j
  proof -
    have "(of_nat (Suc i) :: 64 word) < of_nat (Suc j)" using that small[of j] small[of i] by (subst of_nat_less_word) simp_all
    then show ?thesis using that by (simp add: stream_items_rs del: length_concat of_nat_Suc)
  qed
  ultimately show ?thesis unfolding in_order_def sorted_wrt_iff_nth_less by (simp del: length_concat)
qed

lemma past_stream:
  assumes "length (concat pss) < 2 ^ 63 - 1" "J < 2 ^ 63"
  shows "past (of_nat J) (stream_items t key pss) = drop J (stream_items t key pss)"
proof -
  have lt: "(of_nat J :: 64 word) < rec_rs (snd (stream_items t key pss ! j)) \<longleftrightarrow> J \<le> j" if "j < length (concat pss)" for j
    using that assms of_nat_less_word[of J "Suc j"] by (auto simp: stream_items_rs less_Suc_eq_le simp del: length_concat of_nat_Suc)
  let ?xs = "stream_items t key pss"
  have "past (of_nat J) (take J ?xs) = []"
    using lt by (auto simp: past_def filter_empty_conv in_set_conv_nth simp del: length_concat) fastforce
  moreover have "past (of_nat J) (drop J ?xs) = drop J ?xs"
  proof (rule past_all, rule ballI)
    fix x assume "x \<in> set (drop J ?xs)"
    then obtain i where "i < length (concat pss) - J" "x = ?xs ! (J + i)"
      by (auto simp: in_set_conv_nth simp del: length_concat)
    then show "of_nat J < rec_rs (snd x)" using lt[of "J + i"] by (simp del: length_concat)
  qed
  ultimately show ?thesis using past_append[of "of_nat J" "take J ?xs" "drop J ?xs"] by simp
qed

section \<open>Readers of a stream\<close>

text \<open>The reader of a peer's stream can verify it.\<close>

definition reads_stream :: "ingest_config \<Rightarrow> bytes \<Rightarrow> segment_header \<Rightarrow> bool" where
  "reads_stream cfg key t \<longleftrightarrow> template_ok t key \<and> key_for cfg t = Inr key \<and> \<not> ic_unauthenticated cfg
     \<and> sh_pub_epoch t \<noteq> 0"

lemma key_for_cong: "sh_flags h = sh_flags h' \<Longrightarrow> sh_key_epoch h = sh_key_epoch h' \<Longrightarrow> key_for cfg h = key_for cfg h'"
  by (cases "ic_keys cfg") (simp_all add: key_for_def authenticated_def)

lemma concat_take_le: "length (concat (take i pss)) \<le> length (concat pss)"
  by (metis append_take_drop_id concat_append length_append le_add1)

lemma concat_take_Suc: "i < length pss \<Longrightarrow> length (concat (take (Suc i) pss)) = length (concat (take i pss)) + length (pss ! i)"
  by (simp add: take_Suc_conv_app_nth del: length_concat) 

lemma seg_header_readable:
  assumes "reads_stream cfg key t" "small_stream pss" "i < length pss"
  shows "readable cfg (sh_peer t) key (seg_header t pss i)"
proof -
  have "(of_nat (Suc i) :: 64 word) \<noteq> 0" using assms(2,3) by (intro of_nat_nonzero) (simp_all add: small_stream_def)
  moreover have "(of_nat (Suc (length (concat (take i pss)))) :: 64 word) \<noteq> 0"
    using assms(2) concat_take_le[of i pss] by (intro of_nat_nonzero) (simp_all add: small_stream_def del: length_concat)
  ultimately have "segment_ok (seg_header t pss i) key"
    using assms(1) unfolding seg_header_def reads_stream_def by (blast intro: template_header)
  moreover have "key_for cfg (seg_header t pss i) = key_for cfg t" by (rule key_for_cong) simp_all
  ultimately show ?thesis using assms(1) by (simp add: readable_def reads_stream_def)
qed

text \<open>A stream with a tail that fits the read cap.\<close>

definition tailed :: "segment_header \<Rightarrow> bytes \<Rightarrow> bytes list list \<Rightarrow> bytes \<Rightarrow> bool" where
  "tailed t key pss rest \<longleftrightarrow> small_stream pss \<and> pss \<noteq> []
     \<and> (rest = [] \<or> unfinished t key pss rest \<and> segment_len (last pss) + length rest \<le> max_segment_read)"

lemma held_segment_at:
  assumes "tailed t key pss rest" "i < length pss"
  shows "holds_segment (held_file key (stream_held t pss rest ! i)) (seg_header t pss i) key (pss ! i)
     (if Suc i = length pss then rest else [])"
proof -
  have ne: "pss \<noteq> []" and small: "small_stream pss" using assms(1) by (simp_all add: tailed_def)
  have len: "segment_len (pss ! i) \<le> max_segment_read" "within_cap (pss ! i)"
    using small assms(2) by (auto simp: small_stream_def within_cap_def)
  have le: "length (concat (take i pss)) + length (pss ! i) \<le> length (concat pss)"
    using concat_take_le[of "Suc i" pss] concat_take_Suc[OF assms(2)] by simp
  then have "unat (of_nat (Suc (length (concat (take i pss)))) :: 64 word) + length (pss ! i) < 2 ^ 64"
    using small by (subst unat_of_nat_small) (simp_all add: small_stream_def del: length_concat)
  moreover have "rest = [] \<or> torn_frame (seg_header t pss i) key
      (of_nat (Suc (length (concat (take i pss)))) + of_nat (length (pss ! i))) rest
      \<and> segment_len (pss ! i) + length rest \<le> max_segment_read" if "Suc i = length pss"
  proof -
    have i: "i = length pss - 1" using that by simp
    then have "seg_header t pss i = newest_header t pss" "pss ! i = last pss"
      using seg_header_last[OF ne] last_conv_nth[OF ne] by simp_all
    with assms(1) newest_rs[OF ne, of t] seg_header_fields(3)[of t pss i] show ?thesis
      by (auto simp: tailed_def unfinished_def simp del: of_nat_Suc length_concat)
  qed
  ultimately show ?thesis
    using len assms(2) by (auto simp: holds_segment_def held_file_def stream_held_def file_of_def length_segment_bytes
      simp del: of_nat_Suc length_concat)
qed

lemma pollable_stream:
  assumes "reads_stream cfg key t" "tailed t key pss rest" "rest = [] \<or> newest \<le> of_nat (length pss)"
  shows "pollable cfg (sh_peer t) key (sh_pub_epoch t) newest (map (held_file key) (drop a (stream_held t pss rest)))
    (drop a (stream_held t pss rest))"
proof -
  have small: "small_stream pss" using assms(2) by (simp add: tailed_def)
  have "in_order (held_items key (stream_held t pss rest))"
    unfolding held_items_stream using small by (intro stream_in_order) (simp add: small_stream_def)
  moreover have "held_items key (stream_held t pss rest)
      = held_items key (take a (stream_held t pss rest)) @ held_items key (drop a (stream_held t pss rest))"
    by (metis append_take_drop_id concat_append held_items_def map_append)
  ultimately have "in_order (held_items key (drop a (stream_held t pss rest)))"
    using in_order_append by metis
  moreover have "case stream_held t pss rest ! i of (h, ps, r) \<Rightarrow> holds_segment (held_file key (stream_held t pss rest ! i)) h key ps r
      \<and> readable cfg (sh_peer t) key h \<and> sh_pub_epoch h = sh_pub_epoch t
      \<and> (r = [] \<or> \<not> sf_no (held_file key (stream_held t pss rest ! i)) < newest)" if "i < length pss" for i
    using held_segment_at[OF assms(2) that] seg_header_readable[OF assms(1) small that] assms(3) that
    by (auto simp: stream_held_def held_file_def file_of_def simp del: of_nat_Suc)
  ultimately show ?thesis
    by (auto simp: pollable_def list_all2_conv_all_nth stream_held_def)
qed

text \<open>The last record of the segments from one on.\<close>

lemma reach_all_append: "reach_all (xs @ ys) s = reach_all ys (reach_all xs s)"
  by (induction xs arbitrary: s) auto

lemma reach_stream:
  assumes "small_stream pss" "a \<le> n" "n \<le> length pss" "length (concat (take a pss)) \<le> J" "J < 2 ^ 63"
  shows "reach_all (map (\<lambda>i. (seg_header t pss i, pss ! i, f i)) [a ..< n]) (of_nat J)
    = of_nat (max J (length (concat (take n pss))))"
  using assms(2,3)
proof (induction n)
  case 0
  then show ?case using assms(4) by (simp add: max_def)
next
  case (Suc n)
  show ?case
  proof (cases "a = Suc n")
    case True
    then show ?thesis using assms(4) by (simp add: max_absorb1 del: length_concat)
  next
    case False
    let ?b = "length (concat (take n pss))"
    have n: "n < length pss" using Suc.prems by simp
    have small: "length (concat (take (Suc n) pss)) < 2 ^ 63"
      using concat_take_le[of "Suc n" pss] assms(1) by (simp add: small_stream_def del: length_concat)
    have split: "length (concat (take (Suc n) pss)) = ?b + length (pss ! n)" by (rule concat_take_Suc[OF n])
    have "max (of_nat x) (of_nat y) = (of_nat (max x y) :: 64 word)" if "x < 2 ^ 64" "y < 2 ^ 64" for x y
      using of_nat_le_word[OF that] by (simp add: max_def)
    then have "max (of_nat (max J ?b)) (of_nat (?b + length (pss ! n)) :: 64 word) = of_nat (max J (?b + length (pss ! n)))"
      using small assms(5) unfolding split by (simp add: max_def del: length_concat of_nat_add)
    then have "reach (seg_header t pss n) (pss ! n) (of_nat (max J ?b)) = of_nat (max J (?b + length (pss ! n)))"
      by (simp add: reach_def del: length_concat)
    then show ?thesis
      using False Suc n split by (simp add: reach_all_append del: length_concat)
  qed
qed

section \<open>One poll\<close>

lemma drop_stream_held:
  "drop a (stream_held t pss rest) = map (\<lambda>i. (seg_header t pss i, pss ! i, if Suc i = length pss then rest else [])) [a ..< length pss]"
  by (simp add: stream_held_def drop_map)

lemma past_dropped:
  assumes "small_stream pss" "length (concat (take a pss)) \<le> J" "J < 2 ^ 63"
  shows "past (of_nat J) (held_items key (drop a (stream_held t pss rest))) = drop J (stream_items t key pss)"
proof -
  let ?X = "held_items key (take a (stream_held t pss rest))" let ?Y = "held_items key (drop a (stream_held t pss rest))"
  let ?k = "min a (length pss)"
  have "?X @ ?Y = stream_items t key pss"
    unfolding held_items_stream[of key t pss rest, symmetric]
    by (metis append_take_drop_id concat_append held_items_def map_append)
  moreover have "take a (stream_held t pss rest)
      = map (\<lambda>i. (seg_header t pss i, pss ! i, if Suc i = length pss then rest else [])) [0 ..< ?k]"
    by (simp add: stream_held_def take_map min_def)
  then have "?X = concat (map (\<lambda>i. segment_items (seg_header t pss i) key (pss ! i)) [0 ..< ?k])"
    by (simp add: held_items_def comp_def)
  then have numbers: "map (\<lambda>x. rec_rs (snd x)) ?X = map (\<lambda>j. of_nat (Suc j)) [0 ..< length (concat (take a pss))]"
    using stream_items_upto[of ?k pss t key] by (simp add: min_def del: of_nat_Suc length_concat split: if_splits)
  have "past (of_nat J) ?X = []"
  proof -
    have "\<not> of_nat J < rec_rs (snd x)" if x: "x \<in> set ?X" for x
    proof -
      have "rec_rs (snd x) \<in> set (map (\<lambda>x. rec_rs (snd x)) ?X)" using x by force
      then obtain j where j: "j < length (concat (take a pss))" "rec_rs (snd x) = of_nat (Suc j)"
        unfolding numbers by (auto simp del: of_nat_Suc length_concat)
      then have "\<not> J < Suc j" "Suc j < 2 ^ 64" using assms(2,3) by simp_all
      then show ?thesis unfolding j(2) using of_nat_less_word[of J "Suc j"] assms(3) by simp
    qed
    then show ?thesis by (auto simp: past_def filter_empty_conv)
  qed
  ultimately show ?thesis
    using past_append[of "of_nat J" ?X ?Y] past_stream[of pss J t key] assms(1,3) by (simp add: small_stream_def)
qed

lemma delivered_in_stream:
  assumes "small_stream pss" "delivered_in (drop a (stream_held t pss rest)) (of_nat F) g" "F < 2 ^ 63"
  shows "\<exists>i. g = of_nat (Suc i) \<and> i < length pss \<and> length (concat (take i pss)) \<le> F"
proof -
  from assms(2) obtain i where i: "i < length pss" "g = of_nat (Suc i)" "pss ! i \<noteq> []"
    and last: "sh_first_rs (seg_header t pss i) + of_nat (length (pss ! i)) - 1 \<le> of_nat F"
    unfolding delivered_in_def drop_stream_held by (auto simp del: of_nat_Suc seg_header_fields(3))
  let ?m = "length (concat (take (Suc i) pss))"
  have m: "?m = length (concat (take i pss)) + length (pss ! i)" by (rule concat_take_Suc[OF i(1)])
  have "sh_first_rs (seg_header t pss i) + of_nat (length (pss ! i)) - 1 = of_nat ?m"
    unfolding m by (simp add: algebra_simps del: length_concat)
  with last have "(of_nat ?m :: 64 word) \<le> of_nat F" by simp
  moreover have "?m < 2 ^ 64" using concat_take_le[of "Suc i" pss] assms(1) by (simp add: small_stream_def del: length_concat)
  ultimately have "?m \<le> F" using assms(3) of_nat_le_word[of ?m F] by simp
  with i(1,2) m show ?thesis by (intro exI[of _ i]) simp
qed

text \<open>Where the reader stands: no row before the first poll, the row of a segment not passed after it.\<close>

definition row_in :: "segment_header \<Rightarrow> bytes list list \<Rightarrow> relay_store \<Rightarrow> nat \<Rightarrow> nat \<Rightarrow> bool" where
  "row_in t pss s J g \<longleftrightarrow> row_at (sh_peer t) s (sh_pub_epoch t) (of_nat J) (of_nat g) \<and> 0 < g
     \<and> length (concat (take (g - 1) pss)) \<le> J"

definition stands :: "segment_header \<Rightarrow> bytes list list \<Rightarrow> relay_store \<Rightarrow> nat \<Rightarrow> nat \<Rightarrow> bool" where
  "stands t pss s J g \<longleftrightarrow> (if g = 0 then J = 0 \<and> find_ingest (sh_peer t) s = None else row_in t pss s J g)"

definition reader_at :: "segment_header \<Rightarrow> bytes list list \<Rightarrow> relay_store \<Rightarrow> nat \<Rightarrow> bool" where
  "reader_at t pss s J \<longleftrightarrow> J \<le> length (concat pss) \<and> (\<exists>g \<le> length pss. stands t pss s J g)"

lemma row_in_stands: "row_in t pss s J g \<Longrightarrow> stands t pss s J g"
  by (simp add: stands_def row_in_def)

lemma template_peer: "template_ok t key \<Longrightarrow> peer_id_pattern (sh_peer t)"
  by (simp add: template_ok_def)

lemma peer_nonempty: "template_ok t key \<Longrightarrow> sh_peer t \<noteq> []"
  by (auto simp: template_ok_def peer_id_pattern_def)

lemma poll_from_row:
  assumes "reads_stream cfg key t" "tailed t key vss rest" "rest = [] \<or> newest \<le> of_nat (length vss)"
    and "row_in t vss s J g" "length (concat (take a vss)) \<le> J" "J < 2 ^ 63" "ip_epoch pos = sh_pub_epoch t" "ip_rs pos = of_nat J"
  shows "\<exists>stats' s' g' pos'.
    ingest_segments cfg c e (sh_peer t) newest (map (held_file key) (drop a (stream_held t vss rest)) @ gs) pos (stats, s)
      = ingest_segments cfg c e (sh_peer t) newest gs pos' (stats', s')
    \<and> (stats', rs_db s') = process cfg c e (sh_peer t) (drop J (stream_items t key vss)) (stats, rs_db s)
    \<and> row_in t vss s' (max J (length (concat vss))) g' \<and> (g' = g \<or> g' \<le> length vss)"
proof -
  let ?a = "min a (length vss)" let ?held = "drop a (stream_held t vss rest)"
  have small: "small_stream vss" using assms(2) by (simp add: tailed_def)
  have row: "row_at (sh_peer t) s (sh_pub_epoch t) (of_nat J) (of_nat g)" "0 < g" "length (concat (take (g - 1) vss)) \<le> J"
    using assms(4) by (simp_all add: row_in_def)
  have F: "max J (length (concat vss)) < 2 ^ 63" using assms(6) small by (simp add: small_stream_def)
  have same: "drop a (stream_held t vss rest) = drop ?a (stream_held t vss rest)" "take a vss = take ?a vss"
    by (simp_all add: min_def stream_held_def)
  have "reach_all ?held (of_nat J) = of_nat (max J (length (concat (take (length vss) vss))))"
    unfolding same(1) unfolding drop_stream_held
    using assms(5) unfolding same(2) by (intro reach_stream[OF small min.cobounded2 order_refl _ assms(6)])
  then have reach: "reach_all ?held (ip_rs pos) = of_nat (max J (length (concat vss)))" using assms(8) by simp
  have J: "unat (ip_rs pos) < 2 ^ 63" using assms(6,8) by (simp add: unat_of_nat_small)
  have past: "past (ip_rs pos) (held_items key ?held) = drop J (stream_items t key vss)"
    unfolding assms(8) by (rule past_dropped[OF small assms(5,6)])
  have auth: "\<not> ic_unauthenticated cfg" and peer: "peer_id_pattern (sh_peer t)"
    using assms(1) by (auto simp: reads_stream_def intro: template_peer)
  have row': "row_at (sh_peer t) (snd (stats, s)) (sh_pub_epoch t) (ip_rs pos) (of_nat g)" using row(1) assms(8) by simp
  from ingest_segments_held[OF pollable_stream[OF assms(1-3), of a] peer auth assms(7) row' J, where c = c and e = e and gs = gs, unfolded reach past]
  obtain stats' s' g1 pos' where out:
    "ingest_segments cfg c e (sh_peer t) newest (map (held_file key) ?held @ gs) pos (stats, s)
      = ingest_segments cfg c e (sh_peer t) newest gs pos' (stats', s')"
    "(stats', rs_db s') = process cfg c e (sh_peer t) (drop J (stream_items t key vss)) (stats, rs_db s)"
    "row_at (sh_peer t) s' (sh_pub_epoch t) (of_nat (max J (length (concat vss)))) g1"
    "g1 = of_nat g \<or> delivered_in ?held (of_nat (max J (length (concat vss)))) g1" by auto
  have "\<exists>g'. g1 = of_nat g' \<and> 0 < g' \<and> length (concat (take (g' - 1) vss)) \<le> max J (length (concat vss)) \<and> (g' = g \<or> g' \<le> length vss)"
  proof (cases "g1 = of_nat g")
    case True
    with row(2,3) show ?thesis by (intro exI[of _ g]) (simp del: length_concat)
  next
    case False
    with out(4) obtain i where "g1 = of_nat (Suc i)" "i < length vss" "length (concat (take i vss)) \<le> max J (length (concat vss))"
      using delivered_in_stream[OF small _ F] by blast
    then show ?thesis by (intro exI[of _ "Suc i"]) (simp del: length_concat of_nat_Suc)
  qed
  then obtain g' where "g1 = of_nat g'" "0 < g'" "length (concat (take (g' - 1) vss)) \<le> max J (length (concat vss))" "g' = g \<or> g' \<le> length vss"
    by blast
  with out(1-3) show ?thesis unfolding row_in_def by blast
qed

lemma row_at_store: "row_at peer (s\<lparr>rs_db := d\<rparr>) ep rs g = row_at peer s ep rs g"
  by (simp add: row_at_def find_ingest_def)

lemma poll_first:
  assumes "reads_stream cfg key t" "tailed t key vss rest" "rest = [] \<or> newest \<le> of_nat (length vss)"
    and "find_ingest (sh_peer t) s = None" "pos = \<lparr>ip_segment = 0, ip_rs = 0, ip_epoch = 0\<rparr>"
  shows "\<exists>stats' s' g' pos'.
    ingest_segments cfg c e (sh_peer t) newest (map (held_file key) (stream_held t vss rest) @ gs) pos (stats, s)
      = ingest_segments cfg c e (sh_peer t) newest gs pos' (stats', s')
    \<and> (stats', rs_db s') = process cfg c e (sh_peer t) (stream_items t key vss) (stats, rs_db s)
    \<and> row_in t vss s' (length (concat vss)) g' \<and> g' \<le> length vss"
proof -
  have ne: "vss \<noteq> []" and small: "small_stream vss" using assms(2) by (simp_all add: tailed_def)
  have auth: "\<not> ic_unauthenticated cfg" and peer: "peer_id_pattern (sh_peer t)" "sh_peer t \<noteq> []" and ep: "sh_pub_epoch t \<noteq> 0"
    using assms(1) template_peer[of t key] peer_nonempty[of t key] by (simp_all add: reads_stream_def)
  let ?h = "seg_header t vss 0" let ?ps = "vss ! 0" let ?r = "if Suc 0 = length vss then rest else []"
  let ?f = "held_file key (?h, ?ps, ?r)" let ?n = "length ?ps"
  have held: "stream_held t vss rest = (?h, ?ps, ?r) # drop 1 (stream_held t vss rest)"
    using ne by (cases vss) (simp_all add: stream_held_def upt_conv_Cons del: upt_Suc)
  have n: "?n \<le> length (concat vss)" using ne by (cases vss) simp_all
  then have nsmall: "?n < 2 ^ 63" using small by (simp add: small_stream_def)
  have hseg: "holds_segment ?f ?h key ?ps ?r"
    using held_segment_at[OF assms(2), of 0] ne by (simp add: stream_held_def)
  have first: "sh_first_rs ?h = 1" "scan_start ?h pos = 0" using ep assms(5) by (simp_all add: scan_start_def)
  have reach: "reach ?h ?ps 0 = of_nat ?n" by (simp add: reach_def first(1) del: seg_header_fields(3))
  have sealed: "?r = [] \<or> \<not> sf_no ?f < newest"
    using assms(3) by (auto simp: held_file_def file_of_def simp del: of_nat_Suc)
  let ?items = "segment_items ?h key ?ps"
  have past0: "past 0 ?items = ?items"
  proof (rule past_all, rule ballI)
    fix x assume "x \<in> set ?items"
    then have "rec_rs (snd x) \<in> set (map rec_rs (records_of ?h key 1 ?ps))"
      using first(1) by (auto simp: segment_items_def)
    then obtain j where "j < ?n" "rec_rs (snd x) = of_nat (Suc j)" unfolding records_of_numbers by auto
    then show "0 < rec_rs (snd x)" using of_nat_nonzero[of "Suc j"] nsmall by (simp add: word_neq_0_conv del: of_nat_Suc)
  qed
  define st1 where "st1 = process cfg c e (sh_peer t) ?items (stats, rs_db s)"
  have seg: "ingest_segment cfg c e (sh_peer t) ?f (sf_no ?f < newest) pos (stats, rs_db s) =
     (\<lparr>oc_reached = \<lparr>cur_segment = 1, cur_rs = of_nat ?n, cur_epoch = sh_pub_epoch t\<rparr>, oc_truncated = (?r \<noteq> []),
        oc_verdict = None\<rparr>, False, st1)"
    using ingest_held_segment[OF seg_header_readable[OF assms(1) small] hseg peer(2) auth sealed, of c e pos "(stats, rs_db s)"]
      ne first reach past0 by (simp add: st1_def)
  let ?new = "\<lparr>ip_segment = 1, ip_rs = of_nat ?n, ip_epoch = sh_pub_epoch t\<rparr>" let ?store = "s\<lparr>rs_db := snd st1\<rparr>"
  have moves: "advances pos ?new" using ep assms(5) by (simp add: advances_def word_neq_0_conv)
  obtain s1 where s1: "advance_relay_ingest_cursor (sh_peer t) ?new ?store = Inr s1" by (rule advance_total[OF peer(1)])
  have row1: "row_at (sh_peer t) s1 (sh_pub_epoch t) (of_nat ?n) 1"
    by (rule new_row_at[OF _ s1]) (use assms(4) in \<open>simp add: find_ingest_def\<close>)
  have db1: "rs_db s1 = snd st1" using find_ingest_advance(3)[OF s1] by simp
  have step: "ingest_segments cfg c e (sh_peer t) newest (map (held_file key) (stream_held t vss rest) @ gs) pos (stats, s)
      = ingest_segments cfg c e (sh_peer t) newest (map (held_file key) (drop 1 (stream_held t vss rest)) @ gs) ?new (fst st1, s1)"
    by (subst held) (use seg s1 moves in \<open>cases st1; simp add: next_position_def Let_def\<close>)
  have row: "row_in t vss s1 ?n 1" using row1 by (simp add: row_in_def)
  have one: "length (concat (take 1 vss)) \<le> ?n" using ne by (cases vss) simp_all
  have items: "drop ?n (stream_items t key vss) = drop (length ?items) (stream_items t key vss)" "take (length ?items) (stream_items t key vss) = ?items"
    using ne by (cases vss; simp add: stream_items_def segment_items_def upt_conv_Cons del: upt_Suc)+
  have all: "process cfg c e (sh_peer t) (drop ?n (stream_items t key vss)) st1
      = process cfg c e (sh_peer t) (stream_items t key vss) (stats, rs_db s)"
    unfolding st1_def process_append[symmetric] items(1) by (metis append_take_drop_id items(2))
  have "max ?n (length (concat vss)) = length (concat vss)" using n by (rule max_absorb2)
  moreover have "g' = 1 \<or> g' \<le> length vss \<Longrightarrow> g' \<le> length vss" for g' using ne by (cases vss) auto
  moreover have "(fst st1, rs_db s1) = st1" unfolding db1 by simp
  ultimately show ?thesis
    using poll_from_row[OF assms(1-3) row one nsmall, where c = c and e = e and gs = gs and pos = ?new and stats = "fst st1"]
    unfolding step all[symmetric] by (metis (no_types, lifting) ingest_position.select_convs(2,3))
qed

text \<open>The position a poll starts from.\<close>

definition position_at :: "segment_header \<Rightarrow> nat \<Rightarrow> nat \<Rightarrow> ingest_position" where
  "position_at t J g = \<lparr>ip_segment = of_nat g, ip_rs = of_nat J, ip_epoch = (if g = 0 then 0 else sh_pub_epoch t)\<rparr>"

lemma poll_any:
  assumes "reads_stream cfg key t" "vss = [] \<and> rest = [] \<or> tailed t key vss rest" "rest = [] \<or> newest \<le> of_nat (length vss)"
    and "stands t vss s J g" "J < 2 ^ 63"
  shows "\<exists>stats' s' g' pos'.
    ingest_segments cfg c e (sh_peer t) newest (map (held_file key) (drop (g - 1) (stream_held t vss rest)) @ gs) (position_at t J g) (stats, s)
      = ingest_segments cfg c e (sh_peer t) newest gs pos' (stats', s')
    \<and> (stats', rs_db s') = process cfg c e (sh_peer t) (drop J (stream_items t key vss)) (stats, rs_db s)
    \<and> stands t vss s' (max J (length (concat vss))) g' \<and> (g' = g \<or> g' \<le> length vss)"
proof (cases "vss = []")
  case True
  then show ?thesis using assms(4)
    by (intro exI[of _ stats] exI[of _ s] exI[of _ g] exI[of _ "position_at t J g"])
      (simp add: stream_held_def stream_items_def process_def)
next
  case ne: False
  with assms(2) have tailed: "tailed t key vss rest" by simp
  show ?thesis
  proof (cases "g = 0")
    case True
    with assms(4) have "J = 0" "find_ingest (sh_peer t) s = None" by (simp_all add: stands_def)
    with poll_first[OF assms(1) tailed assms(3), of s "position_at t J g" c e gs stats] True show ?thesis
      using row_in_stands by (fastforce simp: position_at_def simp del: length_concat)
  next
    case False
    with assms(4) have row: "row_in t vss s J g" by (simp add: stands_def)
    then have short: "length (concat (take (g - 1) vss)) \<le> J" by (simp add: row_in_def)
    have pos: "ip_epoch (position_at t J g) = sh_pub_epoch t" "ip_rs (position_at t J g) = of_nat J"
      using False by (simp_all add: position_at_def)
    from poll_from_row[OF assms(1) tailed assms(3) row short assms(5) pos, of c e gs stats] show ?thesis
      using row_in_stands by blast
  qed
qed

text \<open>A file whose header is not whole ends the poll without a verdict on the records before it.\<close>

lemma ingest_headless:
  assumes "length b < header_size"
  shows "ingest_segments cfg c e peer newest [file_of (no, b)] pos (stats, s)
    = (Inr (), note_stall peer no (code_of (Some ErrIncomplete)) stats, s)"
proof -
  have "length b \<le> max_segment_read" using assms by (simp add: sizes max_segment_read_def)
  then have "open_segment cfg peer (file_of (no, b)) sealed = Inl ErrIncomplete" for sealed
    using assms by (simp add: open_segment_def file_of_def read_segment_def parse_header_def)
  then show ?thesis by (simp add: ingest_segment_def failed_outcome_def next_position_def Let_def) (simp add: file_of_def)
qed

lemma relay_ingest_cursor_stands:
  assumes "stands t pss s J g" "template_ok t key" "J < 2 ^ 63" "g < 2 ^ 63"
  shows "relay_ingest_cursor (sh_peer t) s = Inr (position_at t J g)"
proof (cases "g = 0")
  case True
  with assms(1,2) show ?thesis
    by (simp add: stands_def position_at_def relay_ingest_cursor_none template_peer)
next
  case False
  have signed: "relay_unsigned (sint (of_nat n :: 64 word)) = Inr (of_nat n)" if "n < 2 ^ 63" for n
    using that sint_small[of "of_nat n"] by (simp add: relay_unsigned_def unat_of_nat_small)
  have "relay_epoch (uint ep) = Inr ep" for ep :: "16 word"
    using uint_lt2p[of ep] by (simp add: relay_epoch_def)
  with False assms signed show ?thesis
    by (simp add: stands_def row_in_def row_at_def position_at_def relay_ingest_cursor_def template_peer)
qed

section \<open>Views of a stream\<close>

text \<open>What a reader may see: the segments before one, and the first bytes of that one.\<close>

definition stream_view :: "segment_header \<Rightarrow> bytes \<Rightarrow> bytes list list \<Rightarrow> nat \<Rightarrow> nat \<Rightarrow> (64 word \<times> bytes) list" where
  "stream_view t key pss i k = take i (stream_files key (stream_segs t 1 1 pss))
     @ [(of_nat (Suc i), take k (segment_bytes (seg_header t pss i) key (pss ! i)))]"

text \<open>How many records of the stream are whole in a view.\<close>

definition view_count :: "bytes list list \<Rightarrow> nat \<Rightarrow> nat \<Rightarrow> nat" where
  "view_count pss i k = length (concat (take i pss)) + (if k < header_size then 0 else whole_frames (k - header_size) (pss ! i))"

lemma whole_frames_all: "sum_list (map (\<lambda>p. record_header_size + length p) ps) \<le> n \<Longrightarrow> whole_frames n ps = length ps"
  by (induction ps arbitrary: n) auto

lemma view_count_whole:
  assumes "pss \<noteq> []" "segment_len (last pss) \<le> k"
  shows "view_count pss (length pss - 1) k = length (concat pss)"
proof -
  have "whole_frames (k - header_size) (last pss) = length (last pss)"
    using assms(2) by (intro whole_frames_all) (simp add: segment_len_def)
  moreover have "header_size \<le> k" using assms(2) by (simp add: segment_len_def)
  moreover have "length (concat pss) = length (concat (butlast pss)) + length (last pss)"
    using arg_cong[OF concat_last[OF assms(1)], of length] by simp
  ultimately show ?thesis using last_conv_nth[OF assms(1)] by (simp add: view_count_def butlast_conv_take)
qed

lemma view_count_le: "i < length pss \<Longrightarrow> view_count pss i k \<le> length (concat pss)"
  using concat_take_Suc[of i pss] concat_take_le[of "Suc i" pss] whole_frames_le[of "k - header_size" "pss ! i"]
  unfolding view_count_def by (simp del: length_concat)

lemma seg_header_cong: "take i pss = take i qss \<Longrightarrow> seg_header t pss i = seg_header t qss i"
  by (simp add: seg_header_def)

lemma stream_items_prefix:
  assumes "i < length pss" "n \<le> length (pss ! i)"
  shows "stream_items t key (take i pss @ [take n (pss ! i)]) = take (length (concat (take i pss)) + n) (stream_items t key pss)"
    and "stream_items t key (take i pss) = take (length (concat (take i pss))) (stream_items t key pss)"
proof -
  let ?f = "\<lambda>qss i. segment_items (seg_header t qss i) key (qss ! i)"
  let ?A = "concat (map (?f pss) [0 ..< i])"
  have cong: "?f qss j = ?f pss j" if "take (Suc j) qss = take (Suc j) pss" "j < length qss" "j < length pss" for qss j
  proof -
    have "take j qss = take j pss" using arg_cong[OF that(1), of "take j"] by (simp add: min_def)
    moreover have "qss ! j = pss ! j" using arg_cong[OF that(1), of "\<lambda>xs. xs ! j"] that(2,3) by simp
    ultimately show ?thesis using seg_header_cong[of j qss pss t] by simp
  qed
  have lenA: "length ?A = length (concat (take i pss))"
    using arg_cong[OF stream_items_upto[of i pss t key], of length] assms(1) by (simp del: length_concat)
  have "[0 ..< length pss] = [0 ..< i] @ i # [Suc i ..< length pss]"
    using assms(1) upt_add_eq_append[of 0 i "length pss - i"] by (simp add: upt_conv_Cons)
  then have all: "stream_items t key pss = ?A @ ?f pss i @ concat (map (?f pss) [Suc i ..< length pss])"
    by (simp add: stream_items_def)
  have pre: "stream_items t key (take i pss) = ?A"
  proof -
    have "map (?f (take i pss)) [0 ..< i] = map (?f pss) [0 ..< i]"
      by (rule map_cong[OF refl], rule cong) (use assms(1) in \<open>auto simp: min_def\<close>)
    moreover have "length (take i pss) = i" using assms(1) by simp
    ultimately show ?thesis unfolding stream_items_def by (simp only:)
  qed
  show "stream_items t key (take i pss) = take (length (concat (take i pss))) (stream_items t key pss)"
    unfolding all pre by (simp add: lenA del: length_concat)
  let ?v = "take i pss @ [take n (pss ! i)]"
  have "map (?f ?v) [0 ..< i] = map (?f pss) [0 ..< i]"
    by (rule map_cong[OF refl], rule cong) (use assms(1) in \<open>auto simp: min_def\<close>)
  then have "concat (map (?f ?v) [0 ..< i]) = ?A" by (rule arg_cong[of _ _ concat])
  moreover have "?f ?v i = segment_items (seg_header t pss i) key (take n (pss ! i))"
    using assms(1) seg_header_cong[of i ?v pss t] by (simp add: nth_append min_def)
  moreover have "length ?v = Suc i" using assms(1) by (simp add: min_def)
  ultimately have view: "stream_items t key ?v = ?A @ segment_items (seg_header t pss i) key (take n (pss ! i))"
    by (simp add: stream_items_def)
  have "take n (?f pss i) = segment_items (seg_header t pss i) key (take n (pss ! i))"
  proof -
    have "records_of h key b ps = records_of h key b (take n ps) @ records_of h key (b + of_nat (length (take n ps))) (drop n ps)" for h b ps
      using records_of_append[of h key b "take n ps" "drop n ps"] by (simp del: length_take)
    then have "take n (records_of h key b (pss ! i)) = records_of h key b (take n (pss ! i))" for h b
      using assms(2) by (metis (no_types, lifting) append_eq_conv_conj length_records_of length_take min.absorb2)
    then show ?thesis by (simp add: segment_items_def take_map)
  qed
  moreover have "length (?f pss i) = length (pss ! i)" by (simp add: segment_items_def)
  ultimately show "stream_items t key ?v = take (length (concat (take i pss)) + n) (stream_items t key pss)"
    unfolding view all using assms(2) by (simp add: lenA del: length_concat)
qed

lemma cut_view:
  assumes "i < length pss" "small_stream pss" "header_size \<le> k"
  shows "\<exists>rest. stream_view t key pss i k
      = stream_dir t key (take i pss @ [take (whole_frames (k - header_size) (pss ! i)) (pss ! i)]) rest
    \<and> tailed t key (take i pss @ [take (whole_frames (k - header_size) (pss ! i)) (pss ! i)]) rest"
proof -
  let ?h = "seg_header t pss i" let ?ps = "pss ! i" let ?n = "whole_frames (k - header_size) ?ps"
  let ?v = "take i pss @ [take ?n ?ps]"
  have ps: "?ps \<in> set pss" using assms(1) by simp
  have cap: "within_cap ?ps" using assms(2) ps by (auto simp: small_stream_def within_cap_def)
  let ?k = "min (k - header_size) (length (frames ?h key (sh_first_rs ?h) ?ps))"
  have same: "whole_frames ?k ?ps = ?n"
    by (cases "k - header_size \<le> length (frames ?h key (sh_first_rs ?h) ?ps)")
      (simp_all add: min_def length_frames whole_frames_all)
  obtain rest where rest: "take ?k (frames ?h key (sh_first_rs ?h) ?ps) = frames ?h key (sh_first_rs ?h) (take ?n ?ps) @ rest"
    "rest = [] \<or> torn_frame ?h key (sh_first_rs ?h + of_nat ?n) rest"
    using take_frames[OF cap, of ?k ?h key "sh_first_rs ?h"] unfolding same by auto
  have bytes: "take k (segment_bytes ?h key ?ps) = segment_bytes ?h key (take ?n ?ps) @ rest"
    using assms(3) rest(1) by (simp add: segment_bytes_def min_def split: if_splits)
  have len: "length ?v = Suc i" "length (take ?n ?ps) = ?n" "take i ?v = take i pss"
    using assms(1) whole_frames_le[of "k - header_size" ?ps] by (simp_all add: min_def)
  have h: "newest_header t ?v = ?h"
    using seg_header_last[of ?v t] seg_header_cong[OF len(3), of t] len(1) by simp
  have "take i (stream_files key (stream_segs t 1 1 pss)) = stream_files key (stream_segs t 1 1 (take i pss))"
    using arg_cong[OF stream_segs_append[of t 1 1 "take i pss" "drop i pss"], of "take i"] assms(1)
    by (simp add: stream_files_def take_map)
  then have view: "stream_view t key pss i k = stream_dir t key ?v rest"
    using len(1) by (simp add: stream_view_def stream_dir_def bytes h)
  have "length (concat ?v) \<le> length (concat pss)"
    using concat_take_Suc[OF assms(1)] concat_take_le[of "Suc i" pss] len(2) whole_frames_le[of "k - header_size" ?ps]
    by (simp del: length_concat)
  moreover have "within_cap (concat ?v)"
    using assms(2) cap by (auto simp: small_stream_def within_cap_def dest!: in_set_takeD)
  moreover have fit: "segment_len (take ?n ?ps) + length rest \<le> segment_len ?ps"
    using arg_cong[OF bytes, of length] by (simp add: length_segment_bytes)
  moreover have read: "segment_len ?ps \<le> max_segment_read" using assms(2) ps by (simp add: small_stream_def)
  then have "segment_len (take ?n ?ps) \<le> max_segment_read" using fit by simp
  ultimately have "small_stream ?v"
    using assms(1,2) len(1) by (auto simp: small_stream_def dest: in_set_takeD simp del: length_concat)
  moreover have "rest = [] \<or> unfinished t key ?v rest"
    using rest(2) newest_rs[of ?v t] len(2) unfolding unfinished_def h by (simp del: of_nat_Suc length_concat)
  ultimately have "tailed t key ?v rest"
    using fit read by (simp add: tailed_def)
  with view show ?thesis by blast
qed

section \<open>A poll of a view\<close>

lemma dropWhile_numbers:
  assumes "\<And>j. j < length xs \<Longrightarrow> sf_no (xs ! j) = of_nat (Suc j)" "length xs < 2 ^ 64 - 1" "g < 2 ^ 64"
  shows "dropWhile (\<lambda>f. sf_no f < of_nat g) xs = drop (g - 1) xs"
proof -
  have less: "sf_no (xs ! j) < of_nat g \<longleftrightarrow> Suc j < g" if "j < length xs" for j
  proof -
    have "Suc j < 2 ^ 64" using that assms(2) by simp
    then show ?thesis unfolding assms(1)[OF that] using of_nat_less_word[of "Suc j" g] assms(3) by simp
  qed
  have "\<forall>x \<in> set (take (g - 1) xs). sf_no x < of_nat g"
    using less by (auto simp: in_set_conv_nth)
  then have "dropWhile (\<lambda>f. sf_no f < of_nat g) xs = dropWhile (\<lambda>f. sf_no f < of_nat g) (drop (g - 1) xs)"
    using dropWhile_append2[of "take (g - 1) xs" "\<lambda>f. sf_no f < of_nat g" "drop (g - 1) xs"] by simp
  also have "\<dots> = drop (g - 1) xs"
  proof (cases "g - 1 < length xs")
    case True
    then have "\<not> sf_no (xs ! (g - 1)) < of_nat g" using less[of "g - 1"] by simp
    with True show ?thesis by (simp add: Cons_nth_drop_Suc[symmetric])
  qed simp
  finally show ?thesis .
qed

lemma map_fst_view:
  assumes "i < length pss"
  shows "map fst (stream_view t key pss i k) = map (\<lambda>j. of_nat (Suc j)) [0 ..< Suc i]"
  using assms map_fst_stream_files[of key t pss] take_map[of i fst "stream_files key (stream_segs t 1 1 pss)"]
  by (simp add: stream_view_def take_map min_def del: of_nat_Suc)

lemma list_view:
  assumes "i < length pss" "small_stream pss"
  shows "list_segments (DirListing (dir_of (stream_view t key pss i k))) = Inr (map file_of (stream_view t key pss i k), [])"
  using assms by (intro list_segments_dir_of ascending_numbers[OF map_fst_view]) (simp_all add: small_stream_def)

lemma view_numbers:
  assumes "i < length pss"
  shows "length (stream_view t key pss i k) = Suc i"
    "j < Suc i \<Longrightarrow> sf_no (map file_of (stream_view t key pss i k) ! j) = of_nat (Suc j)"
proof -
  show len: "length (stream_view t key pss i k) = Suc i"
    using arg_cong[OF map_fst_view[OF assms, of t key k], of length] by simp
  show "sf_no (map file_of (stream_view t key pss i k) ! j) = of_nat (Suc j)" if "j < Suc i"
  proof -
    have "fst (stream_view t key pss i k ! j) = map fst (stream_view t key pss i k) ! j" using that len by simp
    also have "\<dots> = of_nat (Suc j)" unfolding map_fst_view[OF assms] using that by (simp del: upt_Suc of_nat_Suc)
    finally show ?thesis using that len by (simp add: file_of_def del: of_nat_Suc)
  qed
qed

text \<open>A view and the stream agree on the segments before the cut one.\<close>

lemma concat_take_view:
  assumes "i < length pss"
  shows "length (concat (take a (take i pss @ [take n (pss ! i)]))) \<le> length (concat (take a pss))"
proof (cases "a \<le> i")
  case True
  then show ?thesis using assms by (simp add: min_def)
next
  case False
  have "length (concat (take a (take i pss @ [take n (pss ! i)]))) \<le> length (concat (take i pss)) + length (pss ! i)"
    using False assms by (simp del: length_concat)
  also have "\<dots> = length (concat (take (Suc i) (take a pss)))"
    using concat_take_Suc[OF assms] False by (simp add: min_def)
  also have "\<dots> \<le> length (concat (take a pss))" by (rule concat_take_le)
  finally show ?thesis .
qed

lemma stands_mono:
  assumes "stands t pss s J g" "length (concat (take (g - 1) qss)) \<le> length (concat (take (g - 1) pss)) \<or> g = 0"
  shows "stands t qss s J g"
  using assms by (auto simp: stands_def row_in_def)

lemma stands_view:
  assumes "stands t vss s' F g'" "g' = g \<or> g' \<le> Suc i" "stands t pss s J g" "J \<le> F" "take i vss = take i pss"
  shows "stands t pss s' F g'"
proof (cases "g' \<le> Suc i \<or> g' = 0")
  case True
  then have "take (g' - 1) pss = take (g' - 1) vss"
    using assms(5) by (metis One_nat_def diff_le_self le_diff_conv min_def plus_1_eq_Suc add.commute take_take zero_diff take0)
  then show ?thesis using assms(1) by (intro stands_mono[OF assms(1)]) simp
next
  case False
  with assms show ?thesis by (auto simp: stands_def row_in_def)
qed

lemma poll_view:
  assumes "reads_stream cfg key t" "small_stream pss" "i < length pss" "reader_at t pss s J"
  shows "\<exists>stats1 stats' s'.
    ingest_peer cfg c e (sh_peer t) (DirListing (dir_of (stream_view t key pss i k))) (stats, s) = (Inr (), stats', s')
    \<and> (stats1, rs_db s') = process cfg c e (sh_peer t) (drop J (take (view_count pss i k) (stream_items t key pss))) (stats, rs_db s)
    \<and> is_applied stats' = is_applied stats1 \<and> is_quarantines stats' = is_quarantines stats1
    \<and> reader_at t pss s' (max J (view_count pss i k))"
proof -
  have J: "J \<le> length (concat pss)" using assms(4) by (simp add: reader_at_def)
  obtain g where g: "g \<le> length pss" "stands t pss s J g" using assms(4) by (auto simp: reader_at_def)
  have small: "J < 2 ^ 63" "g < 2 ^ 63" "i < 2 ^ 63 - 1"
    using J g(1) assms(2,3) by (simp_all add: small_stream_def)
  let ?view = "stream_view t key pss i k"
  let ?fs = "map file_of ?view"
  have cursor: "relay_ingest_cursor (sh_peer t) s = Inr (position_at t J g)"
    using assms(1) small by (intro relay_ingest_cursor_stands[OF g(2), where key = key]) (simp_all add: reads_stream_def)
  have newest: "sf_no (last ?fs) = of_nat (Suc i)" by (simp add: stream_view_def file_of_def)
  have "unread ?fs (position_at t J g) = drop (g - 1) ?fs"
    unfolding unread_def position_at_def ingest_position.select_convs
    using small view_numbers[OF assms(3), where t = t and key = key and k = k] by (intro dropWhile_numbers) simp_all
  then have poll: "ingest_peer cfg c e (sh_peer t) (DirListing (dir_of ?view)) (stats, s)
      = ingest_segments cfg c e (sh_peer t) (of_nat (Suc i)) (drop (g - 1) ?fs) (position_at t J g) (stats, s)"
    unfolding ingest_peer_def list_view[OF assms(3,2)] sum.case prod.case snd_conv cursor newest
    by (simp add: stream_view_def del: of_nat_Suc)
  show ?thesis
  proof (cases "k < header_size")
    case False
    let ?n = "whole_frames (k - header_size) (pss ! i)" let ?v = "take i pss @ [take ?n (pss ! i)]"
    have n: "?n \<le> length (pss ! i)" by (rule whole_frames_le)
    obtain rest where rest: "?view = stream_dir t key ?v rest" "tailed t key ?v rest"
      using cut_view[OF assms(3,2), of k t key] False by auto
    have len: "length ?v = Suc i" "take i ?v = take i pss" "length (concat ?v) = view_count pss i k"
      using assms(3) n False by (simp_all add: view_count_def)
    have files: "drop (g - 1) ?fs = map (held_file key) (drop (g - 1) (stream_held t ?v rest)) @ []"
      unfolding rest(1) by (simp add: stream_dir_held drop_map)
    have items: "stream_items t key ?v = take (view_count pss i k) (stream_items t key pss)"
      unfolding stream_items_prefix(1)[OF assms(3) n] using False by (simp add: view_count_def)
    have st: "stands t ?v s J g" using concat_take_view[OF assms(3)] by (intro stands_mono[OF g(2)]) blast
    have "rest = [] \<or> (of_nat (Suc i) :: 64 word) \<le> of_nat (length ?v)" unfolding len(1) by simp
    from poll_any[OF assms(1) disjI2[OF rest(2)] this st small(1), of c e "[]" stats, unfolded len(3) items]
    obtain stats' s' g' where out: "ingest_segments cfg c e (sh_peer t) (of_nat (Suc i)) (drop (g - 1) ?fs) (position_at t J g) (stats, s)
        = (Inr (), stats', s')"
      "(stats', rs_db s') = process cfg c e (sh_peer t) (drop J (take (view_count pss i k) (stream_items t key pss))) (stats, rs_db s)"
      "stands t ?v s' (max J (view_count pss i k)) g'" "g' = g \<or> g' \<le> length ?v"
      unfolding files by auto
    have "stands t pss s' (max J (view_count pss i k)) g'"
      by (rule stands_view[OF out(3) _ g(2) _ len(2)]) (use out(4) len(1) in simp_all)
    moreover have "g' \<le> length pss" using out(4) g(1) len(1) assms(3) by auto
    ultimately have "reader_at t pss s' (max J (view_count pss i k))"
      using J view_count_le[OF assms(3)] unfolding reader_at_def by auto
    with out(1,2) show ?thesis unfolding poll by blast
  next
    case True
    let ?v = "take i pss" let ?bad = "file_of (of_nat (Suc i), take k (segment_bytes (seg_header t pss i) key (pss ! i)))"
    have len: "length ?v = i" "length (concat ?v) = view_count pss i k" using assms(3) True by (simp_all add: view_count_def)
    have "small_stream ?v"
      using assms(2) concat_take_le[of i pss] assms(3) unfolding small_stream_def within_cap_def
      by (auto simp del: length_concat dest: in_set_takeD)
    then have tail: "?v = [] \<and> [] = [] \<or> tailed t key ?v []" by (auto simp: tailed_def)
    have "take i (stream_files key (stream_segs t 1 1 pss)) = stream_files key (stream_segs t 1 1 ?v)"
      using arg_cong[OF stream_segs_append[of t 1 1 "take i pss" "drop i pss"], of "take i"] assms(3)
      by (simp add: stream_files_def take_map)
    then have "?fs = map file_of (stream_files key (stream_segs t 1 1 ?v)) @ [?bad]" by (simp add: stream_view_def)
    moreover have "map file_of (stream_files key (stream_segs t 1 1 ?v)) = map (held_file key) (stream_held t ?v [])"
    proof (cases "?v = []")
      case True
      show ?thesis unfolding True by (simp add: stream_files_def stream_held_def)
    next
      case False
      show ?thesis unfolding stream_dir_whole[OF False] by (rule stream_dir_held[OF False])
    qed
    ultimately have files: "drop (g - 1) ?fs = map (held_file key) (drop (g - 1) (stream_held t ?v [])) @ (if g - 1 \<le> i then [?bad] else [])"
      using len(1) by (simp add: drop_map stream_held_def)
    have items: "stream_items t key ?v = take (view_count pss i k) (stream_items t key pss)"
      unfolding stream_items_prefix(2)[OF assms(3) order_refl] using True by (simp add: view_count_def)
    have "length (concat (take a ?v)) \<le> length (concat (take a pss))" for a
      using concat_take_le[of i "take a pss"] by (simp add: min.commute)
    then have st: "stands t ?v s J g" by (intro stands_mono[OF g(2)]) blast
    from poll_any[OF assms(1) tail disjI1[OF refl] st small(1), of c e "of_nat (Suc i)" "if g - 1 \<le> i then [?bad] else []" stats, unfolded len(2) items]
    obtain stats1 s' g' pos' where out: "ingest_segments cfg c e (sh_peer t) (of_nat (Suc i)) (drop (g - 1) ?fs) (position_at t J g) (stats, s)
        = ingest_segments cfg c e (sh_peer t) (of_nat (Suc i)) (if g - 1 \<le> i then [?bad] else []) pos' (stats1, s')"
      "(stats1, rs_db s') = process cfg c e (sh_peer t) (drop J (take (view_count pss i k) (stream_items t key pss))) (stats, rs_db s)"
      "stands t ?v s' (max J (view_count pss i k)) g'" "g' = g \<or> g' \<le> length ?v"
      unfolding files by blast
    have "length (take k (segment_bytes (seg_header t pss i) key (pss ! i))) < header_size" using True by simp
    from ingest_headless[OF this] obtain stats' where
      bad: "ingest_segments cfg c e (sh_peer t) (of_nat (Suc i)) (if g - 1 \<le> i then [?bad] else []) pos' (stats1, s') = (Inr (), stats', s')"
      "is_applied stats' = is_applied stats1" "is_quarantines stats' = is_quarantines stats1"
      by (cases "g - 1 \<le> i") (simp_all add: note_stall_def)
    have "stands t pss s' (max J (view_count pss i k)) g'"
      by (rule stands_view[OF out(3) _ g(2), where i = i]) (use out(4) len(1) in auto)
    moreover have "g' \<le> length pss" using out(4) g(1) len(1) assms(3) by auto
    ultimately have "reader_at t pss s' (max J (view_count pss i k))"
      using J view_count_le[OF assms(3)] unfolding reader_at_def by auto
    with out(1,2) bad show ?thesis unfolding poll by metis
  qed
qed

end
