(* ===== verification/Relay_Publisher.thy ===== *)
theory Relay_Publisher
  imports Relay_Ingest Relay_Writer
begin

text \<open>
  Publishing the journal (\<open>internal/relay/publisher/publisher.go\<close>, \<open>republish.go\<close>): the pass that
  frames the rows past the push cursor onto this peer's segments, the verification of the published
  tail against the journal, the reset to a new epoch and the republication from a position; and
  one relay pass (\<open>internal/relay/tick/tick.go\<close>). The segments are the writer's medium.
\<close>

section \<open>The publisher\<close>

datatype publish_error =
    PubStore go_error
  | PubRelay relay_error
  | PubDiverged
  | PubEncode string
  | PubNoEventId "64 word"
  | PubNotPublished "64 word"
  | PubNotInJournal "64 word"

definition publisher_code :: "publish_error option \<Rightarrow> string" where
  "publisher_code e = (if e = Some PubDiverged then ''RELAY_PUBLISHER_DIVERGED'' else [])"

record publisher_config =
  pc_peer :: string
  pc_key :: bytes
  pc_unauthenticated :: bool
  pc_key_epoch :: "16 word"
  pc_max_bytes :: int
  pc_batch :: int

record publisher =
  pu_cfg :: publisher_config
  pu_verified :: bool
  pu_diverged :: bool
  pu_verified_gen :: int
  pu_verified_tail :: int
  pu_published :: int
  pu_failures :: int
  pu_last_err :: "publish_error option"
  pu_force_rotate :: bool

definition default_batch_limit :: int where "default_batch_limit = 500"

definition tail_verify_depth :: nat where "tail_verify_depth = 8"

definition new_publisher :: "publisher_config \<Rightarrow> publisher option" where
  "new_publisher cfg =
     (if \<not> peer_id_pattern (pc_peer cfg) then None
      else if pc_unauthenticated cfg = (pc_key cfg \<noteq> []) then None
      else Some \<lparr>pu_cfg = cfg\<lparr>pc_batch := (if pc_batch cfg \<le> 0 then default_batch_limit else pc_batch cfg)\<rparr>,
        pu_verified = False, pu_diverged = False, pu_verified_gen = 0, pu_verified_tail = 0,
        pu_published = 0, pu_failures = 0, pu_last_err = None, pu_force_rotate = False\<rparr>)"

definition attest :: "int \<Rightarrow> int \<Rightarrow> publisher \<Rightarrow> publisher" where
  "attest gen tail p = p\<lparr>pu_verified := True, pu_verified_gen := gen, pu_verified_tail := tail\<rparr>"

section \<open>The published tail\<close>

definition record_event_id :: "codec \<Rightarrow> relay_record \<Rightarrow> publish_error + string" where
  "record_event_id c r = (case cd_event_id c (rec_body r) of
     None \<Rightarrow> Inl (PubNoEventId (rec_rs r))
   | Some i \<Rightarrow> if i = [] then Inl (PubNoEventId (rec_rs r)) else Inr i)"

fun record_event_ids :: "codec \<Rightarrow> relay_record list \<Rightarrow> publish_error + string list" where
  "record_event_ids c [] = Inr []"
| "record_event_ids c (r # rs) =
     bind_result (record_event_id c r) (\<lambda>i. bind_result (record_event_ids c rs) (\<lambda>is. Inr (i # is)))"

definition lift_relay :: "'a relay_result \<Rightarrow> publish_error + 'a" where
  "lift_relay r = (case r of Inl e \<Rightarrow> Inl (PubRelay e) | Inr x \<Rightarrow> Inr x)"

definition last_records :: "nat \<Rightarrow> 'a list \<Rightarrow> 'a list" where
  "last_records n xs = drop (length xs - n) xs"

definition published_tail_ids :: "codec \<Rightarrow> publisher_config \<Rightarrow> medium \<Rightarrow> publish_error + string list" where
  "published_tail_ids c cfg m =
     bind_result (lift_relay (list_segments (md_path m))) (\<lambda>(segs, _).
       if segs = [] then Inr []
       else bind_result (lift_relay (scan_file (sf_entry (last segs))
              \<lparr>so_sealed = False, so_key = pc_key cfg, so_tolerate = False, so_expect_peer = pc_peer cfg\<rparr>)) (\<lambda>res.
                record_event_ids c (last_records tail_verify_depth (sr_records res))))"

text \<open>Every published event is in the journal, in the published order.\<close>

fun tail_matches :: "(string \<Rightarrow> int option) \<Rightarrow> int option \<Rightarrow> string list \<Rightarrow> bool" where
  "tail_matches seqs prev [] = True"
| "tail_matches seqs prev (i # is) =
     (case seqs i of None \<Rightarrow> False
      | Some q \<Rightarrow> (case prev of None \<Rightarrow> True | Some p \<Rightarrow> \<not> q \<le> p) \<and> tail_matches seqs (Some q) is)"

definition verify_tail :: "codec \<Rightarrow> relay_store \<Rightarrow> medium \<Rightarrow> publisher \<Rightarrow> publish_error option \<times> publisher" where
  "verify_tail c s m p =
     (let gen = journal_generation s; tail = journal_tail s
      in if pu_verified p \<and> gen = pu_verified_gen p \<and> pu_verified_tail p \<le> tail then (None, p)
         else let p1 = p\<lparr>pu_verified := False\<rparr>
           in case published_tail_ids c (pu_cfg p) m of
                Inl err \<Rightarrow> (Some err, p1)
              | Inr ids \<Rightarrow>
                  if tail_matches (lookup_relay_journal_seqs ids s) None ids then (None, attest gen tail p1)
                  else (Some PubDiverged, p1\<lparr>pu_diverged := True\<rparr>))"

section \<open>One publication\<close>

text \<open>The loop over the rows: how many were appended and what stopped it.\<close>

datatype publish_stop = StopEncode string | StopAppend relay_error

fun publish_rows :: "codec \<Rightarrow> (int \<times> sync_event) list \<Rightarrow> nat \<Rightarrow> writer \<times> medium
     \<Rightarrow> nat \<times> publish_stop option \<times> writer \<times> medium" where
  "publish_rows c [] n st = (n, None, st)"
| "publish_rows c (rw # rows) n st =
     (case cd_encode c (snd rw) of
        None \<Rightarrow> (n, Some (StopEncode (ev_id (snd rw))), st)
      | Some payload \<Rightarrow>
          (case append_payload payload st of
             (Inl err, st') \<Rightarrow> (n, Some (StopAppend err), st')
           | (Inr _, st') \<Rightarrow> publish_rows c rows (Suc n) st'))"

text \<open>\<open>bank\<close>: what was appended before a failed append is in the cursor.\<close>

definition bank :: "(int \<times> sync_event) list \<Rightarrow> nat \<Rightarrow> writer \<Rightarrow> relay_store \<Rightarrow> relay_store" where
  "bank rows appended w s =
     (if appended = 0 then s else advance_relay_push_cursor (fst (rows ! (appended - 1))) (w_next_rs w) s)"

definition publish_config :: "publisher_config \<Rightarrow> push_position \<Rightarrow> writer_config" where
  "publish_config cfg pos = \<lparr>wc_peer = pc_peer cfg, wc_key = pc_key cfg, wc_unauthenticated = pc_unauthenticated cfg,
     wc_key_epoch = pc_key_epoch cfg, wc_pub_epoch = pp_epoch pos, wc_next_rs = pp_next_rs pos,
     wc_max_bytes = pc_max_bytes cfg\<rparr>"

text \<open>The writer's half of a publication; the deferred close runs on every exit.\<close>

definition publish_with ::
  "codec \<Rightarrow> (int \<times> sync_event) list \<Rightarrow> publisher \<times> relay_store \<Rightarrow> writer \<times> medium
     \<Rightarrow> nat \<times> publish_error option \<times> publisher \<times> relay_store \<times> medium" where
  "publish_with c rows ps wm =
     (case ps of (p, s) \<Rightarrow>
       (let closed_medium = (\<lambda>st. snd (snd (close_writer st))) in
        case (if pu_force_rotate p then rotate_writer wm else (Inr (), wm)) of
          (Inl err, wm') \<Rightarrow> (0, Some (PubRelay err), p, s, closed_medium wm')
        | (Inr _, wm') \<Rightarrow>
            (let p1 = p\<lparr>pu_force_rotate := False\<rparr>
             in case publish_rows c rows 0 wm' of
               (n, None, w, m) \<Rightarrow>
                 (n, None, p1, advance_relay_push_cursor (fst (last rows)) (w_next_rs w) s, closed_medium (w, m))
             | (n, Some (StopEncode i), w, m) \<Rightarrow> (n, Some (PubEncode i), p1, s, closed_medium (w, m))
             | (n, Some (StopAppend err), w, m) \<Rightarrow>
                 (n, Some (PubRelay err), p1, bank rows n w s, closed_medium (w, m)))))"

definition publish :: "codec \<Rightarrow> publisher \<times> relay_store \<times> medium
     \<Rightarrow> nat \<times> publish_error option \<times> publisher \<times> relay_store \<times> medium" where
  "publish c st =
     (case st of (p, s, m) \<Rightarrow>
       if pu_diverged p then (0, Some PubDiverged, p, s, m)
       else case relay_push_cursor s of
         Inl err \<Rightarrow> (0, Some (PubStore err), p, s, m)
       | Inr pos \<Rightarrow>
           (case verify_tail c s m p of
              (Some err, p1) \<Rightarrow> (0, Some err, p1, s, m)
            | (None, p1) \<Rightarrow>
                (let rows = read_relay_journal_since (pp_seq pos) (pc_batch (pu_cfg p)) s
                 in if rows = [] then (0, None, p1, s, m)
                    else case new_writer (publish_config (pu_cfg p) pos) m of
                      (Inl err, m1) \<Rightarrow> (0, Some (PubRelay err), p1, s, m1)
                    | (Inr w, m1) \<Rightarrow> publish_with c rows (p1, s) (w, m1))))"

definition publish_pending :: "codec \<Rightarrow> publisher \<times> relay_store \<times> medium
     \<Rightarrow> nat \<times> publish_error option \<times> publisher \<times> relay_store \<times> medium" where
  "publish_pending c st =
     (case publish c st of
        (n, Some err, p, rest) \<Rightarrow> (n, Some err, p\<lparr>pu_failures := pu_failures p + 1, pu_last_err := Some err\<rparr>, rest)
      | (n, None, p, rest) \<Rightarrow> (n, None, p\<lparr>pu_published := pu_published p + int n\<rparr>, rest))"

section \<open>Reset and republication\<close>

definition reset_peer :: "int \<Rightarrow> 64 word \<Rightarrow> publisher \<times> relay_store \<Rightarrow> publish_error option \<times> publisher \<times> relay_store" where
  "reset_peer floor_seq base_rs ps =
     (case ps of (p, s) \<Rightarrow>
        (case reset_relay_publisher floor_seq base_rs s of
           Inl err \<Rightarrow> (Some (PubStore err), p, s)
         | Inr s' \<Rightarrow> (None, attest (journal_generation s) (journal_tail s) (p\<lparr>pu_diverged := False\<rparr>), s')))"

definition journal_floor_of :: "codec \<Rightarrow> relay_store \<Rightarrow> relay_record \<Rightarrow> publish_error + int" where
  "journal_floor_of c s r =
     bind_result (record_event_id c r) (\<lambda>i.
       case lookup_relay_journal_seqs [i] s i of
         None \<Rightarrow> Inl (PubNotInJournal (rec_rs r))
       | Some q \<Rightarrow> Inr (q - 1))"

text \<open>The scan of the segments for a position; a segment that does not scan is passed over.\<close>

fun journal_floor_in :: "codec \<Rightarrow> publisher_config \<Rightarrow> relay_store \<Rightarrow> 64 word \<Rightarrow> segment_file list \<Rightarrow> publish_error + int" where
  "journal_floor_in c cfg s rs [] = Inl (PubNotPublished rs)"
| "journal_floor_in c cfg s rs (f # fs) =
     (case scan_file (sf_entry f)
         \<lparr>so_sealed = (fs \<noteq> []), so_key = pc_key cfg, so_tolerate = False, so_expect_peer = pc_peer cfg\<rparr> of
        Inl _ \<Rightarrow> journal_floor_in c cfg s rs fs
      | Inr res \<Rightarrow>
          (case find (\<lambda>r. rec_rs r = rs) (sr_records res) of
             None \<Rightarrow> journal_floor_in c cfg s rs fs
           | Some r \<Rightarrow> journal_floor_of c s r))"

definition journal_floor_for_rs :: "codec \<Rightarrow> publisher_config \<Rightarrow> relay_store \<Rightarrow> medium \<Rightarrow> 64 word \<Rightarrow> publish_error + int" where
  "journal_floor_for_rs c cfg s m rs =
     bind_result (lift_relay (list_segments (md_path m))) (\<lambda>(segs, _). journal_floor_in c cfg s rs segs)"

definition republish_from :: "codec \<Rightarrow> 64 word \<Rightarrow> publisher \<times> relay_store \<times> medium
     \<Rightarrow> nat \<times> publish_error option \<times> publisher \<times> relay_store \<times> medium" where
  "republish_from c rs st =
     (case st of (p, s, m) \<Rightarrow>
       if rs = 0 then (0, Some (PubNotPublished 0), p, s, m)
       else case journal_floor_for_rs c (pu_cfg p) s m rs of
         Inl err \<Rightarrow> (0, Some err, p, s, m)
       | Inr floor_seq \<Rightarrow>
           (case republish_relay_from floor_seq s of
              Inl err \<Rightarrow> (0, Some (PubStore err), p, s, m)
            | Inr s' \<Rightarrow> publish_pending c (p\<lparr>pu_verified := True, pu_force_rotate := True\<rparr>, s', m)))"

section \<open>One relay pass\<close>

record pass_result =
  ps_published :: nat
  ps_ingest :: ingest_stats

text \<open>\<open>Run\<close>: publish, then ingest, whatever the publication said; the errors are joined.\<close>

definition run_pass :: "codec \<Rightarrow> env \<Rightarrow> ingest_config \<Rightarrow> peers_path \<Rightarrow> publisher \<times> relay_store \<times> medium
     \<Rightarrow> pass_result \<times> (publish_error option \<times> poll_error option) \<times> publisher \<times> relay_store \<times> medium" where
  "run_pass c e icfg peers st =
     (case publish_pending c st of
        (n, perr, p, s, m) \<Rightarrow>
          (case ingest_all icfg c e peers s of
             (res, stats, s') \<Rightarrow>
               (\<lparr>ps_published = n, ps_ingest = stats\<rparr>,
                (perr, case res of Inl err \<Rightarrow> Some err | Inr _ \<Rightarrow> None), p, s', m)))"

end
