(* ===== verification/Relay_Run.thy ===== *)
theory Relay_Run
  imports Relay_Poll Relay_Publisher
begin

text \<open>
  A publisher and a reader of its stream, composed: the journal grows, publications frame its rows onto
  the medium, and polls of whatever part of the medium the reader sees hand each published event to the
  gate exactly once, in the journal's order.
\<close>

section \<open>The rows of a journal\<close>

definition outgoing :: "relay_store \<Rightarrow> (int \<times> sync_event) list" where
  "outgoing s = filter (\<lambda>(i, e). ev_id e \<notin> set (inbox_restored (rs_db s))) (journal_rows (rs_db s))"

definition sent :: "relay_store \<Rightarrow> int \<Rightarrow> sync_event list" where
  "sent s q = map snd (filter (\<lambda>(i, e). i \<le> q) (outgoing s))"

definition pending :: "relay_store \<Rightarrow> int \<Rightarrow> (int \<times> sync_event) list" where
  "pending s q = filter (\<lambda>(i, e). q < i) (outgoing s)"

definition numbered :: "(int \<times> 'a) list \<Rightarrow> bool" where
  "numbered xs \<longleftrightarrow> sorted_wrt (\<lambda>x y. fst x < fst y) xs"

lemma numbered_filter: "numbered xs \<Longrightarrow> numbered (filter P xs)"
  by (simp add: numbered_def sorted_wrt_filter)

lemma numbered_journal: "numbered (journal_rows d)"
  by (auto simp: numbered_def journal_rows_def sorted_wrt_iff_nth_less simp del: upt_Suc)

lemma numbered_outgoing: "numbered (outgoing s)"
  by (simp add: outgoing_def numbered_filter numbered_journal)

lemma split_numbered:
  "numbered xs \<Longrightarrow> xs = filter (\<lambda>(i, e). i \<le> q) xs @ filter (\<lambda>(i, e). q < i) xs"
proof (induction xs)
  case (Cons x xs)
  then have IH: "xs = filter (\<lambda>(i, e). i \<le> q) xs @ filter (\<lambda>(i, e). q < i) xs" by (simp add: numbered_def)
  show ?case
  proof (cases "fst x \<le> q")
    case True with IH show ?thesis by (cases x) auto
  next
    case False
    then have "filter (\<lambda>(i, e). i \<le> q) xs = []" "filter (\<lambda>(i, e). q < i) xs = xs"
      using Cons.prems by (fastforce simp: numbered_def filter_empty_conv filter_id_conv)+
    with False show ?thesis by (cases x) auto
  qed
qed simp

lemma filter_below:
  assumes "\<forall>x \<in> set xs. fst x \<le> (q :: int)"
  shows "filter (\<lambda>(i, e). i \<le> q) xs = xs" "filter (\<lambda>(i, e). q < i) xs = []"
  using assms by (induction xs) auto

lemma filter_above:
  assumes "\<forall>x \<in> set xs. (q :: int) < fst x"
  shows "filter (\<lambda>(i, e). i \<le> q) xs = []" "filter (\<lambda>(i, e). q < i) xs = xs"
  using assms by (induction xs) auto

lemma read_pending:
  "read_relay_journal_since q limit s = take (nat (if limit \<le> 0 then 500 else limit)) (pending s q)"
proof -
  have "filter (\<lambda>(i, e). q < i \<and> ev_id e \<notin> set (inbox_restored (rs_db s))) (journal_rows (rs_db s)) = pending s q"
    unfolding pending_def outgoing_def filter_filter by (rule filter_cong) auto
  then show ?thesis by (simp add: read_relay_journal_since_def)
qed

lemma take_numbered:
  assumes "numbered xs" "take l xs \<noteq> []"
  shows "filter (\<lambda>(i, e). i \<le> fst (last (take l xs))) xs = take l xs"
    and "filter (\<lambda>(i, e). fst (last (take l xs)) < i) xs = drop l xs"
proof -
  let ?q = "fst (last (take l xs))"
  have parts: "\<forall>x \<in> set (take l xs). \<forall>y \<in> set (drop l xs). fst x < fst y"
    using assms(1) unfolding numbered_def by (metis append_take_drop_id sorted_wrt_append)
  obtain zs z where zs: "take l xs = zs @ [z]" using assms(2) by (cases "take l xs" rule: rev_cases) auto
  have "sorted_wrt (\<lambda>x y. fst x < fst y) (zs @ [z])"
    using assms(1) unfolding numbered_def zs[symmetric] by (rule sorted_wrt_take)
  then have low: "\<forall>x \<in> set (take l xs). fst x \<le> ?q" unfolding zs by (auto simp: sorted_wrt_append)
  have high: "\<forall>y \<in> set (drop l xs). ?q < fst y" using parts assms(2) last_in_set by blast
  have "filter (\<lambda>(i, e). i \<le> ?q) (take l xs @ drop l xs) = take l xs" "filter (\<lambda>(i, e). ?q < i) (take l xs @ drop l xs) = drop l xs"
    unfolding filter_append by (simp_all only: filter_below[OF low] filter_above[OF high] append_Nil append_Nil2)
  then show "filter (\<lambda>(i, e). i \<le> ?q) xs = take l xs" "filter (\<lambda>(i, e). ?q < i) xs = drop l xs" by simp_all
qed

lemma sent_advance:
  assumes "take l (pending s q) \<noteq> []" "q' = fst (last (take l (pending s q)))"
  shows "sent s q' = sent s q @ map snd (take l (pending s q))" "pending s q' = drop l (pending s q)" "q < q'"
proof -
  have num: "numbered (pending s q)" unfolding pending_def by (rule numbered_filter[OF numbered_outgoing])
  have "last (take l (pending s q)) \<in> set (pending s q)" using assms(1) by (meson in_set_takeD last_in_set)
  then show gt: "q < q'" using assms(2) by (auto simp: pending_def)
  let ?A = "filter (\<lambda>(i, e). i \<le> q) (outgoing s)"
  have split: "outgoing s = ?A @ pending s q"
    unfolding pending_def by (rule split_numbered[OF numbered_outgoing])
  have "\<forall>x \<in> set ?A. fst x \<le> q'" using gt by auto
  note low = filter_below[OF this]
  then have "filter (\<lambda>(i, e). i \<le> q') (?A @ pending s q) = ?A @ take l (pending s q)"
    "filter (\<lambda>(i, e). q' < i) (?A @ pending s q) = drop l (pending s q)"
    using take_numbered[OF num assms(1)] low unfolding assms(2) filter_append by simp_all
  then have "filter (\<lambda>(i, e). i \<le> q') (outgoing s) = ?A @ take l (pending s q)"
    "filter (\<lambda>(i, e). q' < i) (outgoing s) = drop l (pending s q)" using split by metis+
  then show "sent s q' = sent s q @ map snd (take l (pending s q))" "pending s q' = drop l (pending s q)"
    by (simp_all add: sent_def pending_def)
qed

text \<open>The published tail is in the journal, in order.\<close>

definition distinct_ids :: "relay_store \<Rightarrow> bool" where
  "distinct_ids s \<longleftrightarrow> distinct (map ev_id (events (rs_db s)))"

lemma lookup_row:
  assumes "distinct_ids s" "(q, e) \<in> set (journal_rows (rs_db s))" "ev_id e \<in> set ids"
  shows "lookup_relay_journal_seqs ids s (ev_id e) = Some q"
proof -
  have "map fst (map (\<lambda>(q, e). (ev_id e, q)) (journal_rows (rs_db s))) = map ev_id (map snd (journal_rows (rs_db s)))"
    by (simp add: split_beta comp_def)
  also have "map snd (journal_rows (rs_db s)) = events (rs_db s)" by (simp add: journal_rows_def del: upt_Suc)
  finally have "distinct (map fst (map (\<lambda>(q, e). (ev_id e, q)) (journal_rows (rs_db s))))"
    using assms(1) by (simp add: distinct_ids_def)
  then have "map_of (map (\<lambda>(q, e). (ev_id e, q)) (journal_rows (rs_db s))) (ev_id e) = Some q"
    using assms(2) by (intro map_of_is_SomeI) force+
  with assms(3) show ?thesis by (simp add: lookup_relay_journal_seqs_def)
qed

lemma tail_matches_rows:
  assumes "distinct_ids s" "set rows \<subseteq> set (journal_rows (rs_db s))" "numbered rows"
    and "ev_id ` snd ` set rows \<subseteq> set ids" "\<forall>p. prev = Some p \<longrightarrow> (\<forall>r \<in> set rows. p < fst r)"
  shows "tail_matches (lookup_relay_journal_seqs ids s) prev (map (ev_id \<circ> snd) rows)"
  using assms(2-5)
proof (induction rows arbitrary: prev)
  case (Cons r rows)
  have "lookup_relay_journal_seqs ids s (ev_id (snd r)) = Some (fst r)"
    using Cons.prems by (intro lookup_row[OF assms(1)]) auto
  moreover have "tail_matches (lookup_relay_journal_seqs ids s) (Some (fst r)) (map (ev_id \<circ> snd) rows)"
    using Cons.prems by (intro Cons.IH) (auto simp: numbered_def)
  ultimately show ?case using Cons.prems(4) by (auto simp: comp_def split: option.splits)
qed simp

section \<open>One publication\<close>

text \<open>
  What the relay needs of the JSON encoding for the events of a journal: each has an encoding within
  the cap, from which the publisher reads the event's id back and a reader the event.
\<close>

definition encodes :: "codec \<Rightarrow> sync_event \<Rightarrow> bool" where
  "encodes c ev \<longleftrightarrow> (case cd_encode c ev of None \<Rightarrow> False
     | Some b \<Rightarrow> int (length b) \<le> max_record_payload \<and> cd_event_id c b = Some (ev_id ev) \<and> ev_id ev \<noteq> []
       \<and> cd_decode c b = Some ev)"

definition encode :: "codec \<Rightarrow> sync_event \<Rightarrow> bytes" where
  "encode c ev = the (cd_encode c ev)"

lemma encodesD:
  assumes "encodes c ev"
  shows "cd_encode c ev = Some (encode c ev)" "int (length (encode c ev)) \<le> max_record_payload"
    "cd_event_id c (encode c ev) = Some (ev_id ev)" "ev_id ev \<noteq> []" "cd_decode c (encode c ev) = Some ev"
  using assms by (simp_all add: encodes_def encode_def split: option.splits)

text \<open>A stream that has grown: its newest segment longer, or more segments after it.\<close>

definition grows :: "bytes list list \<Rightarrow> bytes list list \<Rightarrow> bool" where
  "grows pss qss \<longleftrightarrow> length pss \<le> length qss \<and> take (length pss - 1) qss = take (length pss - 1) pss
     \<and> length (concat pss) \<le> length (concat qss)"

lemma grows_refl: "grows pss pss"
  by (simp add: grows_def)

lemma grows_take: "grows pss qss \<Longrightarrow> g \<le> length pss \<Longrightarrow> take (g - 1) qss = take (g - 1) pss"
  unfolding grows_def by (metis diff_le_mono min_def take_take)

lemma grows_trans: "grows pss qss \<Longrightarrow> grows qss rss \<Longrightarrow> grows pss rss"
  using grows_take[of qss rss "length pss"] by (auto simp: grows_def)

lemma grows_append:
  assumes "pss \<noteq> []" "qss = butlast pss @ [last pss @ [p]] \<or> last pss \<noteq> [] \<and> qss = pss @ [[p]]"
  shows "grows pss qss"
  using assms by (cases pss rule: rev_cases) (auto simp: grows_def)

lemma reader_at_grows:
  assumes "reader_at t pss s J" "grows pss qss"
  shows "reader_at t qss s J"
proof -
  obtain g where g: "g \<le> length pss" "stands t pss s J g" "J \<le> length (concat pss)"
    using assms(1) by (auto simp: reader_at_def)
  have "stands t qss s J g"
    using grows_take[OF assms(2) g(1)] by (intro stands_mono[OF g(2)]) simp
  moreover have "g \<le> length qss" "J \<le> length (concat qss)" using g assms(2) by (auto simp: grows_def)
  ultimately show ?thesis unfolding reader_at_def by blast
qed

lemma publish_rows_at:
  assumes "writer_at t key pss wm" "template_ok t key" "\<forall>r \<in> set rows. encodes c (snd r)"
    and "length (concat pss) + length rows < 2 ^ 63 - 2" "length pss + length rows < 2 ^ 63 - 2" "[] \<notin> set (butlast pss)"
  shows "\<exists>pss' wm'. publish_rows c rows n wm = (n + length rows, None, wm') \<and> writer_at t key pss' wm'
    \<and> concat pss' = concat pss @ map (encode c \<circ> snd) rows \<and> grows pss pss' \<and> ([] \<notin> set pss \<or> rows \<noteq> [] \<longrightarrow> [] \<notin> set pss')"
  using assms
proof (induction rows arbitrary: pss wm n)
  case Nil
  then show ?case using grows_refl by auto
next
  case (Cons r rows)
  note enc = encodesD[of c "snd r"]
  have ok: "encodes c (snd r)" using Cons.prems(3) by simp
  have ne: "pss \<noteq> []" using Cons.prems(1) by (simp add: writer_at_def)
  obtain pss1 wm1 where one: "append_payload (encode c (snd r)) wm = (Inr (of_nat (Suc (length (concat pss)))), wm1)"
    "writer_at t key pss1 wm1" "concat pss1 = concat pss @ [encode c (snd r)]"
    "pss1 = butlast pss @ [last pss @ [encode c (snd r)]] \<or> last pss \<noteq> [] \<and> pss1 = pss @ [[encode c (snd r)]]"
    using append_payload_at[OF Cons.prems(1,2) enc(2)[OF ok]] Cons.prems(4,5) by auto
  have len: "length pss1 \<le> Suc (length pss)" "length (concat pss1) = Suc (length (concat pss))"
    using one(3,4) ne by (auto simp del: length_concat)
  have full: "[] \<notin> set pss1"
    using one(4) Cons.prems(6) ne by (cases pss rule: rev_cases) auto
  then have full': "[] \<notin> set (butlast pss1)" by (meson in_set_butlastD)
  have rest: "\<forall>q \<in> set rows. encodes c (snd q)" using Cons.prems(3) by simp
  obtain pss' wm' where more: "publish_rows c rows (Suc n) wm1 = (Suc n + length rows, None, wm')" "writer_at t key pss' wm'"
    "concat pss' = concat pss1 @ map (encode c \<circ> snd) rows" "grows pss1 pss'" "[] \<notin> set pss'"
    using Cons.IH[OF one(2) Cons.prems(2) rest _ _ full', of "Suc n"] Cons.prems(4,5) len full by auto
  have "publish_rows c (r # rows) n wm = (n + length (r # rows), None, wm')"
    using one(1) more(1) enc(1)[OF ok] by simp
  moreover have "grows pss pss'" using grows_trans[OF grows_append[OF ne one(4)] more(4)] .
  ultimately show ?case using more len one(3) by auto
qed

lemma record_event_ids_of:
  assumes "list_all2 (\<lambda>r e. rec_body r = encode c e \<and> encodes c e) rs es"
  shows "record_event_ids c rs = Inr (map ev_id es)"
  using assms
proof (induction rule: list_all2_induct)
  case (Cons r rs e es)
  note enc = encodesD(3,4)[OF conjunct2[OF Cons(1)]]
  show ?case using Cons enc by (simp add: record_event_id_def)
qed simp

text \<open>The publisher and its medium: the stream holds the encodings of the rows the cursor has passed.\<close>

definition publishes :: "publisher_config \<Rightarrow> segment_header \<Rightarrow> bytes \<Rightarrow> bool" where
  "publishes cfg t key \<longleftrightarrow>
     (let wc = publish_config cfg \<lparr>pp_seq = 0, pp_epoch = sh_pub_epoch t, pp_next_rs = 0\<rparr>
      in writer_config_ok wc \<and> t = writer_template wc \<and> key = wc_key wc)"

definition publisher_at :: "codec \<Rightarrow> segment_header \<Rightarrow> bytes \<Rightarrow> bytes list list \<Rightarrow> int \<Rightarrow> publisher \<times> relay_store \<times> medium \<Rightarrow> bool" where
  "publisher_at c t key pss q st \<longleftrightarrow> (case st of (p, s, m) \<Rightarrow>
     \<not> pu_diverged p \<and> \<not> pu_force_rotate p
     \<and> relay_push_cursor s = Inr \<lparr>pp_seq = q, pp_epoch = sh_pub_epoch t, pp_next_rs = of_nat (Suc (length (concat pss)))\<rparr>
     \<and> publishes (pu_cfg p) t key \<and> 0 < pc_batch (pu_cfg p) \<and> small_stream pss \<and> [] \<notin> set pss \<and> md_script m = []
     \<and> md_path m = DirListing (dir_of (stream_files key (stream_segs t 1 1 pss)))
     \<and> concat pss = map (encode c) (sent s q) \<and> q \<le> int (length (events (rs_db s))))"

text \<open>The journal of a store that the relay can publish.\<close>

definition publishable :: "codec \<Rightarrow> relay_store \<Rightarrow> bool" where
  "publishable c s \<longleftrightarrow> length (events (rs_db s)) < 2 ^ 61 \<and> distinct_ids s \<and> (\<forall>ev \<in> set (events (rs_db s)). encodes c ev)"

lemma publishes_any:
  assumes "publishes cfg t key" "pp_epoch pos = sh_pub_epoch t"
  shows "writer_config_ok (publish_config cfg pos)" "t = writer_template (publish_config cfg pos)"
    "key = wc_key (publish_config cfg pos)"
  using assms by (auto simp: publishes_def writer_config_ok_def writer_template_def publish_config_def Let_def)

lemma publishes_template:
  assumes "publishes cfg t key"
  shows "template_ok t key" "sh_peer t = pc_peer cfg" "key = pc_key cfg"
proof -
  let ?wc = "publish_config cfg \<lparr>pp_seq = 0, pp_epoch = sh_pub_epoch t, pp_next_rs = 0\<rparr>"
  have wc: "writer_config_ok ?wc" "t = writer_template ?wc" "key = wc_key ?wc" using publishes_any[OF assms] by simp_all
  show "template_ok t key" by (subst wc(2), subst wc(3), rule template_of_config[OF wc(1)])
  have "sh_peer t = sh_peer (writer_template ?wc)" using wc(2) by (rule arg_cong)
  then show "sh_peer t = pc_peer cfg" by (simp add: writer_template_def publish_config_def)
  show "key = pc_key cfg" using wc(3) by (simp add: publish_config_def)
qed

lemma outgoing_events: "r \<in> set (outgoing s) \<Longrightarrow> snd r \<in> set (events (rs_db s)) \<and> r \<in> set (journal_rows (rs_db s))"
  by (auto simp: outgoing_def journal_rows_def dest: set_zip_rightD)

lemma advance_push:
  assumes "relay_push_cursor s = Inr pos" "pp_seq pos < q" "unat nx < 2 ^ 63"
  shows "relay_push_cursor (advance_relay_push_cursor q nx s) = Inr \<lparr>pp_seq = q, pp_epoch = pp_epoch pos, pp_next_rs = nx\<rparr>"
proof -
  have "relay_unsigned (sint nx) = Inr nx" using sint_small[OF assms(3)] by (simp add: relay_unsigned_def)
  moreover have "relay_epoch 1 = Inr 1" by (simp add: relay_epoch_def)
  ultimately show ?thesis
    using assms(1,2) by (cases "rs_push s"; cases "relay_epoch (pr_epoch (the (rs_push s)))";
      cases "relay_unsigned (pr_next_rs (the (rs_push s)))")
      (auto simp: relay_push_cursor_def advance_relay_push_cursor_def max_def)
qed

lemma last_records_map: "map f (last_records n xs) = last_records n (map f xs)"
  by (simp add: last_records_def drop_map)

lemma verify_tail_at:
  assumes "publisher_at c t key pss q (p, s, m)" "publishable c s"
  shows "\<exists>p1. verify_tail c s m p = (None, p1) \<and> pu_cfg p1 = pu_cfg p \<and> \<not> pu_diverged p1 \<and> \<not> pu_force_rotate p1
    \<and> pu_published p1 = pu_published p"
proof -
  note at = assms(1)[unfolded publisher_at_def prod.case]
  have pub: "publishes (pu_cfg p) t key" using at by blast
  have "\<exists>ids. published_tail_ids c (pu_cfg p) m = Inr ids \<and> tail_matches (lookup_relay_journal_seqs ids s) None ids"
  proof (cases "pss = []")
    case True
    with at have "md_path m = DirListing []" by (simp add: stream_files_def dir_of_def)
    then show ?thesis
      by (simp add: published_tail_ids_def lift_relay_def list_segments_def read_relay_dir_def lstat_dir_def sort_by_def)
  next
    case False
    note tok = publishes_template(1)[OF pub] and peer = publishes_template(2)[OF pub]
    have key: "key = pc_key (pu_cfg p)" by (rule publishes_template(3)[OF pub])
    have small: "small_stream pss" using at by simp
    have path: "md_path m = DirListing (dir_of (stream_dir t key pss []))" using at stream_dir_whole[OF False] by simp
    let ?recs = "records_of (newest_header t pss) key (sh_first_rs (newest_header t pss)) (last pss)"
    let ?rows = "last_records (min 8 (length (last pss))) (filter (\<lambda>(i, e). i \<le> q) (outgoing s))"
    have scan: "scan_file (sf_entry (last (map file_of (stream_dir t key pss []))))
        \<lparr>so_sealed = False, so_key = pc_key (pu_cfg p), so_tolerate = False, so_expect_peer = pc_peer (pu_cfg p)\<rparr>
        = Inr (delivered_result (own_options (sh_peer t) key) (newest_header t pss) (last pss) False)"
      using scan_newest[OF tok small False, of "[]"] by (simp add: own_options_def peer flip: key)
    have "list_all2 (\<lambda>r e. rec_body r = encode c e \<and> encodes c e) (last_records 8 ?recs) (map snd ?rows)"
    proof -
      have "map rec_body (last_records 8 ?recs) = last_records 8 (last pss)" by (simp add: last_records_map)
      also have "\<dots> = last_records (min 8 (length (last pss))) (concat pss)"
        using concat_last[OF False] by (simp add: last_records_def min_def)
      also have "\<dots> = map (encode c) (map snd ?rows)"
        using at by (simp add: sent_def last_records_map)
      finally have eq: "map rec_body (last_records 8 ?recs) = map (encode c) (map snd ?rows)" .
      have "encodes c e" if "e \<in> set (map snd ?rows)" for e
        using that assms(2) outgoing_events by (fastforce simp: last_records_def publishable_def dest: in_set_dropD)
      with eq show ?thesis
        by (auto simp: list_all2_conv_all_nth list_eq_iff_nth_eq)
    qed
    from record_event_ids_of[OF this] have "published_tail_ids c (pu_cfg p) m = Inr (map (ev_id \<circ> snd) ?rows)"
      unfolding published_tail_ids_def path list_stream_dir[OF False small] lift_relay_def
      using scan by (simp add: stream_dir_def delivered_result_def own_options_def tail_verify_depth_def comp_def)
    moreover have "tail_matches (lookup_relay_journal_seqs (map (ev_id \<circ> snd) ?rows) s) None (map (ev_id \<circ> snd) ?rows)"
    proof (rule tail_matches_rows)
      show "distinct_ids s" using assms(2) by (simp add: publishable_def)
      show "set ?rows \<subseteq> set (journal_rows (rs_db s))"
        using outgoing_events by (force simp: last_records_def dest: in_set_dropD)
      show "numbered ?rows"
        using numbered_filter[OF numbered_outgoing] unfolding last_records_def numbered_def by (rule sorted_wrt_drop)
    qed auto
    ultimately show ?thesis by blast
  qed
  then obtain ids where "published_tail_ids c (pu_cfg p) m = Inr ids" "tail_matches (lookup_relay_journal_seqs ids s) None ids"
    by blast
  with at show ?thesis by (auto simp: verify_tail_def Let_def attest_def)
qed

lemma sent_cong: "rs_db s = rs_db s' \<Longrightarrow> sent s q = sent s' q" "rs_db s = rs_db s' \<Longrightarrow> pending s q = pending s' q"
  by (simp_all add: sent_def pending_def outgoing_def)

lemma advance_push_fields [simp]:
  "rs_db (advance_relay_push_cursor q nx s) = rs_db s" "rs_ingest (advance_relay_push_cursor q nx s) = rs_ingest s"
  by (simp_all add: advance_relay_push_cursor_def)

lemma writer_opens:
  assumes "publisher_at c t key pss q (p, s, m)"
  shows "\<exists>w m1 pss0. new_writer (publish_config (pu_cfg p)
      \<lparr>pp_seq = q, pp_epoch = sh_pub_epoch t, pp_next_rs = of_nat (Suc (length (concat pss)))\<rparr>) m = (Inr w, m1)
    \<and> writer_at t key pss0 (w, m1) \<and> grows pss pss0 \<and> concat pss0 = concat pss \<and> length pss0 \<le> Suc (length pss)
    \<and> [] \<notin> set (butlast pss0)"
proof -
  note at = assms(1)[unfolded publisher_at_def prod.case]
  have pub: "publishes (pu_cfg p) t key" using at by blast
  let ?cfg = "publish_config (pu_cfg p) \<lparr>pp_seq = q, pp_epoch = sh_pub_epoch t, pp_next_rs = of_nat (Suc (length (concat pss)))\<rparr>"
  have cfg: "writer_config_ok ?cfg" "t = writer_template ?cfg" using publishes_any[OF pub] by simp_all
  have key: "wc_key ?cfg = key" "wc_next_rs ?cfg = of_nat (Suc (length (concat pss)))"
    using publishes_template(3)[OF pub] by (simp_all add: publish_config_def)
  show ?thesis
  proof (cases "pss = []")
    case True
    with at have "md_path m = DirListing []" "md_script m = []" by (simp_all add: stream_files_def dir_of_def)
    from new_writer_fresh[OF cfg this] key True obtain w m' where
      "new_writer ?cfg m = (Inr w, m')" "writer_at t key [[]] (w, m')" by auto
    with True show ?thesis by (intro exI[of _ w] exI[of _ m'] exI[of _ "[[]]"]) (simp add: grows_def)
  next
    case False
    with at have "md_path m = DirListing (dir_of (stream_dir t (wc_key ?cfg) pss []))" "md_script m = []" "small_stream pss"
      unfolding key by (simp_all add: stream_dir_whole)
    from new_writer_resume[OF cfg this(3) False this(2,1) key(2)] obtain w where
      "new_writer ?cfg m = (Inr w, m)" "writer_at t key pss (w, m)" unfolding key by blast
    moreover have "[] \<notin> set (butlast pss)" using at by (meson in_set_butlastD)
    ultimately show ?thesis using grows_refl by (intro exI[of _ w] exI[of _ m] exI[of _ pss]) simp
  qed
qed

lemma sent_few: "length (sent s q) \<le> length (events (rs_db s))"
proof -
  have "length (sent s q) \<le> length (journal_rows (rs_db s))"
    unfolding sent_def outgoing_def length_map by (meson length_filter_le order_trans)
  then show ?thesis by (simp add: journal_rows_def del: upt_Suc)
qed

lemma segments_few: "[] \<notin> set pss \<Longrightarrow> length pss \<le> length (concat pss)"
proof (induction pss)
  case (Cons ps pss)
  then have "0 < length ps" "length pss \<le> length (concat pss)" by auto
  then show ?case by (simp del: length_greater_0_conv)
qed simp

lemma outgoing_bound: "r \<in> set (outgoing s) \<Longrightarrow> fst r \<le> int (length (events (rs_db s)))"
  by (auto simp: outgoing_def journal_rows_def dest!: set_zip_leftD simp del: upt_Suc)

text \<open>Rows framed onto the medium, and the state that banks them.\<close>

lemma rows_published:
  assumes "publisher_at c t key pss q (p, s, m)" "publishable c s" "take l (pending s q) \<noteq> []"
  shows "\<exists>w m1 w' m' pss'. new_writer (publish_config (pu_cfg p)
      \<lparr>pp_seq = q, pp_epoch = sh_pub_epoch t, pp_next_rs = of_nat (Suc (length (concat pss)))\<rparr>) m = (Inr w, m1)
    \<and> publish_rows c (take l (pending s q)) 0 (w, m1) = (length (take l (pending s q)), None, w', m')
    \<and> writer_at t key pss' (w', m') \<and> grows pss pss'
    \<and> length (concat pss') = length (concat pss) + length (take l (pending s q))
    \<and> (\<forall>p1. pu_cfg p1 = pu_cfg p \<and> \<not> pu_diverged p1 \<and> \<not> pu_force_rotate p1 \<longrightarrow>
         publisher_at c t key pss' (fst (last (take l (pending s q))))
           (p1, advance_relay_push_cursor (fst (last (take l (pending s q)))) (w_next_rs w') s, m'))"
proof -
  note at = assms(1)[unfolded publisher_at_def prod.case]
  have pub: "publishes (pu_cfg p) t key" using at by blast
  let ?pos = "\<lparr>pp_seq = q, pp_epoch = sh_pub_epoch t, pp_next_rs = of_nat (Suc (length (concat pss)))\<rparr>"
  let ?rows = "take l (pending s q)" let ?q = "fst (last ?rows)"
  have cursor: "relay_push_cursor s = Inr ?pos" and batch: "0 < pc_batch (pu_cfg p)" using at by blast+
  obtain w m1 pss0 where new: "new_writer (publish_config (pu_cfg p) ?pos) m = (Inr w, m1)" "writer_at t key pss0 (w, m1)"
    "grows pss pss0" "concat pss0 = concat pss" "length pss0 \<le> Suc (length pss)" "[] \<notin> set (butlast pss0)"
    using writer_opens[OF assms(1)] by auto
  have enc: "\<forall>r \<in> set ?rows. encodes c (snd r)"
    using assms(2) outgoing_events by (fastforce simp: publishable_def pending_def dest: in_set_takeD)
  have "length (pending s q) \<le> length (journal_rows (rs_db s))"
    unfolding pending_def outgoing_def by (meson length_filter_le order_trans)
  then have few: "length ?rows \<le> length (events (rs_db s))" by (simp add: journal_rows_def del: upt_Suc)
  have "length (concat pss) = length (sent s q)" using at by simp
  then have "length (concat pss) < 2 ^ 61" using sent_few[of s q] assms(2) by (simp add: publishable_def)
  moreover have "length pss \<le> length (concat pss)" using at by (intro segments_few) blast
  ultimately have caps: "length (concat pss0) + length ?rows < 2 ^ 63 - 2" "length pss0 + length ?rows < 2 ^ 63 - 2"
    using few assms(2) new(4,5) by (simp_all add: publishable_def del: length_concat length_take)
  obtain pss' w' m' where app: "publish_rows c ?rows 0 (w, m1) = (length ?rows, None, w', m')"
    "writer_at t key pss' (w', m')" "concat pss' = concat pss0 @ map (encode c \<circ> snd) ?rows" "grows pss0 pss'" "[] \<notin> set pss'"
    using publish_rows_at[OF new(2) publishes_template(1)[OF pub] enc caps new(6), of 0] assms(3) by auto
  let ?s = "advance_relay_push_cursor ?q (w_next_rs w') s"
  note w' = app(2)[unfolded writer_at_def, simplified]
  have "publisher_at c t key pss' ?q (p1, ?s, m')" if p1: "pu_cfg p1 = pu_cfg p" "\<not> pu_diverged p1" "\<not> pu_force_rotate p1" for p1
  proof -
    have count: "length (concat pss') < 2 ^ 63 - 1" using w' by (simp add: small_stream_def)
    have "w_next_rs w' = of_nat (Suc (length (concat pss')))" using w' by simp
    then have "unat (w_next_rs w') < 2 ^ 63"
      using unat_of_nat_small[of "Suc (length (concat pss'))"] count by (simp del: of_nat_Suc length_concat)
    from advance_push[OF cursor _ this] have "relay_push_cursor ?s = Inr \<lparr>pp_seq = ?q, pp_epoch = sh_pub_epoch t,
        pp_next_rs = of_nat (Suc (length (concat pss')))\<rparr>"
      using sent_advance(3)[OF assms(3) refl] w' by simp
    moreover have "concat pss' = map (encode c) (sent ?s ?q)"
      using sent_advance(1)[OF assms(3) refl] app(3) new(4) at sent_cong(1)[of ?s s] by simp
    moreover have "publishes (pu_cfg p1) t key" "0 < pc_batch (pu_cfg p1)" using pub batch p1(1) by simp_all
    moreover have "small_stream pss'" "md_script m' = []"
      "md_path m' = DirListing (dir_of (stream_files key (stream_segs t 1 1 pss')))" using w' by blast+
    moreover have "?q \<le> int (length (events (rs_db ?s)))"
    proof -
      have "last ?rows \<in> set (outgoing s)" using last_in_set[OF assms(3)] by (auto simp: pending_def dest!: in_set_takeD)
      then show ?thesis using outgoing_bound[of "last ?rows" s] by simp
    qed
    moreover note app(5) p1(2,3)
    ultimately show ?thesis unfolding publisher_at_def prod.case by blast
  qed
  moreover have "grows pss pss'" by (rule grows_trans[OF new(3) app(4)])
  moreover have "length (concat pss') = length (concat pss) + length ?rows" unfolding app(3) new(4) by simp
  ultimately show ?thesis using new(1) app(1,2) by blast
qed

lemma publish_at:
  assumes "publisher_at c t key pss q (p, s, m)" "publishable c s"
  shows "\<exists>n p' s' m' pss' q'. publish_pending c (p, s, m) = (n, None, p', s', m')
    \<and> publisher_at c t key pss' q' (p', s', m') \<and> grows pss pss' \<and> rs_db s' = rs_db s \<and> rs_ingest s' = rs_ingest s
    \<and> sent s' q' = sent s q @ map snd (take (nat (pc_batch (pu_cfg p))) (pending s q))
    \<and> pending s' q' = drop (nat (pc_batch (pu_cfg p))) (pending s q) \<and> pu_cfg p' = pu_cfg p"
proof -
  note at = assms(1)[unfolded publisher_at_def prod.case]
  let ?pos = "\<lparr>pp_seq = q, pp_epoch = sh_pub_epoch t, pp_next_rs = of_nat (Suc (length (concat pss)))\<rparr>"
  let ?l = "nat (pc_batch (pu_cfg p))"
  obtain p1 where verify: "verify_tail c s m p = (None, p1)" "pu_cfg p1 = pu_cfg p" "\<not> pu_diverged p1" "\<not> pu_force_rotate p1"
    using verify_tail_at[OF assms(1,2)] by blast
  have batch: "0 < pc_batch (pu_cfg p)" and cursor: "relay_push_cursor s = Inr ?pos" using at by blast+
  have rows: "read_relay_journal_since q (pc_batch (pu_cfg p1)) s = take ?l (pending s q)"
    unfolding read_pending verify(2) using batch by simp
  show ?thesis
  proof (cases "take ?l (pending s q) = []")
    case True
    then have none: "pending s q = []" using batch by simp
    have "publish_pending c (p, s, m) = (0, None, p1, s, m)"
      using verify cursor rows True at by (simp add: publish_pending_def publish_def)
    moreover have "publisher_at c t key pss q (p1, s, m)"
      using assms(1) verify by (simp add: publisher_at_def Let_def)
    ultimately show ?thesis using none grows_refl verify(2) by fastforce
  next
    case False
    let ?rows = "take ?l (pending s q)" let ?q = "fst (last ?rows)"
    obtain w m1 w' m' pss' where app: "new_writer (publish_config (pu_cfg p) ?pos) m = (Inr w, m1)"
      "publish_rows c ?rows 0 (w, m1) = (length ?rows, None, w', m')" "writer_at t key pss' (w', m')" "grows pss pss'"
      and after: "\<And>p1. pu_cfg p1 = pu_cfg p \<Longrightarrow> \<not> pu_diverged p1 \<Longrightarrow> \<not> pu_force_rotate p1 \<Longrightarrow>
        publisher_at c t key pss' ?q (p1, advance_relay_push_cursor ?q (w_next_rs w') s, m')"
      using rows_published[OF assms False] by blast
    let ?s = "advance_relay_push_cursor ?q (w_next_rs w') s"
    let ?p = "p1\<lparr>pu_force_rotate := False, pu_published := pu_published p1 + int (length ?rows)\<rparr>"
    have closed: "snd (snd (close_writer (w', m'))) = m'"
      using app(3) by (simp add: writer_at_def close_writer_def close_file_def next_io_def)
    have "publish c (p, s, m) = (length ?rows, None, p1\<lparr>pu_force_rotate := False\<rparr>, ?s, m')"
      using verify cursor rows False app(1,2) closed at
      by (simp add: publish_def publish_with_def Let_def del: length_take)
    then have "publish_pending c (p, s, m) = (length ?rows, None, ?p, ?s, m')" by (simp add: publish_pending_def)
    moreover have "publisher_at c t key pss' ?q (?p, ?s, m')" using verify(2,3) by (intro after) simp_all
    moreover note app(4)
    moreover have "sent ?s ?q = sent s q @ map snd ?rows" "pending ?s ?q = drop ?l (pending s q)"
      using sent_advance(1,2)[OF False refl] sent_cong[of ?s s] by simp_all
    moreover have "pu_cfg ?p = pu_cfg p" using verify(2) by simp
    ultimately show ?thesis using advance_push_fields by blast
  qed
qed

section \<open>The relay as a whole\<close>

text \<open>
  The medium as a poll may find it: the first entries of the listing whole, the next one up to some
  byte, and nothing of the others; past the last entry, all of it.
\<close>

definition cut_entry :: "nat \<Rightarrow> string \<times> entry \<Rightarrow> string \<times> entry" where
  "cut_entry k x = (fst x, case snd x of RegularFile b \<Rightarrow> RegularFile (take k b) | e \<Rightarrow> e)"

definition medium_view :: "medium \<Rightarrow> nat \<Rightarrow> nat \<Rightarrow> dir_path" where
  "medium_view m i k = DirListing (take i (md_entries m) @ (if i < length (md_entries m) then [cut_entry k (md_entries m ! i)] else []))"

text \<open>The journal grows: new rows after the old ones, which the inbox does not change sides on.\<close>

definition journal_grows :: "relay_store \<Rightarrow> relay_store \<Rightarrow> bool" where
  "journal_grows s s' \<longleftrightarrow> (\<exists>d new. s' = s\<lparr>rs_db := d\<rparr> \<and> events d = events (rs_db s) @ new
     \<and> (\<forall>ev \<in> set (events (rs_db s)). ev_id ev \<in> set (inbox_restored d) \<longleftrightarrow> ev_id ev \<in> set (inbox_restored (rs_db s))))"

type_synonym relay_state = "(publisher \<times> relay_store \<times> medium) \<times> relay_store"

inductive relay_step :: "ingest_config \<Rightarrow> codec \<Rightarrow> string \<Rightarrow> relay_state \<Rightarrow> relay_state \<Rightarrow> bool"
  for cfg c peer where
  step_journal: "journal_grows s s' \<Longrightarrow> publishable c s' \<Longrightarrow> relay_step cfg c peer ((p, s, m), r) ((p, s', m), r)"
| step_publish: "publish_pending c st = (n, err, st') \<Longrightarrow> relay_step cfg c peer (st, r) (st', r)"
| step_restart: "new_publisher (pu_cfg p) = Some p' \<Longrightarrow> relay_step cfg c peer ((p, s, m), r) ((p', s, m), r)"
| step_other: "find_ingest peer r' = find_ingest peer r \<Longrightarrow> relay_step cfg c peer (st, r) (st, r')"
| step_poll: "ingest_peer cfg c e peer (medium_view m i k) (empty_stats, r) = (res, stats, r')
    \<Longrightarrow> relay_step cfg c peer ((p, s, m), r) ((p, s, m), r')"

inductive_cases relay_stepE: "relay_step cfg c peer st st'"

text \<open>A publisher and a reader before the first pass.\<close>

definition relay_start :: "codec \<Rightarrow> segment_header \<Rightarrow> bytes \<Rightarrow> relay_state \<Rightarrow> bool" where
  "relay_start c t key st \<longleftrightarrow> (case st of ((p, s, m), r) \<Rightarrow>
     publishable c s \<and> rs_push s = None \<and> sh_pub_epoch t = 1 \<and> publishes (pu_cfg p) t key
     \<and> new_publisher (pu_cfg p) = Some p \<and> m = \<lparr>md_path = DirListing [], md_script = []\<rparr>
     \<and> find_ingest (sh_peer t) r = None)"

text \<open>
  The specification: the events sent, how many of them the reader has been handed, and its database.
  Handing an event over is the gate on it, and the apply path when the gate lets it through.
\<close>

definition offer :: "codec \<Rightarrow> env \<Rightarrow> sync_event \<Rightarrow> db \<Rightarrow> db" where
  "offer c e ev d = (case gate_and_apply c e ev d of Inl _ \<Rightarrow> d | Inr d' \<Rightarrow> d')"

type_synonym exchange = "sync_event list \<times> nat \<times> db"

inductive exchange_step :: "codec \<Rightarrow> exchange \<Rightarrow> exchange \<Rightarrow> bool" for c where
  exchange_send: "exchange_step c (evs, n, d) (evs @ new, n, d)"
| exchange_local: "exchange_step c (evs, n, d) (evs, n, d')"
| exchange_deliver: "n \<le> v \<Longrightarrow> v \<le> length evs \<Longrightarrow>
    exchange_step c (evs, n, d) (evs, v, fold (offer c e) (drop n (take v evs)) d)"

section \<open>The relay implements the exchange\<close>

lemma journal_rows_append:
  assumes "events d' = events d @ new"
  shows "\<exists>rows. journal_rows d' = journal_rows d @ rows \<and> (\<forall>r \<in> set rows. int (length (events d)) < fst r)"
proof -
  let ?n = "length (events d)"
  have "[1 ..< Suc (?n + length new)] = [1 ..< Suc ?n] @ [Suc ?n ..< Suc ?n + length new]"
    using upt_add_eq_append[of 1 "Suc ?n" "length new"] by (simp add: add.commute)
  then have "journal_rows d' = journal_rows d @ zip (map int [Suc ?n ..< Suc ?n + length new]) new"
    using assms by (simp add: journal_rows_def del: upt_Suc)
  then show ?thesis by (intro exI conjI) (auto dest!: set_zip_leftD simp del: upt_Suc)
qed

lemma sent_grows:
  assumes "journal_grows s s'" "q \<le> int (length (events (rs_db s)))"
  shows "sent s' q = sent s q"
proof -
  obtain d new where d: "s' = s\<lparr>rs_db := d\<rparr>" "events d = events (rs_db s) @ new"
    and same: "\<forall>ev \<in> set (events (rs_db s)). ev_id ev \<in> set (inbox_restored d) \<longleftrightarrow> ev_id ev \<in> set (inbox_restored (rs_db s))"
    using assms(1) by (auto simp: journal_grows_def)
  obtain rows where rows: "journal_rows d = journal_rows (rs_db s) @ rows" "\<forall>r \<in> set rows. int (length (events (rs_db s))) < fst r"
    using journal_rows_append[OF d(2)] by blast
  have old: "filter (\<lambda>(i, e). ev_id e \<notin> set (inbox_restored d)) (journal_rows (rs_db s)) = outgoing s"
    unfolding outgoing_def using same by (intro filter_cong) (auto simp: journal_rows_def dest: set_zip_rightD)
  have "\<forall>r \<in> set (filter (\<lambda>(i, e). ev_id e \<notin> set (inbox_restored d)) rows). q < fst r" using rows(2) assms(2) by auto
  note new = filter_above(1)[OF this]
  have "outgoing s' = outgoing s @ filter (\<lambda>(i, e). ev_id e \<notin> set (inbox_restored d)) rows"
    unfolding old[symmetric] by (simp add: outgoing_def d(1) rows(1))
  then show ?thesis unfolding sent_def by (simp only: filter_append new append_Nil2)
qed

lemma sent_encodes:
  assumes "publishable c s"
  shows "\<forall>ev \<in> set (sent s q). encodes c ev"
  using assms outgoing_events by (fastforce simp: publishable_def sent_def)

lemma apply_record_db:
  "snd (snd (apply_record cfg c e peer h r (stats, d))) = (case cd_decode c (rec_body r) of None \<Rightarrow> d | Some ev \<Rightarrow> offer c e ev d)"
  by (auto simp: apply_record_def offer_def split: option.splits sum.splits prod.splits)

lemma process_offers:
  assumes "map (\<lambda>x. rec_body (snd x)) items = map (encode c) evs" "\<forall>ev \<in> set evs. encodes c ev"
  shows "snd (process cfg c e peer items st) = fold (offer c e) evs (snd st)"
  using assms
proof (induction items arbitrary: evs st)
  case (Cons x items)
  then obtain ev evs' where evs: "evs = ev # evs'" by (cases evs) auto
  obtain h r where x: "x = (h, r)" by (cases x)
  have "rec_body r = encode c ev" "encodes c ev" using Cons.prems evs x by simp_all
  then have "snd (snd (apply_record cfg c e peer h r st)) = offer c e ev (snd st)"
    using apply_record_db[of cfg c e peer h r "fst st" "snd st"] encodesD(5)[of c ev] by simp
  with Cons evs x show ?case by (simp add: process_def)
qed (simp add: process_def)

text \<open>A view of the medium is a view of the stream on it.\<close>

lemma medium_stream_view:
  assumes "md_path m = DirListing (dir_of (stream_files key (stream_segs t 1 1 pss)))" "pss \<noteq> []"
  shows "\<exists>i' k'. i' < length pss \<and> medium_view m i k = DirListing (dir_of (stream_view t key pss i' k'))
    \<and> (length pss \<le> i \<longrightarrow> view_count pss i' k' = length (concat pss))"
proof -
  let ?files = "stream_files key (stream_segs t 1 1 pss)"
  have len: "length ?files = length pss" by (simp add: stream_files_def)
  have nth: "?files ! j = (of_nat (Suc j), segment_bytes (seg_header t pss j) key (pss ! j))" if "j < length pss" for j
    using that by (simp add: stream_files_def stream_segs_nth seg_header_def add.commute)
  have es: "md_entries m = map (\<lambda>(no, b). (file_name no, RegularFile b)) ?files"
    using assms(1) by (simp add: md_entries_def dir_of_def)
  show ?thesis
  proof (cases "i < length pss")
    case True
    then have "medium_view m i k = DirListing (dir_of (stream_view t key pss i k))"
      using nth[OF True] len by (simp add: medium_view_def es stream_view_def dir_of_def take_map cut_entry_def)
    with True show ?thesis by (intro exI[of _ i] exI[of _ k]) simp
  next
    case False
    let ?i = "length pss - 1" let ?k = "segment_len (last pss)"
    have i: "?i < length pss" using assms(2) by simp
    have "?files = take ?i ?files @ [?files ! ?i]"
      using i len by (metis take_Suc_conv_app_nth Suc_pred' assms(2) length_greater_0_conv take_all order_refl)
    moreover have "take ?k (segment_bytes (seg_header t pss ?i) key (pss ! ?i)) = segment_bytes (seg_header t pss ?i) key (pss ! ?i)"
      using last_conv_nth[OF assms(2)] by (simp add: length_segment_bytes)
    ultimately have "stream_view t key pss ?i ?k = ?files" unfolding stream_view_def using nth[OF i] by simp
    moreover have "medium_view m i k = DirListing (dir_of ?files)"
      using False len by (simp add: medium_view_def es dir_of_def)
    ultimately show ?thesis
      using i view_count_whole[OF assms(2) order_refl] by (intro exI[of _ ?i] exI[of _ ?k]) simp
  qed
qed

definition published_events :: "relay_store \<Rightarrow> sync_event list" where
  "published_events s = (case relay_push_cursor s of Inl _ \<Rightarrow> [] | Inr pos \<Rightarrow> sent s (pp_seq pos))"

text \<open>The relation between the relay and the exchange.\<close>

definition relay_inv :: "codec \<Rightarrow> segment_header \<Rightarrow> bytes \<Rightarrow> bytes list list \<Rightarrow> relay_state \<Rightarrow> nat \<Rightarrow> bool" where
  "relay_inv c t key pss st n \<longleftrightarrow> (case st of ((p, s, m), r) \<Rightarrow>
     publishable c s \<and> new_publisher (pu_cfg p) \<noteq> None \<and> (\<exists>q. publisher_at c t key pss q (p, s, m)) \<and> reader_at t pss r n)"

lemma published_at: "publisher_at c t key pss q (p, s, m) \<Longrightarrow> published_events s = sent s q"
  by (simp add: publisher_at_def published_events_def)

text \<open>A poll of a view hands over the events from the reader's position to the last one in the view.\<close>

lemma poll_delivers:
  assumes "reads_stream cfg key t" "relay_inv c t key pss ((p, s, m), r) n"
  shows "\<exists>stats r' v. ingest_peer cfg c e (sh_peer t) (medium_view m i k) (empty_stats, r) = (Inr (), stats, r')
    \<and> n \<le> v \<and> v \<le> length (published_events s) \<and> relay_inv c t key pss ((p, s, m), r') v
    \<and> rs_db r' = fold (offer c e) (drop n (take v (published_events s))) (rs_db r)
    \<and> (length (md_entries m) \<le> i \<longrightarrow> v = length (published_events s))"
proof -
  obtain q where at: "publisher_at c t key pss q (p, s, m)" and pub: "publishable c s" and rd: "reader_at t pss r n"
    using assms(2) by (auto simp: relay_inv_def)
  note facts = at[unfolded publisher_at_def prod.case]
  have path: "md_path m = DirListing (dir_of (stream_files key (stream_segs t 1 1 pss)))" and small: "small_stream pss"
    and body: "concat pss = map (encode c) (sent s q)" using facts by blast+
  have n: "n \<le> length (concat pss)" using rd by (simp add: reader_at_def)
  have evs: "published_events s = sent s q" by (rule published_at[OF at])
  show ?thesis
  proof (cases "pss = []")
    case True
    then have "medium_view m i k = DirListing []" using path
      by (simp add: medium_view_def md_entries_def stream_files_def dir_of_def)
    then have "ingest_peer cfg c e (sh_peer t) (medium_view m i k) (empty_stats, r) = (Inr (), empty_stats, r)"
      by (simp add: ingest_peer_def list_segments_def read_relay_dir_def lstat_dir_def sort_by_def)
    moreover have "sent s q = []" "n = 0" using True body n by simp_all
    ultimately show ?thesis using assms(2) evs by (intro exI[of _ empty_stats] exI[of _ r] exI[of _ 0]) simp
  next
    case False
    obtain i' k' where view: "i' < length pss" "medium_view m i k = DirListing (dir_of (stream_view t key pss i' k'))"
      "length pss \<le> i \<longrightarrow> view_count pss i' k' = length (concat pss)"
      using medium_stream_view[OF path False, of i k] by blast
    let ?v = "view_count pss i' k'"
    obtain stats1 stats' r' where poll:
      "ingest_peer cfg c e (sh_peer t) (medium_view m i k) (empty_stats, r) = (Inr (), stats', r')"
      "(stats1, rs_db r') = process cfg c e (sh_peer t) (drop n (take ?v (stream_items t key pss))) (empty_stats, rs_db r)"
      "reader_at t pss r' (max n ?v)"
      using poll_view[OF assms(1) small view(1) rd, of c e k' empty_stats] view(2) by auto
    have len: "length (sent s q) = length (concat pss)" using body by simp
    have "map (\<lambda>x. rec_body (snd x)) (drop n (take ?v (stream_items t key pss))) = drop n (take ?v (concat pss))"
      using stream_items_payloads[of t key pss] by (simp add: take_map[symmetric] drop_map[symmetric])
    then have "map (\<lambda>x. rec_body (snd x)) (drop n (take ?v (stream_items t key pss))) = map (encode c) (drop n (take ?v (sent s q)))"
      by (simp add: body take_map drop_map)
    from process_offers[OF this, of cfg e "sh_peer t" "(empty_stats, rs_db r)"] sent_encodes[OF pub, of q]
    have "rs_db r' = fold (offer c e) (drop n (take ?v (sent s q))) (rs_db r)"
      using poll(2) by (metis in_set_dropD in_set_takeD snd_conv)
    moreover have "drop n (take ?v (sent s q)) = drop n (take (max n ?v) (sent s q))" by (simp add: max_def)
    moreover have "max n ?v \<le> length (sent s q)" using n len view_count_le[OF view(1), of k'] by simp
    moreover have "length (md_entries m) = length pss"
      using path by (simp add: md_entries_def dir_of_def stream_files_def)
    moreover have "relay_inv c t key pss ((p, s, m), r') (max n ?v)"
      using assms(2) poll(3) by (simp add: relay_inv_def)
    ultimately show ?thesis
      using poll(1) view(3) evs len n by (intro exI[of _ stats'] exI[of _ r'] exI[of _ "max n ?v"]) auto
  qed
qed

text \<open>The events, the position and the database of a relay state.\<close>

definition exchange_of :: "relay_state \<Rightarrow> nat \<Rightarrow> exchange" where
  "exchange_of st n = (published_events (fst (snd (fst st))), n, rs_db (snd st))"

lemma publish_step:
  assumes "relay_inv c t key pss (st, r) n" "publish_pending c st = (k, err, st')"
  shows "\<exists>pss' new. relay_inv c t key pss' (st', r) n
    \<and> published_events (fst (snd st')) = published_events (fst (snd st)) @ new"
proof -
  obtain p s m where st: "st = (p, s, m)" by (cases st)
  obtain q where at: "publisher_at c t key pss q (p, s, m)" and pub: "publishable c s" and rd: "reader_at t pss r n"
    and cfg: "new_publisher (pu_cfg p) \<noteq> None"
    using assms(1) by (auto simp: relay_inv_def st)
  obtain p' s' m' pss' q' where out: "publish_pending c (p, s, m) = (k, err, p', s', m')"
    "publisher_at c t key pss' q' (p', s', m')" "grows pss pss'" "rs_db s' = rs_db s"
    "sent s' q' = sent s q @ map snd (take (nat (pc_batch (pu_cfg p))) (pending s q))" "pu_cfg p' = pu_cfg p"
    using publish_at[OF at pub] assms(2) st by auto
  have "publishable c s'" using pub out(4) by (simp add: publishable_def distinct_ids_def)
  then have "relay_inv c t key pss' ((p', s', m'), r) n"
    using out(2,6) cfg reader_at_grows[OF rd out(3)] by (auto simp: relay_inv_def)
  moreover have "st' = (p', s', m')" using out(1) assms(2) st by simp
  moreover have "published_events s' = published_events s @ map snd (take (nat (pc_batch (pu_cfg p))) (pending s q))"
    using published_at[OF at] published_at[OF out(2)] out(5) by simp
  ultimately show ?thesis using st by auto
qed

lemma journal_step:
  assumes "relay_inv c t key pss ((p, s, m), r) n" "journal_grows s s'" "publishable c s'"
  shows "relay_inv c t key pss ((p, s', m), r) n" "published_events s' = published_events s"
proof -
  obtain q where at: "publisher_at c t key pss q (p, s, m)" using assms(1) by (auto simp: relay_inv_def)
  obtain d new where d: "s' = s\<lparr>rs_db := d\<rparr>" "events d = events (rs_db s) @ new" using assms(2) by (auto simp: journal_grows_def)
  have q: "q \<le> int (length (events (rs_db s)))" using at by (simp add: publisher_at_def)
  have sent: "sent s' q = sent s q" by (rule sent_grows[OF assms(2) q])
  have "relay_push_cursor s' = relay_push_cursor s" by (simp add: d(1) relay_push_cursor_def)
  with at d(2) sent have at': "publisher_at c t key pss q (p, s', m)" by (auto simp: publisher_at_def d(1))
  with assms show "relay_inv c t key pss ((p, s', m), r) n" by (auto simp: relay_inv_def)
  show "published_events s' = published_events s" using published_at[OF at] published_at[OF at'] sent by simp
qed

lemma reader_at_cong: "find_ingest (sh_peer t) r' = find_ingest (sh_peer t) r \<Longrightarrow> reader_at t pss r n \<Longrightarrow> reader_at t pss r' n"
proof -
  assume "find_ingest (sh_peer t) r' = find_ingest (sh_peer t) r" "reader_at t pss r n"
  then have "stands t pss r' n g = stands t pss r n g" for g by (simp add: stands_def row_in_def row_at_def)
  with \<open>reader_at t pss r n\<close> show ?thesis by (simp add: reader_at_def)
qed

lemma new_publisherD:
  assumes "new_publisher cfg = Some p"
  shows "\<not> pu_diverged p" "\<not> pu_force_rotate p"
    "pu_cfg p = cfg\<lparr>pc_batch := (if pc_batch cfg \<le> 0 then default_batch_limit else pc_batch cfg)\<rparr>"
  using assms by (auto simp: new_publisher_def split: if_splits)

lemma restart_inv:
  assumes "relay_inv c t key pss ((p, s, m), r) n" "new_publisher (pu_cfg p) = Some p'"
  shows "relay_inv c t key pss ((p', s, m), r) n"
proof -
  note p' = new_publisherD[OF assms(2)]
  obtain q where at: "publisher_at c t key pss q (p, s, m)" using assms(1) by (auto simp: relay_inv_def)
  then have "0 < pc_batch (pu_cfg p)" by (simp add: publisher_at_def)
  with p'(3) have cfg: "pu_cfg p' = pu_cfg p" by simp
  have "publisher_at c t key pss q (p', s, m)" using at p'(1,2) cfg by (simp add: publisher_at_def)
  with assms(1) cfg show ?thesis by (auto simp: relay_inv_def)
qed

text \<open>One step of the relay is a step of the exchange.\<close>

lemma relay_simulates:
  assumes "relay_step cfg c (sh_peer t) st st'" "reads_stream cfg key t" "relay_inv c t key pss st n"
  shows "\<exists>pss' n'. relay_inv c t key pss' st' n' \<and> exchange_step c (exchange_of st n) (exchange_of st' n')"
  using assms(1)
proof cases
  case (step_journal s s' p m r)
  note inv = assms(3)[unfolded step_journal]
  note j = journal_step[OF inv step_journal(3,4)]
  have "exchange_step c (exchange_of st n) (exchange_of st' n)"
    using exchange_local[of c "published_events s" n "rs_db r" "rs_db r"] j(2) by (simp add: exchange_of_def step_journal)
  with j(1) show ?thesis unfolding step_journal by blast
next
  case (step_publish pub k err pub' r)
  note inv = assms(3)[unfolded step_publish]
  obtain pss' new where p: "relay_inv c t key pss' (pub', r) n"
    "published_events (fst (snd pub')) = published_events (fst (snd pub)) @ new"
    using publish_step[OF inv step_publish(3)] by blast
  have "exchange_step c (exchange_of st n) (exchange_of st' n)"
    using exchange_send[of c "published_events (fst (snd pub))" n "rs_db r" new] p(2) by (simp add: exchange_of_def step_publish)
  with p(1) show ?thesis unfolding step_publish by blast
next
  case (step_restart p p' s m r)
  have "exchange_step c (exchange_of st n) (exchange_of st' n)"
    using exchange_local[of c "published_events s" n "rs_db r" "rs_db r"] by (simp add: exchange_of_def step_restart)
  with restart_inv[OF assms(3)[unfolded step_restart] step_restart(3)] show ?thesis unfolding step_restart by blast
next
  case (step_other r' r pub)
  have "relay_inv c t key pss st' n"
    using assms(3) reader_at_cong[OF step_other(3)] by (auto simp: relay_inv_def step_other)
  moreover have "exchange_step c (exchange_of st n) (exchange_of st' n)"
    using exchange_local[of c "published_events (fst (snd pub))" n "rs_db r" "rs_db r'"] by (simp add: exchange_of_def step_other)
  ultimately show ?thesis by blast
next
  case (step_poll e m i k r res stats r' p s)
  obtain v where v: "n \<le> v" "v \<le> length (published_events s)" "relay_inv c t key pss ((p, s, m), r') v"
    "rs_db r' = fold (offer c e) (drop n (take v (published_events s))) (rs_db r)"
    using poll_delivers[OF assms(2) assms(3)[unfolded step_poll], of e i k] step_poll(3) by auto
  have "exchange_step c (exchange_of st n) (exchange_of st' v)"
    using exchange_deliver[OF v(1,2), of c "rs_db r" e] v(4) by (simp add: exchange_of_def step_poll)
  with v(3) show ?thesis unfolding step_poll by blast
qed

lemma start_inv:
  assumes "relay_start c t key st"
  shows "relay_inv c t key [] st 0" "exchange_of st 0 = ([], 0, rs_db (snd st))"
proof -
  obtain p s m r where st: "st = ((p, s, m), r)" by (cases st) auto
  note start = assms[unfolded relay_start_def st prod.case]
  have new: "new_publisher (pu_cfg p) = Some p" using start by blast
  note p = new_publisherD[OF new]
  have batch: "0 < pc_batch (pu_cfg p)"
    using arg_cong[OF p(3), of pc_batch] by (simp add: default_batch_limit_def split: if_splits)
  have unsent: "sent s 0 = []"
  proof -
    have "\<not> i \<le> 0" if "(i, e) \<in> set (outgoing s)" for i e
      using that by (auto simp: outgoing_def journal_rows_def dest!: set_zip_leftD simp del: upt_Suc)
    then show ?thesis by (auto simp: sent_def filter_empty_conv)
  qed
  have cursor: "relay_push_cursor s = Inr \<lparr>pp_seq = 0, pp_epoch = 1, pp_next_rs = 1\<rparr>"
    using start by (simp add: relay_push_cursor_def)
  have "publisher_at c t key [] 0 (p, s, m)"
    using start p(1,2) batch cursor unfolding publisher_at_def prod.case
    by (simp add: unsent small_stream_def stream_files_def dir_of_def)
  moreover have "reader_at t [] r 0" using start by (simp add: reader_at_def stands_def)
  ultimately show "relay_inv c t key [] st 0" using start new by (auto simp: relay_inv_def st)
  show "exchange_of st 0 = ([], 0, rs_db (snd st))"
    using cursor unsent by (simp add: exchange_of_def st published_events_def)
qed

lemma relay_run_simulates:
  assumes "(relay_step cfg c (sh_peer t))\<^sup>*\<^sup>* st st'" "relay_start c t key st" "reads_stream cfg key t"
  shows "\<exists>pss n. relay_inv c t key pss st' n \<and> (exchange_step c)\<^sup>*\<^sup>* ([], 0, rs_db (snd st)) (exchange_of st' n)"
  using assms(1)
proof (induction rule: rtranclp_induct)
  case base
  then show ?case using start_inv[OF assms(2)] by (intro exI[of _ "[]"] exI[of _ 0]) simp
next
  case (step st1 st2)
  then obtain pss n where "relay_inv c t key pss st1 n" "(exchange_step c)\<^sup>*\<^sup>* ([], 0, rs_db (snd st)) (exchange_of st1 n)" by blast
  with relay_simulates[OF step.hyps(2) assms(3)] show ?case by (meson rtranclp.rtrancl_into_rtrancl)
qed

lemma relay_inv_position:
  assumes "relay_inv c t key pss st n"
  shows "n \<le> length (published_events (fst (snd (fst st))))"
proof -
  obtain p s m r where st: "st = ((p, s, m), r)" by (cases st) auto
  obtain q where at: "publisher_at c t key pss q (p, s, m)" and rd: "reader_at t pss r n"
    using assms by (auto simp: relay_inv_def st)
  have "concat pss = map (encode c) (published_events s)" using at published_at[OF at] by (simp add: publisher_at_def)
  then have "length (concat pss) = length (published_events s)" by simp
  with rd show ?thesis by (simp add: reader_at_def st)
qed

text \<open>A publication with a batch as large as the journal publishes all of it.\<close>

lemma outgoing_few: "length (outgoing s) \<le> length (events (rs_db s))"
proof -
  have "length (outgoing s) \<le> length (journal_rows (rs_db s))" by (simp add: outgoing_def)
  then show ?thesis by (simp add: journal_rows_def del: upt_Suc)
qed

lemma publish_everything:
  assumes "relay_inv c t key pss ((p, s, m), r) n" "int (length (events (rs_db s))) \<le> pc_batch (pu_cfg p)"
    and "publish_pending c (p, s, m) = (k, err, p', s', m')"
  shows "err = None" "published_events s' = map snd (outgoing s')" "md_path m' = medium_view m' (length (md_entries m')) 0"
    "outgoing s' = outgoing s"
proof -
  obtain q where at: "publisher_at c t key pss q (p, s, m)" and pub: "publishable c s"
    using assms(1) by (auto simp: relay_inv_def)
  obtain pss' q' where out: "err = None" "publisher_at c t key pss' q' (p', s', m')" "rs_db s' = rs_db s"
    "sent s' q' = sent s q @ map snd (take (nat (pc_batch (pu_cfg p))) (pending s q))"
    using publish_at[OF at pub] assms(3) by auto
  have "length (pending s q) \<le> length (outgoing s)" by (simp add: pending_def)
  then have "take (nat (pc_batch (pu_cfg p))) (pending s q) = pending s q"
    using outgoing_few[of s] assms(2) by simp
  then have "sent s' q' = map snd (outgoing s)"
    using split_numbered[OF numbered_outgoing, of s q] unfolding out(4) by (metis map_append sent_def pending_def)
  moreover show same: "outgoing s' = outgoing s" using out(3) by (simp add: outgoing_def)
  ultimately show "published_events s' = map snd (outgoing s')" using published_at[OF out(2)] by simp
  show "err = None" by (rule out(1))
  show "md_path m' = medium_view m' (length (md_entries m')) 0"
    using out(2) by (simp add: publisher_at_def medium_view_def md_entries_def)
qed

end
