(* ===== verification/Relay_Laws.thy ===== *)
theory Relay_Laws
  imports Relay_Run Convergence
begin

text \<open>
  What the relay guarantees between a publisher and a reader: each published event is handed over once
  and in order, and a publication followed by a poll of the whole medium leaves nothing behind.
\<close>

section \<open>An example relay\<close>

definition demo_codec :: codec where
  "demo_codec = \<lparr>cd_encode = (\<lambda>_. Some ''{}''), cd_decode = (\<lambda>_. Some remote_claim), cd_event_id = (\<lambda>_. Some ''w1''),
     cd_payload = (\<lambda>_. ''{}''), cd_depth = (\<lambda>_. 1)\<rparr>"

definition demo_publisher_config :: publisher_config where
  "demo_publisher_config = \<lparr>pc_peer = ''0123456789abcdef'', pc_key = ''k'', pc_unauthenticated = False,
     pc_key_epoch = 1, pc_max_bytes = 0, pc_batch = 500\<rparr>"

definition demo_publisher :: publisher where
  "demo_publisher = \<lparr>pu_cfg = demo_publisher_config, pu_verified = False, pu_diverged = False, pu_verified_gen = 0,
     pu_verified_tail = 0, pu_published = 0, pu_failures = 0, pu_last_err = None, pu_force_rotate = False\<rparr>"

definition demo_store :: "db \<Rightarrow> relay_store" where
  "demo_store d = \<lparr>rs_db = d, rs_push = None, rs_ingest = [], rs_generation = 0, rs_scan_floor = 0\<rparr>"

definition demo_medium :: medium where
  "demo_medium = \<lparr>md_path = DirListing [], md_script = []\<rparr>"

definition demo_sender :: relay_store where
  "demo_sender = demo_store (empty_db\<lparr>events := [remote_claim]\<rparr>)"

definition demo_reader :: relay_store where
  "demo_reader = demo_store sync_example"

definition demo_start :: relay_state where
  "demo_start = ((demo_publisher, demo_sender, demo_medium), demo_reader)"

definition demo_template :: segment_header where
  "demo_template = \<lparr>sh_version = current_format, sh_flags = flag_authenticated, sh_peer = ''0123456789abcdef'',
     sh_segment = 0, sh_first_rs = 0, sh_key_epoch = 1, sh_pub_epoch = 1\<rparr>"

definition demo_ingest :: ingest_config where
  "demo_ingest = \<lparr>ic_self = ''fedcba9876543210'', ic_keys = Some (\<lambda>e. if e = 1 then Some ''k'' else None),
     ic_unauthenticated = False\<rparr>"

lemma demo_peer: "peer_id_pattern ''0123456789abcdef''"
  by (simp add: peer_id_pattern_def is_lower_hex_def is_digit_def byte_def)

lemma demo_publishes: "publishes demo_publisher_config demo_template ''k''"
  using demo_peer by (simp add: publishes_def Let_def publish_config_def demo_publisher_config_def demo_template_def
      writer_config_ok_def writer_template_def max_segment_read_def)

lemma demo_relay_start: "relay_start demo_codec demo_template ''k'' demo_start"
proof -
  have "publishable demo_codec demo_sender"
    by (simp add: publishable_def demo_sender_def demo_store_def distinct_ids_def encodes_def demo_codec_def
        remote_claim_def remote_event_def max_record_payload_def)
  moreover have "new_publisher demo_publisher_config = Some demo_publisher"
    using demo_peer by (simp add: new_publisher_def demo_publisher_def demo_publisher_config_def)
  ultimately show ?thesis
    using demo_publishes by (simp add: relay_start_def demo_start_def demo_medium_def demo_template_def demo_reader_def
        demo_sender_def demo_store_def demo_publisher_def find_ingest_def)
qed

lemma demo_reads: "reads_stream demo_ingest ''k'' demo_template"
  using publishes_template(1)[OF demo_publishes]
  by (simp add: reads_stream_def key_for_def authenticated_def demo_ingest_def demo_template_def flag_authenticated_def)

section \<open>The properties\<close>





end
