(* ===== verification/Relay_Hazards.thy ===== *)
theory Relay_Hazards
  imports Relay_Laws
begin

text \<open>
  Where the relay stops or loses records: a publisher that died between its appends and its cursor, a
  torn tail that a restart seals, and a segment that reaches a reader after its successors.
\<close>

section \<open>The crash window\<close>

lemma verify_tail_cong:
  assumes "rs_db s' = rs_db s" "rs_generation s' = rs_generation s"
  shows "verify_tail c s' m p = verify_tail c s m p"
proof -
  have lookup: "lookup_relay_journal_seqs ids s' = lookup_relay_journal_seqs ids s" for ids
    using assms(1) by (intro ext) (simp add: lookup_relay_journal_seqs_def)
  show ?thesis unfolding verify_tail_def journal_generation_def journal_tail_def assms lookup ..
qed

lemma advance_push_generation [simp]: "rs_generation (advance_relay_push_cursor q nx s) = rs_generation s"
  by (simp add: advance_relay_push_cursor_def)

text \<open>A medium ahead of the cursor is refused.\<close>

lemma publish_ahead:
  assumes "publisher_at c t key pss' q' (p, s', m)" "publishable c s'"
    and "rs_db s' = rs_db s" "rs_generation s' = rs_generation s" "pending s q \<noteq> []" "pss' \<noteq> []"
    and "relay_push_cursor s = Inr \<lparr>pp_seq = q, pp_epoch = sh_pub_epoch t, pp_next_rs = nx\<rparr>"
    and "nx \<noteq> 0" "nx \<noteq> of_nat (Suc (length (concat pss')))"
  shows "\<exists>p'. publish_pending c (p, s, m) = (0, Some (PubRelay ErrPeerIDConflict), p', s, m)"
proof -
  note at = assms(1)[unfolded publisher_at_def prod.case]
  have pub: "publishes (pu_cfg p) t key" and batch: "0 < pc_batch (pu_cfg p)" and small: "small_stream pss'" using at by blast+
  obtain p1 where verify: "verify_tail c s m p = (None, p1)" "pu_cfg p1 = pu_cfg p"
    using verify_tail_at[OF assms(1,2)] verify_tail_cong[OF assms(3,4)] by auto
  let ?wc = "publish_config (pu_cfg p) \<lparr>pp_seq = q, pp_epoch = sh_pub_epoch t, pp_next_rs = nx\<rparr>"
  have wc: "writer_config_ok ?wc" "t = writer_template ?wc" "key = wc_key ?wc" "wc_next_rs ?wc = nx"
    using publishes_any[OF pub] by simp_all (simp add: publish_config_def)
  have path: "md_path m = DirListing (dir_of (stream_dir t (wc_key ?wc) pss' []))"
    using at stream_dir_whole[OF assms(6)] wc(3) by simp
  have "inspect_tail ?wc m = Inl ErrPeerIDConflict"
    using inspect_stream[OF wc(1,2) small assms(6) path] assms(8,9) wc(4) by simp
  then have "new_writer ?wc m = (Inl ErrPeerIDConflict, m)" by (simp add: new_writer_start[OF wc(1) path])
  moreover have "read_relay_journal_since q (pc_batch (pu_cfg p)) s \<noteq> []" using batch assms(5) by (simp add: read_pending)
  ultimately have "publish c (p, s, m) = (0, Some (PubRelay ErrPeerIDConflict), p1, s, m)"
    using verify at assms(7) by (simp add: publish_def Let_def)
  then show ?thesis by (simp add: publish_pending_def)
qed

text \<open>
  C16. A publisher that dies after it appended some rows and before it advanced the cursor does not
  republish them, as the package comment says it does: every later publication is refused with
  the verdict of a duplicated peer id, and changes neither the medium nor the cursor.
\<close>

theorem crash_window_refused:
  assumes "relay_start c t key st" "reads_stream cfg key t" "(relay_step cfg c (sh_peer t))\<^sup>*\<^sup>* st ((p, s, m), r)"
    and "relay_push_cursor s = Inr pos" "new_writer (publish_config (pu_cfg p) pos) m = (Inr w, m1)"
    and "rows = take j (read_relay_journal_since (pp_seq pos) (pc_batch (pu_cfg p)) s)" "rows \<noteq> []"
    and "publish_rows c rows 0 (w, m1) = (n, stop, w', m')" "new_publisher (pu_cfg p) = Some p'"
  shows "n = length rows \<and> stop = None
    \<and> (\<exists>p''. publish_pending c (p', s, m') = (0, Some (PubRelay ErrPeerIDConflict), p'', s, m'))"
proof -
  obtain pss n0 where inv: "relay_inv c t key pss ((p, s, m), r) n0" using relay_run_simulates[OF assms(3,1,2)] by blast
  obtain q where at: "publisher_at c t key pss q (p, s, m)" and pub: "publishable c s" using inv by (auto simp: relay_inv_def)
  note facts = at[unfolded publisher_at_def prod.case]
  have batch: "0 < pc_batch (pu_cfg p)" and small: "small_stream pss" using facts by blast+
  have pos: "pos = \<lparr>pp_seq = q, pp_epoch = sh_pub_epoch t, pp_next_rs = of_nat (Suc (length (concat pss)))\<rparr>"
    using facts assms(4) by simp
  let ?l = "min j (nat (pc_batch (pu_cfg p)))"
  have rows: "rows = take ?l (pending s q)" using assms(6) batch pos by (simp add: read_pending min.commute)
  have ne: "take ?l (pending s q) \<noteq> []" using assms(7) rows by simp
  obtain pss' where app: "publish_rows c rows 0 (w, m1) = (length rows, None, w', m')" "writer_at t key pss' (w', m')"
      "length (concat pss') = length (concat pss) + length rows"
    and after: "\<And>p1. pu_cfg p1 = pu_cfg p \<Longrightarrow> \<not> pu_diverged p1 \<Longrightarrow> \<not> pu_force_rotate p1 \<Longrightarrow>
        publisher_at c t key pss' (fst (last rows)) (p1, advance_relay_push_cursor (fst (last rows)) (w_next_rs w') s, m')"
    using rows_published[OF at pub ne] assms(5,8) unfolding rows pos by auto
  note p' = new_publisherD[OF assms(9)]
  have cfg: "pu_cfg p' = pu_cfg p" using p'(3) batch by simp
  have small': "length (concat pss') < 2 ^ 63 - 1" and ne': "pss' \<noteq> []" using app(2) by (simp_all add: writer_at_def small_stream_def)
  have next_rs: "(of_nat (Suc (length (concat pss))) :: 64 word) \<noteq> 0"
    "(of_nat (Suc (length (concat pss))) :: 64 word) \<noteq> of_nat (Suc (length (concat pss')))"
  proof -
    have lens: "Suc (length (concat pss)) < 2 ^ 64" "Suc (length (concat pss')) < 2 ^ 64"
      using small small' by (simp_all add: small_stream_def)
    then show "(of_nat (Suc (length (concat pss))) :: 64 word) \<noteq> 0" by (intro of_nat_nonzero) simp_all
    show "(of_nat (Suc (length (concat pss))) :: 64 word) \<noteq> of_nat (Suc (length (concat pss')))"
      using of_nat_less_word[OF lens] app(3) assms(7) by auto
  qed
  let ?s = "advance_relay_push_cursor (fst (last rows)) (w_next_rs w') s"
  have "publishable c ?s" using pub by (simp add: publishable_def distinct_ids_def)
  moreover have "pending s q \<noteq> []" using ne by auto
  moreover have "relay_push_cursor s = Inr \<lparr>pp_seq = q, pp_epoch = sh_pub_epoch t, pp_next_rs = of_nat (Suc (length (concat pss)))\<rparr>"
    using facts by blast
  ultimately have "\<exists>p''. publish_pending c (p', s, m') = (0, Some (PubRelay ErrPeerIDConflict), p'', s, m')"
    using publish_ahead[OF after[OF cfg p'(1,2)] _ _ _ _ ne' _ next_rs] by simp
  with app(1) assms(8) show ?thesis by simp
qed

theorem crash_window_refused_witness:
  "\<exists>w m1 w' m' p''. new_writer (publish_config demo_publisher_config \<lparr>pp_seq = 0, pp_epoch = 1, pp_next_rs = 1\<rparr>) demo_medium = (Inr w, m1)
    \<and> publish_rows demo_codec [(1, remote_claim)] 0 (w, m1) = (1, None, w', m')
    \<and> publish_pending demo_codec (demo_publisher, demo_sender, m') = (0, Some (PubRelay ErrPeerIDConflict), p'', demo_sender, m')"
proof -
  let ?pos = "\<lparr>pp_seq = 0, pp_epoch = 1, pp_next_rs = 1\<rparr>" let ?wc = "publish_config demo_publisher_config ?pos"
  have wc: "writer_config_ok ?wc" "demo_template = writer_template ?wc"
    using publishes_any[OF demo_publishes, of ?pos] by (simp_all add: demo_template_def)
  obtain w m1 where new: "new_writer ?wc demo_medium = (Inr w, m1)"
    using new_writer_fresh[OF wc, of demo_medium] by (auto simp: demo_medium_def publish_config_def)
  obtain n stop w' m' where rows: "publish_rows demo_codec [(1, remote_claim)] 0 (w, m1) = (n, stop, w', m')" by (metis prod_cases4)
  have reach: "(relay_step demo_ingest demo_codec (sh_peer demo_template))\<^sup>*\<^sup>* demo_start
      ((demo_publisher, demo_sender, demo_medium), demo_reader)" by (simp add: demo_start_def)
  have cursor: "relay_push_cursor demo_sender = Inr ?pos" by (simp add: relay_push_cursor_def demo_sender_def demo_store_def)
  have cfg: "pu_cfg demo_publisher = demo_publisher_config" by (simp add: demo_publisher_def)
  have take: "[(1, remote_claim)] = take 1 (read_relay_journal_since (pp_seq ?pos) (pc_batch (pu_cfg demo_publisher)) demo_sender)"
    by (simp add: read_relay_journal_since_def demo_sender_def demo_store_def journal_rows_def empty_db_def demo_publisher_def
        demo_publisher_config_def)
  have fresh: "new_publisher (pu_cfg demo_publisher) = Some demo_publisher"
    using demo_relay_start by (simp add: relay_start_def demo_start_def)
  note crash = crash_window_refused[OF demo_relay_start demo_reads reach cursor new[folded cfg] take _ rows fresh]
  then show ?thesis using new rows by auto
qed

section \<open>A torn tail\<close>

text \<open>An append that is cut short leaves the beginning of its frame.\<close>

lemma append_cut_at:
  assumes "writer_at t key pss (w, m)" "template_ok t key" "int (length p) \<le> max_record_payload"
    and "0 < k" "k < record_header_size + length p"
    and "\<not> (0 < w_records w \<and> w_max_bytes w < w_size w + int (record_header_size + length p))"
  shows "\<exists>w' m' rest. append_payload p (w, m\<lparr>md_script := [IoFail k]\<rparr>) = (Inl ErrMedium, w', m')
    \<and> md_path m' = DirListing (dir_of (stream_dir t key pss rest)) \<and> md_script m' = []
    \<and> unfinished t key pss rest \<and> length rest = k"
proof -
  let ?h = "newest_header t pss" let ?n = "of_nat (Suc (length (concat pss))) :: 64 word"
  let ?f = "frame_bytes ?h ?n p key"
  note at = assms(1)[unfolded writer_at_def, simplified]
  have ne: "pss \<noteq> []" and small: "small_stream pss" using at by simp_all
  have ok: "segment_ok ?h key" by (rule newest_header_ok[OF assms(2) small ne])
  have frame: "append_record [] ?h ?n p key = Inr ?f"
    using ok assms(3) by (simp add: append_record_def segment_ok_def)
  have asc: "ascending (stream_files key (stream_segs t 1 1 (butlast pss))
      @ [(of_nat (length pss), segment_bytes ?h key (last pss))])"
    using stream_ascending[of pss key t] small unfolding stream_files_last[OF ne] by (simp add: small_stream_def)
  have files: "append_entry (file_name (of_nat (length pss))) (take k ?f) (dir_of (stream_files key (stream_segs t 1 1 pss)))
      = dir_of (stream_dir t key pss (take k ?f))"
    unfolding stream_files_last[OF ne] append_entry_last[OF asc] stream_dir_def ..
  have "length ?f \<noteq> 0" unfolding length_frame_bytes by (simp add: sizes)
  then have "?f \<noteq> []" by blast
  then have torn: "unfinished t key pss (take k ?f)"
    using assms(3-5) unfolding unfinished_def torn_frame_def by (auto simp del: of_nat_Suc intro!: exI[of _ p] exI[of _ k])
  have usable: "writer_usable w = Inr ()" using at by (simp add: writer_usable_def)
  have "append_payload p (w, m\<lparr>md_script := [IoFail k]\<rparr>) = append_frame p (w, m\<lparr>md_script := [IoFail k]\<rparr>)"
    using usable assms(3,6) by (auto simp: append_payload_def)
  with at files frame torn assms(4,5) show ?thesis
    by (auto simp: append_frame_def write_file_def next_io_def md_entries_def Let_def writer_fail_def close_file_def min_def)
qed

lemma ingest_until_stop:
  assumes "\<And>pos st. \<exists>out stats d. ingest_segment cfg c e peer f True pos st = (out, True, stats, d)"
    and "\<forall>a \<in> set A. sf_no a < sf_no f" "sf_no f < N" "sf_no f < N'"
  shows "ingest_segments cfg c e peer N (A @ f # later) pos st = ingest_segments cfg c e peer N' (A @ f # later') pos st"
  using assms(2)
proof (induction A arbitrary: pos st)
  case Nil
  obtain out stats d where "ingest_segment cfg c e peer f True pos (fst st, rs_db (snd st)) = (out, True, stats, d)"
    using assms(1) by blast
  with assms(3,4) show ?case by (simp add: Let_def split: prod.splits sum.splits)
next
  case (Cons a A)
  have "sf_no a < sf_no f" using Cons.prems by simp
  then have sealed: "(sf_no a < N) = True" "(sf_no a < N') = True" using assms(3,4) by (auto intro: less_trans)
  have IH: "ingest_segments cfg c e peer N (A @ f # later) pos st = ingest_segments cfg c e peer N' (A @ f # later') pos st" for pos st
    using Cons by simp
  show ?case unfolding append_Cons ingest_segments.simps sealed IH ..
qed

text \<open>The torn segment is the last of the stream's files, whatever comes after it.\<close>

lemma stream_held_butlast:
  assumes "pss \<noteq> []"
  shows "stream_held t pss rest = stream_held t (butlast pss) [] @ [(newest_header t pss, last pss, rest)]"
proof (rule nth_equalityI)
  show "length (stream_held t pss rest) = length (stream_held t (butlast pss) [] @ [(newest_header t pss, last pss, rest)])"
    using assms by (simp add: stream_held_def)
  fix i assume "i < length (stream_held t pss rest)"
  then have i: "i < length pss" by (simp add: stream_held_def)
  show "stream_held t pss rest ! i = (stream_held t (butlast pss) [] @ [(newest_header t pss, last pss, rest)]) ! i"
  proof (cases "Suc i = length pss")
    case True
    then have "i = length pss - 1" by simp
    then show ?thesis using assms seg_header_last[OF assms, of t] last_conv_nth[OF assms] by (simp add: stream_held_def nth_append)
  next
    case False
    with i have "i < length pss - 1" by simp
    moreover have "take i (butlast pss) = take i pss" using False i by (simp add: butlast_conv_take)
    ultimately show ?thesis using False i seg_header_cong[of i "butlast pss" pss t]
      by (simp add: stream_held_def nth_append nth_butlast)
  qed
qed

text \<open>The reader at the torn segment: it stalls there, and what follows does not matter.\<close>

lemma poll_torn:
  assumes "reads_stream cfg key t" "tailed t key pss rest" "rest \<noteq> []" "reader_at t pss s J"
  shows "\<exists>stats' s'. is_stalls stats' \<noteq> [] \<and> (\<exists>J'. reader_at t pss s' J')
    \<and> (\<forall>later. later \<noteq> [] \<longrightarrow> ascending (stream_dir t key pss rest @ later) \<longrightarrow>
        ingest_peer cfg c e (sh_peer t) (DirListing (dir_of (stream_dir t key pss rest @ later))) (stats, s) = (Inr (), stats', s'))"
proof -
  have ne: "pss \<noteq> []" and small: "small_stream pss" using assms(2) by (simp_all add: tailed_def)
  have J: "J \<le> length (concat pss)" using assms(4) by (simp add: reader_at_def)
  obtain g where g: "g \<le> length pss" "stands t pss s J g" using assms(4) by (auto simp: reader_at_def)
  have smalls: "J < 2 ^ 63" "g < 2 ^ 63" "length pss < 2 ^ 63 - 1" using J g(1) small by (simp_all add: small_stream_def)
  let ?v = "butlast pss" let ?n = "length pss - 1"
  let ?torn = "held_file key (newest_header t pss, last pss, rest)"
  have n: "?n < length pss" using ne by simp
  have peer: "sh_peer t \<noteq> []" and auth: "\<not> ic_unauthenticated cfg" and tok: "template_ok t key"
    using assms(1) peer_nonempty[of t key] by (simp_all add: reads_stream_def)
  have no: "sf_no ?torn = of_nat (length pss)" by (simp add: held_file_def file_of_def newest_header_def)
  have held: "holds_segment ?torn (newest_header t pss) key (last pss) rest"
    using held_segment_at[OF assms(2) n] ne seg_header_last[OF ne, of t] last_conv_nth[OF ne]
    by (simp add: stream_held_butlast[OF ne] nth_append) (simp add: stream_held_def)
  have readable: "readable cfg (sh_peer t) key (newest_header t pss)"
    using seg_header_readable[OF assms(1) small n] seg_header_last[OF ne, of t] by simp
  note stops = ingest_torn_sealed[OF readable held peer auth assms(3)]
  let ?A = "map (held_file key) (drop (g - 1) (stream_held t ?v []))" let ?N = "of_nat (length pss) + 1 :: 64 word"
  have before: "\<forall>a \<in> set ?A. sf_no a < of_nat (length pss)"
  proof
    fix a assume "a \<in> set ?A"
    then obtain i where "i < ?n" "a = held_file key (seg_header t ?v i, ?v ! i, [])"
      by (auto simp: stream_held_def dest!: in_set_dropD)
    then have "i < ?n" "sf_no a = of_nat (Suc i)" by (simp_all add: held_file_def file_of_def)
    then show "sf_no a < of_nat (length pss)" using of_nat_less_word[of "Suc i" "length pss"] smalls(3) by simp
  qed
  have next_no: "(of_nat (length pss) :: 64 word) < ?N"
    using of_nat_less_word[of "length pss" "Suc (length pss)"] smalls(3) by (simp add: add.commute)
  have small_v: "small_stream ?v"
    using small concat_last[OF ne] by (auto simp: small_stream_def dest: in_set_butlastD)
  then have tail: "?v = [] \<and> [] = [] \<or> tailed t key ?v []" by (auto simp: tailed_def)
  have "length (concat (take a ?v)) \<le> length (concat (take a pss))" for a
    using concat_take_le[of ?n "take a pss"] by (simp add: butlast_conv_take min.commute)
  then have st: "stands t ?v s J g" by (intro stands_mono[OF g(2)]) blast
  from poll_any[OF assms(1) tail disjI1[OF refl] st smalls(1), of c e ?N "[?torn]" stats]
  obtain stats1 s1 g' pos' where one: "ingest_segments cfg c e (sh_peer t) ?N (?A @ [?torn]) (position_at t J g) (stats, s)
      = ingest_segments cfg c e (sh_peer t) ?N [?torn] pos' (stats1, s1)"
    "stands t ?v s1 (max J (length (concat ?v))) g'" "g' = g \<or> g' \<le> length ?v" by blast
  obtain out stats2 d where stop: "ingest_segment cfg c e (sh_peer t) ?torn True pos' (stats1, rs_db s1) = (out, True, stats2, d)"
    "oc_verdict out = Some ErrSegmentCorrupt" "is_stalls stats2 \<noteq> []" using stops[of c e pos' "(stats1, rs_db s1)"] by blast
  let ?s = "s1\<lparr>rs_db := d\<rparr>"
  have all: "ingest_segments cfg c e (sh_peer t) ?N (?A @ [?torn]) (position_at t J g) (stats, s) = (Inr (), stats2, ?s)"
    unfolding one(1) using stop next_no by (simp add: no next_position_def Let_def)
  have "reader_at t pss s1 (max J (length (concat ?v)))"
  proof -
    have "stands t pss s1 (max J (length (concat ?v))) g'"
      by (rule stands_view[OF one(2) _ g(2), of ?n]) (use one(3) n in \<open>auto simp: butlast_conv_take\<close>)
    moreover have "length (concat ?v) \<le> length (concat pss)" by (simp add: concat_last[OF ne])
    moreover have "g' \<le> length pss" using one(3) g(1) by auto
    ultimately show ?thesis using J unfolding reader_at_def by auto
  qed
  then have reader: "reader_at t pss ?s (max J (length (concat ?v)))"
    by (rule reader_at_cong[rotated]) (simp add: find_ingest_def)
  have "ingest_peer cfg c e (sh_peer t) (DirListing (dir_of (stream_dir t key pss rest @ later))) (stats, s) = (Inr (), stats2, ?s)"
    if later: "later \<noteq> []" "ascending (stream_dir t key pss rest @ later)" for later
  proof -
    let ?B = "map file_of later"
    have list: "list_segments (DirListing (dir_of (stream_dir t key pss rest @ later)))
        = Inr (map (held_file key) (stream_held t pss rest) @ ?B, [])"
      using list_segments_dir_of[OF later(2)] stream_dir_held[OF ne] by simp
    have cursor: "relay_ingest_cursor (sh_peer t) s = Inr (position_at t J g)"
      by (rule relay_ingest_cursor_stands[OF g(2) tok smalls(1,2)])
    let ?H = "map (held_file key) (stream_held t pss rest)" let ?P = "\<lambda>f. sf_no f < of_nat g"
    have numbers: "sf_no (?H ! j) = of_nat (Suc j)" if "j < length ?H" for j
      using that by (simp add: stream_held_def held_file_def file_of_def del: of_nat_Suc)
    have "dropWhile ?P ?H = drop (g - 1) ?H"
      using smalls(2,3) numbers by (intro dropWhile_numbers) (simp_all add: stream_held_def)
    moreover have "?torn \<in> set ?H" by (simp add: stream_held_butlast[OF ne])
    moreover have "\<not> ?P ?torn" using of_nat_less_word[of "length pss" g] g(1) smalls by (simp add: no)
    ultimately have "unread (?H @ ?B) (position_at t J g) = drop (g - 1) ?H @ ?B"
      unfolding unread_def position_at_def by (simp add: dropWhile_append1)
    also have "drop (g - 1) ?H = ?A @ [?torn]"
    proof -
      have "g - 1 \<le> length (stream_held t ?v [])" using g(1) by (simp add: stream_held_def)
      then show ?thesis unfolding stream_held_butlast[OF ne] by (simp add: drop_map)
    qed
    finally have un: "unread (?H @ ?B) (position_at t J g) = ?A @ ?torn # ?B" by simp
    obtain last_no where last: "sf_no (last (?H @ ?B)) = last_no" "of_nat (length pss) < last_no"
    proof -
      have "last later \<in> set later" using later(1) by simp
      then have "of_nat (length pss) < fst (last later)"
        using later(2) by (auto simp: ascending_def stream_dir_def sorted_wrt_append)
      then show thesis using later(1) by (intro that[of "fst (last later)"]) (simp_all add: last_map file_of_def)
    qed
    have "ingest_peer cfg c e (sh_peer t) (DirListing (dir_of (stream_dir t key pss rest @ later))) (stats, s)
        = ingest_segments cfg c e (sh_peer t) last_no (?A @ ?torn # ?B) (position_at t J g) (stats, s)"
      unfolding ingest_peer_def list sum.case prod.case snd_conv cursor un last(1) using later(1) by simp
    also have "\<dots> = ingest_segments cfg c e (sh_peer t) ?N (?A @ [?torn]) (position_at t J g) (stats, s)"
    proof (rule ingest_until_stop)
      show "\<exists>out stats d. ingest_segment cfg c e (sh_peer t) ?torn True pos st = (out, True, stats, d)" for pos st
        using stops by blast
    qed (use before last(2) next_no in \<open>simp_all add: no\<close>)
    finally show ?thesis using all by simp
  qed
  then show ?thesis using stop(3) reader by blast
qed

text \<open>
  C17. After a write cut short inside a frame, the restarted publisher seals the torn segment as it is and
  goes on in the next one. Every reader then stalls on the torn segment for good: its poll comes
  out the same whatever the publisher writes afterwards.
\<close>

theorem torn_tail_strands:
  assumes "writer_config_ok wc" "t = writer_template wc" "reads_stream cfg (wc_key wc) t"
    and "writer_at t (wc_key wc) pss (w, m)" "small_stream (pss @ [[]])" "wc_next_rs wc = of_nat (Suc (length (concat pss)))"
    and "int (length p) \<le> max_record_payload" "0 < k" "k < record_header_size + length p" "segment_len (last pss) + k \<le> max_segment_read"
    and "\<not> (0 < w_records w \<and> w_max_bytes w < w_size w + int (record_header_size + length p))"
    and "append_payload p (w, m\<lparr>md_script := [IoFail k]\<rparr>) = (res, w1, m1)" "new_writer wc m1 = (res', m2)"
    and "reader_at t pss s J"
  shows "res = Inl ErrMedium \<and> (\<exists>w2. res' = Inr w2 \<and> w_recovered w2)
    \<and> (\<exists>files b stats' s'. md_path m2 = DirListing (dir_of (files @ [b])) \<and> ascending (files @ [b]) \<and> is_stalls stats' \<noteq> []
        \<and> (\<forall>later. later \<noteq> [] \<longrightarrow> ascending (files @ later) \<longrightarrow>
            ingest_peer cfg c e (sh_peer t) (DirListing (dir_of (files @ later))) (stats, s) = (Inr (), stats', s')))"
proof -
  let ?key = "wc_key wc"
  have tok: "template_ok t ?key" using assms(3) by (simp add: reads_stream_def)
  have ne: "pss \<noteq> []" and small: "small_stream pss" using assms(4) by (simp_all add: writer_at_def)
  obtain rest where cut: "res = Inl ErrMedium" "md_path m1 = DirListing (dir_of (stream_dir t ?key pss rest))" "md_script m1 = []"
    "unfinished t ?key pss rest" "length rest = k"
    using append_cut_at[OF assms(4) tok assms(7,8,9,11)] assms(12) by auto
  have rest: "rest \<noteq> []" using cut(5) assms(8) by auto
  let ?b = "(of_nat (Suc (length pss)) :: 64 word, header_bytes (newest_header t (pss @ [[]])))"
  obtain w2 where opened: "res' = Inr w2" "w_recovered w2" "md_path m2 = DirListing (dir_of (stream_dir t ?key pss rest @ [?b]))"
    using new_writer_torn[OF assms(1,2,5) ne cut(3,2) rest cut(4) disjI2[OF assms(6)]] assms(13) by auto
  have "ascending (stream_dir t ?key pss rest @ [?b])"
  proof -
    have "map fst (stream_dir t ?key pss rest @ [?b]) = map (\<lambda>i. of_nat (Suc i)) [0 ..< Suc (length pss)]"
      using map_fst_stream_dir[OF ne, of t ?key rest] by simp
    then show ?thesis by (rule ascending_numbers) (use small in \<open>simp add: small_stream_def\<close>)
  qed
  moreover have "tailed t ?key pss rest" using cut(4,5) assms(10) ne small by (simp add: tailed_def)
  from poll_torn[OF assms(3) this rest assms(14), of c e stats] obtain stats' s' where "is_stalls stats' \<noteq> []"
    "\<forall>later. later \<noteq> [] \<longrightarrow> ascending (stream_dir t ?key pss rest @ later) \<longrightarrow>
      ingest_peer cfg c e (sh_peer t) (DirListing (dir_of (stream_dir t ?key pss rest @ later))) (stats, s) = (Inr (), stats', s')"
    by blast
  ultimately show ?thesis using cut(1) opened by blast
qed

theorem torn_tail_strands_witness:
  "\<exists>w m1 res w1 m2 res' m3. new_writer (publish_config demo_publisher_config \<lparr>pp_seq = 0, pp_epoch = 1, pp_next_rs = 1\<rparr>) demo_medium = (Inr w, m1)
    \<and> append_payload ''{}'' (w, m1\<lparr>md_script := [IoFail 10]\<rparr>) = (Inl ErrMedium, w1, m2)
    \<and> new_writer (publish_config demo_publisher_config \<lparr>pp_seq = 0, pp_epoch = 1, pp_next_rs = 1\<rparr>) m2 = (res', m3)
    \<and> (\<exists>stats s. is_stalls stats \<noteq> [] \<and> ingest_peer demo_ingest demo_codec example_env ''0123456789abcdef'' (md_path m3)
         (empty_stats, demo_reader) = (Inr (), stats, s))"
proof -
  let ?pos = "\<lparr>pp_seq = 0, pp_epoch = 1, pp_next_rs = 1\<rparr>" let ?wc = "publish_config demo_publisher_config ?pos"
  have "pp_epoch ?pos = sh_pub_epoch demo_template" by (simp add: demo_template_def)
  note any = publishes_any[OF demo_publishes this]
  have wc: "writer_config_ok ?wc" "demo_template = writer_template ?wc" "wc_key ?wc = ''k''" "wc_next_rs ?wc = 1"
    by (rule any(1), rule any(2), rule any(3)[symmetric], simp add: publish_config_def)
  have reads: "reads_stream demo_ingest (wc_key ?wc) demo_template" unfolding wc(3) by (rule demo_reads)
  obtain w m1 where new: "new_writer ?wc demo_medium = (Inr w, m1)" "writer_at demo_template (wc_key ?wc) [[]] (w, m1)"
    using new_writer_fresh[OF wc(1,2), of demo_medium] wc(4) by (auto simp: demo_medium_def)
  obtain res w1 m2 where cut: "append_payload ''{}'' (w, m1\<lparr>md_script := [IoFail 10]\<rparr>) = (res, w1, m2)" by (metis prod_cases3)
  obtain res' m3 where again: "new_writer ?wc m2 = (res', m3)" by (metis prod.exhaust)
  have small: "small_stream ([[]] @ [[]])" by (simp add: small_stream_def segment_len_def sizes max_segment_read_def)
  have reader: "reader_at demo_template [[]] demo_reader 0"
    by (auto simp: reader_at_def stands_def demo_reader_def demo_store_def find_ingest_def)
  have quiet: "\<not> (0 < w_records w \<and> w_max_bytes w < w_size w + int (record_header_size + length ''{}''))"
    using new(2) by (simp add: writer_at_def)
  have "res = Inl ErrMedium \<and> (\<exists>w2. res' = Inr w2 \<and> w_recovered w2)
    \<and> (\<exists>files b stats' s'. md_path m3 = DirListing (dir_of (files @ [b])) \<and> ascending (files @ [b]) \<and> is_stalls stats' \<noteq> []
        \<and> (\<forall>later. later \<noteq> [] \<longrightarrow> ascending (files @ later) \<longrightarrow>
            ingest_peer demo_ingest demo_codec example_env (sh_peer demo_template) (DirListing (dir_of (files @ later)))
              (empty_stats, demo_reader) = (Inr (), stats', s')))"
    by (rule torn_tail_strands[OF wc(1,2) reads new(2) small _ _ _ _ _ quiet cut again reader])
      (simp_all add: wc(4) max_record_payload_def sizes segment_len_def max_segment_read_def)
  then obtain files b stats' s' where "res = Inl ErrMedium" "md_path m3 = DirListing (dir_of (files @ [b]))" "is_stalls stats' \<noteq> []"
    "ingest_peer demo_ingest demo_codec example_env (sh_peer demo_template) (DirListing (dir_of (files @ [b]))) (empty_stats, demo_reader)
      = (Inr (), stats', s')" by blast
  then show ?thesis using new(1) cut again by (auto simp: demo_template_def)
qed

end
