(* ===== verification/Relay_Gap.thy ===== *)
theory Relay_Gap
  imports Relay_Hazards
begin

text \<open>
  A segment that reaches a reader after its successors. The reader does not notice the hole: it processes
  what it sees, moves its cursor past the missing segment, and never comes back for it.
\<close>

lemma apply_record_stalls:
  "\<not> ic_unauthenticated cfg \<Longrightarrow> is_stalls (fst (snd (apply_record cfg c e peer h r st))) = is_stalls (fst st)"
  by (auto simp: apply_record_def refuse_record_def split: prod.splits option.splits sum.splits)

lemma process_stalls:
  assumes "\<not> ic_unauthenticated cfg"
  shows "is_stalls (fst (process cfg c e peer items st)) = is_stalls (fst st)"
proof (induction items arbitrary: st)
  case (Cons x items)
  then show ?case using apply_record_stalls[OF assms] by (cases x) (simp add: process_def)
qed (simp add: process_def)

lemma held_items_append: "held_items key (xs @ ys) = held_items key xs @ held_items key ys"
  by (simp add: held_items_def)

lemma length_held_take:
  assumes "a \<le> length pss"
  shows "length (held_items key (take a (stream_held t pss rest))) = length (concat (take a pss))"
proof -
  have "take a (stream_held t pss rest) = map (\<lambda>i. (seg_header t pss i, pss ! i, if Suc i = length pss then rest else [])) [0 ..< a]"
    using assms by (simp add: stream_held_def take_map)
  then have "held_items key (take a (stream_held t pss rest))
      = concat (map (\<lambda>i. segment_items (seg_header t pss i) key (pss ! i)) [0 ..< a])"
    by (simp add: held_items_def comp_def)
  then show ?thesis using arg_cong[OF stream_items_upto[OF assms, of t key], of length] by (simp del: length_concat)
qed

lemma held_drop:
  assumes "a \<le> length pss"
  shows "held_items key (drop a (stream_held t pss rest)) = drop (length (concat (take a pss))) (stream_items t key pss)"
proof -
  have "stream_items t key pss = held_items key (take a (stream_held t pss rest)) @ held_items key (drop a (stream_held t pss rest))"
    unfolding held_items_append[symmetric] append_take_drop_id held_items_stream ..
  then show ?thesis using length_held_take[OF assms, of key t rest] by simp
qed

lemma drop_split: "a \<le> i \<Longrightarrow> drop a xs = drop a (take i xs) @ drop i xs"
  using drop_append[of a "take i xs" "drop i xs"] by (cases "i \<le> length xs") (simp_all add: min_def)

text \<open>The files of a stream without one of its segments.\<close>

definition without_segment :: "nat \<Rightarrow> 'a list \<Rightarrow> 'a list" where
  "without_segment i xs = take i xs @ drop (Suc i) xs"

lemma without_segment_subset: "set (without_segment i xs) \<subseteq> set xs"
  using set_take_subset[of i xs] set_drop_subset[of "Suc i" xs] unfolding without_segment_def by auto

lemma sorted_without: "sorted_wrt P xs \<Longrightarrow> sorted_wrt P (without_segment i xs)"
proof (cases "i < length xs")
  case True
  moreover assume "sorted_wrt P xs"
  ultimately have "sorted_wrt P (take i xs @ xs ! i # drop (Suc i) xs)" by (simp add: id_take_nth_drop[symmetric])
  then show ?thesis by (simp add: without_segment_def sorted_wrt_append)
qed (simp add: without_segment_def)

lemma map_without: "map f (without_segment i xs) = without_segment i (map f xs)"
  by (simp add: without_segment_def take_map drop_map)

lemma ascending_without: "ascending xs \<Longrightarrow> ascending (without_segment i xs)"
  using without_segment_subset[of i xs] sorted_without[of "(<)" "map fst xs" i]
  by (auto simp: ascending_def map_without)

text \<open>What a poll of them reads, from a cursor at the record before the hole.\<close>

lemma pollable_without:
  assumes "reads_stream cfg key t" "tailed t key pss []" "g \<le> i" "i < length pss"
  shows "pollable cfg (sh_peer t) key (sh_pub_epoch t) newest
     (map (held_file key) (drop (g - 1) (take i (stream_held t pss [])) @ drop (Suc i) (stream_held t pss [])))
     (drop (g - 1) (take i (stream_held t pss [])) @ drop (Suc i) (stream_held t pss []))"
proof -
  let ?H = "stream_held t pss []" let ?A = "drop (g - 1) (take i ?H)" let ?B = "drop (Suc i) ?H"
  have all: "pollable cfg (sh_peer t) key (sh_pub_epoch t) newest (map (held_file key) (drop 0 ?H)) (drop 0 ?H)"
    by (rule pollable_stream[OF assms(1,2)]) simp
  have ok: "\<forall>x \<in> set ?H. case x of (h, ps, rest) \<Rightarrow> holds_segment (held_file key x) h key ps rest \<and> readable cfg (sh_peer t) key h
      \<and> sh_pub_epoch h = sh_pub_epoch t \<and> (rest = [] \<or> \<not> sf_no (held_file key x) < newest)"
    using all by (simp add: pollable_def list_all2_map1 list_all2_same)
  have sub: "set (?A @ ?B) \<subseteq> set ?H" by (auto dest: in_set_dropD in_set_takeD)
  have "list_all2 (\<lambda>f (h, ps, rest). holds_segment f h key ps rest \<and> readable cfg (sh_peer t) key h \<and> sh_pub_epoch h = sh_pub_epoch t
        \<and> (rest = [] \<or> \<not> sf_no f < newest)) (map (held_file key) (?A @ ?B)) (?A @ ?B)"
    unfolding list_all2_map1 list_all2_same by (intro ballI bspec[OF ok]) (rule subsetD[OF sub])
  moreover have "in_order (held_items key (?A @ ?B))"
  proof -
    have i: "i < length ?H" using assms(4) by (simp add: stream_held_def)
    have "?H = take (g - 1) ?H @ ?A @ [?H ! i] @ ?B"
    proof -
      have "take (g - 1) (take i ?H) = take (g - 1) ?H" using assms(3) by (simp add: min.absorb1)
      then have "take i ?H = take (g - 1) ?H @ ?A" using append_take_drop_id[of "g - 1" "take i ?H"] by metis
      then have "take (g - 1) ?H @ ?A @ [?H ! i] @ ?B = take i ?H @ ?H ! i # ?B" by simp
      then show ?thesis using id_take_nth_drop[OF i] by simp
    qed
    then have "held_items key ?H = held_items key (take (g - 1) ?H) @ held_items key ?A @ held_items key [?H ! i] @ held_items key ?B"
      by (metis held_items_append)
    moreover have "in_order (held_items key ?H)" using all by (simp add: pollable_def)
    ultimately show ?thesis unfolding held_items_append by (auto simp: in_order_def sorted_wrt_append)
  qed
  ultimately show ?thesis unfolding pollable_def by blast
qed

lemma past_without:
  assumes "small_stream pss" "g \<le> i" "i < length pss" "J = length (concat (take i pss))"
  shows "past (of_nat J) (held_items key (drop (g - 1) (take i (stream_held t pss [])) @ drop (Suc i) (stream_held t pss [])))
    = drop (length (concat (take (Suc i) pss))) (stream_items t key pss)"
proof -
  let ?H = "stream_held t pss []" let ?A = "drop (g - 1) (take i ?H)" let ?B = "drop (Suc i) ?H"
  let ?J' = "length (concat (take (Suc i) pss))"
  have J: "J < 2 ^ 63" "J \<le> ?J'" "?J' < 2 ^ 63"
    using concat_take_le[of i pss] concat_take_le[of "Suc i" pss] concat_take_Suc[OF assms(3)] assms(1)
    unfolding assms(4) by (simp_all add: small_stream_def del: length_concat)
  have "length (concat (take (g - 1) pss)) \<le> J"
    using concat_take_le[of "g - 1" "take i pss"] assms(2,4) by (simp add: min.absorb1)
  from past_dropped[OF assms(1) this J(1), of key t "[]"] past_dropped[OF assms(1) _ J(1), of i key t "[]"] assms(4)
  have both: "past (of_nat J) (held_items key (drop (g - 1) ?H)) = past (of_nat J) (held_items key (drop i ?H))" by simp
  have "drop (g - 1) ?H = ?A @ drop i ?H"
    using assms(2) by (intro drop_split) simp
  with both have first: "past (of_nat J) (held_items key ?A) = []" by (simp add: held_items_append past_append)
  have B: "held_items key ?B = drop ?J' (stream_items t key pss)" using assms(3) by (intro held_drop) simp
  have "past (of_nat ?J') (held_items key ?B) = held_items key ?B"
    using past_dropped[OF assms(1) order_refl J(3), of key t "[]"] unfolding B by simp
  then have "\<forall>x \<in> set (held_items key ?B). of_nat ?J' < rec_rs (snd x)" by (auto simp: past_def filter_id_conv)
  moreover have "(of_nat J :: 64 word) \<le> of_nat ?J'" using J by (intro of_nat_le_word[THEN iffD2]) simp_all
  ultimately have "past (of_nat J) (held_items key ?B) = held_items key ?B" by (intro past_all) (blast intro: le_less_trans)
  with first B show ?thesis by (simp add: held_items_append past_append)
qed

text \<open>The position a poll reaches over the hole.\<close>

lemma reach_without:
  assumes "small_stream pss" "[] \<notin> set pss" "g \<le> i" "Suc i < length pss" "J = length (concat (take i pss))"
  shows "reach_all (drop (g - 1) (take i (stream_held t pss [])) @ drop (Suc i) (stream_held t pss [])) (of_nat J)
    = of_nat (length (concat pss))"
proof -
  let ?f = "\<lambda>i. (seg_header t pss i, pss ! i, [] :: bytes)"
  have A: "drop (g - 1) (take i (stream_held t pss [])) = map ?f [g - 1 ..< i]"
    using assms(3,4) by (simp add: stream_held_def take_map drop_map)
  have B: "drop (Suc i) (stream_held t pss []) = ?f (Suc i) # map ?f [Suc (Suc i) ..< length pss]"
    using assms(4) by (simp add: stream_held_def drop_map upt_conv_Cons)
  have J: "J < 2 ^ 63" using concat_take_le[of i pss] assms(1,5) by (simp add: small_stream_def)
  have low: "length (concat (take (g - 1) pss)) \<le> J"
    using concat_take_le[of "g - 1" "take i pss"] assms(3,5) by (simp add: min.absorb1)
  have reach_A: "reach_all (map ?f [g - 1 ..< i]) (of_nat J) = of_nat J"
    using reach_stream[OF assms(1) _ _ low J, of i t "\<lambda>_. []"] assms(3-5) by simp
  let ?K = "length (concat (take (Suc (Suc i)) pss))"
  have K: "?K = length (concat (take (Suc i) pss)) + length (pss ! Suc i)" by (rule concat_take_Suc[OF assms(4)])
  have up: "J \<le> length (concat (take (Suc i) pss))" "pss ! Suc i \<noteq> []"
    using concat_take_Suc[of i pss] assms(2,4,5) by (auto simp del: length_concat dest: nth_mem)
  have Ks: "?K < 2 ^ 63" using concat_take_le[of "Suc (Suc i)" pss] assms(1) by (simp add: small_stream_def)
  have "reach (seg_header t pss (Suc i)) (pss ! Suc i) (of_nat J) = max (of_nat J) (of_nat ?K)"
    using up(2) by (simp add: reach_def K del: length_concat)
  also have "\<dots> = of_nat ?K"
    using of_nat_le_word[of J ?K] up(1) J Ks K by (intro max_absorb2) simp
  finally have first: "reach (seg_header t pss (Suc i)) (pss ! Suc i) (of_nat J) = of_nat ?K" .
  have "reach_all (map ?f [Suc (Suc i) ..< length pss]) (of_nat ?K) = of_nat (max ?K (length (concat (take (length pss) pss))))"
    by (rule reach_stream[OF assms(1) _ order_refl order_refl Ks]) (use assms(4) in simp)
  also have "max ?K (length (concat (take (length pss) pss))) = length (concat pss)"
    using concat_take_le[of "Suc (Suc i)" pss] by (simp add: max_absorb2)
  finally show ?thesis unfolding A B reach_all_append reach_A reach_all.simps first .
qed

lemma unread_without:
  assumes "reads_stream cfg key t" "small_stream pss" "pss \<noteq> []" "0 < g" "g \<le> i" "i < length pss"
  shows "unread (map (held_file key) (take i (stream_held t pss []) @ drop (Suc i) (stream_held t pss []))) (position_at t J g)
    = map (held_file key) (drop (g - 1) (take i (stream_held t pss [])) @ drop (Suc i) (stream_held t pss []))"
proof -
  let ?X = "map (held_file key) (take i (stream_held t pss []))" let ?P = "\<lambda>f. sf_no f < of_nat g"
  have small: "g < 2 ^ 63" "i < 2 ^ 63" using assms(2,5,6) by (simp_all add: small_stream_def)
  have len: "length ?X = i" using assms(6) by (simp add: stream_held_def)
  have numbers: "sf_no (?X ! j) = of_nat (Suc j)" if "j < length ?X" for j
    using that by (simp add: stream_held_def held_file_def file_of_def del: of_nat_Suc)
  have drop: "dropWhile ?P ?X = drop (g - 1) ?X"
    using numbers len small by (intro dropWhile_numbers) simp_all
  have in_X: "?X ! (g - 1) \<in> set ?X" using assms(4,5) len by (intro nth_mem) simp
  have "g - 1 < length ?X" and Suc: "Suc (g - 1) = g" using assms(4,5) len by simp_all
  then have "sf_no (?X ! (g - 1)) = of_nat g" using numbers[of "g - 1"] by (simp only: Suc)
  then have "\<not> ?P (?X ! (g - 1))" by simp
  with in_X have "dropWhile ?P (?X @ ys) = dropWhile ?P ?X @ ys" for ys by (rule dropWhile_append1[where P = ?P])
  then show ?thesis
    unfolding unread_def position_at_def ingest_position.select_convs map_append drop by (simp add: drop_map)
qed

lemma whole_poll_again:
  assumes "reads_stream cfg key t" "small_stream pss" "pss \<noteq> []" "reader_at t pss s (length (concat pss))"
    and "files = stream_files key (stream_segs t 1 1 pss)"
    and "ingest_peer cfg c e (sh_peer t) (DirListing (dir_of files)) (stats, s) = (res, stats', s')"
  shows "res = Inr () \<and> rs_db s' = rs_db s"
proof -
  let ?m = "\<lparr>md_path = DirListing (dir_of files), md_script = []\<rparr>"
  have path: "md_path ?m = DirListing (dir_of (stream_files key (stream_segs t 1 1 pss)))" using assms(5) by simp
  have "medium_view ?m (length (dir_of files)) 0 = DirListing (dir_of files)"
    by (simp add: medium_view_def md_entries_def)
  moreover have "length pss \<le> length (dir_of files)" by (simp add: assms(5) dir_of_def stream_files_def)
  ultimately obtain i k where view: "i < length pss" "DirListing (dir_of files) = DirListing (dir_of (stream_view t key pss i k))"
    "view_count pss i k = length (concat pss)"
    using medium_stream_view[OF path assms(3), of "length (dir_of files)" 0] by auto
  obtain stats1 stats2 s2 where "ingest_peer cfg c e (sh_peer t) (DirListing (dir_of files)) (stats, s) = (Inr (), stats2, s2)"
    "(stats1, rs_db s2) = process cfg c e (sh_peer t) (drop (length (concat pss)) (take (length (concat pss)) (stream_items t key pss))) (stats, rs_db s)"
    using poll_view[OF assms(1,2) view(1) assms(4), of c e k stats] unfolding view(2)[symmetric] view(3) by blast
  moreover have "drop (length (concat pss)) (take (length (concat pss)) (stream_items t key pss)) = []"
    by (simp del: length_concat)
  ultimately show ?thesis using assms(6) by (simp add: process_def del: length_concat)
qed

lemma skipped_is_gap:
  assumes "0 < i" "Suc i < length pss" "length pss < 2 ^ 63"
  shows "check_continuity \<lparr>cur_segment = of_nat i, cur_rs = r, cur_epoch = sh_pub_epoch t\<rparr> (seg_header t pss (Suc i)) = Inl ErrGap"
proof -
  have "(of_nat i :: 64 word) \<noteq> 0" using assms by (intro of_nat_nonzero) simp_all
  moreover have "(of_nat (Suc (Suc i)) :: 64 word) \<noteq> of_nat i" "(of_nat (Suc (Suc i)) :: 64 word) \<noteq> of_nat (Suc i)"
    using assms of_nat_less_word[of i "Suc (Suc i)"] of_nat_less_word[of "Suc i" "Suc (Suc i)"] by auto
  ultimately show ?thesis by (simp add: check_continuity_def add.commute del: of_nat_Suc) (simp add: add.commute)
qed

text \<open>
  C18. A segment that is missing when its successors are there is stepped over in silence, although the
  continuity rule of the format forbids it: the poll hands over everything after the hole, notes no
  stall, and the cursor moves past the hole, so that when the segment arrives its records are
  never read.
\<close>

theorem late_segment_lost:
  assumes "reads_stream cfg key t" "small_stream pss" "[] \<notin> set pss" "0 < g" "g \<le> i" "Suc i < length pss"
    and "stands t pss s (length (concat (take i pss))) g"
    and "files = stream_files key (stream_segs t 1 1 pss)"
    and "ingest_peer cfg c e (sh_peer t) (DirListing (dir_of (without_segment i files))) (stats, s) = (res, stats1, s1)"
    and "ingest_peer cfg c e' (sh_peer t) (DirListing (dir_of files)) (stats1, s1) = (res', stats2, s2)"
  shows "check_continuity \<lparr>cur_segment = of_nat i, cur_rs = of_nat (length (concat (take i pss))), cur_epoch = sh_pub_epoch t\<rparr>
      (seg_header t pss (Suc i)) = Inl ErrGap
    \<and> res = Inr () \<and> is_stalls stats1 = is_stalls stats
    \<and> (stats1, rs_db s1) = process cfg c e (sh_peer t) (drop (length (concat (take (Suc i) pss))) (stream_items t key pss)) (stats, rs_db s)
    \<and> res' = Inr () \<and> rs_db s2 = rs_db s1"
proof -
  let ?J = "length (concat (take i pss))" let ?N = "length (concat pss)"
  let ?H = "stream_held t pss []" let ?A = "drop (g - 1) (take i ?H)" let ?B = "drop (Suc i) ?H"
  have ne: "pss \<noteq> []" and i: "i < length pss" using assms(6) by auto
  have small: "?J < 2 ^ 63" "g < 2 ^ 63" "length pss < 2 ^ 63 - 1"
    using concat_take_le[of i pss] assms(2,5,6) by (simp_all add: small_stream_def)
  have auth: "\<not> ic_unauthenticated cfg" and peer: "peer_id_pattern (sh_peer t)" and tok: "template_ok t key"
    using assms(1) template_peer[of t key] by (simp_all add: reads_stream_def)
  have files: "map file_of files = map (held_file key) ?H"
    using stream_dir_held[OF ne, of t key "[]"] stream_dir_whole[OF ne, of key t] assms(8) by simp
  have asc: "ascending files" unfolding assms(8) by (rule stream_ascending) (use small in simp)
  have tailed: "tailed t key pss []" using assms(2) ne by (simp add: tailed_def)
  have row: "row_at (sh_peer t) s (sh_pub_epoch t) (of_nat ?J) (of_nat g)" using assms(4,7) by (simp add: stands_def row_in_def)
  have cursor: "relay_ingest_cursor (sh_peer t) s = Inr (position_at t ?J g)"
    by (rule relay_ingest_cursor_stands[OF assms(7) tok small(1,2)])
  have pos: "ip_epoch (position_at t ?J g) = sh_pub_epoch t" "ip_rs (position_at t ?J g) = of_nat ?J"
    using assms(4) by (simp_all add: position_at_def)
  define newest where "newest = sf_no (last (map (held_file key) (without_segment i ?H)))"
  have list: "list_segments (DirListing (dir_of (without_segment i files))) = Inr (map (held_file key) (without_segment i ?H), [])"
    using list_segments_dir_of[OF ascending_without[OF asc, of i]] files by (simp add: map_without)
  have some: "without_segment i ?H \<noteq> []" using assms(6) by (simp add: without_segment_def stream_held_def)
  have poll: "ingest_peer cfg c e (sh_peer t) (DirListing (dir_of (without_segment i files))) (stats, s)
      = ingest_segments cfg c e (sh_peer t) newest (map (held_file key) (?A @ ?B)) (position_at t ?J g) (stats, s)"
    unfolding ingest_peer_def list sum.case prod.case snd_conv cursor newest_def[symmetric]
      unread_without[OF assms(1,2) ne assms(4,5) i, of ?J, folded without_segment_def]
    using some by simp
  have J': "unat (ip_rs (position_at t ?J g)) < 2 ^ 63" unfolding pos(2) using small(1) by (simp add: unat_of_nat_small del: length_concat)
  have row': "row_at (sh_peer t) (snd (stats, s)) (sh_pub_epoch t) (ip_rs (position_at t ?J g)) (of_nat g)" using row pos(2) by simp
  have past: "past (ip_rs (position_at t ?J g)) (held_items key (?A @ ?B)) = drop (length (concat (take (Suc i) pss))) (stream_items t key pss)"
    unfolding pos(2) by (rule past_without[OF assms(2,5) i refl])
  have reach: "reach_all (?A @ ?B) (ip_rs (position_at t ?J g)) = of_nat ?N"
    unfolding pos(2) by (rule reach_without[OF assms(2,3,5,6) refl])
  note held = ingest_segments_held[OF pollable_without[OF assms(1) tailed assms(5) i, where newest = newest]
      peer auth pos(1) row' J', where c = c and e = e and gs = "[]", unfolded reach past append_Nil2]
  obtain g1 where out: "res = Inr ()"
    "(stats1, rs_db s1) = process cfg c e (sh_peer t) (drop (length (concat (take (Suc i) pss))) (stream_items t key pss)) (stats, rs_db s)"
    "row_at (sh_peer t) s1 (sh_pub_epoch t) (of_nat ?N) g1" "g1 = of_nat g \<or> delivered_in (?A @ ?B) (of_nat ?N) g1"
    using held assms(9) unfolding poll ingest_segments.simps fst_conv snd_conv
    by (metis prod.inject)
  have "is_stalls stats1 = is_stalls stats"
    using process_stalls[OF auth, of c e "sh_peer t" _ "(stats, rs_db s)"] out(2) by (metis fst_conv)
  moreover have "reader_at t pss s1 ?N"
  proof -
    have "\<exists>g'. g1 = of_nat g' \<and> 0 < g' \<and> g' \<le> length pss"
    proof (cases "g1 = of_nat g")
      case True then show ?thesis using assms(4-6) by (intro exI[of _ g]) simp
    next
      case False
      have "set (?A @ ?B) \<subseteq> set (drop 0 ?H)" by (auto dest: in_set_dropD in_set_takeD)
      with False out(4) have "delivered_in (drop 0 ?H) (of_nat ?N) g1" unfolding delivered_in_def by blast
      then obtain j where "g1 = of_nat (Suc j)" "j < length pss"
        using delivered_in_stream[OF assms(2), of 0] assms(2) by (fastforce simp: small_stream_def)
      then show ?thesis by (intro exI[of _ "Suc j"]) simp
    qed
    then obtain g' where g': "g1 = of_nat g'" "0 < g'" "g' \<le> length pss" by blast
    with out(3) have "stands t pss s1 ?N g'" using concat_take_le by (simp add: stands_def row_in_def del: length_concat)
    with g'(3) show ?thesis unfolding reader_at_def by (intro conjI exI[of _ g'] order_refl)
  qed
  then have "res' = Inr () \<and> rs_db s2 = rs_db s1" by (rule whole_poll_again[OF assms(1,2) ne _ assms(8,10)])
  moreover have "check_continuity \<lparr>cur_segment = of_nat i, cur_rs = of_nat ?J, cur_epoch = sh_pub_epoch t\<rparr> (seg_header t pss (Suc i)) = Inl ErrGap"
    using assms(4-6) small(3) by (intro skipped_is_gap) simp_all
  ultimately show ?thesis using out(1,2) by blast
qed

text \<open>A reader that has read the first of three segments.\<close>

definition demo_resumed :: relay_store where
  "demo_resumed = demo_reader\<lparr>rs_ingest := [\<lparr>ir_peer = ''0123456789abcdef'', ir_segment = 1, ir_rs = 1, ir_epoch = 1\<rparr>]\<rparr>"

theorem late_segment_lost_witness:
  "\<exists>stats1 s1 stats2 s2. ingest_peer demo_ingest demo_codec example_env ''0123456789abcdef''
      (DirListing (dir_of (without_segment 1 (stream_files ''k'' (stream_segs demo_template 1 1 [[''a''], [''b''], [''c'']])))))
      (empty_stats, demo_resumed) = (Inr (), stats1, s1)
    \<and> ingest_peer demo_ingest demo_codec example_env ''0123456789abcdef''
      (DirListing (dir_of (stream_files ''k'' (stream_segs demo_template 1 1 [[''a''], [''b''], [''c'']]))))
      (stats1, s1) = (Inr (), stats2, s2)
    \<and> rs_db s2 = rs_db s1"
proof -
  let ?pss = "[[''a''], [''b''], [''c'']]" let ?files = "stream_files ''k'' (stream_segs demo_template 1 1 ?pss)"
  let ?poll = "ingest_peer demo_ingest demo_codec example_env (sh_peer demo_template)"
  obtain res stats1 s1 where poll1: "?poll (DirListing (dir_of (without_segment 1 ?files))) (empty_stats, demo_resumed) = (res, stats1, s1)"
    by (metis prod_cases3)
  obtain res' stats2 s2 where poll2: "?poll (DirListing (dir_of ?files)) (stats1, s1) = (res', stats2, s2)" by (metis prod_cases3)
  have small: "small_stream ?pss" by (simp add: small_stream_def segment_len_def sizes max_segment_read_def max_record_payload_def)
  have at: "stands demo_template ?pss demo_resumed (length (concat (take 1 ?pss))) 1"
    by (simp add: stands_def row_in_def row_at_def find_ingest_def demo_resumed_def demo_template_def)
  have "res = Inr () \<and> res' = Inr () \<and> rs_db s2 = rs_db s1"
    using late_segment_lost[OF demo_reads small _ _ _ _ at refl poll1 poll2] by simp
  then show ?thesis using poll1 poll2 by (simp add: demo_template_def)
qed

end
