(* ===== verification/Relay_Retention.thy ===== *)
theory Relay_Retention
  imports Relay_Store
begin

text \<open>
  What a relay may forget (\<open>internal/relay/retention\<close>): the prune plan over a publisher's own
  segments, the acknowledgements of the readers and their repair from the ingest cursors, the
  peers that have gone silent, and the roster of retired peers (\<open>internal/relay/lifecycle/retire.go\<close>).
  A time is its nanosecond count; a day of \<open>AddDate\<close> has 24 hours (times are in UTC).
\<close>

section \<open>The prune plan\<close>

record ack_position =
  ak_segment :: "64 word"
  ak_rs :: "64 word"

record retained =
  rt_no :: "64 word"
  rt_last_rs :: "64 word"
  rt_mod_time :: int

record prune_input =
  pi_segments :: "retained list"
  pi_active :: "64 word"
  pi_peers :: "string list"
  pi_acks :: "string \<Rightarrow> ack_position option"
  pi_retired :: "string \<Rightarrow> bool"
  pi_days :: int
  pi_now :: int

datatype hold_reason = HeldActive | HeldInWindow int | HeldUnacked "string list"

record verdict =
  vd_segment :: retained
  vd_prunable :: bool
  vd_reason :: "hold_reason option"

definition default_retention_days :: int where "default_retention_days = 7"

definition day_ns :: int where "day_ns = 24 * 3600 * 10 ^ 9"

text \<open>A peer without an ack has the zero position.\<close>

definition acked_rs :: "prune_input \<Rightarrow> string \<Rightarrow> 64 word" where
  "acked_rs inp peer = (case pi_acks inp peer of None \<Rightarrow> 0 | Some a \<Rightarrow> ak_rs a)"

definition behind :: "prune_input \<Rightarrow> retained \<Rightarrow> string list" where
  "behind inp s = sort_by (<) (filter (\<lambda>p. \<not> pi_retired inp p \<and> acked_rs inp p < rt_last_rs s) (pi_peers inp))"

text \<open>The map from segment numbers to the peers behind; a later segment of the same number wins.\<close>

definition lagging_peers :: "prune_input \<Rightarrow> 64 word \<Rightarrow> string list option" where
  "lagging_peers inp = map_of (rev (map (\<lambda>s. (rt_no s, behind inp s)) (pi_segments inp)))"

definition verdict_for :: "retained \<Rightarrow> prune_input \<Rightarrow> int \<Rightarrow> (64 word \<Rightarrow> string list option) \<Rightarrow> int \<Rightarrow> verdict" where
  "verdict_for s inp prune_floor laggards days =
     (if rt_no s = pi_active inp then \<lparr>vd_segment = s, vd_prunable = False, vd_reason = Some HeldActive\<rparr>
      else if prune_floor < rt_mod_time s then \<lparr>vd_segment = s, vd_prunable = False, vd_reason = Some (HeldInWindow days)\<rparr>
      else case laggards (rt_no s) of
        Some (p # ps) \<Rightarrow> \<lparr>vd_segment = s, vd_prunable = False, vd_reason = Some (HeldUnacked (p # ps))\<rparr>
      | _ \<Rightarrow> \<lparr>vd_segment = s, vd_prunable = True, vd_reason = None\<rparr>)"

definition retention_days :: "prune_input \<Rightarrow> int" where
  "retention_days inp = (if pi_days inp \<le> 0 then default_retention_days else pi_days inp)"

definition prune_plan :: "prune_input \<Rightarrow> verdict list" where
  "prune_plan inp =
     (let days = retention_days inp; prune_floor = pi_now inp - days * day_ns; laggards = lagging_peers inp
      in map (\<lambda>s. verdict_for s inp prune_floor laggards days) (pi_segments inp))"

section \<open>Silent peers\<close>

record silence_input =
  si_peers :: "string list"
  si_last_seen :: "string \<Rightarrow> int option"
  si_retired :: "string \<Rightarrow> bool"
  si_days :: int
  si_now :: int

record silence =
  sl_id :: string
  sl_seen :: "int option"
  sl_days :: int
  sl_silent :: bool

definition default_silent_peer_days :: int where "default_silent_peer_days = 2 * default_retention_days"

text \<open>The zero \<open>time.Time\<close>.\<close>

definition zero_time :: int where "zero_time = - 62135596800 * 10 ^ 9"

text \<open>\<open>int(d.Hours() / 24)\<close>: whole days, towards zero.\<close>

definition whole_days :: "int \<Rightarrow> int" where
  "whole_days d = (if 0 \<le> d then d div day_ns else - ((- d) div day_ns))"

definition silence_of :: "silence_input \<Rightarrow> int \<Rightarrow> string \<Rightarrow> silence" where
  "silence_of inp threshold peer =
     (case si_last_seen inp peer of
        None \<Rightarrow> \<lparr>sl_id = peer, sl_seen = None, sl_days = 0, sl_silent = True\<rparr>
      | Some t \<Rightarrow>
          if t = zero_time then \<lparr>sl_id = peer, sl_seen = None, sl_days = 0, sl_silent = True\<rparr>
          else \<lparr>sl_id = peer, sl_seen = Some t, sl_days = whole_days (si_now inp - t),
                sl_silent = (threshold \<le> whole_days (si_now inp - t))\<rparr>)"

definition silent_peers :: "silence_input \<Rightarrow> silence list" where
  "silent_peers inp =
     (let threshold = (if si_days inp \<le> 0 then default_silent_peer_days else si_days inp)
      in sort_by (\<lambda>a b. sl_id a < sl_id b)
           (map (silence_of inp threshold) (filter (\<lambda>p. \<not> si_retired inp p) (si_peers inp))))"

section \<open>The ack file\<close>

text \<open>
  The file \<open>acks.json\<close> of a peer directory; the JSON text of the positions is a parameter. A Go map is
  an association list with distinct keys.
\<close>

type_synonym acks = "(string \<times> ack_position) list"

record ack_codec =
  ac_encode :: "acks \<Rightarrow> string option"
  ac_decode :: "string \<Rightarrow> acks option"

datatype ack_object = AckFile string | AckSymlink | AckOther | AckUnreadable

record ack_dir =
  ad_object :: "ack_object option"
  ad_write_ok :: bool
  ad_rename_ok :: bool

datatype ack_error = AcksUnusable | AcksMedium | AcksMalformedPeer string | AcksEncode | AcksStore go_error

definition read_acks :: "ack_codec \<Rightarrow> ack_dir \<Rightarrow> ack_error + acks" where
  "read_acks ac dir = (case ad_object dir of
     None \<Rightarrow> Inr []
   | Some AckSymlink \<Rightarrow> Inl AcksUnusable
   | Some AckOther \<Rightarrow> Inl AcksUnusable
   | Some AckUnreadable \<Rightarrow> Inl AcksMedium
   | Some (AckFile body) \<Rightarrow>
       (case ac_decode ac body of
          None \<Rightarrow> Inl AcksUnusable
        | Some a \<Rightarrow> if list_all (\<lambda>(p, _). peer_id_pattern p) a then Inr a else Inl AcksUnusable))"

definition write_acks :: "ack_codec \<Rightarrow> acks \<Rightarrow> ack_dir \<Rightarrow> (ack_error + unit) \<times> ack_dir" where
  "write_acks ac a dir =
     (case find (\<lambda>(p, _). \<not> peer_id_pattern p) a of
        Some (p, _) \<Rightarrow> (Inl (AcksMalformedPeer p), dir)
      | None \<Rightarrow>
          (case ac_encode ac a of
             None \<Rightarrow> (Inl AcksEncode, dir)
           | Some body \<Rightarrow>
               if \<not> ad_write_ok dir \<or> \<not> ad_rename_ok dir then (Inl AcksMedium, dir)
               else (Inr (), dir\<lparr>ad_object := Some (AckFile (body @ [CHR 0x0A]))\<rparr>)))"

definition same_acks :: "acks \<Rightarrow> acks \<Rightarrow> bool" where
  "same_acks a b \<longleftrightarrow> length a = length b \<and> list_all (\<lambda>(k, v). map_of b k = Some v) a"

text \<open>The positions of the ingest cursors; a peer named twice is one key.\<close>

definition ack_of :: "ingest_position \<Rightarrow> ack_position" where
  "ack_of p = \<lparr>ak_segment = ip_segment p, ak_rs = ip_rs p\<rparr>"

fun true_acks :: "relay_store \<Rightarrow> string list \<Rightarrow> acks \<Rightarrow> ack_error + acks" where
  "true_acks s [] acc = Inr acc"
| "true_acks s (peer # ps) acc =
     (case relay_ingest_cursor peer s of
        Inl err \<Rightarrow> Inl (AcksStore err)
      | Inr pos \<Rightarrow> true_acks s ps (AList.update peer (ack_of pos) acc))"

definition reconcile_acks ::
  "ack_codec \<Rightarrow> string list \<Rightarrow> relay_store \<Rightarrow> ack_dir \<Rightarrow> (ack_error + acks \<times> bool) \<times> ack_dir" where
  "reconcile_acks ac peers s dir =
     (let published = read_acks ac dir
      in case published of
           Inl err \<Rightarrow>
             if err \<noteq> AcksUnusable then (Inl err, dir)
             else (case true_acks s peers [] of
                     Inl err' \<Rightarrow> (Inl err', dir)
                   | Inr truth \<Rightarrow>
                       (case write_acks ac truth dir of
                          (Inl err', dir') \<Rightarrow> (Inl err', dir')
                        | (Inr _, dir') \<Rightarrow> (Inr (truth, True), dir')))
         | Inr a \<Rightarrow>
             (case true_acks s peers [] of
                Inl err' \<Rightarrow> (Inl err', dir)
              | Inr truth \<Rightarrow>
                  if same_acks a truth then (Inr (truth, False), dir)
                  else (case write_acks ac truth dir of
                          (Inl err', dir') \<Rightarrow> (Inl err', dir')
                        | (Inr _, dir') \<Rightarrow> (Inr (truth, True), dir'))))"

section \<open>What a plan releases\<close>

lemma insort_by_empty [simp]: "insort_by lt x xs \<noteq> []"
  by (cases xs) simp_all

lemma sort_by_empty: "sort_by lt xs = [] \<longleftrightarrow> xs = []"
  by (cases xs) (simp_all add: sort_by_def)

lemma behind_empty: "behind inp s = [] \<longleftrightarrow> (\<forall>p \<in> set (pi_peers inp). pi_retired inp p \<or> rt_last_rs s \<le> acked_rs inp p)"
  by (auto simp: behind_def sort_by_empty filter_empty_conv not_less)

lemma lagging_of:
  assumes "distinct (map rt_no (pi_segments inp))" "s \<in> set (pi_segments inp)"
  shows "lagging_peers inp (rt_no s) = Some (behind inp s)"
proof -
  have "distinct (map fst (rev (map (\<lambda>s. (rt_no s, behind inp s)) (pi_segments inp))))"
    using assms(1) by (simp add: rev_map[symmetric] comp_def)
  moreover have "(rt_no s, behind inp s) \<in> set (rev (map (\<lambda>s. (rt_no s, behind inp s)) (pi_segments inp)))"
    using assms(2) by auto
  ultimately show ?thesis unfolding lagging_peers_def by (rule map_of_is_SomeI)
qed


definition demo_prune :: prune_input where
  "demo_prune = \<lparr>pi_segments = [\<lparr>rt_no = 1, rt_last_rs = 5, rt_mod_time = 0\<rparr>, \<lparr>rt_no = 2, rt_last_rs = 9, rt_mod_time = 0\<rparr>],
     pi_active = 3, pi_peers = [''a'', ''b''], pi_acks = (\<lambda>p. if p = ''a'' then Some \<lparr>ak_segment = 2, ak_rs = 7\<rparr> else None),
     pi_retired = (\<lambda>p. p = ''b''), pi_days = 0, pi_now = 8 * day_ns\<rparr>"


text \<open>
  The acknowledgements after a repair: the file reads back as the ingest cursors say, and a second
  repair has nothing to do.
\<close>

lemma true_acks_peers:
  assumes "true_acks s ps acc = Inr a" "list_all (\<lambda>(p, _). peer_id_pattern p) acc" "distinct (map fst acc)"
  shows "list_all (\<lambda>(p, _). peer_id_pattern p) a" "distinct (map fst a)"
proof -
  have "list_all (\<lambda>(p, _). peer_id_pattern p) a \<and> distinct (map fst a)"
    using assms
  proof (induction ps arbitrary: acc)
    case (Cons p ps)
    then obtain pos where pos: "relay_ingest_cursor p s = Inr pos" "true_acks s ps (AList.update p (ack_of pos) acc) = Inr a"
      by (auto split: sum.splits)
    have "peer_id_pattern p" using pos(1) by (auto simp: relay_ingest_cursor_def split: if_splits)
    then have "list_all (\<lambda>(p, _). peer_id_pattern p) (AList.update p (ack_of pos) acc)"
      using Cons.prems(2) by (induction acc) auto
    moreover have "distinct (map fst (AList.update p (ack_of pos) acc))"
      using Cons.prems(3) by (rule distinct_update)
    ultimately show ?case using Cons.IH pos(2) by blast
  qed simp
  then show "list_all (\<lambda>(p, _). peer_id_pattern p) a" "distinct (map fst a)" by blast+
qed

lemma same_acks_refl: "distinct (map fst a) \<Longrightarrow> same_acks a a"
  by (auto simp: same_acks_def list_all_iff)

lemma write_then_read:
  assumes "write_acks ac a dir = (Inr (), dir')" "\<And>x b. ac_encode ac x = Some b \<Longrightarrow> ac_decode ac (b @ [CHR 0x0A]) = Some x"
  shows "read_acks ac dir' = Inr a"
  using assms by (auto simp: write_acks_def read_acks_def find_None_iff list_all_iff split: option.splits if_splits prod.splits) blast

text \<open>
  After a repair of the ack file that succeeds, the file reads back as positions that agree with the
  ingest cursors of all peers, whatever the file held before, and a second repair changes nothing.
\<close>

theorem reconcile_acks_heals:
  assumes "\<And>x b. ac_encode ac x = Some b \<Longrightarrow> ac_decode ac (b @ [CHR 0x0A]) = Some x"
    and "reconcile_acks ac peers s dir = (Inr (truth, rewritten), dir')"
  shows "true_acks s peers [] = Inr truth \<and> (\<exists>a. read_acks ac dir' = Inr a \<and> same_acks a truth)
    \<and> reconcile_acks ac peers s dir' = (Inr (truth, False), dir')"
proof -
  have truth: "true_acks s peers [] = Inr truth"
    using assms(2) by (auto simp: reconcile_acks_def Let_def split: sum.splits if_splits prod.splits)
  have "same_acks truth truth" using true_acks_peers(2)[OF truth] by (simp add: same_acks_refl)
  then have "\<exists>a. read_acks ac dir' = Inr a \<and> same_acks a truth"
    using assms(2) truth write_then_read[OF _ assms(1)]
    by (auto simp: reconcile_acks_def Let_def split: sum.splits if_splits prod.splits)
  with truth show ?thesis by (auto simp: reconcile_acks_def)
qed

end
