(* ===== verification/Relay_Keyring.thy ===== *)
theory Relay_Keyring
  imports Relay_Scan
begin

text \<open>
  The keys of a relay (\<open>internal/relay/keyring/keyring.go\<close>): one file per key epoch in a directory, in
  base64 text; loading, selection by epoch, installation and generation of a key. The base64 codec
  and \<open>strings.TrimSpace\<close> are those of the Go library.
\<close>

lemma sorted_le_last: "sorted xs \<Longrightarrow> x \<in> set xs \<Longrightarrow> x \<le> last (xs :: 'a :: linorder list)"
  by (induction xs) (auto dest: order_trans)

section \<open>Base64 text\<close>

definition b64_alphabet :: string where
  "b64_alphabet = ''ABCDEFGHIJKLMNOPQRSTUVWXYZabcdefghijklmnopqrstuvwxyz0123456789+/''"

definition b64_char :: "nat \<Rightarrow> char" where
  "b64_char n = b64_alphabet ! n"

definition b64_val :: "char \<Rightarrow> nat option" where
  "b64_val c = index_of c b64_alphabet"

text \<open>\<open>StdEncoding.EncodeToString\<close>: groups of three bytes, the last one padded.\<close>

fun b64_encode :: "bytes \<Rightarrow> string" where
  "b64_encode [] = []"
| "b64_encode [a] = [b64_char (byte a div 4), b64_char (byte a mod 4 * 16), CHR ''='', CHR ''='']"
| "b64_encode [a, b] =
     [b64_char (byte a div 4), b64_char (byte a mod 4 * 16 + byte b div 16), b64_char (byte b mod 16 * 4), CHR ''='']"
| "b64_encode (a # b # c # rest) =
     [b64_char (byte a div 4), b64_char (byte a mod 4 * 16 + byte b div 16),
      b64_char (byte b mod 16 * 4 + byte c div 64), b64_char (byte c mod 64)] @ b64_encode rest"

text \<open>
  \<open>StdEncoding.DecodeString\<close>: carriage returns and newlines are skipped, the padding is required at
  the end and nowhere else, and the unused bits of the last character are not looked at.
\<close>

fun b64_groups :: "string \<Rightarrow> bytes option" where
  "b64_groups [] = Some []"
| "b64_groups (a # b # c # d # rest) =
     (case (b64_val a, b64_val b) of
        (Some x, Some y) \<Rightarrow>
          if c = CHR ''='' then (if d = CHR ''='' \<and> rest = [] then Some [char_of (x * 4 + y div 16)] else None)
          else (case b64_val c of
            None \<Rightarrow> None
          | Some z \<Rightarrow>
              if d = CHR ''='' then
                (if rest = [] then Some [char_of (x * 4 + y div 16), char_of (y mod 16 * 16 + z div 4)] else None)
              else (case b64_val d of
                None \<Rightarrow> None
              | Some w \<Rightarrow> map_option (append [char_of (x * 4 + y div 16), char_of (y mod 16 * 16 + z div 4),
                                          char_of (z mod 4 * 64 + w)]) (b64_groups rest)))
      | _ \<Rightarrow> None)"
| "b64_groups _ = None"

definition b64_decode :: "string \<Rightarrow> bytes option" where
  "b64_decode s = b64_groups (filter (\<lambda>c. c \<noteq> CHR 0x0A \<and> c \<noteq> CHR 0x0D) s)"

lemma b64_val_char:
  assumes "n < 64"
  shows "b64_val (b64_char n) = Some n" "b64_char n \<noteq> CHR ''=''" "b64_char n \<noteq> CHR 0x0A" "b64_char n \<noteq> CHR 0x0D"
proof -
  have "\<forall>n \<in> set [0 ..< 64]. b64_val (b64_char n) = Some n \<and> b64_char n \<noteq> CHR ''=''
      \<and> b64_char n \<noteq> CHR 0x0A \<and> b64_char n \<noteq> CHR 0x0D"
    by code_simp
  moreover have "n \<in> set [0 ..< 64]" using assms by simp
  ultimately show "b64_val (b64_char n) = Some n" "b64_char n \<noteq> CHR ''=''" "b64_char n \<noteq> CHR 0x0A" "b64_char n \<noteq> CHR 0x0D"
    by blast+
qed

lemma byte_bound: "byte c < 256"
  by (simp add: byte_def)

lemma char_of_byte: "char_of (byte c) = c"
  by (simp add: byte_def)

lemma byte_parts:
  "byte a div 4 < 64" "byte b div 16 < 16" "byte c div 64 < 4"
  using byte_bound by (simp_all add: less_mult_imp_div_less)

lemma sextets:
  "byte a div 4 < 64" "byte a mod 4 * 16 < 64" "byte a mod 4 * 16 + byte b div 16 < 64"
  "byte b mod 16 * 4 < 64" "byte b mod 16 * 4 + byte c div 64 < 64" "byte c mod 64 < 64"
proof -
  have "byte a mod 4 < 4" "byte b mod 16 < 16" "byte c mod 64 < 64" by simp_all
  with byte_parts(1)[of a] byte_parts(2)[of b] byte_parts(3)[of c] show "byte a div 4 < 64" "byte a mod 4 * 16 < 64"
    "byte a mod 4 * 16 + byte b div 16 < 64" "byte b mod 16 * 4 < 64" "byte b mod 16 * 4 + byte c div 64 < 64"
    "byte c mod 64 < 64" by linarith+
qed

lemma octets: "byte b div 16 div 16 = 0" "byte c div 64 div 4 = 0" "byte b div 16 mod 16 = byte b div 16"
  "byte c div 64 mod 4 = byte c div 64"
  using byte_parts by (simp_all del: div_mult2_eq[symmetric])

lemma b64_groups_encode: "b64_groups (b64_encode m) = Some m"
  by (induction m rule: b64_encode.induct) (simp_all add: b64_val_char sextets octets char_of_byte)

definition b64_text :: "string \<Rightarrow> bool" where
  "b64_text = list_all (\<lambda>c. c \<noteq> CHR 0x0A \<and> c \<noteq> CHR 0x0D)"

lemma b64_encode_text: "b64_text (b64_encode m)"
  unfolding b64_text_def by (induction m rule: b64_encode.induct) (simp_all add: b64_val_char sextets)

lemma b64_decode_encode: "b64_decode (b64_encode m) = Some m"
proof -
  have "filter (\<lambda>c. c \<noteq> CHR 0x0A \<and> c \<noteq> CHR 0x0D) (b64_encode m) = b64_encode m"
    using b64_encode_text[of m] by (simp add: filter_id_conv list_all_iff b64_text_def)
  then show ?thesis by (simp add: b64_decode_def b64_groups_encode)
qed

section \<open>Trimming\<close>

text \<open>\<open>strings.TrimSpace\<close>: the white space characters of Unicode, in UTF-8, are cut off at both ends.\<close>

definition space_runes :: "string list" where
  "space_runes = [[CHR 0x09], [CHR 0x0A], [CHR 0x0B], [CHR 0x0C], [CHR 0x0D], [CHR 0x20],
     [CHR 0xC2, CHR 0x85], [CHR 0xC2, CHR 0xA0], [CHR 0xE1, CHR 0x9A, CHR 0x80], [CHR 0xE3, CHR 0x80, CHR 0x80],
     [CHR 0xE2, CHR 0x80, CHR 0xA8], [CHR 0xE2, CHR 0x80, CHR 0xA9], [CHR 0xE2, CHR 0x80, CHR 0xAF],
     [CHR 0xE2, CHR 0x81, CHR 0x9F]]
     @ map (\<lambda>i. [CHR 0xE2, CHR 0x80, char_of (128 + i :: nat)]) [0 ..< 11]"

function trim_left :: "string list \<Rightarrow> string \<Rightarrow> string" where
  "trim_left runes s = (case find (\<lambda>r. r \<noteq> [] \<and> has_prefix s r) runes of
     None \<Rightarrow> s | Some r \<Rightarrow> trim_left runes (drop (length r) s))"
  by pat_completeness auto
termination
  by (relation "measure (\<lambda>(_, s). length s)") (auto simp: find_Some_iff has_prefix_iff)

declare trim_left.simps [simp del]

definition trim_space :: "string \<Rightarrow> string" where
  "trim_space s = rev (trim_left (map rev space_runes) (rev (trim_left space_runes s)))"

lemma trim_left_none: "\<forall>r \<in> set runes. r \<noteq> [] \<longrightarrow> \<not> has_prefix s r \<Longrightarrow> trim_left runes s = s"
  by (subst trim_left.simps) (auto split: option.splits simp: find_Some_iff)

lemma trim_left_one:
  "find (\<lambda>r. r \<noteq> [] \<and> has_prefix s r) runes = Some r \<Longrightarrow> trim_left runes s = trim_left runes (drop (length r) s)"
  by (subst trim_left.simps) simp

definition solid :: "char \<Rightarrow> bool" where
  "solid c \<longleftrightarrow> 32 < byte c \<and> byte c < 128"

lemma b64_solid: "list_all solid (b64_encode m)"
proof -
  have "list_all solid b64_alphabet" by (simp add: b64_alphabet_def solid_def byte_def)
  then have "n < 64 \<Longrightarrow> solid (b64_char n)" for n
    by (simp add: list_all_length b64_char_def b64_alphabet_def)
  moreover have "solid CHR ''=''" by (simp add: solid_def byte_def)
  ultimately show ?thesis
    by (induction m rule: b64_encode.induct) (simp_all add: sextets)
qed

lemma solid_trimmed:
  assumes "list_all solid s" "s \<noteq> []"
  shows "trim_space (s @ [CHR 0x0A]) = s"
proof -
  have ends: "\<forall>r \<in> set space_runes. r \<noteq> [] \<and> \<not> solid (hd r) \<and> \<not> solid (last r)"
    by (simp add: space_runes_def solid_def byte_def upt_rec)
  obtain c cs where cs: "s = c # cs" using assms(2) by (cases s) auto
  obtain t d where td: "s = t @ [d]" using assms(2) by (cases s rule: rev_cases) auto
  have front: "\<not> has_prefix (c # x) r" if "r \<in> set space_runes" for r x
    using ends that assms(1) cs by (cases r) auto
  have behind: "\<not> has_prefix (d # x) (rev r)" if "r \<in> set space_runes" for r x
    using ends that assms(1) td by (cases r rule: rev_cases) auto
  have "trim_left space_runes (s @ [CHR 0x0A]) = s @ [CHR 0x0A]"
    using front by (intro trim_left_none) (simp add: cs)
  moreover have "trim_left (map rev space_runes) (CHR 0x0A # d # rev t) = trim_left (map rev space_runes) (d # rev t)"
    using trim_left_one[of "CHR 0x0A # d # rev t" "map rev space_runes" "[CHR 0x0A]"] by (simp add: space_runes_def)
  moreover have "trim_left (map rev space_runes) (d # rev t) = d # rev t"
    using behind by (intro trim_left_none) simp
  ultimately show ?thesis by (simp add: trim_space_def td)
qed

section \<open>Names and files\<close>

datatype key_error = ErrKeyAbsent | ErrKeyPerms | ErrKeyInvalid | ErrKeySymlink | ErrKeyExists | KeyMedium | KeyEntropy

definition key_code :: "key_error option \<Rightarrow> string" where
  "key_code err = (case err of
     Some ErrKeySymlink \<Rightarrow> ''RELAY_KEY_SYMLINK''
   | Some ErrKeyPerms \<Rightarrow> ''RELAY_KEY_PERMS''
   | Some ErrKeyInvalid \<Rightarrow> ''RELAY_KEY_INVALID''
   | Some ErrKeyAbsent \<Rightarrow> ''RELAY_KEY_ABSENT''
   | _ \<Rightarrow> [])"

definition key_file_mode :: nat where "key_file_mode = 6 * 64"
definition key_dir_mode :: nat where "key_dir_mode = 7 * 64"
definition min_key_bytes :: nat where "min_key_bytes = 32"

text \<open>
  A key directory. An entry is a file with its permission bits and its contents (None when it cannot
  be read), a link, or another object; \<open>KeysUnreadable\<close> is a directory that cannot be inspected or
  listed. Behind a link there is a folder or nothing usable.
\<close>

datatype key_object = KeyFile nat "bytes option" | KeyLink | KeyOther

record key_folder =
  kf_mode :: nat
  kf_entries :: "(string \<times> key_object) list"

datatype keys_dir = KeysMissing | KeysUnreadable | KeysNotDir | KeysSymlink "key_folder option" | KeysDir key_folder

record ring =
  rg_keys :: "16 word \<Rightarrow> bytes option"
  rg_epochs :: "16 word list"
  rg_foreign :: "string list"

definition epoch_name :: "16 word \<Rightarrow> string" where
  "epoch_name e = dec_nat (unat e)"

definition parse_epoch_name :: "string \<Rightarrow> (16 word) option" where
  "parse_epoch_name name =
     (if all_digits name \<and> (name = ''0'' \<or> hd name \<noteq> CHR ''0'') \<and> digits_val name < 2 ^ 16
      then Some (of_nat (digits_val name)) else None)"

definition decode_key :: "string \<Rightarrow> key_error + bytes" where
  "decode_key encoded =
     (if encoded = [] then Inl ErrKeyInvalid
      else case b64_decode encoded of
        None \<Rightarrow> Inl ErrKeyInvalid
      | Some key \<Rightarrow> if length key < min_key_bytes then Inl ErrKeyInvalid else Inr key)"

definition read_key_file :: "nat \<Rightarrow> bytes option \<Rightarrow> key_error + bytes" where
  "read_key_file mode body =
     (if mode \<noteq> key_file_mode then Inl ErrKeyPerms
      else case body of None \<Rightarrow> Inl KeyMedium | Some b \<Rightarrow> decode_key (trim_space b))"

section \<open>Loading and selecting\<close>

definition check_key_dir :: "keys_dir \<Rightarrow> key_error + key_folder" where
  "check_key_dir d = (case d of
     KeysMissing \<Rightarrow> Inl ErrKeyAbsent
   | KeysUnreadable \<Rightarrow> Inl KeyMedium
   | KeysSymlink _ \<Rightarrow> Inl ErrKeySymlink
   | KeysNotDir \<Rightarrow> Inl ErrKeyInvalid
   | KeysDir f \<Rightarrow> if kf_mode f \<noteq> key_dir_mode then Inl ErrKeyPerms else Inr f)"

fun load_entries :: "(string \<times> key_object) list \<Rightarrow> ring \<Rightarrow> key_error + ring" where
  "load_entries [] r = Inr r"
| "load_entries ((name, KeyLink) # es) r = Inl ErrKeySymlink"
| "load_entries ((name, KeyOther) # es) r = load_entries es (r\<lparr>rg_foreign := rg_foreign r @ [name]\<rparr>)"
| "load_entries ((name, KeyFile mode body) # es) r =
     (case parse_epoch_name name of
        None \<Rightarrow> load_entries es (r\<lparr>rg_foreign := rg_foreign r @ [name]\<rparr>)
      | Some e \<Rightarrow> bind_result (read_key_file mode body) (\<lambda>key.
          load_entries es (r\<lparr>rg_keys := (rg_keys r)(e := Some key), rg_epochs := rg_epochs r @ [e]\<rparr>)))"

definition empty_ring :: ring where
  "empty_ring = \<lparr>rg_keys = \<lambda>_. None, rg_epochs = [], rg_foreign = []\<rparr>"

definition load_ring :: "keys_dir \<Rightarrow> key_error + ring" where
  "load_ring d =
     bind_result (check_key_dir d) (\<lambda>f.
       bind_result (load_entries (kf_entries f) empty_ring) (\<lambda>r.
         if rg_epochs r = [] then Inl ErrKeyAbsent else Inr (r\<lparr>rg_epochs := sort (rg_epochs r)\<rparr>)))"

text \<open>\<open>For\<close> and \<open>Current\<close>.\<close>

definition ring_for :: "ring \<Rightarrow> 16 word \<Rightarrow> key_error + bytes" where
  "ring_for r e = (case rg_keys r e of None \<Rightarrow> Inl ErrKeyAbsent | Some key \<Rightarrow> Inr key)"

definition ring_current :: "ring \<Rightarrow> key_error + 16 word \<times> bytes" where
  "ring_current r =
     (if rg_epochs r = [] then Inl ErrKeyAbsent
      else let e = last (rg_epochs r) in Inr (e, case rg_keys r e of None \<Rightarrow> [] | Some key \<Rightarrow> key))"

section \<open>Installing and generating\<close>

text \<open>
  What the file system answers: whether the directory could be made (with the permission bits the
  process mask leaves) and its mode set, the file created, and written, closed and given its mode; after
  a failed write, what a failed removal leaves behind.
\<close>

record key_io =
  ko_mkdir :: bool
  ko_made_mode :: nat
  ko_chmod :: bool
  ko_create :: bool
  ko_write :: bool
  ko_left :: "key_object option"

definition prepare_key_dir :: "key_io \<Rightarrow> keys_dir \<Rightarrow> bool \<times> keys_dir" where
  "prepare_key_dir io d =
     (let made = (if d = KeysMissing \<and> ko_mkdir io then KeysDir \<lparr>kf_mode = ko_made_mode io, kf_entries = []\<rparr> else d);
          moded = (case made of
             KeysDir f \<Rightarrow> if ko_chmod io then KeysDir (f\<lparr>kf_mode := key_dir_mode\<rparr>) else made
           | KeysSymlink (Some f) \<Rightarrow> if ko_chmod io then KeysSymlink (Some (f\<lparr>kf_mode := key_dir_mode\<rparr>)) else made
           | _ \<Rightarrow> made)
      in (ko_chmod io \<and> (case made of KeysDir _ \<Rightarrow> True | KeysSymlink (Some _) \<Rightarrow> True | _ \<Rightarrow> False), moded))"

text \<open>The directory is listed in the order of the names.\<close>

definition add_entry :: "string \<Rightarrow> key_object \<Rightarrow> key_folder \<Rightarrow> key_folder" where
  "add_entry name obj f = f\<lparr>kf_entries := insort_by (\<lambda>a b. fst a < fst b) (name, obj) (kf_entries f)\<rparr>"

definition create_key :: "key_io \<Rightarrow> string \<Rightarrow> bytes \<Rightarrow> key_folder \<Rightarrow> (key_error + unit) \<times> key_folder" where
  "create_key io name body f =
     (if name \<in> fst ` set (kf_entries f) then (Inl ErrKeyExists, f)
      else if \<not> ko_create io then (Inl KeyMedium, f)
      else if \<not> ko_write io then
        (Inl KeyMedium, case ko_left io of None \<Rightarrow> f | Some obj \<Rightarrow> add_entry name obj f)
      else (Inr (), add_entry name (KeyFile key_file_mode (Some body)) f))"

definition write_key :: "key_io \<Rightarrow> 16 word \<Rightarrow> bytes \<Rightarrow> keys_dir \<Rightarrow> (key_error + unit) \<times> keys_dir" where
  "write_key io e key d =
     (if length key < min_key_bytes then (Inl ErrKeyInvalid, d)
      else case prepare_key_dir io d of
        (True, KeysDir f) \<Rightarrow>
          (case create_key io (epoch_name e) (b64_encode key @ [CHR 0x0A]) f of (res, f') \<Rightarrow> (res, KeysDir f'))
      | (True, KeysSymlink (Some f)) \<Rightarrow>
          (case create_key io (epoch_name e) (b64_encode key @ [CHR 0x0A]) f of (res, f') \<Rightarrow> (res, KeysSymlink (Some f')))
      | (_, d') \<Rightarrow> (Inl KeyMedium, d'))"

definition generate_key :: "reader \<Rightarrow> key_error + bytes" where
  "generate_key rand = (case read_full min_key_bytes rand of ReadFull key _ \<Rightarrow> Inr key | _ \<Rightarrow> Inl KeyEntropy)"

section \<open>Names of epochs\<close>

lemma digits_val_pos: "all_digits s \<Longrightarrow> hd s \<noteq> CHR ''0'' \<Longrightarrow> 0 < digits_val s"
proof (induction s rule: rev_induct)
  case (snoc c s)
  show ?case
  proof (cases "s = []")
    case True
    with snoc.prems have "is_digit c" "c \<noteq> CHR ''0''" by (simp_all add: all_digits_def)
    moreover have "byte c \<noteq> 48" using \<open>c \<noteq> CHR ''0''\<close> byte_inject[of c "CHR ''0''"] by (simp add: byte_def)
    ultimately show ?thesis using True by (simp add: digits_val_def digit_val_def is_digit_def)
  next
    case False
    with snoc show ?thesis by (simp add: all_digits_def digits_val_append)
  qed
qed (simp add: all_digits_def)

lemma dec_nat_digits_val:
  assumes "all_digits s" "s = ''0'' \<or> hd s \<noteq> CHR ''0''"
  shows "dec_nat (digits_val s) = s"
  using assms
proof (induction s rule: rev_induct)
  case (snoc c s)
  have c: "is_digit c" using snoc.prems by (simp add: all_digits_def)
  then have d: "digit_val c < 10" "digit_char (digit_val c) = c"
    by (auto simp: is_digit_def digit_val_def digit_char_def byte_def)
  show ?case
  proof (cases "s = []")
    case True
    with d show ?thesis by (subst dec_nat.simps) (simp add: digits_val_def)
  next
    case False
    with snoc.prems have s: "all_digits s" "hd s \<noteq> CHR ''0''" by (auto simp: all_digits_def append_eq_Cons_conv)
    have "\<not> 10 * digits_val s + digit_val c < 10" using digits_val_pos[OF s] by simp
    moreover have "(10 * digits_val s + digit_val c) div 10 = digits_val s" using d(1) by simp
    moreover have "(10 * digits_val s + digit_val c) mod 10 = digit_val c" using d(1) by simp
    ultimately show ?thesis
      using snoc.IH[OF s(1)] s(2) d(2) by (subst dec_nat.simps) (simp add: digits_val_append)
  qed
qed (simp add: all_digits_def)

lemma dec_nat_hd: "0 < n \<Longrightarrow> hd (dec_nat n) \<noteq> CHR ''0''"
proof (induction n rule: dec_nat.induct)
  case (1 n)
  show ?case
  proof (cases "n < 10")
    case True
    then have "byte (digit_char n) \<noteq> byte CHR ''0''" using 1(2) byte_digit_char[OF True] by (simp add: byte_def)
    with True show ?thesis by (subst dec_nat.simps) auto
  next
    case False
    with 1(1)[OF False] show ?thesis by (subst dec_nat.simps) (simp add: div_greater_zero_iff)
  qed
qed

lemma parse_epoch_name_iff: "parse_epoch_name name = Some e \<longleftrightarrow> name = epoch_name e"
proof
  assume "parse_epoch_name name = Some e"
  then have ok: "all_digits name" "name = ''0'' \<or> hd name \<noteq> CHR ''0''" "digits_val name < 2 ^ 16" "e = of_nat (digits_val name)"
    by (auto simp: parse_epoch_name_def split: if_splits)
  then have "unat e = digits_val name" by (simp add: unsigned_of_nat take_bit_nat_eq_self)
  with dec_nat_digits_val[OF ok(1,2)] show "name = epoch_name e" by (simp add: epoch_name_def)
next
  assume name: "name = epoch_name e"
  have "unat e < 2 ^ 16" using unsigned_less[of e, where ?'a = nat] by simp
  moreover have "name = ''0'' \<or> hd name \<noteq> CHR ''0''"
  proof (cases "unat e = 0")
    case True
    then show ?thesis by (simp add: name epoch_name_def dec_nat.simps digit_char_def)
  qed (use dec_nat_hd in \<open>simp add: name epoch_name_def\<close>)
  ultimately show "parse_epoch_name name = Some e"
    by (simp add: parse_epoch_name_def name epoch_name_def dec_nat_digits digits_val_dec_nat)
qed

section \<open>What a load gives\<close>

text \<open>What one entry contributes.\<close>

fun entry_key :: "string \<times> key_object \<Rightarrow> key_error + (16 word \<times> bytes) option" where
  "entry_key (name, KeyLink) = Inl ErrKeySymlink"
| "entry_key (name, KeyOther) = Inr None"
| "entry_key (name, KeyFile mode body) =
     (case parse_epoch_name name of
        None \<Rightarrow> Inr None
      | Some e \<Rightarrow> bind_result (read_key_file mode body) (\<lambda>key. Inr (Some (e, key))))"

definition keys_of :: "(string \<times> key_object) list \<Rightarrow> (16 word \<times> bytes) list" where
  "keys_of es = concat (map (\<lambda>x. case entry_key x of Inr (Some y) \<Rightarrow> [y] | _ \<Rightarrow> []) es)"

definition strangers :: "(string \<times> key_object) list \<Rightarrow> string list" where
  "strangers es = map fst (filter (\<lambda>x. entry_key x = Inr None) es)"

definition entry_fine :: "string \<times> key_object \<Rightarrow> bool" where
  "entry_fine x \<longleftrightarrow> (\<exists>y. entry_key x = Inr y)"

lemma keys_of_append: "keys_of (xs @ ys) = keys_of xs @ keys_of ys"
  by (simp add: keys_of_def)

lemma strangers_append: "strangers (xs @ ys) = strangers xs @ strangers ys"
  by (simp add: strangers_def)

lemma load_entries_fine:
  "(\<exists>r'. load_entries es r = Inr r') \<longleftrightarrow> list_all entry_fine es"
proof (induction es r rule: load_entries.induct)
  case (4 name mode body es r)
  then show ?case
    by (cases "parse_epoch_name name"; cases "read_key_file mode body") (simp_all add: entry_fine_def)
qed (simp_all add: entry_fine_def)

lemma load_entries_exact:
  "load_entries es r = Inr r' \<Longrightarrow>
     rg_keys r' e = (case map_of (rev (keys_of es)) e of None \<Rightarrow> rg_keys r e | Some k \<Rightarrow> Some k)
     \<and> rg_epochs r' = rg_epochs r @ map fst (keys_of es)
     \<and> rg_foreign r' = rg_foreign r @ strangers es"
proof (induction es r rule: load_entries.induct)
  case (4 name mode body es r)
  show ?case
  proof (cases "parse_epoch_name name")
    case None
    with 4 show ?thesis by (simp add: keys_of_def strangers_def cong: option.case_cong)
  next
    case (Some e')
    with 4(3) obtain k where k: "read_key_file mode body = Inr k"
      "load_entries es (r\<lparr>rg_keys := (rg_keys r)(e' := Some k), rg_epochs := rg_epochs r @ [e']\<rparr>) = Inr r'"
      by (auto simp: bind_result_Inr)
    from 4(2)[OF Some k(2)] k(1) Some show ?thesis
      by (auto simp: keys_of_def strangers_def map_add_def split: option.splits)
  qed
qed (simp_all add: keys_of_def strangers_def cong: option.case_cong)

lemma entry_key_file:
  "entry_key x = Inr (Some (e, k)) \<longleftrightarrow> (\<exists>m b. x = (epoch_name e, KeyFile m b) \<and> read_key_file m b = Inr k)"
  by (cases x rule: entry_key.cases)
    (auto simp: parse_epoch_name_iff[symmetric] bind_result_Inr split: option.splits)

lemma keys_of_Cons: "keys_of (x # es) = (case entry_key x of Inr (Some y) \<Rightarrow> y # keys_of es | _ \<Rightarrow> keys_of es)"
  by (auto simp: keys_of_def split: sum.splits option.splits)

lemma keys_of_Nil [simp]: "keys_of [] = []"
  by (simp add: keys_of_def)

lemma keys_of_iff: "(e, k) \<in> set (keys_of es) \<longleftrightarrow> (\<exists>m b. (epoch_name e, KeyFile m b) \<in> set es \<and> read_key_file m b = Inr k)"
proof -
  have "(e, k) \<in> set (keys_of es) \<longleftrightarrow> (\<exists>x \<in> set es. entry_key x = Inr (Some (e, k)))"
    by (induction es) (auto simp: keys_of_Cons split: sum.splits option.splits)
  then show ?thesis by (auto simp: entry_key_file)
qed

lemma keys_of_distinct: "distinct (map fst es) \<Longrightarrow> distinct (map fst (keys_of es))"
proof (induction es)
  case (Cons x es)
  show ?case
  proof (cases "\<exists>e k. entry_key x = Inr (Some (e, k))")
    case True
    then obtain e k m b where x: "entry_key x = Inr (Some (e, k))" "x = (epoch_name e, KeyFile m b)"
      using entry_key_file by blast
    have "(e, k') \<notin> set (keys_of es)" for k'
      using Cons.prems unfolding keys_of_iff x(2) by force
    with Cons x(1) show ?thesis by (auto simp: keys_of_Cons)
  qed (use Cons in \<open>auto simp: keys_of_Cons split: sum.splits option.splits\<close>)
qed simp

text \<open>The names in a directory are distinct.\<close>

definition folder_ok :: "key_folder \<Rightarrow> bool" where
  "folder_ok f \<longleftrightarrow> distinct (map fst (kf_entries f))"

definition keys_ok :: "keys_dir \<Rightarrow> bool" where
  "keys_ok d = (case d of KeysDir f \<Rightarrow> folder_ok f | KeysSymlink (Some f) \<Rightarrow> folder_ok f | _ \<Rightarrow> True)"

lemma load_folder:
  assumes "kf_mode f = key_dir_mode" "folder_ok f"
  shows "(\<exists>r. load_ring (KeysDir f) = Inr r) \<longleftrightarrow> list_all entry_fine (kf_entries f) \<and> keys_of (kf_entries f) \<noteq> []"
    and "load_ring (KeysDir f) = Inr r \<Longrightarrow> rg_keys r = map_of (keys_of (kf_entries f))
      \<and> rg_epochs r = sort (map fst (keys_of (kf_entries f))) \<and> rg_foreign r = strangers (kf_entries f)"
proof -
  let ?es = "kf_entries f"
  have dist: "distinct (map fst (keys_of ?es))" using assms(2) by (simp add: folder_ok_def keys_of_distinct)
  have rev: "map_of (rev (keys_of ?es)) = map_of (keys_of ?es)" using dist by (intro map_of_inject_set[THEN iffD2]) (simp_all add: rev_map[symmetric])
  have epochs: "rg_epochs r' = map fst (keys_of ?es)" if "load_entries ?es empty_ring = Inr r'" for r'
    using load_entries_exact[OF that] by (simp add: empty_ring_def)
  have load: "load_ring (KeysDir f) = bind_result (load_entries ?es empty_ring) (\<lambda>r.
      if rg_epochs r = [] then Inl ErrKeyAbsent else Inr (r\<lparr>rg_epochs := sort (rg_epochs r)\<rparr>))"
    using assms(1) by (simp add: load_ring_def check_key_dir_def)
  show "(\<exists>r. load_ring (KeysDir f) = Inr r) \<longleftrightarrow> list_all entry_fine ?es \<and> keys_of ?es \<noteq> []"
    unfolding load load_entries_fine[of ?es empty_ring, symmetric] using epochs by (fastforce simp: bind_result_Inr)
  show "rg_keys r = map_of (keys_of ?es) \<and> rg_epochs r = sort (map fst (keys_of ?es)) \<and> rg_foreign r = strangers ?es"
    if loaded: "load_ring (KeysDir f) = Inr r"
  proof -
    obtain r' where r': "load_entries ?es empty_ring = Inr r'" "r = r'\<lparr>rg_epochs := sort (rg_epochs r')\<rparr>"
      using loaded unfolding load by (auto simp: bind_result_Inr split: if_splits)
    have "rg_keys r' e = map_of (keys_of ?es) e" for e
      using load_entries_exact[OF r'(1), of e] by (simp add: empty_ring_def rev split: option.splits)
    with load_entries_exact[OF r'(1)] r'(2) show ?thesis by (auto simp: empty_ring_def)
  qed
qed

lemma load_ring_dir: "load_ring d = Inr r \<Longrightarrow> \<exists>f. d = KeysDir f \<and> kf_mode f = key_dir_mode"
  by (auto simp: load_ring_def check_key_dir_def bind_result_Inr split: keys_dir.splits if_splits)

section \<open>What a write does\<close>

lemma insort_by_split: "\<exists>a b. xs = a @ b \<and> insort_by lt x xs = a @ x # b"
proof (induction xs)
  case (Cons y ys)
  then obtain a b where "ys = a @ b" "insort_by lt x ys = a @ x # b" by blast
  then have "y # ys = (y # a) @ b \<and> y # insort_by lt x ys = (y # a) @ x # b" by simp
  then have "\<exists>a b. y # ys = a @ b \<and> y # insort_by lt x ys = a @ x # b" by blast
  moreover have "\<exists>a b. y # ys = a @ b \<and> x # y # ys = a @ x # b" by (rule exI[of _ "[]"]) simp
  ultimately show ?case by simp
qed (auto intro: exI[of _ "[]"])

lemma add_entry_keys:
  assumes "folder_ok f" "name \<notin> fst ` set (kf_entries f)"
  shows "folder_ok (add_entry name obj f)" "kf_mode (add_entry name obj f) = kf_mode f"
    "set (kf_entries (add_entry name obj f)) = insert (name, obj) (set (kf_entries f))"
    "entry_key (name, obj) \<noteq> Inr None \<Longrightarrow> strangers (kf_entries (add_entry name obj f)) = strangers (kf_entries f)"
proof -
  obtain a b where ab: "kf_entries f = a @ b" "kf_entries (add_entry name obj f) = a @ (name, obj) # b"
    using insort_by_split[of "kf_entries f" "\<lambda>a b. fst a < fst b" "(name, obj)"] by (auto simp: add_entry_def)
  show "folder_ok (add_entry name obj f)" using assms unfolding folder_ok_def ab by auto
  show "kf_mode (add_entry name obj f) = kf_mode f" by (simp add: add_entry_def)
  show "set (kf_entries (add_entry name obj f)) = insert (name, obj) (set (kf_entries f))" unfolding ab by auto
  show "strangers (kf_entries (add_entry name obj f)) = strangers (kf_entries f)" if "entry_key (name, obj) \<noteq> Inr None"
    unfolding ab using that by (simp add: strangers_def)
qed

lemma read_written_key: "min_key_bytes \<le> length key \<Longrightarrow> read_key_file key_file_mode (Some (b64_encode key @ [CHR 0x0A])) = Inr key"
proof -
  assume len: "min_key_bytes \<le> length key"
  then have "b64_encode key \<noteq> []" by (cases key rule: b64_encode.cases) (simp_all add: min_key_bytes_def)
  with len show ?thesis
    by (simp add: read_key_file_def decode_key_def solid_trimmed b64_solid b64_decode_encode not_less)
qed

definition new_folder :: "keys_dir \<Rightarrow> key_folder" where
  "new_folder d = (case d of KeysDir f \<Rightarrow> f\<lparr>kf_mode := key_dir_mode\<rparr> | _ \<Rightarrow> \<lparr>kf_mode = key_dir_mode, kf_entries = []\<rparr>)"

lemma write_key_ok:
  assumes "write_key io e key d = (Inr (), d')" "d = KeysMissing \<or> (\<exists>f. d = KeysDir f)"
  shows "min_key_bytes \<le> length key" "epoch_name e \<notin> fst ` set (kf_entries (new_folder d))"
    "d' = KeysDir (add_entry (epoch_name e) (KeyFile key_file_mode (Some (b64_encode key @ [CHR 0x0A]))) (new_folder d))"
  using assms
  by (auto simp: write_key_def prepare_key_dir_def Let_def create_key_def new_folder_def not_less
      split: if_splits keys_dir.splits prod.splits option.splits)

lemma load_ring_shape: "load_ring d = Inr r \<or> (d = KeysMissing \<and> r = empty_ring) \<Longrightarrow> d = KeysMissing \<or> (\<exists>f. d = KeysDir f)"
  using load_ring_dir by blast

lemma new_folder_ok: "keys_ok d \<Longrightarrow> folder_ok (new_folder d)" "kf_mode (new_folder d) = key_dir_mode"
  by (auto simp: keys_ok_def new_folder_def folder_ok_def split: keys_dir.splits)

text \<open>The ring of a directory, or of one that is still to be made.\<close>

lemma ring_of_folder:
  assumes "keys_ok d" "load_ring d = Inr r \<or> (d = KeysMissing \<and> r = empty_ring)"
  shows "rg_keys r = map_of (keys_of (kf_entries (new_folder d)))" "rg_foreign r = strangers (kf_entries (new_folder d))"
    "list_all entry_fine (kf_entries (new_folder d))"
proof -
  let ?f = "new_folder d"
  have "rg_keys r = map_of (keys_of (kf_entries ?f)) \<and> rg_foreign r = strangers (kf_entries ?f) \<and> list_all entry_fine (kf_entries ?f)"
  proof (cases "d = KeysMissing")
    case True
    then have "r = empty_ring" using assms(2) by (auto simp: load_ring_def check_key_dir_def)
    with True show ?thesis by (simp add: new_folder_def empty_ring_def strangers_def fun_eq_iff)
  next
    case False
    then have r: "load_ring d = Inr r" using assms(2) by simp
    then have "d = KeysDir ?f" using load_ring_dir by (fastforce simp: new_folder_def)
    with r show ?thesis using load_folder[OF new_folder_ok(2) new_folder_ok(1)[OF assms(1)]] by metis
  qed
  then show "rg_keys r = map_of (keys_of (kf_entries ?f))" "rg_foreign r = strangers (kf_entries ?f)"
    "list_all entry_fine (kf_entries ?f)" by simp_all
qed

lemma load_added:
  assumes "folder_ok f" "kf_mode f = key_dir_mode" "list_all entry_fine (kf_entries f)"
    and "epoch_name e \<notin> fst ` set (kf_entries f)" "read_key_file m b = Inr key"
  shows "\<exists>r'. load_ring (KeysDir (add_entry (epoch_name e) (KeyFile m b) f)) = Inr r'
    \<and> rg_keys r' = (map_of (keys_of (kf_entries f)))(e \<mapsto> key) \<and> rg_foreign r' = strangers (kf_entries f)"
proof -
  let ?x = "(epoch_name e, KeyFile m b)" let ?g = "add_entry (epoch_name e) (KeyFile m b) f"
  have x: "entry_key ?x = Inr (Some (e, key))" using assms(5) entry_key_file by blast
  have g: "folder_ok ?g" "kf_mode ?g = key_dir_mode" "set (kf_entries ?g) = insert ?x (set (kf_entries f))"
    "strangers (kf_entries ?g) = strangers (kf_entries f)"
    using add_entry_keys[OF assms(1,4), of "snd ?x"] assms(2) x by simp_all
  have in_g: "(e', k) \<in> set (keys_of (kf_entries ?g)) \<longleftrightarrow> (e', k) = (e, key) \<or> (e', k) \<in> set (keys_of (kf_entries f))" for e' k
    unfolding keys_of_iff g(3)
    using assms(5) parse_epoch_name_iff[of "epoch_name e" e'] parse_epoch_name_iff[of "epoch_name e" e] by auto
  have "list_all entry_fine (kf_entries ?g)"
    using assms(3) x unfolding list_all_iff g(3) by (auto simp: entry_fine_def)
  moreover have "keys_of (kf_entries ?g) \<noteq> []" using in_g[of e key] by auto
  ultimately obtain r' where r': "load_ring (KeysDir ?g) = Inr r'" using load_folder(1)[OF g(2,1)] by blast
  have dist: "distinct (map fst (keys_of (kf_entries f)))" "distinct (map fst (keys_of (kf_entries ?g)))"
    using assms(1) g(1) by (simp_all add: folder_ok_def keys_of_distinct)
  have "e \<notin> fst ` set (keys_of (kf_entries f))" using assms(4) by (force simp: keys_of_iff)
  then have "(map_of (keys_of (kf_entries ?g))) e' = ((map_of (keys_of (kf_entries f)))(e \<mapsto> key)) e'" for e'
    using in_g[of e'] map_of_eq_Some_iff[OF dist(1), of e'] map_of_eq_Some_iff[OF dist(2), of e']
    by (cases "map_of (keys_of (kf_entries ?g)) e'"; cases "map_of (keys_of (kf_entries f)) e'") force+
  with load_folder(2)[OF g(2,1) r'] r' g(4) show ?thesis by (auto simp: fun_eq_iff)
qed

lemma add_entry_dir_ok: "folder_ok f \<Longrightarrow> name \<notin> fst ` set (kf_entries f) \<Longrightarrow> keys_ok (KeysDir (add_entry name obj f))"
  using add_entry_keys(1) by (simp add: keys_ok_def)

text \<open>The keys a directory holds, none while it is missing or empty.\<close>

definition loaded :: "keys_dir \<Rightarrow> 16 word \<Rightarrow> bytes option" where
  "loaded d e = (case load_ring d of Inr r \<Rightarrow> rg_keys r e | Inl _ \<Rightarrow> None)"

lemma read_key_not_absent: "read_key_file m b \<noteq> Inl ErrKeyAbsent"
  by (auto simp: read_key_file_def decode_key_def split: option.splits)

lemma load_entries_not_absent: "load_entries es r \<noteq> Inl ErrKeyAbsent"
proof (induction es r rule: load_entries.induct)
  case (4 name mode body es r)
  then show ?case
    using read_key_not_absent[of mode body] by (auto simp: bind_result_Inl split: option.splits)
qed simp_all

lemma loadable:
  assumes "keys_ok d" "(\<exists>r. load_ring d = Inr r) \<or> load_ring d = Inl ErrKeyAbsent"
  shows "d = KeysMissing \<or> (\<exists>f. d = KeysDir f)" "list_all entry_fine (kf_entries (new_folder d))"
    "loaded d = map_of (keys_of (kf_entries (new_folder d)))"
proof -
  let ?f = "new_folder d"
  have "(d = KeysMissing \<or> (\<exists>f. d = KeysDir f)) \<and> list_all entry_fine (kf_entries ?f) \<and> loaded d = map_of (keys_of (kf_entries ?f))"
  proof (cases "\<exists>r. load_ring d = Inr r")
    case True
    then obtain r where r: "load_ring d = Inr r" by blast
    with ring_of_folder[OF assms(1), of r] load_ring_dir[OF r] show ?thesis by (auto simp: loaded_def fun_eq_iff)
  next
    case False
    then have absent: "load_ring d = Inl ErrKeyAbsent" using assms(2) by blast
    have shape: "d = KeysMissing \<or> d = KeysDir ?f"
      using absent by (auto simp: load_ring_def check_key_dir_def new_folder_def split: keys_dir.splits if_splits)
    moreover have "list_all entry_fine (kf_entries ?f) \<and> keys_of (kf_entries ?f) = []" if d: "d = KeysDir ?f"
    proof -
      have "load_ring (KeysDir ?f) = Inl ErrKeyAbsent" using absent d by simp
      then obtain r where "load_entries (kf_entries ?f) empty_ring = Inr r" "rg_epochs r = []"
        using load_entries_not_absent new_folder_ok(2)[of d]
        by (auto simp: load_ring_def check_key_dir_def bind_result_Inl split: if_splits)
      then show ?thesis
        using load_entries_fine[of "kf_entries ?f" empty_ring] load_entries_exact[of "kf_entries ?f" empty_ring r]
        by (auto simp: empty_ring_def)
    qed
    ultimately show ?thesis using absent by (auto simp: loaded_def fun_eq_iff new_folder_def)
  qed
  then show "d = KeysMissing \<or> (\<exists>f. d = KeysDir f)" "list_all entry_fine (kf_entries (new_folder d))"
    "loaded d = map_of (keys_of (kf_entries (new_folder d)))" by simp_all
qed

lemma write_key_adds:
  assumes "keys_ok d" "(\<exists>r. load_ring d = Inr r) \<or> load_ring d = Inl ErrKeyAbsent" "write_key io e key d = (Inr (), d')"
  shows "loaded d e = None" "loaded d' = (loaded d)(e \<mapsto> key)" "keys_ok d'" "\<exists>r. load_ring d' = Inr r"
    "\<exists>f. d' = KeysDir f \<and> epoch_name e \<in> fst ` set (kf_entries f)"
proof -
  note l = loadable[OF assms(1,2)]
  note w = write_key_ok[OF assms(3) l(1)]
  note ok = new_folder_ok(1)[OF assms(1)]
  obtain r' where r': "load_ring d' = Inr r'" "rg_keys r' = (loaded d)(e \<mapsto> key)"
    using load_added[OF ok new_folder_ok(2) l(2) w(2) read_written_key[OF w(1)]] unfolding w(3) l(3) by blast
  then show "loaded d' = (loaded d)(e \<mapsto> key)" "\<exists>r. load_ring d' = Inr r" by (simp_all add: loaded_def fun_eq_iff)
  show "loaded d e = None" using w(2) unfolding l(3) map_of_eq_None_iff by (force simp: keys_of_iff)
  show "keys_ok d'" using add_entry_dir_ok[OF ok w(2)] w(3) by simp
  show "\<exists>f. d' = KeysDir f \<and> epoch_name e \<in> fst ` set (kf_entries f)"
    using add_entry_keys(3)[OF ok w(2)] w(3) by auto
qed

lemma write_key_held:
  assumes "d = KeysDir f" "epoch_name e \<in> fst ` set (kf_entries f)" "min_key_bytes \<le> length key" "ko_chmod io"
  shows "write_key io e key d = (Inl ErrKeyExists, KeysDir (f\<lparr>kf_mode := key_dir_mode\<rparr>))"
  using assms by (simp add: write_key_def prepare_key_dir_def create_key_def not_less)

lemma generated_length: "generate_key rand = Inr key \<Longrightarrow> length key = min_key_bytes"
  by (auto simp: generate_key_def read_full_def min_key_bytes_def split: read_outcome.splits if_splits)

text \<open>A directory with one key.\<close>

definition demo_key :: bytes where "demo_key = replicate 32 CHR ''k''"

definition demo_folder :: key_folder where
  "demo_folder = add_entry (epoch_name 1) (KeyFile key_file_mode (Some (b64_encode demo_key @ [CHR 0x0A])))
     \<lparr>kf_mode = key_dir_mode, kf_entries = []\<rparr>"

definition demo_io :: key_io where
  "demo_io = \<lparr>ko_mkdir = True, ko_made_mode = key_dir_mode, ko_chmod = True, ko_create = True, ko_write = True, ko_left = None\<rparr>"

lemma demo_key_length [simp]: "min_key_bytes \<le> length demo_key"
  by (simp add: min_key_bytes_def demo_key_def)

lemma demo_ring: "\<exists>r. load_ring (KeysDir demo_folder) = Inr r \<and> rg_keys r = [1 \<mapsto> demo_key] \<and> rg_foreign r = []"
  using load_added[of "\<lparr>kf_mode = key_dir_mode, kf_entries = []\<rparr>" 1 key_file_mode] read_written_key[OF demo_key_length]
  by (simp add: demo_folder_def folder_ok_def strangers_def)

lemma demo_keys_ok: "keys_ok (KeysDir demo_folder)"
  by (simp add: keys_ok_def demo_folder_def folder_ok_def add_entry_def)



text \<open>
  C20. A key that was written is the key that is loaded for its epoch, whatever its bytes; the keys of all
  other epochs and the foreign names stay as they were; and an epoch that has a file is never
  written again.
\<close>

theorem write_key_roundtrip:
  assumes "keys_ok d" "load_ring d = Inr r \<or> (d = KeysMissing \<and> r = empty_ring)"
  shows "(write_key io e key d = (Inr (), d') \<longrightarrow>
      (\<exists>r'. load_ring d' = Inr r' \<and> keys_ok d' \<and> ring_for r e = Inl ErrKeyAbsent \<and> ring_for r' e = Inr key
        \<and> (\<forall>e'. e' \<noteq> e \<longrightarrow> ring_for r' e' = ring_for r e') \<and> rg_foreign r' = rg_foreign r))
    \<and> (ring_for r e = Inr key' \<longrightarrow> min_key_bytes \<le> length key \<longrightarrow> ko_chmod io \<longrightarrow> write_key io e key d = (Inl ErrKeyExists, d))"
proof -
  let ?f = "new_folder d"
  note shape = load_ring_shape[OF assms(2)]
  note ok = new_folder_ok(1)[OF assms(1)]
  note old = ring_of_folder[OF assms]
  have "\<exists>r'. load_ring d' = Inr r' \<and> keys_ok d' \<and> ring_for r e = Inl ErrKeyAbsent \<and> ring_for r' e = Inr key
      \<and> (\<forall>e'. e' \<noteq> e \<longrightarrow> ring_for r' e' = ring_for r e') \<and> rg_foreign r' = rg_foreign r"
    if wrote: "write_key io e key d = (Inr (), d')"
  proof -
    note w = write_key_ok[OF wrote shape]
    obtain r' where r': "load_ring d' = Inr r'" "rg_keys r' = (rg_keys r)(e \<mapsto> key)" "rg_foreign r' = rg_foreign r"
      using load_added[OF ok new_folder_ok(2) old(3) w(2) read_written_key[OF w(1)]] unfolding w(3) old(1,2) by blast
    have "rg_keys r e = None"
      using w(2) unfolding old(1) map_of_eq_None_iff by (force simp: keys_of_iff)
    with r' add_entry_dir_ok[OF ok w(2)] w(3) show ?thesis by (auto simp: ring_for_def)
  qed
  moreover have "write_key io e key d = (Inl ErrKeyExists, d)"
    if held: "ring_for r e = Inr key'" "min_key_bytes \<le> length key" "ko_chmod io"
  proof -
    have "d \<noteq> KeysMissing" using held(1) assms(2) by (auto simp: ring_for_def empty_ring_def load_ring_def check_key_dir_def)
    then obtain f where f: "d = KeysDir f" "kf_mode f = key_dir_mode" using load_ring_dir assms(2) by blast
    then have "(e, key') \<in> set (keys_of (kf_entries f))"
      using held(1) old(1) by (auto simp: ring_for_def map_of_SomeD new_folder_def split: option.splits)
    then have "epoch_name e \<in> fst ` set (kf_entries f)" by (force simp: keys_of_iff)
    with held(2,3) f show ?thesis by (simp add: write_key_def prepare_key_dir_def create_key_def)
  qed
  ultimately show ?thesis by blast
qed

theorem write_key_roundtrip_witness:
  "\<exists>d r. write_key demo_io 1 demo_key KeysMissing = (Inr (), d) \<and> load_ring d = Inr r \<and> ring_for r 1 = Inr demo_key"
proof -
  have wrote: "write_key demo_io 1 demo_key KeysMissing = (Inr (), KeysDir demo_folder)"
    using demo_key_length by (simp add: write_key_def demo_io_def prepare_key_dir_def create_key_def demo_folder_def not_less)
  have "keys_ok KeysMissing" by (simp add: keys_ok_def)
  from write_key_roundtrip[OF this disjI2, of empty_ring demo_io 1 demo_key "KeysDir demo_folder"] wrote
  show ?thesis by auto
qed

end
