(* ===== verification/Relay_Metadata.thy ===== *)
theory Relay_Metadata
  imports Relay_Keyring
begin

text \<open>
  The identity record of a relay, \<open>relay.json\<close> (\<open>internal/relay/metadata/metadata.go\<close>): its validity,
  the boundaries of key epochs, and the three ways to touch the file. The JSON text of a record is a
  parameter; a time is its nanosecond count.
\<close>

section \<open>The record\<close>

record project =
  pj_prefix :: string
  pj_first_hash :: string

text \<open>A Go map is an association list with distinct keys.\<close>

record key_boundary =
  kb_epoch :: "16 word"
  kb_from :: "(string \<times> 64 word) list"

record relay_doc =
  doc_version :: int
  doc_id :: string
  doc_created_at :: int
  doc_created_by :: string
  doc_projects :: "project list"
  doc_authenticated :: bool
  doc_key_epochs :: "key_boundary list"
  doc_retired :: "string list"

record init_config =
  in_id :: string
  in_created_at :: int
  in_created_by :: string
  in_projects :: "project list"
  in_authenticated :: bool

datatype meta_error =
  ErrRelayAbsent | ErrRelayCorrupt | ErrRelaySymlink | ErrRelayExists | ErrRelayImmutable
| ErrEpochNotForward | MetaRefused | MetaMedium | MetaEncode

definition meta_code :: "meta_error option \<Rightarrow> string" where
  "meta_code err = (case err of
     Some ErrRelaySymlink \<Rightarrow> ''RELAY_META_SYMLINK''
   | Some ErrRelayAbsent \<Rightarrow> ''RELAY_META_ABSENT''
   | Some ErrRelayCorrupt \<Rightarrow> ''RELAY_META_CORRUPT''
   | _ \<Rightarrow> [])"

definition format_version :: int where "format_version = 1"
definition first_key_epoch :: "16 word" where "first_key_epoch = 1"

text \<open>The zero time of Go, in nanoseconds of the Unix epoch.\<close>

definition unset_time :: int where "unset_time = - 62135596800 * 10 ^ 9"

fun projects_valid :: "string list \<Rightarrow> project list \<Rightarrow> bool" where
  "projects_valid seen [] = True"
| "projects_valid seen (p # ps) =
     (if pj_prefix p = [] then False
      else if pj_first_hash p = [] then False
      else if pj_prefix p \<in> set seen then False
      else projects_valid (pj_prefix p # seen) ps)"

definition doc_valid :: "relay_doc \<Rightarrow> bool" where
  "doc_valid d \<longleftrightarrow> doc_version d = format_version \<and> doc_id d \<noteq> [] \<and> peer_id_pattern (doc_created_by d)
     \<and> doc_projects d \<noteq> [] \<and> projects_valid [] (doc_projects d)"

definition init_doc :: "init_config \<Rightarrow> meta_error + relay_doc" where
  "init_doc cfg =
     (let doc = \<lparr>doc_version = format_version, doc_id = in_id cfg, doc_created_at = in_created_at cfg,
                 doc_created_by = in_created_by cfg, doc_projects = in_projects cfg,
                 doc_authenticated = in_authenticated cfg,
                 doc_key_epochs = (if in_authenticated cfg then [\<lparr>kb_epoch = first_key_epoch, kb_from = []\<rparr>] else []),
                 doc_retired = []\<rparr>
      in if in_created_at cfg = unset_time then Inl MetaRefused
         else if \<not> doc_valid doc then Inl MetaRefused
         else Inr doc)"

definition current_key_epoch :: "relay_doc \<Rightarrow> (16 word) option" where
  "current_key_epoch d = (if doc_key_epochs d = [] then None else Some (kb_epoch (last (doc_key_epochs d))))"

definition append_key_epoch :: "16 word \<Rightarrow> (string \<times> 64 word) list \<Rightarrow> relay_doc \<Rightarrow> meta_error + relay_doc" where
  "append_key_epoch epoch froms d =
     (if \<not> doc_authenticated d then Inl MetaRefused
      else case current_key_epoch d of
        None \<Rightarrow> Inl ErrEpochNotForward
      | Some current \<Rightarrow>
          if epoch \<le> current then Inl ErrEpochNotForward
          else if \<not> list_all (\<lambda>(peer, _). peer_id_pattern peer) froms then Inl MetaRefused
          else Inr (d\<lparr>doc_key_epochs := doc_key_epochs d @ [\<lparr>kb_epoch = epoch, kb_from = froms\<rparr>]\<rparr>))"

section \<open>The file\<close>

text \<open>
  What stands under the name of the record: nothing, a link, another object, a file with its text, a
  file that cannot be read, or a path that cannot be inspected.
\<close>

datatype record_file =
  RecordMissing | RecordUnknown | RecordSymlink | RecordOther | RecordUnreadable | RecordText string

record doc_codec =
  dc_encode :: "relay_doc \<Rightarrow> string option"
  dc_decode :: "string \<Rightarrow> relay_doc option"

text \<open>
  The outcomes of the writes: whether the file is created, and, when writing fails, what is there
  afterwards.
\<close>

record doc_io =
  do_create :: bool
  do_write :: "record_file option"

definition read_record :: "doc_codec \<Rightarrow> record_file \<Rightarrow> meta_error + relay_doc" where
  "read_record c f = (case f of
     RecordMissing \<Rightarrow> Inl ErrRelayAbsent
   | RecordUnknown \<Rightarrow> Inl MetaMedium
   | RecordSymlink \<Rightarrow> Inl ErrRelaySymlink
   | RecordOther \<Rightarrow> Inl ErrRelayCorrupt
   | RecordUnreadable \<Rightarrow> Inl MetaMedium
   | RecordText body \<Rightarrow>
       (case dc_decode c body of
          None \<Rightarrow> Inl ErrRelayCorrupt
        | Some d \<Rightarrow> if \<not> doc_valid d then Inl ErrRelayCorrupt else Inr d))"

text \<open>The key epochs are written in their order.\<close>

definition marshal_doc :: "doc_codec \<Rightarrow> relay_doc \<Rightarrow> meta_error + string" where
  "marshal_doc c d =
     (case dc_encode c (d\<lparr>doc_key_epochs := sort_key kb_epoch (doc_key_epochs d)\<rparr>) of
        None \<Rightarrow> Inl MetaEncode
      | Some body \<Rightarrow> Inr (body @ [CHR 0x0A]))"

definition write_record :: "doc_io \<Rightarrow> doc_codec \<Rightarrow> relay_doc \<Rightarrow> record_file \<Rightarrow> (meta_error + unit) \<times> record_file" where
  "write_record io c d f =
     (if \<not> doc_valid d then (Inl MetaRefused, f)
      else case marshal_doc c d of
        Inl err \<Rightarrow> (Inl err, f)
      | Inr body \<Rightarrow>
          if f = RecordUnknown then (Inl MetaMedium, f)
          else if f \<noteq> RecordMissing then (Inl ErrRelayExists, f)
          else if \<not> do_create io then (Inl MetaMedium, f)
          else case do_write io of
            Some left \<Rightarrow> (Inl MetaMedium, left)
          | None \<Rightarrow> (Inr (), RecordText body))"

definition same_boundary :: "key_boundary \<Rightarrow> key_boundary \<Rightarrow> bool" where
  "same_boundary a b \<longleftrightarrow> kb_epoch a = kb_epoch b \<and> length (kb_from a) = length (kb_from b)
     \<and> list_all (\<lambda>(peer, rs). (case map_of (kb_from a) peer of None \<Rightarrow> 0 | Some v \<Rightarrow> v) = rs) (kb_from b)"

definition append_only :: "relay_doc \<Rightarrow> relay_doc \<Rightarrow> bool" where
  "append_only old new \<longleftrightarrow> doc_version new = doc_version old \<and> doc_id new = doc_id old
     \<and> doc_created_at new = doc_created_at old \<and> doc_created_by new = doc_created_by old
     \<and> doc_authenticated new = doc_authenticated old \<and> doc_projects new = doc_projects old
     \<and> length (doc_key_epochs old) \<le> length (doc_key_epochs new)
     \<and> list_all2 same_boundary (take (length (doc_key_epochs old)) (doc_key_epochs new)) (doc_key_epochs old)
     \<and> list_all peer_id_pattern (doc_retired new)"

definition rewrite_record :: "doc_io \<Rightarrow> doc_codec \<Rightarrow> relay_doc \<Rightarrow> record_file \<Rightarrow> (meta_error + unit) \<times> record_file" where
  "rewrite_record io c d f =
     (case read_record c f of
        Inl err \<Rightarrow> (Inl err, f)
      | Inr old \<Rightarrow>
          if \<not> append_only old d then (Inl ErrRelayImmutable, f)
          else case marshal_doc c d of
            Inl err \<Rightarrow> (Inl err, f)
          | Inr body \<Rightarrow>
              (case do_write io of
                 Some left \<Rightarrow> (Inl MetaMedium, left)
               | None \<Rightarrow> (Inr (), RecordText body)))"

section \<open>What reads back\<close>

text \<open>The text of a record reads back as the record.\<close>

definition reads_back :: "doc_codec \<Rightarrow> relay_doc \<Rightarrow> bool" where
  "reads_back c d \<longleftrightarrow> (\<forall>body. dc_encode c d = Some body \<longrightarrow> dc_decode c (body @ [CHR 0x0A]) = Some d)"

definition epochs_ascend :: "relay_doc \<Rightarrow> bool" where
  "epochs_ascend d \<longleftrightarrow> sorted_wrt (<) (map kb_epoch (doc_key_epochs d))"

lemma ascending_sorted: "epochs_ascend d \<Longrightarrow> sort_key kb_epoch (doc_key_epochs d) = doc_key_epochs d"
  by (intro sort_key_id_if_sorted) (simp add: epochs_ascend_def strict_sorted_imp_sorted)

lemma marshal_reads_back:
  assumes "epochs_ascend d" "reads_back c d" "marshal_doc c d = Inr body" "doc_valid d"
  shows "read_record c (RecordText body) = Inr d"
proof -
  have "d\<lparr>doc_key_epochs := sort_key kb_epoch (doc_key_epochs d)\<rparr> = d" using ascending_sorted[OF assms(1)] by simp
  with assms(2-4) show ?thesis
    by (auto simp: marshal_doc_def reads_back_def read_record_def split: option.splits)
qed

lemma same_boundary_refl: "distinct (map fst (kb_from b)) \<Longrightarrow> same_boundary b b"
  by (auto simp: same_boundary_def list_all_iff)

lemma append_key_epoch_ok:
  assumes "append_key_epoch e froms d = Inr d'"
  shows "d' = d\<lparr>doc_key_epochs := doc_key_epochs d @ [\<lparr>kb_epoch = e, kb_from = froms\<rparr>]\<rparr>"
    "doc_valid d \<Longrightarrow> doc_valid d'" "epochs_ascend d \<Longrightarrow> epochs_ascend d'" "current_key_epoch d' = Some e"
proof -
  obtain cur where cur: "current_key_epoch d = Some cur" "cur < e"
    and d': "d' = d\<lparr>doc_key_epochs := doc_key_epochs d @ [\<lparr>kb_epoch = e, kb_from = froms\<rparr>]\<rparr>"
    using assms by (auto simp: append_key_epoch_def not_le split: if_splits option.splits)
  show "d' = d\<lparr>doc_key_epochs := doc_key_epochs d @ [\<lparr>kb_epoch = e, kb_from = froms\<rparr>]\<rparr>" by (rule d')
  show "doc_valid d \<Longrightarrow> doc_valid d'" by (simp add: d' doc_valid_def)
  show "current_key_epoch d' = Some e" by (simp add: d' current_key_epoch_def)
  show "epochs_ascend d'" if asc: "epochs_ascend d"
  proof -
    have ne: "doc_key_epochs d \<noteq> []" "kb_epoch (last (doc_key_epochs d)) = cur"
      using cur(1) by (auto simp: current_key_epoch_def split: if_splits)
    have "sorted (map kb_epoch (doc_key_epochs d))" using asc by (simp add: epochs_ascend_def strict_sorted_imp_sorted)
    from sorted_le_last[OF this] have "kb_epoch b \<le> cur" if "b \<in> set (doc_key_epochs d)" for b
      using that ne by (simp add: last_map)
    with cur(2) asc show ?thesis by (auto simp: epochs_ascend_def d' sorted_wrt_append intro: le_less_trans)
  qed
qed

end
