(* ===== verification/Relay_Lifecycle.thy ===== *)
theory Relay_Lifecycle
  imports Relay_Metadata
begin

text \<open>
  The operator commands of a relay (\<open>internal/relay/lifecycle\<close>): creating a relay, joining one, rotating
  its key, retiring and readmitting a peer. They work on the key directory and the file
  \<open>relay.json\<close>; what is left of both after an error is part of the result.
\<close>

datatype setup_error =
  MetaError meta_error | KeyError key_error | ErrModeMismatch | ErrHistoryDiverged | ErrNoSharedProject
| SetupMalformed | SetupUnauthenticated | SetupLastEpoch | SetupMedium

definition setup_code :: "setup_error option \<Rightarrow> string" where
  "setup_code err = (case err of
     Some ErrModeMismatch \<Rightarrow> ''RELAY_MODE_MISMATCH''
   | Some ErrHistoryDiverged \<Rightarrow> ''RELAY_HISTORY_DIVERGED''
   | Some ErrNoSharedProject \<Rightarrow> ''RELAY_NO_SHARED_PROJECT''
   | _ \<Rightarrow> [])"

fun lift_meta :: "meta_error + 'a \<Rightarrow> setup_error + 'a" where
  "lift_meta (Inl e) = Inl (MetaError e)"
| "lift_meta (Inr x) = Inr x"

fun lift_key :: "key_error + 'a \<Rightarrow> setup_error + 'a" where
  "lift_key (Inl e) = Inl (KeyError e)"
| "lift_key (Inr x) = Inr x"

type_synonym site = "keys_dir \<times> record_file"

section \<open>Creating a relay\<close>

text \<open>The key is written before the record; the epoch is 0 for a relay without authentication.\<close>

definition install_first_key :: "key_io \<Rightarrow> bool \<Rightarrow> reader \<Rightarrow> keys_dir \<Rightarrow> (setup_error + 16 word) \<times> keys_dir" where
  "install_first_key kio auth rand keys =
     (if \<not> auth then (Inr 0, keys)
      else case generate_key rand of
        Inl err \<Rightarrow> (Inl (KeyError err), keys)
      | Inr key \<Rightarrow>
          (case write_key kio first_key_epoch key keys of
             (Inl err, keys') \<Rightarrow> (Inl (KeyError err), keys')
           | (Inr _, keys') \<Rightarrow> (Inr first_key_epoch, keys')))"

definition init_relay ::
  "key_io \<Rightarrow> doc_io \<Rightarrow> doc_codec \<Rightarrow> init_config \<Rightarrow> reader \<Rightarrow> site \<Rightarrow> (setup_error + relay_doc \<times> 16 word) \<times> site" where
  "init_relay kio mio c cfg rand st =
     (case st of (keys, file) \<Rightarrow>
        if file = RecordUnknown then (Inl SetupMedium, st)
        else if file \<noteq> RecordMissing then (Inl (MetaError ErrRelayExists), st)
        else case init_doc cfg of
          Inl err \<Rightarrow> (Inl (MetaError err), st)
        | Inr doc \<Rightarrow>
            (case install_first_key kio (in_authenticated cfg) rand keys of
               (Inl err, keys') \<Rightarrow> (Inl err, keys', file)
             | (Inr epoch, keys') \<Rightarrow>
                 (case write_record mio c doc file of
                    (Inl err, file') \<Rightarrow> (Inl (MetaError err), keys', file')
                  | (Inr _, file') \<Rightarrow> (Inr (doc, epoch), keys', file'))))"

section \<open>Joining a relay\<close>

fun shared_from :: "(string \<Rightarrow> string option) \<Rightarrow> project list \<Rightarrow> string list \<Rightarrow> setup_error + string list" where
  "shared_from by_prefix [] acc = Inr acc"
| "shared_from by_prefix (p # ps) acc =
     (case by_prefix (pj_prefix p) of
        None \<Rightarrow> shared_from by_prefix ps acc
      | Some h \<Rightarrow> if h \<noteq> pj_first_hash p then Inl ErrHistoryDiverged
                  else shared_from by_prefix ps (acc @ [pj_prefix p]))"

definition shared_projects :: "project list \<Rightarrow> project list \<Rightarrow> setup_error + string list" where
  "shared_projects relay local =
     bind_result (shared_from (map_of (rev (map (\<lambda>p. (pj_prefix p, pj_first_hash p)) local))) relay [])
       (\<lambda>shared. if shared = [] then Inl ErrNoSharedProject else Inr (sort_by (\<lambda>a b. a < b) shared))"

definition attach :: "doc_codec \<Rightarrow> project list \<Rightarrow> bool \<Rightarrow> site \<Rightarrow> setup_error + relay_doc \<times> string list \<times> 16 word" where
  "attach c local auth st =
     (case st of (keys, file) \<Rightarrow>
        bind_result (lift_meta (read_record c file)) (\<lambda>doc.
          if doc_authenticated doc \<noteq> auth then Inl ErrModeMismatch
          else bind_result (shared_projects (doc_projects doc) local) (\<lambda>shared.
            if \<not> doc_authenticated doc then Inr (doc, shared, 0)
            else case current_key_epoch doc of
              None \<Rightarrow> Inl (MetaError ErrRelayCorrupt)
            | Some epoch \<Rightarrow>
                bind_result (lift_key (load_ring keys)) (\<lambda>ring.
                  bind_result (lift_key (ring_for ring epoch)) (\<lambda>_. Inr (doc, shared, epoch))))))"

section \<open>Rotating the key\<close>

definition ensure_epoch_key :: "key_io \<Rightarrow> 16 word \<Rightarrow> reader \<Rightarrow> keys_dir \<Rightarrow> (setup_error + unit) \<times> keys_dir" where
  "ensure_epoch_key kio epoch rand keys =
     (let install = (case generate_key rand of
            Inl err \<Rightarrow> (Inl (KeyError err), keys)
          | Inr key \<Rightarrow> (case write_key kio epoch key keys of (res, keys') \<Rightarrow> (lift_key res, keys')))
      in case load_ring keys of
           Inr ring \<Rightarrow> (case ring_for ring epoch of Inr _ \<Rightarrow> (Inr (), keys) | Inl _ \<Rightarrow> install)
         | Inl err \<Rightarrow> if err \<noteq> ErrKeyAbsent then (Inl (KeyError err), keys) else install)"

definition rotate_key ::
  "key_io \<Rightarrow> doc_io \<Rightarrow> doc_codec \<Rightarrow> (string \<times> 64 word) list \<Rightarrow> reader \<Rightarrow> site \<Rightarrow> (setup_error + relay_doc \<times> 16 word) \<times> site" where
  "rotate_key kio mio c froms rand st =
     (case st of (keys, file) \<Rightarrow>
        case read_record c file of
          Inl err \<Rightarrow> (Inl (MetaError err), st)
        | Inr doc \<Rightarrow>
            if \<not> doc_authenticated doc then (Inl SetupUnauthenticated, st)
            else case current_key_epoch doc of
              None \<Rightarrow> (Inl (MetaError ErrRelayCorrupt), st)
            | Some current \<Rightarrow>
                if current + 1 < current then (Inl SetupLastEpoch, st)
                else case ensure_epoch_key kio (current + 1) rand keys of
                  (Inl err, keys') \<Rightarrow> (Inl err, keys', file)
                | (Inr _, keys') \<Rightarrow>
                    (case append_key_epoch (current + 1) froms doc of
                       Inl err \<Rightarrow> (Inl (MetaError err), keys', file)
                     | Inr doc' \<Rightarrow>
                         (case rewrite_record mio c doc' file of
                            (Inl err, file') \<Rightarrow> (Inl (MetaError err), keys', file')
                          | (Inr _, file') \<Rightarrow> (Inr (doc', current + 1), keys', file'))))"

section \<open>Retiring a peer\<close>

definition retire_peer :: "doc_io \<Rightarrow> doc_codec \<Rightarrow> string \<Rightarrow> record_file \<Rightarrow> (setup_error + unit) \<times> record_file" where
  "retire_peer mio c peer file =
     (if \<not> peer_id_pattern peer then (Inl SetupMalformed, file)
      else case read_record c file of
        Inl err \<Rightarrow> (Inl (MetaError err), file)
      | Inr doc \<Rightarrow>
          if peer \<in> set (doc_retired doc) then (Inr (), file)
          else case rewrite_record mio c (doc\<lparr>doc_retired := doc_retired doc @ [peer]\<rparr>) file of
            (res, file') \<Rightarrow> (lift_meta res, file'))"

definition rejoin_peer :: "doc_io \<Rightarrow> doc_codec \<Rightarrow> string \<Rightarrow> record_file \<Rightarrow> (setup_error + unit) \<times> record_file" where
  "rejoin_peer mio c peer file =
     (if \<not> peer_id_pattern peer then (Inl SetupMalformed, file)
      else case read_record c file of
        Inl err \<Rightarrow> (Inl (MetaError err), file)
      | Inr doc \<Rightarrow>
          (let kept = filter (\<lambda>p. p \<noteq> peer) (doc_retired doc)
           in if length kept = length (doc_retired doc) then (Inr (), file)
              else case rewrite_record mio c (doc\<lparr>doc_retired := kept\<rparr>) file of
                (res, file') \<Rightarrow> (lift_meta res, file')))"

definition retired_set :: "relay_doc option \<Rightarrow> string \<Rightarrow> bool" where
  "retired_set doc p = (case doc of None \<Rightarrow> False | Some d \<Rightarrow> p \<in> set (doc_retired d))"

section \<open>A join\<close>

lemma shared_from_exact:
  "shared_from m ps acc = Inr out \<longleftrightarrow>
     (\<forall>p \<in> set ps. \<forall>h. m (pj_prefix p) = Some h \<longrightarrow> h = pj_first_hash p)
     \<and> out = acc @ map pj_prefix (filter (\<lambda>p. m (pj_prefix p) \<noteq> None) ps)"
  by (induction m ps acc rule: shared_from.induct) (auto split: option.splits)

lemma lift_meta_Inr: "lift_meta r = Inr x \<longleftrightarrow> r = Inr x"
  by (cases r) simp_all

lemma lift_key_Inr: "lift_key r = Inr x \<longleftrightarrow> r = Inr x"
  by (cases r) simp_all

definition local_hash :: "project list \<Rightarrow> string \<Rightarrow> string option" where
  "local_hash local = map_of (rev (map (\<lambda>p. (pj_prefix p, pj_first_hash p)) local))"

lemma shared_projects_exact:
  "shared_projects ps local = Inr shared \<longleftrightarrow>
     (\<forall>p \<in> set ps. \<forall>h. local_hash local (pj_prefix p) = Some h \<longrightarrow> h = pj_first_hash p)
     \<and> (\<exists>p \<in> set ps. local_hash local (pj_prefix p) \<noteq> None)
     \<and> shared = sort_by (\<lambda>a b. a < b) (map pj_prefix (filter (\<lambda>p. local_hash local (pj_prefix p) \<noteq> None) ps))"
  unfolding shared_projects_def local_hash_def[symmetric]
  by (auto simp: bind_result_Inr shared_from_exact filter_empty_conv split: if_splits)

lemma attach_steps:
  "attach c local auth (keys, file) = Inr (doc, shared, epoch) \<longleftrightarrow>
     read_record c file = Inr doc \<and> doc_authenticated doc = auth \<and> shared_projects (doc_projects doc) local = Inr shared
     \<and> (if auth then current_key_epoch doc = Some epoch
          \<and> (\<exists>ring key. load_ring keys = Inr ring \<and> ring_for ring epoch = Inr key) else epoch = 0)"
proof (cases "read_record c file")
  case (Inr d)
  show ?thesis
    by (cases "current_key_epoch d"; cases "load_ring keys"; cases "shared_projects (doc_projects d) local")
      (auto simp: attach_def Inr bind_result_Inr lift_key_Inr)
qed (simp add: attach_def)

text \<open>
  C22. A peer joins exactly when the record is readable, the modes agree, at least one project is shared,
  every shared project has the same first event, and, with authentication, the key of the current epoch
  can be loaded; it learns the shared prefixes in order and the epoch.
\<close>

theorem attach_exact:
  "attach c local auth (keys, file) = Inr (doc, shared, epoch) \<longleftrightarrow>
     read_record c file = Inr doc \<and> doc_authenticated doc = auth
     \<and> (\<forall>p \<in> set (doc_projects doc). \<forall>h. local_hash local (pj_prefix p) = Some h \<longrightarrow> h = pj_first_hash p)
     \<and> (\<exists>p \<in> set (doc_projects doc). local_hash local (pj_prefix p) \<noteq> None)
     \<and> shared = sort_by (\<lambda>a b. a < b) (map pj_prefix (filter (\<lambda>p. local_hash local (pj_prefix p) \<noteq> None) (doc_projects doc)))
     \<and> (if auth then current_key_epoch doc = Some epoch
          \<and> (\<exists>ring key. load_ring keys = Inr ring \<and> ring_for ring epoch = Inr key) else epoch = 0)"
  unfolding attach_steps shared_projects_exact by blast

section \<open>A rotation\<close>

lemma loaded_for: "loaded keys e = Some k \<longleftrightarrow> (\<exists>ring. load_ring keys = Inr ring \<and> ring_for ring e = Inr k)"
  by (auto simp: loaded_def ring_for_def split: sum.splits option.splits)

lemma ensure_epoch_key_ok:
  assumes "keys_ok keys" "ensure_epoch_key kio e rand keys = (Inr (), keys')"
  shows "\<exists>k. loaded keys' e = Some k" "loaded keys e' = Some k' \<Longrightarrow> loaded keys' e' = Some k'" "keys_ok keys'"
proof -
  have "(\<exists>k. loaded keys' e = Some k) \<and> (\<forall>e' k'. loaded keys e' = Some k' \<longrightarrow> loaded keys' e' = Some k') \<and> keys_ok keys'"
  proof (cases "\<exists>k. loaded keys e = Some k")
    case True
    then have "keys' = keys" using assms(2) by (auto simp: loaded_for ensure_epoch_key_def)
    with True assms(1) show ?thesis by blast
  next
    case False
    then have "(\<exists>r. load_ring keys = Inr r) \<or> load_ring keys = Inl ErrKeyAbsent"
      using assms(2) by (auto simp: ensure_epoch_key_def Let_def split: sum.splits if_splits)
    moreover obtain key where "write_key kio e key keys = (Inr (), keys')"
      using assms(2) False
      by (auto simp: ensure_epoch_key_def Let_def loaded_for lift_key_Inr split: sum.splits if_splits prod.splits)
    ultimately show ?thesis using write_key_adds[OF assms(1)] by fastforce
  qed
  then show "\<exists>k. loaded keys' e = Some k" "loaded keys e' = Some k' \<Longrightarrow> loaded keys' e' = Some k'" "keys_ok keys'" by blast+
qed

lemma ensure_epoch_key_again: "loaded keys e = Some k \<Longrightarrow> ensure_epoch_key kio e rand keys = (Inr (), keys)"
  by (auto simp: loaded_for ensure_epoch_key_def)

text \<open>How far a rotation gets once its key is installed.\<close>

lemma rotate_key_steps:
  assumes "read_record c file = Inr doc" "rotate_key kio mio c froms rand (keys, file) = (res, keys', file')"
    and "(\<exists>out. res = Inr out) \<or> res = Inl (MetaError MetaMedium)"
  shows "\<exists>cur doc' wr. doc_authenticated doc \<and> current_key_epoch doc = Some cur \<and> \<not> cur + 1 < cur
    \<and> ensure_epoch_key kio (cur + 1) rand keys = (Inr (), keys') \<and> append_key_epoch (cur + 1) froms doc = Inr doc'
    \<and> rewrite_record mio c doc' file = (wr, file')
    \<and> res = (case wr of Inl err \<Rightarrow> Inl (MetaError err) | Inr _ \<Rightarrow> Inr (doc', cur + 1))"
proof -
  have keyless: "ensure_epoch_key kio e rand keys \<noteq> (Inl (MetaError err), keys2)" for e err keys2
    by (auto simp: ensure_epoch_key_def Let_def split: sum.splits prod.splits if_splits elim: lift_key.elims)
  have appended: "append_key_epoch e froms doc \<noteq> Inl MetaMedium" for e
    by (auto simp: append_key_epoch_def split: option.splits)
  show ?thesis
    using assms keyless appended
    by (auto simp: rotate_key_def split: if_splits option.splits sum.splits prod.splits)
qed



section \<open>An interrupted creation\<close>

text \<open>
  C23. When the record of a new authenticated relay cannot be written, its first key stays behind, and
  every later attempt to create the relay is refused because that key exists.
\<close>

theorem init_retry_refused:
  assumes "keys_ok keys" "load_ring keys = Inl ErrKeyAbsent" "in_authenticated cfg"
    and "init_relay kio mio c cfg rand (keys, RecordMissing) = (Inl (MetaError MetaMedium), keys1, RecordMissing)"
    and "ko_chmod kio'" "generate_key rand' = Inr key'"
  shows "fst (init_relay kio' mio' c cfg rand' (keys1, RecordMissing)) = Inl (KeyError ErrKeyExists)
    \<and> snd (snd (init_relay kio' mio' c cfg rand' (keys1, RecordMissing))) = RecordMissing"
proof -
  have "init_doc cfg \<noteq> Inl MetaMedium" by (auto simp: init_doc_def Let_def)
  then obtain doc key where doc: "init_doc cfg = Inr doc" "write_key kio first_key_epoch key keys = (Inr (), keys1)"
    using assms(3,4) by (auto simp: init_relay_def install_first_key_def split: sum.splits prod.splits)
  obtain f where "keys1 = KeysDir f" "epoch_name first_key_epoch \<in> fst ` set (kf_entries f)"
    using write_key_adds(5)[OF assms(1) disjI2[OF assms(2)] doc(2)] by blast
  from write_key_held[OF this _ assms(5), of key'] generated_length[OF assms(6)]
  show ?thesis using assms(3,6) doc(1) by (simp add: init_relay_def install_first_key_def)
qed

section \<open>A relay with one key\<close>

definition demo_doc :: relay_doc where
  "demo_doc = \<lparr>doc_version = 1, doc_id = ''r'', doc_created_at = 0, doc_created_by = ''0123456789abcdef'',
     doc_projects = [\<lparr>pj_prefix = ''P'', pj_first_hash = ''h''\<rparr>], doc_authenticated = True,
     doc_key_epochs = [\<lparr>kb_epoch = 1, kb_from = []\<rparr>], doc_retired = []\<rparr>"

definition demo_rotated :: relay_doc where
  "demo_rotated = demo_doc\<lparr>doc_key_epochs := [\<lparr>kb_epoch = 1, kb_from = []\<rparr>, \<lparr>kb_epoch = 2, kb_from = [(''0123456789abcdef'', 7)]\<rparr>]\<rparr>"

definition demo_doc_codec :: doc_codec where
  "demo_doc_codec = \<lparr>dc_encode = (\<lambda>d. if d = demo_doc then Some ''1'' else if d = demo_rotated then Some ''2'' else None),
     dc_decode = (\<lambda>b. if b = ''1'' @ [CHR 0x0A] then Some demo_doc else if b = ''2'' @ [CHR 0x0A] then Some demo_rotated else None)\<rparr>"

definition demo_file :: record_file where "demo_file = RecordText (''1'' @ [CHR 0x0A])"

definition demo_rand :: reader where "demo_rand = \<lparr>rd_pending = replicate 32 CHR ''z'', rd_fails = False\<rparr>"

definition demo_config :: init_config where
  "demo_config = \<lparr>in_id = ''r'', in_created_at = 0, in_created_by = ''0123456789abcdef'',
     in_projects = [\<lparr>pj_prefix = ''P'', pj_first_hash = ''h''\<rparr>], in_authenticated = True\<rparr>"

lemma demo_creator: "peer_id_pattern ''0123456789abcdef''"
  by code_simp

lemma demo_read: "read_record demo_doc_codec demo_file = Inr demo_doc"
  using demo_creator
  by (simp add: read_record_def demo_file_def demo_doc_codec_def doc_valid_def demo_doc_def format_version_def)

lemma demo_reads_back: "reads_back demo_doc_codec demo_rotated"
  by (auto simp: reads_back_def demo_doc_codec_def demo_rotated_def demo_doc_def)

lemma demo_ascends: "epochs_ascend demo_doc"
  by (simp add: epochs_ascend_def demo_doc_def)

lemma demo_generate: "generate_key demo_rand = Inr (replicate 32 CHR ''z'')"
  by (simp add: generate_key_def read_full_def demo_rand_def min_key_bytes_def)

lemma demo_installs: "\<exists>keys. ensure_epoch_key demo_io 2 demo_rand (KeysDir demo_folder) = (Inr (), keys)"
proof -
  obtain r where r: "load_ring (KeysDir demo_folder) = Inr r" "rg_keys r = [1 \<mapsto> demo_key]" using demo_ring by blast
  have "epoch_name 2 \<notin> fst ` set (kf_entries demo_folder)"
    by (simp add: demo_folder_def add_entry_def epoch_name_def dec_nat.simps digit_char_def)
  then have "\<exists>keys. write_key demo_io 2 (replicate 32 CHR ''z'') (KeysDir demo_folder) = (Inr (), keys)"
    by (simp add: write_key_def demo_io_def prepare_key_dir_def create_key_def min_key_bytes_def)
  with r demo_generate show ?thesis by (auto simp: ensure_epoch_key_def ring_for_def)
qed

lemma demo_appends: "append_key_epoch 2 [(''0123456789abcdef'', 7)] demo_doc = Inr demo_rotated"
  using demo_creator by (simp add: word_le_nat_alt append_key_epoch_def current_key_epoch_def demo_rotated_def demo_doc_def)

lemma demo_marshals: "marshal_doc demo_doc_codec demo_rotated = Inr (''2'' @ [CHR 0x0A])" "append_only demo_doc demo_rotated"
  by (simp_all add: marshal_doc_def demo_doc_codec_def demo_rotated_def demo_doc_def append_only_def same_boundary_def)

lemma demo_rotates:
  obtains keys' where "rotate_key demo_io mio demo_doc_codec [(''0123456789abcdef'', 7)] demo_rand (KeysDir demo_folder, demo_file)
    = (case do_write mio of None \<Rightarrow> (Inr (demo_rotated, 2), keys', RecordText (''2'' @ [CHR 0x0A]))
       | Some left \<Rightarrow> (Inl (MetaError MetaMedium), keys', left))"
proof -
  obtain keys' where "ensure_epoch_key demo_io 2 demo_rand (KeysDir demo_folder) = (Inr (), keys')" using demo_installs by blast
  moreover have "current_key_epoch demo_doc = Some 1" "doc_authenticated demo_doc"
    by (simp_all add: current_key_epoch_def demo_doc_def)
  ultimately show thesis
    using demo_read demo_appends demo_marshals
    by (intro that[of keys']) (auto simp: rotate_key_def rewrite_record_def split: option.splits)
qed



theorem init_retry_refused_witness:
  "\<exists>keys. init_relay demo_io \<lparr>do_create = False, do_write = None\<rparr> demo_doc_codec demo_config demo_rand (KeysMissing, RecordMissing)
      = (Inl (MetaError MetaMedium), keys, RecordMissing)
    \<and> fst (init_relay demo_io \<lparr>do_create = True, do_write = None\<rparr> demo_doc_codec demo_config demo_rand (keys, RecordMissing))
      = Inl (KeyError ErrKeyExists)"
proof -
  have doc: "init_doc demo_config = Inr demo_doc"
    using demo_creator
    by (simp add: init_doc_def demo_config_def demo_doc_def doc_valid_def format_version_def first_key_epoch_def unset_time_def)
  have valid: "doc_valid demo_doc" using demo_read by (auto simp: read_record_def split: record_file.splits option.splits if_splits)
  have marshal: "marshal_doc demo_doc_codec demo_doc = Inr (''1'' @ [CHR 0x0A])"
    by (simp add: marshal_doc_def demo_doc_codec_def demo_doc_def)
  obtain keys where "write_key demo_io first_key_epoch (replicate 32 CHR ''z'') KeysMissing = (Inr (), keys)"
    by (auto simp: write_key_def demo_io_def prepare_key_dir_def create_key_def min_key_bytes_def)
  then have first: "init_relay demo_io \<lparr>do_create = False, do_write = None\<rparr> demo_doc_codec demo_config demo_rand (KeysMissing, RecordMissing)
      = (Inl (MetaError MetaMedium), keys, RecordMissing)"
    using doc demo_generate valid marshal
    by (simp add: init_relay_def install_first_key_def write_record_def demo_config_def)
  have "keys_ok KeysMissing" "load_ring KeysMissing = Inl ErrKeyAbsent" "in_authenticated demo_config" "ko_chmod demo_io"
    by (simp_all add: keys_ok_def load_ring_def check_key_dir_def demo_config_def demo_io_def)
  from init_retry_refused[OF this(1-3) first this(4) demo_generate] first show ?thesis by blast
qed

theorem attach_exact_witness:
  "attach demo_doc_codec [\<lparr>pj_prefix = ''P'', pj_first_hash = ''h''\<rparr>] True (KeysDir demo_folder, demo_file) = Inr (demo_doc, [''P''], 1)"
proof -
  obtain r where "load_ring (KeysDir demo_folder) = Inr r" "ring_for r 1 = Inr demo_key"
    using demo_ring by (auto simp: ring_for_def)
  then show ?thesis
    unfolding attach_exact using demo_read
    by (simp add: demo_doc_def local_hash_def current_key_epoch_def sort_by_def)
qed

section \<open>The roster\<close>

text \<open>
  Retiring a peer and readmitting it gives the roster back, and nothing else of the record changes; both
  can be repeated.
\<close>

lemma rewrite_retired:
  assumes "read_record c file = Inr doc" "doc' = doc\<lparr>doc_retired := ps\<rparr>" "list_all peer_id_pattern ps" "epochs_ascend doc"
    and "\<forall>b \<in> set (doc_key_epochs doc). distinct (map fst (kb_from b))"
    and "reads_back c doc'" "dc_encode c doc' \<noteq> None" "do_write mio = None"
  shows "\<exists>file'. rewrite_record mio c doc' file = (Inr (), file') \<and> read_record c file' = Inr doc'"
proof -
  have asc: "epochs_ascend doc'" using assms(2,4) by (simp add: epochs_ascend_def)
  have valid: "doc_valid doc'"
    using assms(1,2) by (auto simp: read_record_def doc_valid_def split: record_file.splits option.splits if_splits)
  have "dc_encode c (doc'\<lparr>doc_key_epochs := sort_key kb_epoch (doc_key_epochs doc')\<rparr>) \<noteq> None"
    using assms(7) ascending_sorted[OF asc] by simp
  then obtain body where body: "marshal_doc c doc' = Inr body" by (auto simp: marshal_doc_def)
  have "append_only doc doc'"
    using assms(2,3,5) same_boundary_refl by (simp add: append_only_def list_all2_same)
  then have "rewrite_record mio c doc' file = (Inr (), RecordText body)"
    using assms(1,8) body by (simp add: rewrite_record_def)
  with marshal_reads_back[OF asc assms(6) body valid] show ?thesis by blast
qed

theorem retire_rejoin_roundtrip:
  assumes "read_record c file = Inr doc" "epochs_ascend doc" "\<forall>b \<in> set (doc_key_epochs doc). distinct (map fst (kb_from b))"
    and "\<forall>ps. reads_back c (doc\<lparr>doc_retired := ps\<rparr>) \<and> dc_encode c (doc\<lparr>doc_retired := ps\<rparr>) \<noteq> None"
    and "list_all peer_id_pattern (doc_retired doc)" "peer_id_pattern peer" "peer \<notin> set (doc_retired doc)"
    and "do_write mio = None" "do_write mio' = None"
  shows "\<exists>file1 file2. retire_peer mio c peer file = (Inr (), file1)
    \<and> read_record c file1 = Inr (doc\<lparr>doc_retired := doc_retired doc @ [peer]\<rparr>)
    \<and> retire_peer mio' c peer file1 = (Inr (), file1)
    \<and> rejoin_peer mio' c peer file1 = (Inr (), file2) \<and> read_record c file2 = Inr doc
    \<and> rejoin_peer mio c peer file2 = (Inr (), file2)"
proof -
  let ?doc1 = "doc\<lparr>doc_retired := doc_retired doc @ [peer]\<rparr>"
  obtain file1 where one: "rewrite_record mio c ?doc1 file = (Inr (), file1)" "read_record c file1 = Inr ?doc1"
    using rewrite_retired[OF assms(1) refl _ assms(2,3), of "doc_retired doc @ [peer]"] assms(4-6,8) by auto
  have others: "filter (\<lambda>p. p \<noteq> peer) (doc_retired doc) = doc_retired doc"
    using assms(7) by (auto simp: filter_id_conv)
  have same: "doc\<lparr>doc_retired := doc_retired doc\<rparr> = doc" by simp
  obtain file2 where two: "rewrite_record mio' c doc file1 = (Inr (), file2)" "read_record c file2 = Inr doc"
    using rewrite_retired[OF one(2), of doc "doc_retired doc" mio'] assms(2,3,5,9) assms(4)[THEN spec, of "doc_retired doc"]
    by (auto simp: epochs_ascend_def)
  have "retire_peer mio c peer file = (Inr (), file1)" using assms(1,6,7) one(1) by (simp add: retire_peer_def)
  moreover have "retire_peer mio' c peer file1 = (Inr (), file1)" using assms(6) one(2) by (simp add: retire_peer_def)
  moreover have "rejoin_peer mio' c peer file1 = (Inr (), file2)" using assms(6) one(2) two(1) others by (simp add: rejoin_peer_def)
  moreover have "rejoin_peer mio c peer file2 = (Inr (), file2)" using assms(6) two(2) others by (simp add: rejoin_peer_def)
  ultimately show ?thesis using one(2) two(2) by blast
qed

text \<open>
  The comparison of two boundaries reads an absent peer as position 0: a boundary at 0 can be replaced by
  one that names another peer.
\<close>

theorem boundary_can_move:
  "p \<noteq> q \<Longrightarrow> same_boundary \<lparr>kb_epoch = e, kb_from = [(q, rs)]\<rparr> \<lparr>kb_epoch = e, kb_from = [(p, 0)]\<rparr>"
  by (simp add: same_boundary_def)

end
