(* ===== verification/Spec2Isabelle.thy ===== *)
theory Spec2Isabelle
  imports Node_Ids Vector_Clock State_Machine Task_History Blocking Transitions Cascades Deferral Creation Deletion Updates Commands Comments
    Relay_Gap Relay_Retention Relay_Lifecycle
begin

text \<open>
  mtix: a local-first, hierarchical task tracker for coding agents. This development models the
  core of the Go program: the domain model (\<open>internal/model\<close>), the SQLite store with every write
  operation on tasks (\<open>internal/store/sqlite\<close>), the path by which a replica applies the events of
  other replicas, and the file relay (\<open>internal/relay\<close>) that carries them over a shared directory.

  \<^bold>\<open>The program.\<close> Tasks are rows of a SQLite table, named by a dot-notation path
  (\<open>PROJ-1.2.3\<close>) and ordered under their parents. A task has a status, which moves along a fixed
  state machine, and a progress, the weighted average of its children. Every write runs in one
  transaction: it validates the request, changes rows, rolls progress up the ancestors, emits a
  sync event with a Lamport time and a vector clock into the log, and records what changed in the
  task history. Replicas exchange the log; an arriving event is applied by the same code whatever
  the transport, and workflow conflicts are resolved by a total order on events.

  \<^bold>\<open>Theories.\<close>
  \<^item> \<open>Prelude\<close>: results, Go strings as byte lists, decimal text, wrapping integers, sorting by a
    comparison (locale \<open>strict_total\<close>).
  \<^item> \<open>Model_Types\<close>, \<open>State_Machine\<close>, \<open>Node_Ids\<close>, \<open>Vector_Clock\<close>, \<open>Sync_Event\<close>: the files of
    \<open>internal/model\<close>. Records and enumerations carry the source's fields and constructors; the
    transition table is \<open>valid_transitions\<close>; ids are built by \<open>build_id\<close> and read by the
    \<open>parse_id_*\<close> functions; a vector clock is an association list with distinct keys.
  \<^item> \<open>Store_Db\<close>: the tables of \<open>schema.go\<close> as the record \<open>db\<close>, the outside world as \<open>env\<close>. A
    write transaction is a function \<open>db \<Rightarrow> db result\<close>; an error means rollback.
  \<^item> \<open>Event_Log\<close> (\<open>sync_emit.go\<close>), \<open>Task_History\<close> (\<open>task_history*.go\<close>), \<open>Progress\<close>
    (\<open>progress.go\<close>): what every write does besides its own rows.
  \<^item> \<open>Store_Invariant\<close>: the store invariant \<open>store_ok\<close>, the per-row relation along the state
    machine, and one lemma per primitive that keeps both.
  \<^item> \<open>Blocking\<close> (\<open>dependency*.go\<close>, \<open>refresh_blocked.go\<close>), \<open>Transitions\<close> (\<open>transition*.go\<close>,
    \<open>claim.go\<close>, \<open>cancel.go\<close>, \<open>defer.go\<close>), \<open>Cascades\<close>, \<open>Deferral\<close>, \<open>Creation\<close>
    (\<open>node_create.go\<close>, \<open>node_allocate.go\<close>, \<open>sequence_*.go\<close>), \<open>Deletion\<close> (\<open>node_delete.go\<close>),
    \<open>Updates\<close> (\<open>node_update.go\<close>): the operations of the store, each with its functional
    behaviour on every branch and its errors.
  \<^item> \<open>Commands\<close>: the write operations as one type \<open>command\<close>, run in transactions (\<open>with_tx\<close>),
    and sessions of them. The invariant, the append-only log and the permanence of rows hold after
    any session, and a session refines an abstract board of statuses.
  \<^item> \<open>Sync_Winner\<close>, \<open>Sync_Apply\<close>, \<open>Convergence\<close>, \<open>Comments\<close> (\<open>sync_apply*.go\<close>,
    \<open>sync_workflow_*.go\<close>, \<open>annotation_payload.go\<close>): applying received events, and what replicas
    that apply the same events agree on.
  \<^item> \<open>Sync_Validator\<close> (\<open>internal/sync/validator\<close>): the gates on an event at push and at ingest.

  \<^bold>\<open>The relay.\<close> A publisher appends its journal as authenticated records to numbered segment files
  in its peer directory; readers poll the directory, remember a position per peer, and hand every
  record past it to the gate and the apply path.
  \<^item> \<open>Relay_Checksums\<close>: big-endian fields, CRC32C, SHA-256 and HMAC, computed on bytes.
  \<^item> \<open>Relay_Format\<close> (\<open>segment/errors.go\<close>, \<open>naming.go\<close>, \<open>format.go\<close>, \<open>lifecycle.go\<close>), \<open>Relay_Scan\<close>
    (\<open>reader.go\<close>, \<open>walk.go\<close>): names, the header and the record frame, the scanner with its stop rules.
  \<^item> \<open>Relay_Stream\<close>: which bytes are a segment; a sealed segment is accepted iff it is one, and a cut
    of an active segment gives the frames before the cut.
  \<^item> \<open>Relay_Writer\<close> (\<open>writer.go\<close>), \<open>Relay_Publisher\<close> (\<open>publisher/*.go\<close>, \<open>tick.go\<close>): start, append,
    rotation and failure of the writer; publishing, the tail check, banking, resets, republishing.
  \<^item> \<open>Relay_Store\<close> (\<open>relay_cursor.go\<close>), \<open>Relay_Ingest\<close> (\<open>ingest/*.go\<close>): the stored positions, and the
    poll of one peer and of all peers.
  \<^item> \<open>Relay_Delivery\<close>, \<open>Relay_Exchange\<close>, \<open>Relay_Poll\<close>: what a poll of a list of segments hands over,
    the stream invariant of the writer, and polls of any view a reader may have of a stream.
  \<^item> \<open>Relay_Run\<close>: the relation \<open>relay_step\<close> interleaves journal growth, publications, restarts, other
    work of the reader and polls of any view of the medium (files not there yet, the last one cut
    anywhere). It is simulated by \<open>exchange_step\<close>: a list of published events and the number handed
    over. \<open>Relay_Laws\<close> states exactly-once delivery and catching up.
  \<^item> \<open>Relay_Hazards\<close>, \<open>Relay_Gap\<close>: the failures outside that relation: a crash between append and
    cursor, a torn write, a segment that arrives after its successors.
  \<^item> \<open>Relay_Retention\<close> (\<open>retention/*.go\<close>, \<open>lifecycle/retire.go\<close>): the prune plan, silent peers, acks,
    retirement.

  \<^bold>\<open>Interfaces.\<close> \<open>strict_total\<close> (the order behind every last-writer-wins rule, interpreted on the
  workflow key order), \<open>command_relation\<close> and \<open>write_frame\<close> (a relation or a frame that every
  command keeps, interpreted on the event log, the task rows and the status machine).

  \<^bold>\<open>Bounds and fuel.\<close> The walk to the root and the cycle search recurse on fuel: the walk on the
  length of the id, which shrinks at each step, the search on the number of nodes and edges. The
  theorems show that enough fuel is given. Sequence numbers are within int32 and Lamport times
  within int64, as in the code. Relay numbers, positions and epochs are words of their width; the
  theorems on whole streams assume fewer than \<open>2\<^sup>6\<^sup>3 - 1\<close> records and segments (the cursor columns are
  int64) and segments within the 64 MiB a reader reads.

  \<^bold>\<open>Modelling decisions.\<close> A Go string is the list of its bytes. A time is its nanosecond count in the
  environment and its second count in a row; a transaction reads one time. Progress and weight are
  rationals. NULL text is the empty text where the code does not tell them apart. Event ids and
  node uids come from the environment. A payload is its decoded value. \<open>validateAgentID\<close> and uuid
  parsing are parameters. The medium is the list of its files with a script that gives the outcome
  of each create, write, sync and close, so that every failure of the writer is a branch. The JSON codec of
  events and of ack files is a parameter: nothing is assumed of it but, for delivery, that
  what the publisher encodes decodes to the event. Keys are byte strings by epoch; HMAC and CRC are
  the real functions, so no assumption on forgery is made or needed. The journal position of an
  event is its place in the event table. Log lines and counters that nothing reads are left out.

  \<^bold>\<open>Not modelled.\<close> The command line and the servers (argument parsing, output, HTTP, gRPC, MCP),
  the PostgreSQL hub (SQL on a remote server), hooks (processes), attachments and document
  generation (files and text), content hashes, schema migrations, and the read-only listing
  queries. Of the relay: creating and attaching a relay, its JSON document, key files and bootstrap
  copies (\<open>lifecycle.go\<close>, \<open>metadata\<close>, \<open>keyring\<close>, \<open>bootstrap\<close>: files and key generation), deletion of
  pruned files, and the wiring of ticks in the command line.
\<close>

end
